(* ===== verification/Vot_Prelude.thy ===== *)
theory Vot_Prelude
  imports Main "HOL-Library.Word"
begin

text \<open>
  The prelude of the development: the names of the types the components share
  (bytes, byte strings, results), Rust's checked, saturating and wrapping
  arithmetic on unsigned 64-bit integers, the fixed-width little- and big-endian
  byte encodings with their round trips, and the two contracts several components
  meet: a state machine with an inductive invariant and a measure that every step
  respects (\<open>machine\<close>, \<open>monotone_machine\<close>), and a self-delimiting byte encoding
  (\<open>prefix_codec\<close>).

  An unsigned machine integer that is only counted, added or compared is a
  \<^typ>\<open>nat\<close>; every place where the source adds with a check, saturates or may
  wrap says so with the operations below. \<open>usize\<close> is 64 bits wide: the model is
  that of a 64-bit target.
\<close>

named_theorems arith_defs \<open>unfolding Rust's integer operations\<close>
named_theorems codec_simps \<open>computing with encoders and decoders\<close>

section \<open>Types and results\<close>

type_synonym byte = "8 word"
type_synonym bytes = "8 word list"

text \<open>\<open>Result<T, E>\<close> is a sum with the error on the left; \<open>?\<close> is \<open>and_then\<close>.\<close>

definition and_then :: "'e + 'a \<Rightarrow> ('a \<Rightarrow> 'e + 'b) \<Rightarrow> 'e + 'b" where
  "and_then r f = (case r of Inl e \<Rightarrow> Inl e | Inr x \<Rightarrow> f x)"

definition map_err :: "('e \<Rightarrow> 'f) \<Rightarrow> 'e + 'a \<Rightarrow> 'f + 'a" where
  "map_err g r = (case r of Inl e \<Rightarrow> Inl (g e) | Inr x \<Rightarrow> Inr x)"

definition ok_or :: "'a option \<Rightarrow> 'e \<Rightarrow> 'e + 'a" where
  "ok_or v e = (case v of None \<Rightarrow> Inl e | Some x \<Rightarrow> Inr x)"

definition is_some_and :: "'a option \<Rightarrow> ('a \<Rightarrow> bool) \<Rightarrow> bool" where
  "is_some_and v p = (case v of None \<Rightarrow> False | Some x \<Rightarrow> p x)"

lemma and_then_simps [simp]:
  "and_then (Inl e) f = Inl e"
  "and_then (Inr x) f = f x"
  by (simp_all add: and_then_def)

lemma and_then_cong [fundef_cong]:
  "r = r' \<Longrightarrow> (\<And>x. r' = Inr x \<Longrightarrow> f x = f' x) \<Longrightarrow> and_then r f = and_then r' f'"
  by (cases r') (simp_all add: and_then_def)

lemma and_then_eq_Inr [simp]:
  "and_then r f = Inr y \<longleftrightarrow> (\<exists>x. r = Inr x \<and> f x = Inr y)"
  by (cases r) (simp_all add: and_then_def)

lemma and_then_eq_Inl:
  "and_then r f = Inl e \<longleftrightarrow> r = Inl e \<or> (\<exists>x. r = Inr x \<and> f x = Inl e)"
  by (cases r) (auto simp add: and_then_def)

lemma guard_eq_Inr [simp]:
  "(if c then Inl e else r) = Inr y \<longleftrightarrow> \<not> c \<and> r = Inr y"
  "(if c then r else Inl e) = Inr y \<longleftrightarrow> c \<and> r = Inr y"
  by auto

lemma map_err_simps [simp]:
  "map_err g (Inl e) = Inl (g e)"
  "map_err g (Inr x) = Inr x"
  by (simp_all add: map_err_def)

lemma map_err_eq_Inr [simp]: "map_err g r = Inr x \<longleftrightarrow> r = Inr x"
  by (cases r) simp_all

lemma ok_or_simps [simp]:
  "ok_or None e = Inl e"
  "ok_or (Some x) e = Inr x"
  by (simp_all add: ok_or_def)

lemma ok_or_eq_Inr [simp]: "ok_or v e = Inr x \<longleftrightarrow> v = Some x"
  by (cases v) simp_all

lemma ok_or_eq_Inl [simp]: "ok_or v e = Inl f \<longleftrightarrow> v = None \<and> f = e"
  by (cases v) auto

lemma is_some_and_simps [simp]:
  "\<not> is_some_and None p"
  "is_some_and (Some x) p \<longleftrightarrow> p x"
  by (simp_all add: is_some_and_def)

lemma is_some_and_iff: "is_some_and v p \<longleftrightarrow> (\<exists>x. v = Some x \<and> p x)"
  by (cases v) simp_all

section \<open>Unsigned 64-bit arithmetic\<close>

definition u64_max :: nat where
  "u64_max = 2 ^ 64 - 1"

definition u32_max :: nat where
  "u32_max = 2 ^ 32 - 1"

definition checked_add :: "nat \<Rightarrow> nat \<Rightarrow> nat option" where
  "checked_add a b = (if a + b \<le> u64_max then Some (a + b) else None)"

definition checked_mul :: "nat \<Rightarrow> nat \<Rightarrow> nat option" where
  "checked_mul a b = (if a * b \<le> u64_max then Some (a * b) else None)"

definition checked_sub :: "nat \<Rightarrow> nat \<Rightarrow> nat option" where
  "checked_sub a b = (if b \<le> a then Some (a - b) else None)"

definition saturating_add :: "nat \<Rightarrow> nat \<Rightarrow> nat" where
  "saturating_add a b = min (a + b) u64_max"

definition wrapping_add :: "nat \<Rightarrow> nat \<Rightarrow> nat" where
  "wrapping_add a b = (a + b) mod (u64_max + 1)"

definition div_ceil :: "nat \<Rightarrow> nat \<Rightarrow> nat" where
  "div_ceil a b = a div b + (if a mod b = 0 then 0 else 1)"

lemma u64_max_pos [simp]: "0 < u64_max"
  by (simp add: u64_max_def)

lemma checked_add_Some [simp]:
  "checked_add a b = Some c \<longleftrightarrow> c = a + b \<and> a + b \<le> u64_max"
  by (auto simp: checked_add_def)

lemma checked_add_None [simp]: "checked_add a b = None \<longleftrightarrow> u64_max < a + b"
  by (auto simp: checked_add_def)

lemma checked_sub_Some [simp]: "checked_sub a b = Some c \<longleftrightarrow> b \<le> a \<and> c = a - b"
  by (auto simp: checked_sub_def)

lemma checked_sub_None [simp]: "checked_sub a b = None \<longleftrightarrow> a < b"
  by (auto simp: checked_sub_def)

lemma saturating_add_exact [simp]: "a + b \<le> u64_max \<Longrightarrow> saturating_add a b = a + b"
  by (simp add: saturating_add_def)

lemma saturating_add_le: "saturating_add a b \<le> u64_max"
  by (simp add: saturating_add_def)

lemma wrapping_add_exact [simp]: "a + b \<le> u64_max \<Longrightarrow> wrapping_add a b = a + b"
  by (simp add: wrapping_add_def)

lemma div_ceil_ge: "0 < b \<Longrightarrow> a \<le> div_ceil a b * b"
proof -
  assume b: "0 < b"
  have "a = a div b * b + a mod b" by simp
  moreover have "a mod b < b" using b by simp
  ultimately have "a mod b \<noteq> 0 \<Longrightarrow> a \<le> a div b * b + b" by linarith
  then show ?thesis by (cases "a mod b = 0") (auto simp: div_ceil_def algebra_simps)
qed

lemma less_div_ceil_iff: "0 < b \<Longrightarrow> n < div_ceil a b \<longleftrightarrow> n * b < a"
proof -
  assume b: "0 < b"
  have split: "a = a div b * b + a mod b" by simp
  have m: "a mod b < b" using b by simp
  show ?thesis
  proof
    assume "n < div_ceil a b"
    then consider "n < a div b" | "n = a div b" "a mod b \<noteq> 0"
      unfolding div_ceil_def by (metis add.right_neutral add.commute less_Suc_eq plus_1_eq_Suc)
    then show "n * b < a"
    proof cases
      case 1
      then have "Suc n * b \<le> a div b * b" by (intro mult_le_mono1) simp
      with b div_times_less_eq_dividend [of a b] show ?thesis
        unfolding mult_Suc by linarith
    next
      case 2
      with split have "n * b + a mod b = a" by simp
      with 2 show ?thesis by linarith
    qed
  next
    assume lt: "n * b < a"
    show "n < div_ceil a b"
    proof (rule ccontr)
      assume "\<not> n < div_ceil a b"
      then have "div_ceil a b * b \<le> n * b" by (intro mult_le_mono1) simp
      with lt div_ceil_ge [OF b, of a] show False by simp
    qed
  qed
qed

lemma div_ceil_0 [simp]: "div_ceil 0 b = 0"
  by (simp add: div_ceil_def)

section \<open>Fixed-width byte encodings\<close>

text \<open>
  \<open>to_le_bytes\<close> and \<open>to_be_bytes\<close> of an \<open>n\<close>-byte integer, and their inverses
  \<open>from_le_bytes\<close> and \<open>from_be_bytes\<close>. Encoding keeps the low \<open>n\<close> bytes of its
  argument.
\<close>

fun le_bytes :: "nat \<Rightarrow> nat \<Rightarrow> bytes" where
  "le_bytes 0 v = []"
| "le_bytes (Suc n) v = word_of_nat v # le_bytes n (v div 256)"

fun le_value :: "bytes \<Rightarrow> nat" where
  "le_value [] = 0"
| "le_value (b # bs) = unat b + 256 * le_value bs"

definition be_bytes :: "nat \<Rightarrow> nat \<Rightarrow> bytes" where
  "be_bytes n v = rev (le_bytes n v)"

definition be_value :: "bytes \<Rightarrow> nat" where
  "be_value bs = le_value (rev bs)"

lemma le_bytes_numeral:
  "le_bytes (numeral k) v = word_of_nat v # le_bytes (pred_numeral k) (v div 256)"
  by (subst numeral_eq_Suc) (rule le_bytes.simps)

lemma unat_byte_less [simp]: "unat (b :: byte) < 256"
  using unsigned_less [of b, where 'a = nat] by simp

lemma unat_of_nat_byte: "unat (word_of_nat v :: byte) = v mod 256"
  by (simp add: unat_of_nat)

lemma length_le_bytes [simp]: "length (le_bytes n v) = n"
  by (induction n arbitrary: v) simp_all

lemma length_be_bytes [simp]: "length (be_bytes n v) = n"
  by (simp add: be_bytes_def)

lemma le_value_le_bytes: "le_value (le_bytes n v) = v mod 256 ^ n"
proof (induction n arbitrary: v)
  case 0
  then show ?case by simp
next
  case (Suc n)
  have "v mod (256 * 256 ^ n) = 256 * (v div 256 mod 256 ^ n) + v mod 256"
    by (rule mod_mult2_eq)
  then show ?case by (simp add: Suc.IH unat_of_nat_byte)
qed

lemma le_value_le_bytes_exact [simp]: "v < 256 ^ n \<Longrightarrow> le_value (le_bytes n v) = v"
  by (simp add: le_value_le_bytes)

lemma be_value_be_bytes_exact [simp]: "v < 256 ^ n \<Longrightarrow> be_value (be_bytes n v) = v"
  by (simp add: be_value_def be_bytes_def)

lemma le_value_bound: "le_value bs < 256 ^ length bs"
proof (induction bs)
  case Nil
  then show ?case by simp
next
  case (Cons b bs)
  have "unat b + 256 * le_value bs < 256 + 256 * le_value bs" by simp
  also have "\<dots> = 256 * Suc (le_value bs)" by simp
  also have "\<dots> \<le> 256 * 256 ^ length bs"
    by (rule mult_le_mono2) (use Cons.IH in simp)
  finally show ?case by simp
qed

lemma be_value_bound: "be_value bs < 256 ^ length bs"
  using le_value_bound [of "rev bs"] by (simp add: be_value_def)

lemma le_bytes_le_value: "le_bytes (length bs) (le_value bs) = bs"
proof (induction bs)
  case Nil
  then show ?case by simp
next
  case (Cons b bs)
  have "(unat b + 256 * le_value bs) div 256 = le_value bs"
    by (simp add: div_mult_self2)
  moreover have "word_of_nat (unat b + 256 * le_value bs) = b"
  proof -
    have "unat (word_of_nat (unat b + 256 * le_value bs) :: byte) = unat b"
      by (simp only: unat_of_nat_byte) simp
    then show ?thesis by (simp only: word_unat_eq_iff)
  qed
  ultimately show ?case using Cons.IH by simp
qed

lemma be_bytes_be_value: "be_bytes (length bs) (be_value bs) = bs"
proof -
  have "le_bytes (length (rev bs)) (le_value (rev bs)) = rev bs"
    by (rule le_bytes_le_value)
  then show ?thesis by (simp add: be_bytes_def be_value_def)
qed

lemma be_value_Nil [simp]: "be_value [] = 0"
  by (simp add: be_value_def)

lemma le_value_append: "le_value (xs @ ys) = le_value xs + 256 ^ length xs * le_value ys"
  by (induction xs) (simp_all add: algebra_simps)

lemma be_value_Cons: "be_value (b # bs) = unat b * 256 ^ length bs + be_value bs"
  by (simp add: be_value_def le_value_append)

lemma be_value_snoc: "be_value (bs @ [b]) = 256 * be_value bs + unat b"
  by (simp add: be_value_def)

lemma foldl_be_value:
  "foldl (\<lambda>v b. v * 256 + unat b) a bs = a * 256 ^ length bs + be_value bs"
  by (induction bs arbitrary: a) (simp_all add: be_value_Cons algebra_simps)

section \<open>Contracts\<close>

subsection \<open>State machines\<close>

text \<open>
  A deterministic machine whose every step, accepted or refused, keeps an invariant.
  The invariant then holds after every sequence of events.
\<close>

locale machine =
  fixes step :: "'s \<Rightarrow> 'e \<Rightarrow> 's"
    and inv :: "'s \<Rightarrow> bool"
  assumes step_inv: "inv s \<Longrightarrow> inv (step s e)"
begin

lemma run_inv: "inv s \<Longrightarrow> inv (foldl step s es)"
  by (induction es arbitrary: s) (simp_all add: step_inv)

end

text \<open>A machine whose steps reply and could panic.  A run is the replies and the last state, or None
  from the first panic on.  An event may be valid only for the state it meets.\<close>

fun run_replies :: "('s \<Rightarrow> 'e \<Rightarrow> ('o \<times> 's) option) \<Rightarrow> 's \<Rightarrow> 'e list \<Rightarrow> ('o list \<times> 's) option" where
  "run_replies step s [] = Some ([], s)"
| "run_replies step s (e # es) =
    (case step s e of
       None \<Rightarrow> None
     | Some (r, s') \<Rightarrow> map_option (\<lambda>(rs, s''). (r # rs, s'')) (run_replies step s' es))"

fun run_valid :: "('s \<Rightarrow> 'e \<Rightarrow> ('o \<times> 's) option) \<Rightarrow> ('s \<Rightarrow> 'e \<Rightarrow> bool) \<Rightarrow> 's \<Rightarrow> 'e list \<Rightarrow> bool" where
  "run_valid step valid s [] = True"
| "run_valid step valid s (e # es) =
    (valid s e \<and> (case step s e of None \<Rightarrow> True | Some (r, s') \<Rightarrow> run_valid step valid s' es))"

locale replying_machine =
  fixes step :: "'s \<Rightarrow> 'e \<Rightarrow> ('o \<times> 's) option"
    and inv :: "'s \<Rightarrow> bool"
    and valid :: "'s \<Rightarrow> 'e \<Rightarrow> bool"
    and post :: "'e \<Rightarrow> 'o \<Rightarrow> bool"
  assumes step_ok: "inv s \<Longrightarrow> valid s e \<Longrightarrow> \<exists>r s'. step s e = Some (r, s') \<and> inv s' \<and> post e r"
begin

lemma run_ok:
  "inv s \<Longrightarrow> run_valid step valid s es \<Longrightarrow>
    \<exists>rs s'. run_replies step s es = Some (rs, s') \<and> inv s' \<and> list_all2 post es rs"
proof (induction es arbitrary: s)
  case (Cons e es)
  obtain r s' where s': "step s e = Some (r, s')" "inv s'" "post e r"
    using step_ok [OF Cons.prems(1), of e] Cons.prems(2) by (auto simp del: split_paired_Ex)
  with Cons.IH [OF s'(2)] Cons.prems(2) show ?case by auto
qed simp

end

text \<open>A machine whose steps only move up a preorder: nothing it has reached is lost.\<close>

locale monotone_machine = machine +
  fixes below :: "'a \<Rightarrow> 'a \<Rightarrow> bool"
  assumes below_refl: "below s s"
    and below_trans: "below s t \<Longrightarrow> below t u \<Longrightarrow> below s u"
    and step_above: "inv s \<Longrightarrow> below s (step s e)"
begin

lemma run_above: "inv s \<Longrightarrow> below s (foldl step s es)"
proof (induction es arbitrary: s)
  case Nil
  show ?case by (simp add: below_refl)
next
  case (Cons e es)
  then have "below (step s e) (foldl step (step s e) es)"
    by (intro Cons.IH step_inv)
  moreover have "below s (step s e)"
    by (rule step_above) (rule Cons.prems)
  ultimately show ?case by (auto intro: below_trans)
qed

end

subsection \<open>Self-delimiting encodings\<close>

text \<open>
  An encoder together with a decoder that reports how many bytes it consumed. The
  law is that the decoder reads an encoded value back whatever follows it, in a buffer
  a 64-bit length can describe; it gives injectivity, unique decodability of
  concatenations and freedom from prefixes.
\<close>

locale prefix_codec =
  fixes valid :: "'v \<Rightarrow> bool"
    and enc :: "'v \<Rightarrow> bytes"
    and dec :: "bytes \<Rightarrow> 'e + 'v \<times> nat"
  assumes enc_fits: "valid x \<Longrightarrow> length (enc x) \<le> u64_max"
    and dec_enc: "valid x \<Longrightarrow> length (enc x @ rest) \<le> u64_max \<Longrightarrow>
      dec (enc x @ rest) = Inr (x, length (enc x))"
begin

lemma enc_prefix_same:
  assumes "valid x" and "valid y" and "enc y = enc x @ t"
  shows "x = y"
  using dec_enc [OF assms(1), of t] dec_enc [OF assms(2), of "[]"] enc_fits [OF assms(2)] assms(3)
  by simp

lemma enc_append_inject:
  assumes "valid x" and "valid y" and "enc x @ r = enc y @ s"
  shows "x = y \<and> r = s"
proof -
  from assms(3) obtain t where "enc x = enc y @ t \<or> enc y = enc x @ t"
    by (metis append_eq_append_conv2)
  then have "x = y"
    using enc_prefix_same assms(1,2) by metis
  with assms(3) show ?thesis by simp
qed

lemma enc_inject: "valid x \<Longrightarrow> valid y \<Longrightarrow> enc x = enc y \<longleftrightarrow> x = y"
  using enc_append_inject [of x y "[]" "[]"] by auto

lemma enc_prefix_free:
  "valid x \<Longrightarrow> valid y \<Longrightarrow> enc y = enc x @ s \<Longrightarrow> s = []"
  using enc_append_inject [of y x "[]" s] by simp

lemma concat_enc_inject:
  assumes "list_all valid xs" and "list_all valid ys" and "\<And>x. valid x \<Longrightarrow> enc x \<noteq> []"
    and "concat (map enc xs) = concat (map enc ys)"
  shows "xs = ys"
  using assms(1,2,4)
proof (induction xs arbitrary: ys)
  case Nil
  with assms(3) show ?case by (cases ys) auto
next
  case (Cons x xs)
  then obtain y zs where ys: "ys = y # zs"
    using assms(3) by (cases ys) auto
  with Cons.prems have eq: "enc x @ concat (map enc xs) = enc y @ concat (map enc zs)"
    and v: "valid x" "valid y" "list_all valid xs" "list_all valid zs"
    by simp_all
  from enc_append_inject [OF v(1,2) eq] have "x = y" "concat (map enc xs) = concat (map enc zs)"
    by simp_all
  with Cons.IH [OF v(3,4)] ys show ?case by simp
qed

end

text \<open>
  A codec whose decoder accepts nothing but encodings: the bytes it consumes are the
  encoding of the value it returns, so every value has exactly one accepted form.
\<close>

locale canonical_codec = prefix_codec +
  assumes dec_sound: "dec bs = Inr (x, n) \<Longrightarrow>
    length bs \<le> u64_max \<Longrightarrow> valid x \<and> n \<le> length bs \<and> take n bs = enc x"
begin

lemma dec_iff:
  assumes "length bs \<le> u64_max"
  shows "dec bs = Inr (x, n) \<longleftrightarrow> valid x \<and> n = length (enc x) \<and> (\<exists>rest. bs = enc x @ rest)"
proof
  assume d: "dec bs = Inr (x, n)"
  with dec_sound [OF d assms] have "valid x" "n \<le> length bs" "take n bs = enc x" by simp_all
  then have "n = length (enc x)" "bs = enc x @ drop n bs"
    by (metis length_take min.absorb2, metis append_take_drop_id)
  with \<open>valid x\<close> show "valid x \<and> n = length (enc x) \<and> (\<exists>rest. bs = enc x @ rest)" by blast
next
  assume "valid x \<and> n = length (enc x) \<and> (\<exists>rest. bs = enc x @ rest)"
  with assms show "dec bs = Inr (x, n)" by (auto simp: dec_enc)
qed

lemma dec_same_bytes:
  assumes "dec bs = Inr (x, n)" "dec cs = Inr (x, k)" "length bs \<le> u64_max" "length cs \<le> u64_max"
  shows "n = k \<and> take n bs = take k cs"
  using assms dec_sound [OF assms(1,3)] dec_sound [OF assms(2,4)]
  by (metis length_take min.absorb2)

end

section \<open>Slices\<close>

text \<open>\<open>slice.get(a..b)\<close>.\<close>

definition slice_get :: "'a list \<Rightarrow> nat \<Rightarrow> nat \<Rightarrow> 'a list option" where
  "slice_get xs a b = (if a \<le> b \<and> b \<le> length xs then Some (take (b - a) (drop a xs)) else None)"

lemma slice_get_Some:
  "slice_get xs a b = Some ys \<longleftrightarrow> a \<le> b \<and> b \<le> length xs \<and> ys = take (b - a) (drop a xs)"
  by (auto simp: slice_get_def)

lemma slice_get_None: "slice_get xs a b = None \<longleftrightarrow> b < a \<or> length xs < b"
  by (auto simp: slice_get_def)

section \<open>Ordered sets\<close>

text \<open>
  A \<open>BTreeSet\<close> of integers is the strictly increasing list of its elements.
  \<open>btree_insert\<close> also says whether the element was absent; \<open>retain\<close> is \<open>filter\<close>.
\<close>

definition btree_insert :: "nat \<Rightarrow> nat list \<Rightarrow> bool \<times> nat list" where
  "btree_insert x xs = (x \<notin> set xs, if x \<in> set xs then xs else insort x xs)"

definition btree_remove :: "nat \<Rightarrow> nat list \<Rightarrow> nat list" where
  "btree_remove x xs = filter (\<lambda>y. y \<noteq> x) xs"

lemma set_btree_insert [simp]: "set (snd (btree_insert x xs)) = insert x (set xs)"
  by (auto simp: btree_insert_def set_insort_key)

lemma set_btree_remove [simp]: "set (btree_remove x xs) = set xs - {x}"
  by (auto simp: btree_remove_def)

lemma btree_insert_sorted: "sorted_wrt (<) xs \<Longrightarrow> sorted_wrt (<) (snd (btree_insert x xs))"
  by (simp add: btree_insert_def strict_sorted_iff sorted_insort distinct_insort)

lemma btree_remove_sorted: "sorted_wrt (<) xs \<Longrightarrow> sorted_wrt (<) (btree_remove x xs)"
  unfolding btree_remove_def by (rule sorted_wrt_filter)

lemma btree_length: "sorted_wrt (<) (xs :: nat list) \<Longrightarrow> length xs = card (set xs)"
  by (simp add: strict_sorted_iff distinct_card)

end
