(* ===== verification/Commit_Model.thy ===== *)
theory Commit_Model
  imports Vot_Prelude
begin

text \<open>
  The commit and assurance state machine of \<open>crates/vot-commit-model/src/lib.rs\<close>.
  The enums keep the source's constructors (\<open>Profile\<close>, \<open>Assurance\<close>, \<open>State\<close>,
  \<open>Event\<close>, \<open>Error\<close>), the structs \<open>Machine\<close>, \<open>Transition\<close> and
  \<open>Observation\<close> are records, and \<open>Machine::apply\<close> is \<open>apply_event\<close>: it
  returns the machine the call leaves behind together with the call's result, so that
  the effect of a refused event can be stated. The invariant \<open>commit_inv\<close> says
  which observations a machine has recorded in each state; every property of the
  machine follows from it.
\<close>

section \<open>Data\<close>

datatype profile = Fast | Balanced | Strict

datatype assurance = Admitted | TransitVerified | Durable | AtRestVerified | Published

datatype commit_state =
    New | Admitted | TransitVerified | DataFlushed | Durable | AtRestVerified
  | NamespaceLinked | Published | RecoveryRequired | Poisoned | Aborted

datatype commit_event =
    Admit | TransitVerified | DataFlushSucceeded | DataFlushFailed
  | JournalFlushSucceeded | JournalFlushFailed | AtRestVerified
  | AtRestVerificationFailed | NamespaceLinked | NamespaceLinkAmbiguous
  | NamespaceDurable | NamespaceFlushFailed | Crash | Recover | Abort

datatype commit_error = StaleIncarnation | Terminal | InvalidTransition | MissingPredecessor

record observation =
  level :: assurance
  obs_sequence :: nat

record transition =
  tr_next :: commit_state
  tr_sequence :: nat
  tr_recovery_state :: "commit_state option"
  tr_observation :: "assurance option"

record commit_machine =
  cm_profile :: profile
  cm_state :: commit_state
  cm_current_incarnation :: bool
  cm_recovery_state :: "commit_state option"
  cm_sequence :: nat
  cm_performed :: "assurance list"

text \<open>The source derives \<open>Ord\<close> for \<open>Assurance\<close> from the order of its variants.\<close>

fun assurance_rank :: "assurance \<Rightarrow> nat" where
  "assurance_rank assurance.Admitted = 0"
| "assurance_rank assurance.TransitVerified = 1"
| "assurance_rank assurance.Durable = 2"
| "assurance_rank assurance.AtRestVerified = 3"
| "assurance_rank assurance.Published = 4"

lemma assurance_rank_inject: "assurance_rank a = assurance_rank b \<Longrightarrow> a = b"
  by (cases a; cases b) simp_all

instantiation assurance :: linorder
begin

definition less_eq_assurance :: "assurance \<Rightarrow> assurance \<Rightarrow> bool" where
  "a \<le> b \<longleftrightarrow> assurance_rank a \<le> assurance_rank b"

definition less_assurance :: "assurance \<Rightarrow> assurance \<Rightarrow> bool" where
  "a < b \<longleftrightarrow> assurance_rank a < assurance_rank b"

instance
  by standard (auto simp: less_eq_assurance_def less_assurance_def assurance_rank_inject)

end

section \<open>Operations\<close>

definition new_machine :: "profile \<Rightarrow> commit_machine" where
  "new_machine p = \<lparr>cm_profile = p, cm_state = New, cm_current_incarnation = True,
     cm_recovery_state = None, cm_sequence = 0, cm_performed = []\<rparr>"

definition performed :: "commit_machine \<Rightarrow> assurance \<Rightarrow> bool" where
  "performed m a \<longleftrightarrow> a \<in> set (cm_performed m)"

definition mark_stale :: "commit_machine \<Rightarrow> commit_machine" where
  "mark_stale m = m\<lparr>cm_current_incarnation := False\<rparr>"

fun required_predecessor :: "profile \<Rightarrow> assurance" where
  "required_predecessor Fast = assurance.TransitVerified"
| "required_predecessor Balanced = assurance.Durable"
| "required_predecessor Strict = assurance.AtRestVerified"

fun assurance_state :: "assurance \<Rightarrow> commit_state" where
  "assurance_state assurance.Admitted = commit_state.Admitted"
| "assurance_state assurance.TransitVerified = commit_state.TransitVerified"
| "assurance_state assurance.Durable = commit_state.Durable"
| "assurance_state assurance.AtRestVerified = commit_state.AtRestVerified"
| "assurance_state assurance.Published = commit_state.Published"

definition can_publish_from :: "commit_machine \<Rightarrow> commit_state \<Rightarrow> bool" where
  "can_publish_from m s \<longleftrightarrow> s = assurance_state (required_predecessor (cm_profile m))"

definition required_predecessor_performed :: "commit_machine \<Rightarrow> bool" where
  "required_predecessor_performed m = performed m (required_predecessor (cm_profile m))"

text \<open>The match of \<open>Machine::plan\<close>, arm by arm; \<open>None\<close> is its last arm.\<close>

definition plan_match ::
  "commit_machine \<Rightarrow> commit_event \<Rightarrow> (commit_state \<times> assurance option) option" where
  "plan_match m ev =
    (let st = cm_state m in
     if st = New \<and> ev = Admit
       then Some (commit_state.Admitted, Some assurance.Admitted)
     else if st = commit_state.Admitted \<and> ev = commit_event.TransitVerified
       then Some (commit_state.TransitVerified, Some assurance.TransitVerified)
     else if st = commit_state.TransitVerified \<and> ev = DataFlushSucceeded
       then Some (DataFlushed, None)
     else if st = DataFlushed \<and> ev = JournalFlushSucceeded
       then Some (commit_state.Durable, Some assurance.Durable)
     else if st = commit_state.Durable \<and> ev = commit_event.AtRestVerified
       then Some (commit_state.AtRestVerified, Some assurance.AtRestVerified)
     else if ev = commit_event.NamespaceLinked \<and> can_publish_from m st
       then Some (commit_state.NamespaceLinked, None)
     else if st = commit_state.NamespaceLinked \<and> ev = NamespaceDurable
       then Some (commit_state.Published, Some assurance.Published)
     else if st \<in> {New, commit_state.Admitted, commit_state.TransitVerified, DataFlushed,
                   commit_state.Durable, commit_state.AtRestVerified} \<and> ev = Abort
       then Some (Aborted, None)
     else if ev \<in> {DataFlushFailed, JournalFlushFailed, AtRestVerificationFailed}
       then Some (Poisoned, None)
     else if ev \<in> {NamespaceLinkAmbiguous, NamespaceFlushFailed, Crash} \<and> st \<noteq> RecoveryRequired
       then Some (RecoveryRequired, None)
     else None)"

definition plan :: "commit_machine \<Rightarrow> commit_event \<Rightarrow> commit_error + transition" where
  "plan m ev =
    (if \<not> cm_current_incarnation m then Inl StaleIncarnation
     else if cm_state m \<in> {commit_state.Published, Poisoned, Aborted} then Inl Terminal
     else and_then (ok_or (checked_add (cm_sequence m) 1) InvalidTransition) (\<lambda>sequence.
       if ev = Recover then
         (if cm_state m \<noteq> RecoveryRequired then Inl InvalidTransition
          else and_then (ok_or (cm_recovery_state m) InvalidTransition) (\<lambda>recovered.
            Inr \<lparr>tr_next = recovered, tr_sequence = sequence, tr_recovery_state = None,
                 tr_observation = None\<rparr>))
       else and_then (ok_or (plan_match m ev) InvalidTransition) (\<lambda>(nxt, obs).
         if obs = Some assurance.Published \<and> \<not> required_predecessor_performed m
           then Inl MissingPredecessor
         else Inr \<lparr>tr_next = nxt, tr_sequence = sequence,
                tr_recovery_state =
                  (if nxt = RecoveryRequired then Some (cm_state m) else cm_recovery_state m),
                tr_observation = obs\<rparr>)))"

definition commit :: "commit_machine \<Rightarrow> transition \<Rightarrow> commit_machine \<times> observation option" where
  "commit m t =
    (let m' = m\<lparr>cm_state := tr_next t, cm_sequence := tr_sequence t,
                cm_recovery_state := tr_recovery_state t\<rparr>
     in case tr_observation t of
          None \<Rightarrow> (m', None)
        | Some l \<Rightarrow> (m'\<lparr>cm_performed := cm_performed m' @ [l]\<rparr>,
                     Some \<lparr>level = l, obs_sequence = tr_sequence t\<rparr>))"

definition apply_event ::
  "commit_machine \<Rightarrow> commit_event \<Rightarrow> commit_machine \<times> (commit_error + observation option)" where
  "apply_event m ev =
    (case plan m ev of
       Inl e \<Rightarrow> (m, Inl e)
     | Inr t \<Rightarrow> (let (m', obs) = commit m t in (m', Inr obs)))"

text \<open>The machine after one event and after a sequence of events.\<close>

definition after :: "commit_machine \<Rightarrow> commit_event \<Rightarrow> commit_machine" where
  "after m ev = fst (apply_event m ev)"

definition accepts :: "commit_machine \<Rightarrow> commit_event \<Rightarrow> bool" where
  "accepts m ev = (case snd (apply_event m ev) of Inl _ \<Rightarrow> False | Inr _ \<Rightarrow> True)"

text \<open>A machine the library can have built: created, fed events, perhaps marked stale.\<close>

inductive reachable :: "commit_machine \<Rightarrow> bool" where
  start: "reachable (new_machine p)"
| event: "reachable m \<Longrightarrow> reachable (after m ev)"
| stale: "reachable m \<Longrightarrow> reachable (mark_stale m)"

section \<open>The invariant\<close>

text \<open>The observations a machine standing in a live state has made, in order.\<close>

fun linked_evidence :: "profile \<Rightarrow> assurance list" where
  "linked_evidence Fast = [assurance.Admitted, assurance.TransitVerified]"
| "linked_evidence Balanced =
     [assurance.Admitted, assurance.TransitVerified, assurance.Durable]"
| "linked_evidence Strict =
     [assurance.Admitted, assurance.TransitVerified, assurance.Durable, assurance.AtRestVerified]"

fun evidence :: "profile \<Rightarrow> commit_state \<Rightarrow> assurance list" where
  "evidence p New = []"
| "evidence p commit_state.Admitted = [assurance.Admitted]"
| "evidence p commit_state.TransitVerified = [assurance.Admitted, assurance.TransitVerified]"
| "evidence p DataFlushed = [assurance.Admitted, assurance.TransitVerified]"
| "evidence p commit_state.Durable =
     [assurance.Admitted, assurance.TransitVerified, assurance.Durable]"
| "evidence p commit_state.AtRestVerified =
     [assurance.Admitted, assurance.TransitVerified, assurance.Durable, assurance.AtRestVerified]"
| "evidence p commit_state.NamespaceLinked = linked_evidence p"
| "evidence p commit_state.Published = linked_evidence p @ [assurance.Published]"
| "evidence p _ = []"

definition live :: "commit_state \<Rightarrow> bool" where
  "live s \<longleftrightarrow> s \<notin> {commit_state.Published, RecoveryRequired, Poisoned, Aborted}"

text \<open>
  The observations recorded are exactly those of the state the machine stands in, or of
  the state it will recover to; once poisoned or aborted they are those of some live
  state. A saved state exists exactly while recovery is required (a poisoned machine may
  keep one).
\<close>

definition commit_inv :: "commit_machine \<Rightarrow> bool" where
  "commit_inv m \<longleftrightarrow>
     cm_sequence m \<le> u64_max \<and>
     (case cm_state m of
        RecoveryRequired \<Rightarrow>
          (\<exists>s. cm_recovery_state m = Some s \<and> live s \<and> cm_performed m = evidence (cm_profile m) s)
      | Poisoned \<Rightarrow> (\<exists>s. live s \<and> cm_performed m = evidence (cm_profile m) s)
      | Aborted \<Rightarrow> (\<exists>s. live s \<and> cm_performed m = evidence (cm_profile m) s)
      | s \<Rightarrow> cm_recovery_state m = None \<and> cm_performed m = evidence (cm_profile m) s)"

section \<open>Preservation\<close>

lemma after_eq:
  "after m ev = (case plan m ev of Inl _ \<Rightarrow> m | Inr t \<Rightarrow> fst (commit m t))"
  by (simp add: after_def apply_event_def split: sum.split prod.split)

lemma result_eq:
  "snd (apply_event m ev) = (case plan m ev of Inl e \<Rightarrow> Inl e | Inr t \<Rightarrow> Inr (snd (commit m t)))"
  by (simp add: apply_event_def split: sum.split prod.split)

text \<open>
  What an arm of the match can do, read off the table: move one observation up, move
  between live states without observing anything, end the incarnation, or crash.
\<close>

lemma plan_matchE:
  assumes "plan_match m ev = Some (nxt, obs)"
  obtains
    (advance) a where "obs = Some a" and "nxt = assurance_state a" and "live (cm_state m)"
      and "live nxt \<or> nxt = commit_state.Published"
      and "evidence (cm_profile m) nxt = evidence (cm_profile m) (cm_state m) @ [a]"
  | (silent) "obs = None" and "live (cm_state m)" and "live nxt"
      and "evidence (cm_profile m) nxt = evidence (cm_profile m) (cm_state m)"
  | (dead) "obs = None" and "nxt = Poisoned \<or> nxt = Aborted \<and> live (cm_state m)"
  | (crash) "obs = None" and "nxt = RecoveryRequired" and "cm_state m \<noteq> RecoveryRequired"
proof -
  have "cm_profile m = Fast \<or> cm_profile m = Balanced \<or> cm_profile m = Strict"
    by (cases "cm_profile m") simp_all
  then show ?thesis
    using assms that
    by (auto simp: plan_match_def Let_def live_def can_publish_from_def split: if_splits)
qed

lemma planE:
  assumes "plan m ev = Inr t"
  obtains
    (recover) s where "ev = Recover" and "cm_state m = RecoveryRequired"
      and "cm_recovery_state m = Some s" and "cm_sequence m < u64_max"
      and "t = \<lparr>tr_next = s, tr_sequence = Suc (cm_sequence m), tr_recovery_state = None,
                 tr_observation = None\<rparr>"
  | (arm) nxt obs where "ev \<noteq> Recover" and "plan_match m ev = Some (nxt, obs)"
      and "cm_state m \<notin> {commit_state.Published, Poisoned, Aborted}"
      and "obs = Some assurance.Published \<longrightarrow> required_predecessor_performed m"
      and "cm_sequence m < u64_max"
      and "t = \<lparr>tr_next = nxt, tr_sequence = Suc (cm_sequence m),
                 tr_recovery_state =
                   (if nxt = RecoveryRequired then Some (cm_state m) else cm_recovery_state m),
                 tr_observation = obs\<rparr>"
  using assms that
  by (fastforce simp: plan_def split: if_splits)

lemma live_simps [simp]:
  "live New" "live commit_state.Admitted" "live commit_state.TransitVerified" "live DataFlushed"
  "live commit_state.Durable" "live commit_state.AtRestVerified" "live commit_state.NamespaceLinked"
  "\<not> live commit_state.Published" "\<not> live RecoveryRequired" "\<not> live Poisoned" "\<not> live Aborted"
  by (simp_all add: live_def)

lemma commit_inv_live:
  "live (cm_state m) \<Longrightarrow>
   commit_inv m \<longleftrightarrow> cm_sequence m \<le> u64_max \<and> cm_recovery_state m = None \<and>
     cm_performed m = evidence (cm_profile m) (cm_state m)"
  by (cases "cm_state m") (simp_all add: commit_inv_def)

lemma commit_inv_published:
  "cm_state m = commit_state.Published \<Longrightarrow>
   commit_inv m \<longleftrightarrow> cm_sequence m \<le> u64_max \<and> cm_recovery_state m = None \<and>
     cm_performed m = linked_evidence (cm_profile m) @ [assurance.Published]"
  by (simp add: commit_inv_def)

text \<open>Where the machine stands or would stand after recovery: the evidence it holds.\<close>

lemma commit_inv_evidence:
  assumes "commit_inv m" and "cm_state m \<notin> {commit_state.Published, Poisoned, Aborted}"
  obtains s where "live s" and "cm_performed m = evidence (cm_profile m) s"
    and "live (cm_state m) \<Longrightarrow> s = cm_state m"
  using assms by (cases "cm_state m") (auto simp: commit_inv_def)

lemma commit_inv_new: "commit_inv (new_machine p)"
  by (simp add: commit_inv_def new_machine_def)

lemma commit_inv_stale: "commit_inv (mark_stale m) = commit_inv m"
  by (cases "cm_state m") (simp_all add: commit_inv_def mark_stale_def)

lemma commit_inv_arm:
  assumes inv: "commit_inv m" and pm: "plan_match m ev = Some (nxt, obs)"
    and nt: "cm_state m \<notin> {commit_state.Published, Poisoned, Aborted}"
    and seq: "cm_sequence m < u64_max"
  shows "commit_inv (fst (commit m \<lparr>tr_next = nxt, tr_sequence = Suc (cm_sequence m),
           tr_recovery_state = (if nxt = RecoveryRequired then Some (cm_state m)
                                else cm_recovery_state m),
           tr_observation = obs\<rparr>))"
  using pm
proof (cases rule: plan_matchE)
  case (advance a)
  with inv seq show ?thesis
    by (cases "nxt = commit_state.Published")
       (auto simp: commit_inv_live commit_inv_published commit_def Let_def)
next
  case silent
  with inv seq show ?thesis
    by (auto simp: commit_inv_live commit_def Let_def)
next
  case dead
  from inv nt obtain s where "live s" "cm_performed m = evidence (cm_profile m) s"
    by (rule commit_inv_evidence)
  with seq dead show ?thesis
    by (auto simp: commit_inv_def commit_def Let_def)
next
  case crash
  with nt have l: "live (cm_state m)" by (auto simp: live_def)
  with inv have "cm_performed m = evidence (cm_profile m) (cm_state m)"
    by (simp add: commit_inv_live)
  with l seq crash show ?thesis
    by (simp add: commit_inv_def commit_def Let_def)
qed

lemma commit_inv_after:
  assumes "commit_inv m"
  shows "commit_inv (after m ev)"
proof (cases "plan m ev")
  case (Inl e)
  with assms show ?thesis by (simp add: after_eq)
next
  case (Inr t)
  then show ?thesis
  proof (cases rule: planE)
    case (recover s)
    with assms Inr show ?thesis
      by (simp add: after_eq commit_def Let_def commit_inv_def [of m] commit_inv_live)
  next
    case (arm nxt obs)
    with assms Inr show ?thesis
      by (simp add: after_eq commit_inv_arm)
  qed
qed

lemma reachable_commit_inv: "reachable m \<Longrightarrow> commit_inv m"
  by (induction rule: reachable.induct)
     (simp_all add: commit_inv_new commit_inv_after commit_inv_stale)

text \<open>Nothing observed is forgotten and the sequence only grows.\<close>

definition extends :: "commit_machine \<Rightarrow> commit_machine \<Rightarrow> bool" where
  "extends m m' \<longleftrightarrow> cm_profile m' = cm_profile m \<and>
     (\<exists>more. cm_performed m' = cm_performed m @ more) \<and> cm_sequence m \<le> cm_sequence m' \<and>
     cm_current_incarnation m' = cm_current_incarnation m"

lemma commit_extends:
  assumes "plan m ev = Inr t"
  shows "extends m (fst (commit m t)) \<and> cm_sequence (fst (commit m t)) = Suc (cm_sequence m)"
  using assms
  by (cases rule: planE) (auto simp: extends_def commit_def Let_def split: option.split)

interpretation commit_machine: monotone_machine after commit_inv extends
proof (unfold_locales)
  show "commit_inv s \<Longrightarrow> commit_inv (after s e)" for s e by (rule commit_inv_after)
  show "extends s s" for s by (simp add: extends_def)
  show "extends s t \<Longrightarrow> extends t u \<Longrightarrow> extends s u" for s t u by (auto simp: extends_def)
  show "extends s (after s e)" for s e
    using commit_extends [of s e] by (auto simp: after_eq extends_def split: sum.split)
qed

section \<open>Properties\<close>

lemma evidence_sorted: "sorted_wrt (<) (evidence p s)"
  by (cases p; cases s) (simp_all add: less_assurance_def)

lemma required_in_linked: "required_predecessor p \<in> set (linked_evidence p)"
  by (cases p) simp_all

lemma commit_inv_performed:
  assumes "commit_inv m"
  obtains s where "cm_performed m = evidence (cm_profile m) s"
proof -
  have "\<exists>s. cm_performed m = evidence (cm_profile m) s"
    using assms by (cases "cm_state m") (auto simp: commit_inv_def intro: exI [of _ "cm_state m"])
  then show ?thesis using that by blast
qed

text \<open>Evaluating the machine on concrete runs.\<close>

lemmas machine_eval = after_def apply_event_def plan_def plan_match_def commit_def new_machine_def
  can_publish_from_def required_predecessor_performed_def performed_def checked_add_def u64_max_def

lemma plan_published:
  assumes "plan m ev = Inr t" and "tr_observation t = Some assurance.Published"
  shows "cm_state m = commit_state.NamespaceLinked \<and> tr_next t = commit_state.Published"
  using assms
  by (cases rule: planE) (auto simp: plan_match_def Let_def split: if_splits)

lemma plan_missing_predecessor:
  assumes "plan m ev = Inl MissingPredecessor"
  shows "cm_state m = commit_state.NamespaceLinked \<and> \<not> required_predecessor_performed m"
  using assms
  by (auto simp: plan_def and_then_eq_Inl plan_match_def Let_def split: if_splits)

lemma blocked_plan:
  "\<not> cm_current_incarnation m \<or> cm_state m \<in> {commit_state.Published, Poisoned, Aborted} \<Longrightarrow>
   \<exists>e. plan m ev = Inl e \<and> e \<in> {StaleIncarnation, Terminal}"
  by (auto simp: plan_def)

text \<open>C5. Publication is earned. Whatever events a machine has been given, an accepted event
  that reports \<open>Published\<close> finds the machine with exactly the observations its profile
  demands, the profile's required predecessor among them, and leaves it published.\<close>

theorem published_is_earned:
  assumes "reachable m"
    and "apply_event m ev = (m', Inr (Some obs))"
    and "level obs = assurance.Published"
  shows "cm_performed m = linked_evidence (cm_profile m) \<and>
         required_predecessor (cm_profile m) \<in> set (cm_performed m) \<and>
         cm_state m' = commit_state.Published \<and>
         cm_performed m' = linked_evidence (cm_profile m) @ [assurance.Published]"
proof -
  from assms(2,3) obtain t where t: "plan m ev = Inr t" "commit m t = (m', Some obs)"
    by (auto simp: apply_event_def split: sum.splits prod.splits)
  with assms(3) have "tr_observation t = Some assurance.Published"
    by (auto simp: commit_def Let_def split: option.splits)
  with t have st: "cm_state m = commit_state.NamespaceLinked" "tr_next t = commit_state.Published"
    using plan_published by blast+
  from reachable_commit_inv [OF assms(1)] st(1) have "cm_performed m = linked_evidence (cm_profile m)"
    by (simp add: commit_inv_live)
  with t(2) assms(3) st(2) show ?thesis
    by (auto simp: commit_def Let_def required_in_linked split: option.splits)
qed

theorem published_is_earned_witness:
  "let m = foldl after (new_machine Fast)
             [Admit, commit_event.TransitVerified, Crash, Recover, commit_event.NamespaceLinked]
   in reachable m \<and> snd (apply_event m NamespaceDurable) =
        Inr (Some \<lparr>level = assurance.Published, obs_sequence = 6\<rparr>) \<and>
      required_predecessor Fast \<in> set (cm_performed m)"
proof -
  let ?m = "foldl after (new_machine Fast)
             [Admit, commit_event.TransitVerified, Crash, Recover, commit_event.NamespaceLinked]"
  have r: "reachable ?m" unfolding foldl.simps by (intro reachable.intros)
  have a: "snd (apply_event ?m NamespaceDurable) =
      Inr (Some \<lparr>level = assurance.Published, obs_sequence = 6\<rparr>)"
    by (simp add: machine_eval)
  have p: "cm_profile ?m = Fast" by (simp add: machine_eval)
  obtain m' where "apply_event ?m NamespaceDurable =
      (m', Inr (Some \<lparr>level = assurance.Published, obs_sequence = 6\<rparr>))"
    using a by (metis prod.collapse)
  from published_is_earned [OF r this] p r a show ?thesis by (simp add: Let_def)
qed

text \<open>C24. The publication defence is never what refuses a machine built through the API: the
  \<open>MissingPredecessor\<close> guard only answers a machine whose record was damaged.\<close>

theorem missing_predecessor_unreachable:
  assumes "reachable m"
  shows "snd (apply_event m ev) \<noteq> Inl MissingPredecessor"
proof
  assume "snd (apply_event m ev) = Inl MissingPredecessor"
  then have "plan m ev = Inl MissingPredecessor"
    by (simp add: result_eq split: sum.splits)
  then have st: "cm_state m = commit_state.NamespaceLinked"
    and np: "\<not> required_predecessor_performed m"
    using plan_missing_predecessor by blast+
  from reachable_commit_inv [OF assms] st have "cm_performed m = linked_evidence (cm_profile m)"
    by (simp add: commit_inv_live)
  with np show False
    by (simp add: required_predecessor_performed_def performed_def required_in_linked)
qed

theorem missing_predecessor_unreachable_witness:
  "let m = foldl after (new_machine Fast) [Admit, commit_event.TransitVerified, commit_event.NamespaceLinked]
   in cm_state m = commit_state.NamespaceLinked \<and> snd (apply_event m NamespaceDurable) \<noteq> Inl MissingPredecessor"
proof -
  let ?m = "foldl after (new_machine Fast) [Admit, commit_event.TransitVerified, commit_event.NamespaceLinked]"
  have "reachable ?m" unfolding foldl.simps by (intro reachable.intros)
  from missing_predecessor_unreachable [OF this, of NamespaceDurable]
  have "snd (apply_event ?m NamespaceDurable) \<noteq> Inl MissingPredecessor" .
  moreover have "cm_state ?m = commit_state.NamespaceLinked" by (simp add: machine_eval)
  ultimately show ?thesis by (simp only: Let_def simp_thms)
qed

text \<open>C25. Observations are monotonic: in every reachable machine they stand in strictly
  increasing order of assurance, and no further sequence of events, accepted or refused,
  removes one, changes the profile or lowers the sequence number.\<close>

theorem observations_are_monotonic:
  assumes "reachable m"
  shows "sorted_wrt (<) (cm_performed m) \<and> extends m (foldl after m es)"
proof -
  note inv = reachable_commit_inv [OF assms]
  then obtain s where "cm_performed m = evidence (cm_profile m) s"
    by (rule commit_inv_performed)
  with inv show ?thesis
    by (simp add: evidence_sorted commit_machine.run_above)
qed

theorem observations_are_monotonic_witness:
  "sorted_wrt (<) (cm_performed (after (new_machine Balanced) Admit)) \<and>
   extends (after (new_machine Balanced) Admit)
     (foldl after (after (new_machine Balanced) Admit) [commit_event.TransitVerified, Abort, Admit])"
  by (rule observations_are_monotonic) (intro reachable.intros)

text \<open>A stale or terminal machine is frozen: every event is refused, with the stale error
  taking precedence, and no sequence of events changes anything. In particular a poisoned
  incarnation can never publish.\<close>

theorem blocked_machine_is_frozen:
  assumes "\<not> cm_current_incarnation m \<or> cm_state m \<in> {commit_state.Published, Poisoned, Aborted}"
  shows "foldl after m es = m \<and>
         snd (apply_event m ev) =
           Inl (if cm_current_incarnation m then Terminal else StaleIncarnation)"
proof -
  have "after m e = m" for e
    using blocked_plan [OF assms, of e] by (auto simp: after_eq)
  then have "foldl after m es = m" by (induction es) simp_all
  moreover from assms have "snd (apply_event m ev) =
      Inl (if cm_current_incarnation m then Terminal else StaleIncarnation)"
    by (auto simp: result_eq plan_def)
  ultimately show ?thesis ..
qed

text \<open>A crash loses nothing: a machine in a live state that crashes and recovers stands where
  it stood, with the same observations, two sequence numbers later.\<close>

theorem crash_recover_roundtrip:
  assumes "reachable m" and "cm_current_incarnation m" and "live (cm_state m)"
    and "cm_sequence m + 2 \<le> u64_max"
  shows "after (after m Crash) Recover = m\<lparr>cm_sequence := cm_sequence m + 2\<rparr>"
proof -
  have inv: "cm_recovery_state m = None"
    using reachable_commit_inv [OF assms(1)] assms(3) by (simp add: commit_inv_live)
  have st: "cm_state m \<noteq> RecoveryRequired" "cm_state m \<noteq> commit_state.Published"
    "cm_state m \<noteq> Poisoned" "cm_state m \<noteq> Aborted"
    using assms(3) by (auto simp: live_def)
  have "after m Crash = m\<lparr>cm_state := RecoveryRequired, cm_sequence := Suc (cm_sequence m),
      cm_recovery_state := Some (cm_state m)\<rparr>"
    using assms st by (simp add: after_eq plan_def plan_match_def commit_def Let_def checked_add_def)
  then show ?thesis
    using assms st inv
    by (simp add: after_eq plan_def commit_def Let_def checked_add_def)
qed

text \<open>A failed flush or verification is fatal from every state that still takes events: the
  machine is poisoned, with the observations it had.\<close>

theorem failure_poisons:
  assumes "cm_current_incarnation m"
    and "cm_state m \<notin> {commit_state.Published, Poisoned, Aborted}"
    and "cm_sequence m < u64_max"
    and "ev \<in> {DataFlushFailed, JournalFlushFailed, AtRestVerificationFailed}"
  shows "snd (apply_event m ev) = Inr None \<and> cm_state (after m ev) = Poisoned \<and>
         cm_performed (after m ev) = cm_performed m"
proof -
  have "plan_match m ev = Some (Poisoned, None)"
    using assms(4) by (auto simp: plan_match_def Let_def)
  moreover have "ev \<noteq> Recover" using assms(4) by auto
  ultimately have "plan m ev = Inr \<lparr>tr_next = Poisoned, tr_sequence = Suc (cm_sequence m),
      tr_recovery_state = cm_recovery_state m, tr_observation = None\<rparr>"
    using assms(1-3) by (simp add: plan_def checked_add_def)
  then show ?thesis by (simp add: result_eq after_eq commit_def Let_def)
qed

end
