(* ===== verification/Ordered_Map.thy ===== *)
theory Ordered_Map
  imports Vot_Prelude
begin

text \<open>
  The part of Rust's \<open>BTreeMap\<close> the components use, as an association list with
  strictly increasing keys: lookup, insertion, removal, iteration in key order, and the
  neighbour queries \<open>range(..=k).next_back()\<close>, \<open>range(..k).next_back()\<close> and
  \<open>range(k..).next()\<close>. The locale \<open>ordered_map\<close> states the contract a client may
  rely on and derives from it what the neighbours of a point say about a map of
  disjoint intervals; the association lists are its interpretation.
\<close>

type_synonym ('k, 'v) omap = "('k \<times> 'v) list"

definition om_ok :: "('k :: linorder, 'v) omap \<Rightarrow> bool" where
  "om_ok m \<longleftrightarrow> sorted_wrt (<) (map fst m)"

definition om_get :: "('k, 'v) omap \<Rightarrow> 'k \<Rightarrow> 'v option" where
  "om_get m k = map_of m k"

fun om_insert :: "'k :: linorder \<Rightarrow> 'v \<Rightarrow> ('k, 'v) omap \<Rightarrow> ('k, 'v) omap" where
  "om_insert k v [] = [(k, v)]"
| "om_insert k v ((a, b) # m) =
     (if k < a then (k, v) # (a, b) # m
      else if k = a then (k, v) # m
      else (a, b) # om_insert k v m)"

definition om_remove :: "'k \<Rightarrow> ('k, 'v) omap \<Rightarrow> ('k, 'v) omap" where
  "om_remove k m = filter (\<lambda>(a, b). a \<noteq> k) m"

fun last_opt :: "'a list \<Rightarrow> 'a option" where
  "last_opt [] = None"
| "last_opt [x] = Some x"
| "last_opt (x # y # xs) = last_opt (y # xs)"

definition om_last_upto :: "('k :: linorder, 'v) omap \<Rightarrow> 'k \<Rightarrow> ('k \<times> 'v) option" where
  "om_last_upto m k = last_opt (filter (\<lambda>(a, b). a \<le> k) m)"

definition om_last_below :: "('k :: linorder, 'v) omap \<Rightarrow> 'k \<Rightarrow> ('k \<times> 'v) option" where
  "om_last_below m k = last_opt (filter (\<lambda>(a, b). a < k) m)"

definition om_first_from :: "('k :: linorder, 'v) omap \<Rightarrow> 'k \<Rightarrow> ('k \<times> 'v) option" where
  "om_first_from m k = find (\<lambda>(a, b). k \<le> a) m"

section \<open>The contract\<close>

locale ordered_map =
  fixes ok :: "'m \<Rightarrow> bool"
    and get :: "'m \<Rightarrow> 'k :: linorder \<Rightarrow> 'v option"
    and insert :: "'k \<Rightarrow> 'v \<Rightarrow> 'm \<Rightarrow> 'm"
    and remove :: "'k \<Rightarrow> 'm \<Rightarrow> 'm"
    and last_upto :: "'m \<Rightarrow> 'k \<Rightarrow> ('k \<times> 'v) option"
    and last_below :: "'m \<Rightarrow> 'k \<Rightarrow> ('k \<times> 'v) option"
    and first_from :: "'m \<Rightarrow> 'k \<Rightarrow> ('k \<times> 'v) option"
  assumes ok_insert: "ok m \<Longrightarrow> ok (insert k v m)"
    and ok_remove: "ok m \<Longrightarrow> ok (remove k m)"
    and get_insert: "ok m \<Longrightarrow> get (insert k v m) = (get m)(k \<mapsto> v)"
    and get_remove: "ok m \<Longrightarrow> get (remove k m) = (get m)(k := None)"
    and last_upto_Some: "ok m \<Longrightarrow> last_upto m k = Some (a, b) \<longleftrightarrow>
      get m a = Some b \<and> a \<le> k \<and> (\<forall>c. get m c \<noteq> None \<longrightarrow> c \<le> k \<longrightarrow> c \<le> a)"
    and last_upto_None: "ok m \<Longrightarrow> last_upto m k = None \<longleftrightarrow> (\<forall>c. get m c \<noteq> None \<longrightarrow> k < c)"
    and last_below_Some: "ok m \<Longrightarrow> last_below m k = Some (a, b) \<longleftrightarrow>
      get m a = Some b \<and> a < k \<and> (\<forall>c. get m c \<noteq> None \<longrightarrow> c < k \<longrightarrow> c \<le> a)"
    and last_below_None: "ok m \<Longrightarrow> last_below m k = None \<longleftrightarrow> (\<forall>c. get m c \<noteq> None \<longrightarrow> k \<le> c)"
    and first_from_Some: "ok m \<Longrightarrow> first_from m k = Some (a, b) \<longleftrightarrow>
      get m a = Some b \<and> k \<le> a \<and> (\<forall>c. get m c \<noteq> None \<longrightarrow> k \<le> c \<longrightarrow> a \<le> c)"
    and first_from_None: "ok m \<Longrightarrow> first_from m k = None \<longleftrightarrow> (\<forall>c. get m c \<noteq> None \<longrightarrow> c < k)"

section \<open>Maps of disjoint intervals\<close>

text \<open>
  A map from starts to exclusive ends: the points it covers, disjointness
  (\<open>apart\<close>), and disjointness without adjacency (\<open>spaced\<close>), in which case the
  representation of a set of points is unique.
\<close>

definition cells :: "('k :: linorder \<Rightarrow> 'k option) \<Rightarrow> 'k set" where
  "cells g = {x. \<exists>a b. g a = Some b \<and> a \<le> x \<and> x < b}"

definition apart :: "('k :: linorder \<Rightarrow> 'k option) \<Rightarrow> bool" where
  "apart g \<longleftrightarrow> (\<forall>a b. g a = Some b \<longrightarrow> a < b) \<and>
     (\<forall>a b c d. g a = Some b \<longrightarrow> g c = Some d \<longrightarrow> a < c \<longrightarrow> b \<le> c)"

definition spaced :: "('k :: linorder \<Rightarrow> 'k option) \<Rightarrow> bool" where
  "spaced g \<longleftrightarrow> (\<forall>a b. g a = Some b \<longrightarrow> a < b) \<and>
     (\<forall>a b c d. g a = Some b \<longrightarrow> g c = Some d \<longrightarrow> a < c \<longrightarrow> b < c)"

lemma spaced_apart: "spaced g \<Longrightarrow> apart g"
  by (auto simp: spaced_def apart_def intro: less_imp_le)

lemma cells_empty [simp]: "cells (\<lambda>_. None) = {}"
  by (simp add: cells_def)

lemma spaced_empty [simp]: "spaced (\<lambda>_. None)"
  by (simp add: spaced_def)

lemma apart_empty [simp]: "apart (\<lambda>_. None)"
  by (simp add: apart_def)

lemma extent_subset_cells: "g a = Some b \<Longrightarrow> {a..<b} \<subseteq> cells g"
  unfolding cells_def atLeastLessThan_iff subset_iff mem_Collect_eq by blast

lemma apart_unique:
  assumes "apart g" "g a = Some b" "a \<le> x" "x < b" "g c = Some d" "c \<le> x" "x < d"
  shows "a = c"
  using assms unfolding apart_def by (metis leD le_less_trans linorder_cases)

lemma cells_remove:
  assumes "apart g" "g a = Some b"
  shows "cells (g(a := None)) = cells g - {a..<b}"
proof (intro set_eqI iffI)
  fix x assume "x \<in> cells (g(a := None))"
  then obtain c d where c: "c \<noteq> a" "g c = Some d" "c \<le> x" "x < d"
    by (auto simp: cells_def split: if_splits)
  moreover have "\<not> (a \<le> x \<and> x < b)"
    using apart_unique [OF assms(1) c(2-4)] assms(2) c(1) by blast
  ultimately show "x \<in> cells g - {a..<b}" by (auto simp: cells_def)
next
  fix x assume "x \<in> cells g - {a..<b}"
  then obtain c d where "g c = Some d" "c \<le> x" "x < d" "x \<notin> {a..<b}"
    by (auto simp: cells_def)
  moreover from this assms(2) have "c \<noteq> a" by auto
  ultimately show "x \<in> cells (g(a := None))" by (auto simp: cells_def)
qed

lemma cells_insert: "g s = None \<Longrightarrow> cells (g(s \<mapsto> e)) = cells g \<union> {s..<e}"
  by (auto simp: cells_def split: if_splits)

lemma spaced_remove: "spaced g \<Longrightarrow> spaced (g(a := None))"
  by (auto simp: spaced_def)

lemma apart_remove: "apart g \<Longrightarrow> apart (g(a := None))"
  by (auto simp: apart_def)

lemma spaced_insert:
  assumes "spaced g" "s < e" "\<And>a b. g a = Some b \<Longrightarrow> a \<noteq> s \<Longrightarrow> b < s \<or> e < a"
  shows "spaced (g(s \<mapsto> e))"
  unfolding spaced_def
proof (intro conjI allI impI)
  fix a b assume "(g(s \<mapsto> e)) a = Some b"
  with assms(1,2) show "a < b" by (auto simp: spaced_def split: if_splits)
next
  fix a b c d
  assume ac: "(g(s \<mapsto> e)) a = Some b" "(g(s \<mapsto> e)) c = Some d" "a < c"
  consider "a = s" | "c = s" "a \<noteq> s" | "a \<noteq> s" "c \<noteq> s" by blast
  then show "b < c"
  proof cases
    case 1
    with ac have "c \<noteq> s" "b = e" "g c = Some d" by (auto split: if_splits)
    moreover from this assms(1,3) have "d < s \<or> e < c" "c < d" by (auto simp: spaced_def)
    ultimately show ?thesis using 1 ac(3) by auto
  next
    case 2
    with ac assms(3) have "b < s \<or> e < a" by simp
    with 2 ac(3) assms(2) show ?thesis by auto
  next
    case 3
    with ac assms(1) show ?thesis by (auto simp: spaced_def)
  qed
qed

lemma apart_sep:
  assumes "apart g" "s < e" "{s..<e} \<inter> cells g = {}" "g a = Some b"
  shows "b \<le> s \<or> e \<le> a"
proof (rule ccontr)
  assume "\<not> (b \<le> s \<or> e \<le> a)"
  then have "max a s \<in> {s..<e}" "a \<le> max a s" "max a s < b"
    using assms(1,2,4) by (auto simp: apart_def max_def)
  moreover from this assms(4) have "max a s \<in> cells g" unfolding cells_def by blast
  ultimately show False using assms(3) by blast
qed

lemma apart_insert:
  assumes "apart g" "s < e" "{s..<e} \<inter> cells g = {}"
  shows "apart (g(s \<mapsto> e))"
proof -
  note sep = apart_sep [OF assms]
  show ?thesis
    unfolding apart_def
  proof (intro conjI allI impI)
    fix a b assume "(g(s \<mapsto> e)) a = Some b"
    with assms(1,2) show "a < b" by (auto simp: apart_def split: if_splits)
  next
    fix a b c d
    assume ac: "(g(s \<mapsto> e)) a = Some b" "(g(s \<mapsto> e)) c = Some d" "a < c"
    show "b \<le> c"
    proof (cases "a = s")
      case True
      with ac have "c \<noteq> s" "b = e" "g c = Some d" by (auto split: if_splits)
      moreover from this sep assms(1) have "d \<le> s \<or> e \<le> c" "c < d" by (auto simp: apart_def)
      ultimately show ?thesis using True ac(3) by auto
    next
      case False
      with ac have ga: "g a = Some b" by simp
      show ?thesis
      proof (cases "c = s")
        case True
        with sep [OF ga] assms(2) ac(3) show ?thesis by auto
      next
        case False
        with ga ac assms(1) show ?thesis by (auto simp: apart_def)
      qed
    qed
  qed
qed

text \<open>What the neighbours of a range tell a client that keeps intervals in the map.\<close>

locale interval_map = ordered_map ok get
  for ok :: "'i \<Rightarrow> bool" and get :: "'i \<Rightarrow> 'p :: linorder \<Rightarrow> 'p option"
begin

lemma neighbour_contains:
  assumes "ok m" "spaced (get m)" "s < e"
  shows "(\<exists>a b. last_upto m s = Some (a, b) \<and> e \<le> b) \<longleftrightarrow> {s..<e} \<subseteq> cells (get m)"
proof
  assume "\<exists>a b. last_upto m s = Some (a, b) \<and> e \<le> b"
  then obtain a b where "get m a = Some b" "a \<le> s" "e \<le> b"
    using last_upto_Some [OF assms(1)] by blast
  then show "{s..<e} \<subseteq> cells (get m)"
    unfolding cells_def by fastforce
next
  assume sub: "{s..<e} \<subseteq> cells (get m)"
  with assms(3) obtain a b where ab: "get m a = Some b" "a \<le> s" "s < b"
    by (auto simp: cells_def subset_iff)
  have "e \<le> b"
  proof (rule ccontr)
    assume "\<not> e \<le> b"
    with ab have "b \<in> {s..<e}" by auto
    with sub have "b \<in> cells (get m)" by blast
    then obtain c d where cd: "get m c = Some d" "c \<le> b" "b < d"
      unfolding cells_def by blast
    with ab assms(2) have "a < c \<Longrightarrow> b < c" "c < a \<Longrightarrow> d < a" "c = a \<Longrightarrow> d = b"
      by (auto simp: spaced_def)
    with ab cd show False by (cases a c rule: linorder_cases) auto
  qed
  moreover have "last_upto m s = Some (a, b)"
  proof -
    have "c \<le> a" if "get m c \<noteq> None" "c \<le> s" for c
    proof (rule ccontr)
      assume "\<not> c \<le> a"
      with that ab assms(2) have "b < c" by (auto simp: spaced_def)
      with that ab show False by simp
    qed
    with ab show ?thesis unfolding last_upto_Some [OF assms(1)] by blast
  qed
  ultimately show "\<exists>a b. last_upto m s = Some (a, b) \<and> e \<le> b" by blast
qed

lemma neighbours_disjoint:
  assumes "ok m" "apart (get m)" "s < e"
  shows "\<not> is_some_and (last_upto m s) (\<lambda>(a, b). s < b) \<and>
         \<not> is_some_and (first_from m s) (\<lambda>(a, b). a < e) \<longleftrightarrow> {s..<e} \<inter> cells (get m) = {}"
    (is "?none \<longleftrightarrow> ?dis")
proof
  assume none: ?none
  show ?dis
  proof (rule ccontr)
    assume "\<not> ?dis"
    then obtain x a b where x: "s \<le> x" "x < e" "get m a = Some b" "a \<le> x" "x < b"
      by (auto simp: cells_def)
    show False
    proof (cases "a \<le> s")
      case True
      with x obtain a' b' where n: "last_upto m s = Some (a', b')"
        using last_upto_None [OF assms(1), of s] by (cases "last_upto m s") force+
      then have "get m a' = Some b'" "a' \<le> s" "a \<le> a'"
        using last_upto_Some [OF assms(1)] x True by force+
      moreover from n none have "b' \<le> s" by (simp add: not_less)
      moreover have "a < a' \<Longrightarrow> b \<le> a'"
        using x(3) \<open>get m a' = Some b'\<close> assms(2) by (auto simp: apart_def)
      ultimately have "b \<le> s"
        using x(3) by (cases "a = a'") (auto dest: order.not_eq_order_implies_strict)
      with x show False by auto
    next
      case False
      with x obtain a' b' where n: "first_from m s = Some (a', b')"
        using first_from_None [OF assms(1), of s] by (cases "first_from m s") force+
      then have "a' \<le> a"
        using first_from_Some [OF assms(1)] x False by force
      with n none x show False by auto
    qed
  qed
next
  assume dis: ?dis
  have "\<not> s < b" if "last_upto m s = Some (a, b)" for a b
  proof
    assume "s < b"
    moreover from that have "get m a = Some b" "a \<le> s"
      using last_upto_Some [OF assms(1)] by blast+
    ultimately have "s \<in> {s..<e} \<inter> cells (get m)"
      using assms(3) by (auto simp: cells_def)
    with dis show False by blast
  qed
  moreover have "\<not> a < e" if f: "first_from m s = Some (a, b)" for a b
  proof
    assume "a < e"
    from f have "get m a = Some b" "s \<le> a"
      using first_from_Some [OF assms(1)] by blast+
    with \<open>a < e\<close> assms(2) have "a \<in> {s..<e} \<inter> cells (get m)"
      by (auto simp: cells_def apart_def)
    with dis show False by blast
  qed
  ultimately show ?none by (auto simp: is_some_and_iff)
qed

lemma last_below_eq_upto: "ok m \<Longrightarrow> get m s = None \<Longrightarrow> last_below m s = last_upto m s"
proof (cases "last_upto m s")
  case None
  assume "ok m" "get m s = None"
  with None show ?thesis
    using last_upto_None last_below_None by (metis less_imp_le)
next
  case (Some p)
  assume "ok m" "get m s = None"
  with Some show ?thesis
    using last_upto_Some [of m s "fst p" "snd p"] last_below_Some [of m s "fst p" "snd p"]
    by (metis order_le_less not_None_eq prod.collapse)
qed

end

section \<open>The association lists meet it\<close>

lemma om_ok_Nil [simp]: "om_ok []"
  by (simp add: om_ok_def)

lemma om_ok_Cons: "om_ok ((a, b) # m) \<longleftrightarrow> (\<forall>(c, d) \<in> set m. a < c) \<and> om_ok m"
  by (auto simp: om_ok_def)

lemma om_get_simps [simp]:
  "om_get [] k = None"
  "om_get ((a, b) # m) k = (if k = a then Some b else om_get m k)"
  by (auto simp: om_get_def)

lemma om_get_Some_set: "om_ok m \<Longrightarrow> om_get m k = Some v \<longleftrightarrow> (k, v) \<in> set m"
  by (induction m) (auto simp: om_ok_Cons split: if_splits)

lemma om_get_None_set: "om_get m k = None \<longleftrightarrow> (\<forall>v. (k, v) \<notin> set m)"
  by (induction m) (auto split: if_splits)

lemma om_dom: "om_get m k \<noteq> None \<longleftrightarrow> (\<exists>v. (k, v) \<in> set m)"
  by (simp add: om_get_None_set)

lemma set_om_insert: "set (om_insert k v m) \<subseteq> insert (k, v) (set m)"
  by (induction k v m rule: om_insert.induct) auto

lemma om_ok_insert: "om_ok m \<Longrightarrow> om_ok (om_insert k v m)"
proof (induction k v m rule: om_insert.induct)
  case (1 k v)
  then show ?case by (simp add: om_ok_def)
next
  case (2 k v a b m)
  then show ?case
    using set_om_insert [of k v m] by (fastforce simp: om_ok_Cons)
qed

lemma om_get_insert: "om_get (om_insert k v m) = (om_get m)(k \<mapsto> v)" if "om_ok m"
  using that
  by (induction k v m rule: om_insert.induct) (auto simp: om_ok_Cons fun_eq_iff)

lemma om_ok_remove: "om_ok m \<Longrightarrow> om_ok (om_remove k m)"
  by (auto simp: om_ok_def om_remove_def sorted_wrt_map sorted_wrt_filter)

lemma om_get_remove: "om_get (om_remove k m) = (om_get m)(k := None)"
  by (induction m) (auto simp: om_remove_def fun_eq_iff)

lemma last_opt_snoc [simp]: "last_opt (xs @ [x]) = Some x"
  by (induction xs rule: last_opt.induct) simp_all

lemma last_opt_None [simp]: "last_opt xs = None \<longleftrightarrow> xs = []"
  by (induction xs rule: last_opt.induct) simp_all

lemma last_opt_Some_sorted:
  assumes "sorted_wrt (<) (map fst m)"
  shows "last_opt m = Some (a :: 'k :: linorder, b) \<longleftrightarrow> (a, b) \<in> set m \<and> (\<forall>(c, d) \<in> set m. c \<le> a)"
  using assms
proof (induction m rule: last_opt.induct)
  case 1
  then show ?case by simp
next
  case (2 x)
  then show ?case by (cases x) auto
next
  case (3 x y xs)
  then show ?case by (cases x; cases y) (fastforce simp: not_le)
qed

lemma find_Some_sorted:
  assumes "sorted_wrt (<) (map fst m)"
  shows "find (\<lambda>(a, b). k \<le> a) m = Some (a :: 'k :: linorder, b) \<longleftrightarrow>
    (a, b) \<in> set m \<and> k \<le> a \<and> (\<forall>(c, d) \<in> set m. k \<le> c \<longrightarrow> a \<le> c)"
  using assms
proof (induction m)
  case Nil
  then show ?case by simp
next
  case (Cons x m)
  obtain c d where x: "x = (c, d)" by (cases x)
  with Cons.prems have above: "(e, f) \<in> set m \<Longrightarrow> c < e" for e f
    by force
  show ?case
  proof (cases "k \<le> c")
    case True
    with x show ?thesis by (force dest: above)
  next
    case False
    with x Cons show ?thesis by auto
  qed
qed

lemma sorted_filter_fst: "om_ok m \<Longrightarrow> sorted_wrt (<) (map fst (filter p m))"
  by (simp add: om_ok_def sorted_wrt_map sorted_wrt_filter)

interpretation om: ordered_map om_ok om_get om_insert om_remove om_last_upto om_last_below om_first_from
proof (unfold_locales, goal_cases)
  case 1 then show ?case by (rule om_ok_insert)
next
  case 2 then show ?case by (rule om_ok_remove)
next
  case 3 then show ?case by (rule om_get_insert)
next
  case 4 show ?case by (rule om_get_remove)
next
  case (5 m k a b)
  then show ?case
    unfolding om_last_upto_def last_opt_Some_sorted [OF sorted_filter_fst [OF 5]]
      om_get_Some_set [OF 5] om_dom
    by fastforce
next
  case (6 m k)
  show ?case
    unfolding om_last_upto_def last_opt_None filter_empty_conv om_dom by fastforce
next
  case (7 m k a b)
  then show ?case
    unfolding om_last_below_def last_opt_Some_sorted [OF sorted_filter_fst [OF 7]]
      om_get_Some_set [OF 7] om_dom
    by fastforce
next
  case (8 m k)
  show ?case
    unfolding om_last_below_def last_opt_None filter_empty_conv om_dom by fastforce
next
  case (9 m k a b)
  then have s: "sorted_wrt (<) (map fst m)" by (simp add: om_ok_def)
  show ?case
    unfolding om_first_from_def find_Some_sorted [OF s] om_get_Some_set [OF 9] om_dom
    by fastforce
next
  case (10 m k)
  show ?case
    unfolding om_first_from_def find_None_iff om_dom by fastforce
qed

interpretation oi: interval_map om_insert om_remove om_last_upto om_last_below om_first_from om_ok om_get
  by unfold_locales

section \<open>Sums over a map\<close>

definition om_sum :: "('v \<Rightarrow> nat) \<Rightarrow> ('k, 'v) omap \<Rightarrow> nat" where
  "om_sum f m = (\<Sum>(k, v) \<leftarrow> m. f v)"

lemma om_sum_Nil [simp]: "om_sum f [] = 0"
  by (simp add: om_sum_def)

lemma om_sum_Cons [simp]: "om_sum f ((k, v) # m) = f v + om_sum f m"
  by (simp add: om_sum_def)

lemma om_sum_insert_new: "om_ok m \<Longrightarrow> om_get m k = None \<Longrightarrow> om_sum f (om_insert k v m) = f v + om_sum f m"
  by (induction k v m rule: om_insert.induct) (auto simp: om_ok_Cons split: if_splits)

lemma om_get_Cons_greater: "om_ok ((a, b) # m) \<Longrightarrow> k < a \<Longrightarrow> om_get m k = None"
  by (fastforce simp: om_ok_Cons om_get_None_set)

lemma om_sum_insert_old:
  "om_ok m \<Longrightarrow> om_get m k = Some w \<Longrightarrow> om_sum f (om_insert k v m) + f w = f v + om_sum f m"
proof (induction k v m rule: om_insert.induct)
  case (2 k v a b m)
  then show ?case using om_get_Cons_greater [of a b m k] by (auto simp: om_ok_Cons split: if_splits)
qed simp

lemma om_remove_absent: "om_get m k = None \<Longrightarrow> om_remove k m = m"
  by (induction m) (auto simp: om_remove_def split: if_splits)

lemma om_sum_remove: "om_ok m \<Longrightarrow> om_get m k = Some w \<Longrightarrow> om_sum f (om_remove k m) + f w = om_sum f m"
proof (induction m)
  case (Cons ab m)
  obtain a b where ab: "ab = (a, b)" by (cases ab)
  have "om_get m a = None" using Cons.prems(1) by (force simp: ab om_ok_Cons om_get_None_set)
  from om_remove_absent [OF this] Cons show ?case
    by (auto simp: ab om_ok_Cons om_remove_def split: if_splits)
qed simp

lemma om_sum_ge: "om_get m k = Some w \<Longrightarrow> f w \<le> om_sum f m"
  by (induction m) (auto split: if_splits)

lemma om_length_sum: "length m = om_sum (\<lambda>v. 1) m"
  by (induction m) auto

section \<open>Separated extents, as a list\<close>

fun separated :: "(nat \<times> nat) list \<Rightarrow> bool" where
  "separated [] \<longleftrightarrow> True"
| "separated [(s, e)] \<longleftrightarrow> s < e"
| "separated ((s, e) # (s', e') # m) \<longleftrightarrow> s < e \<and> e < s' \<and> separated ((s', e') # m)"

definition extent_total :: "(nat \<times> nat) list \<Rightarrow> nat" where
  "extent_total m = sum_list (map (\<lambda>(s, e). e - s) m)"

lemma separated_Cons:
  "separated ((s, e) # m) \<longleftrightarrow> s < e \<and> (\<forall>(a, b) \<in> set m. e < a) \<and> separated m"
proof (induction m arbitrary: s e)
  case (Cons p m)
  then show ?case by (cases p) fastforce
qed simp

lemma spaced_Cons:
  assumes "om_ok ((s, e) # m)"
  shows "spaced (om_get ((s, e) # m)) \<longleftrightarrow>
    s < e \<and> (\<forall>a b. om_get m a = Some b \<longrightarrow> e < a) \<and> spaced (om_get m)"
proof -
  have fresh: "om_get m s = None" and above: "\<And>a b. om_get m a = Some b \<Longrightarrow> s < a"
    using assms om_get_Some_set [of m] by (auto simp: om_ok_Cons om_get_None_set)
  have get: "om_get ((s, e) # m) = (om_get m)(s \<mapsto> e)" by (simp add: fun_eq_iff)
  have rest: "om_get m = (om_get ((s, e) # m))(s := None)" using fresh by (auto simp: fun_eq_iff)
  show ?thesis
  proof
    assume sp: "spaced (om_get ((s, e) # m))"
    then have "spaced (om_get m)" by (subst rest) (rule spaced_remove)
    moreover have "s < e" "\<And>a b. om_get m a = Some b \<Longrightarrow> e < a"
      using sp above unfolding get spaced_def
      by (metis fun_upd_same, metis fun_upd_other fun_upd_same less_irrefl)
    ultimately show "s < e \<and> (\<forall>a b. om_get m a = Some b \<longrightarrow> e < a) \<and> spaced (om_get m)"
      by blast
  next
    assume "s < e \<and> (\<forall>a b. om_get m a = Some b \<longrightarrow> e < a) \<and> spaced (om_get m)"
    then show "spaced (om_get ((s, e) # m))"
      unfolding get by (intro spaced_insert) auto
  qed
qed

lemma separated_iff: "separated m \<longleftrightarrow> om_ok m \<and> spaced (om_get m)"
proof (induction m)
  case Nil
  have "om_get ([] :: (nat, nat) omap) = (\<lambda>_. None)" by (simp add: fun_eq_iff)
  then show ?case by simp
next
  case (Cons p m)
  obtain s e where p: "p = (s, e)" by (cases p)
  show ?case
  proof (cases "om_ok (p # m)")
    case True
    with Cons show ?thesis
      unfolding p separated_Cons spaced_Cons [OF True [unfolded p]]
      by (auto simp: om_ok_Cons om_get_Some_set)
  next
    case False
    have "\<not> separated (p # m)"
    proof
      assume "separated (p # m)"
      with Cons False show False by (fastforce simp: p separated_Cons om_ok_Cons)
    qed
    with False show ?thesis by simp
  qed
qed

lemma cells_Cons:
  assumes "separated ((s, e) # m)"
  shows "cells (om_get ((s, e) # m)) = {s..<e} \<union> cells (om_get m)"
    "{s..<e} \<inter> cells (om_get m) = {}"
proof -
  have sep: "\<forall>(a, b) \<in> set m. e < a" and ok: "om_ok m" "s < e"
    using assms separated_iff [of m] by (auto simp: separated_Cons)
  have "om_get m s = None"
    using sep ok by (auto simp: om_get_None_set)
  moreover have "om_get ((s, e) # m) = (om_get m)(s \<mapsto> e)" by (auto simp: fun_eq_iff)
  ultimately show "cells (om_get ((s, e) # m)) = {s..<e} \<union> cells (om_get m)"
    by (simp add: cells_insert Un_commute)
  show "{s..<e} \<inter> cells (om_get m) = {}"
    using sep by (fastforce simp: cells_def om_get_Some_set [OF ok(1)])
qed

lemma cells_finite_card:
  "separated m \<Longrightarrow> finite (cells (om_get m)) \<and> card (cells (om_get m)) = extent_total m"
proof (induction m)
  case Nil
  have "om_get ([] :: (nat, nat) omap) = (\<lambda>_. None)" by (simp add: fun_eq_iff)
  then show ?case by (simp add: extent_total_def)
next
  case (Cons p m)
  obtain s e where p: "p = (s, e)" by (cases p)
  have "separated m" "s < e" using Cons.prems by (simp_all add: p separated_Cons)
  with Cons show ?case
    unfolding p cells_Cons(1) [OF Cons.prems [unfolded p]]
    using cells_Cons(2) [OF Cons.prems [unfolded p]]
    by (simp add: extent_total_def card_Un_disjoint)
qed

lemma upto_subset_iff: "s < e \<Longrightarrow> {s..<e} \<subseteq> {..<L :: nat} \<longleftrightarrow> e \<le> L"
proof
  assume "s < e" "{s..<e} \<subseteq> {..<L}"
  then have "e - 1 \<in> {..<L}" by (auto dest: subsetD [of _ _ "e - 1"])
  then show "e \<le> L" by auto
qed auto

lemma cells_bound:
  "separated m \<Longrightarrow> cells (om_get m) \<subseteq> {..<L} \<longleftrightarrow> (\<forall>(a, b) \<in> set m. b \<le> L)"
proof (induction m)
  case Nil
  have "om_get ([] :: (nat, nat) omap) = (\<lambda>_. None)" by (simp add: fun_eq_iff)
  then show ?case by simp
next
  case (Cons p m)
  obtain s e where p: "p = (s, e)" by (cases p)
  have "s < e" using Cons.prems by (simp add: p separated_Cons)
  then have "{s..<e} \<subseteq> {..<L} \<longleftrightarrow> e \<le> L"
    by (rule upto_subset_iff)
  with Cons show ?case
    unfolding p cells_Cons(1) [OF Cons.prems [unfolded p]] by (simp add: separated_Cons)
qed

lemma separated_last:
  "separated (m @ [(s, e)]) \<longleftrightarrow>
   separated m \<and> s < e \<and> \<not> is_some_and (map_option snd (last_opt m)) (\<lambda>previous. s \<le> previous)"
proof (induction m rule: separated.induct)
  case (2 a b)
  then show ?case by auto
next
  case (3 a b a' b' m)
  then show ?case by simp
qed simp

lemma om_insert_last:
  "\<forall>(a, b) \<in> set m. a < s \<Longrightarrow> om_insert s e m = m @ [(s, e)]"
  by (induction s e m rule: om_insert.induct) auto

lemma separated_snoc_keys: "separated (m @ [(s, e)]) \<Longrightarrow> \<forall>(a, b) \<in> set m. a < s"
  by (induction m) (fastforce simp: separated_Cons)+

lemma separated_append: "separated (xs @ ys) \<Longrightarrow> separated xs"
  by (induction xs) (auto simp: separated_Cons)

end
