(* ===== verification/Coverage.thy ===== *)
theory Coverage
  imports Ordered_Map
begin

text \<open>
  The bookkeeping of accepted byte ranges, \<open>crates/vot-coverage/src/lib.rs\<close>. The
  struct \<open>Coverage\<close> is the record \<open>coverage\<close>, its two \<open>BTreeMap\<close>s ordered maps
  from an extent's start to its exclusive end. A \<open>Booking\<close> borrows its coverage, so
  \<open>booking_commit\<close> takes the coverage it was checked against; a \<open>Reservation\<close> is a
  value that can be handed back once, which \<open>coverage_step\<close> models by serving only
  ranges that are reserved.

  The abstraction is the set of covered offsets (\<open>covered\<close>) and of offsets held by
  reservations (\<open>held\<close>); \<open>coverage_inv\<close> ties the record to it.
\<close>

section \<open>Data\<close>

definition MAX_FRAGMENTS :: nat where "MAX_FRAGMENTS = 4096"

definition FRAGMENT_PER_BYTES :: nat where "FRAGMENT_PER_BYTES = 8 * 1024 * 1024"

datatype coverage_error =
  EmptyRange | LengthExceeded | PartialOverlap | ReservedOverlap | FragmentsExhausted

record booking =
  bk_offset :: nat
  bk_end :: nat
  bk_next_bytes :: nat

datatype check_outcome = Replay | NewRange booking

record reservation =
  rs_offset :: nat
  rs_end :: nat

datatype reserve_outcome = ReserveReplay | ReserveNew reservation

record coverage =
  extents :: "(nat, nat) omap"
  reserved :: "(nat, nat) omap"
  cov_bytes :: nat
  cov_limit :: nat

section \<open>Operations\<close>

definition fragment_limit :: "nat \<Rightarrow> nat" where
  "fragment_limit object_len = max (object_len div FRAGMENT_PER_BYTES) MAX_FRAGMENTS"

definition new_coverage :: coverage where
  "new_coverage = \<lparr>extents = [], reserved = [], cov_bytes = 0, cov_limit = MAX_FRAGMENTS\<rparr>"

definition for_object :: "nat \<Rightarrow> coverage" where
  "for_object object_len =
     \<lparr>extents = [], reserved = [], cov_bytes = 0, cov_limit = fragment_limit object_len\<rparr>"

definition overlaps :: "(nat, nat) omap \<Rightarrow> nat \<Rightarrow> nat \<Rightarrow> bool" where
  "overlaps m covered_offset covered_end \<longleftrightarrow>
     is_some_and (om_last_below m covered_offset) (\<lambda>(_, e). covered_offset < e) \<or>
     is_some_and (om_first_from m covered_offset) (\<lambda>(a, _). a < covered_end)"

definition check :: "coverage \<Rightarrow> nat \<Rightarrow> nat \<Rightarrow> coverage_error + check_outcome" where
  "check c covered_offset n =
    (if n = 0 then Inl EmptyRange
     else and_then (ok_or (checked_add covered_offset n) LengthExceeded) (\<lambda>covered_end.
       let earlier = om_last_upto (extents c) covered_offset in
       if is_some_and earlier (\<lambda>(_, e). covered_end \<le> e) then Inr Replay
       else
         let later = om_first_from (extents c) covered_offset in
         if is_some_and earlier (\<lambda>(_, e). covered_offset < e) \<or>
            is_some_and later (\<lambda>(a, _). a < covered_end) then Inl PartialOverlap
         else if overlaps (reserved c) covered_offset covered_end then Inl ReservedOverlap
         else and_then (ok_or (checked_add (cov_bytes c) n) LengthExceeded) (\<lambda>next_bytes.
           let merges_earlier = is_some_and earlier (\<lambda>(_, e). e = covered_offset);
               merges_later = is_some_and later (\<lambda>(a, _). a = covered_end) in
           if \<not> merges_earlier \<and> \<not> merges_later \<and>
              cov_limit c \<le> length (extents c) + length (reserved c)
           then Inl FragmentsExhausted
           else Inr (NewRange \<lparr>bk_offset = covered_offset, bk_end = covered_end,
                               bk_next_bytes = next_bytes\<rparr>))))"

definition insert_coalesced :: "(nat, nat) omap \<Rightarrow> nat \<Rightarrow> nat \<Rightarrow> (nat, nat) omap" where
  "insert_coalesced m covered_offset covered_end =
    (let (m1, start) =
       (case om_last_below m covered_offset of
          Some (earlier_start, earlier_end) \<Rightarrow>
            if earlier_end = covered_offset then (om_remove earlier_start m, earlier_start)
            else (m, covered_offset)
        | None \<Rightarrow> (m, covered_offset));
      (m2, stop) =
       (case om_get m1 covered_end of
          Some later_end \<Rightarrow> (om_remove covered_end m1, later_end)
        | None \<Rightarrow> (m1, covered_end))
     in om_insert start stop m2)"

definition booking_commit :: "coverage \<Rightarrow> booking \<Rightarrow> coverage" where
  "booking_commit c b =
     c\<lparr>cov_bytes := bk_next_bytes b,
       extents := insert_coalesced (extents c) (bk_offset b) (bk_end b)\<rparr>"

definition covered_bytes :: "coverage \<Rightarrow> nat" where
  "covered_bytes c = cov_bytes c"

definition contiguous_prefix :: "coverage \<Rightarrow> nat" where
  "contiguous_prefix c = (case om_get (extents c) 0 of Some e \<Rightarrow> e | None \<Rightarrow> 0)"

definition is_complete :: "coverage \<Rightarrow> nat \<Rightarrow> bool" where
  "is_complete c len \<longleftrightarrow> cov_bytes c = len"

definition runs :: "coverage \<Rightarrow> (nat \<times> nat) list" where
  "runs c = map (\<lambda>(s, e). (s, e - s)) (extents c)"

text \<open>The loop of \<open>from_runs\<close>: the state is the index, the extents and bytes so far and
  the end of the previous run.\<close>

fun from_runs_loop ::
  "nat \<Rightarrow> nat \<Rightarrow> nat \<Rightarrow> (nat, nat) omap \<Rightarrow> nat \<Rightarrow> nat option \<Rightarrow> (nat \<times> nat) list \<Rightarrow>
   coverage_error + (nat, nat) omap \<times> nat" where
  "from_runs_loop object_len limit index ext n previous_end [] = Inr (ext, n)"
| "from_runs_loop object_len limit index ext n previous_end ((off, len) # rs) =
    (if limit \<le> index then Inl FragmentsExhausted
     else if len = 0 then Inl EmptyRange
     else and_then (ok_or (checked_add off len) LengthExceeded) (\<lambda>e.
       if object_len < e then Inl LengthExceeded
       else if is_some_and previous_end (\<lambda>previous. off \<le> previous) then Inl PartialOverlap
       else from_runs_loop object_len limit (index + 1) (om_insert off e ext)
              (wrapping_add n len) (Some e) rs))"

definition from_runs :: "nat \<Rightarrow> (nat \<times> nat) list \<Rightarrow> coverage_error + coverage" where
  "from_runs object_len rs =
    (let limit = fragment_limit object_len in
     and_then (from_runs_loop object_len limit 0 [] 0 None rs) (\<lambda>(ext, n).
       Inr \<lparr>extents = ext, reserved = [], cov_bytes = n, cov_limit = limit\<rparr>))"

definition reserve :: "coverage \<Rightarrow> nat \<Rightarrow> nat \<Rightarrow> coverage_error + coverage \<times> reserve_outcome" where
  "reserve c covered_offset n =
    and_then (check c covered_offset n) (\<lambda>outcome.
      case outcome of
        Replay \<Rightarrow> Inr (c, ReserveReplay)
      | NewRange b \<Rightarrow>
          Inr (c\<lparr>reserved := om_insert covered_offset (bk_end b) (reserved c)\<rparr>,
               ReserveNew \<lparr>rs_offset = covered_offset, rs_end = bk_end b\<rparr>))"

definition commit_reservation :: "coverage \<Rightarrow> reservation \<Rightarrow> coverage" where
  "commit_reservation c r =
     c\<lparr>reserved := om_remove (rs_offset r) (reserved c),
       cov_bytes := saturating_add (cov_bytes c) (rs_end r - rs_offset r),
       extents := insert_coalesced (extents c) (rs_offset r) (rs_end r)\<rparr>"

definition release_reservation :: "coverage \<Rightarrow> reservation \<Rightarrow> coverage" where
  "release_reservation c r = c\<lparr>reserved := om_remove (rs_offset r) (reserved c)\<rparr>"

text \<open>One call of a client. A reservation can only be handed back while it is outstanding.\<close>

datatype coverage_op =
    CheckAndCommit nat nat
  | Reserve nat nat
  | CommitReservation reservation
  | ReleaseReservation reservation

fun coverage_step :: "coverage \<Rightarrow> coverage_op \<Rightarrow> coverage" where
  "coverage_step c (CheckAndCommit off n) =
     (case check c off n of Inr (NewRange b) \<Rightarrow> booking_commit c b | _ \<Rightarrow> c)"
| "coverage_step c (Reserve off n) =
     (case reserve c off n of Inr (c', _) \<Rightarrow> c' | Inl _ \<Rightarrow> c)"
| "coverage_step c (CommitReservation r) =
     (if om_get (reserved c) (rs_offset r) = Some (rs_end r) then commit_reservation c r else c)"
| "coverage_step c (ReleaseReservation r) =
     (if om_get (reserved c) (rs_offset r) = Some (rs_end r) then release_reservation c r else c)"

section \<open>Abstraction and invariant\<close>

definition covered :: "coverage \<Rightarrow> nat set" where
  "covered c = cells (om_get (extents c))"

definition held :: "coverage \<Rightarrow> nat set" where
  "held c = cells (om_get (reserved c))"

definition coverage_inv :: "coverage \<Rightarrow> bool" where
  "coverage_inv c \<longleftrightarrow>
     om_ok (extents c) \<and> spaced (om_get (extents c)) \<and>
     om_ok (reserved c) \<and> apart (om_get (reserved c)) \<and>
     covered c \<inter> held c = {} \<and> covered c \<union> held c \<subseteq> {..<u64_max} \<and>
     cov_bytes c = card (covered c)"

section \<open>Coalescing\<close>


text \<open>Joining a new range with the extent that ends where it starts.\<close>

lemma join_earlier:
  assumes "om_ok m" "spaced (om_get m)" "s < e" "{s..<e} \<inter> cells (om_get m) = {}"
  obtains m1 start where
    "(case om_last_below m s of
        Some (a, b) \<Rightarrow> if b = s then (om_remove a m, a) else (m, s)
      | None \<Rightarrow> (m, s)) = (m1, start)"
    "om_ok m1" "spaced (om_get m1)" "start \<le> s"
    "cells (om_get m) = cells (om_get m1) \<union> {start..<s}"
    "{start..<e} \<inter> cells (om_get m1) = {}"
    "\<And>a b. om_get m1 a = Some b \<Longrightarrow> b < start \<or> e \<le> a"
proof -
  let ?g = "om_get m"
  note ap = spaced_apart [OF assms(2)]
  note sep = apart_sep [OF ap assms(3,4)]
  show ?thesis
  proof (cases "\<exists>a. om_last_below m s = Some (a, s)")
    case True
    then obtain a where a: "om_last_below m s = Some (a, s)" ..
    then have ga: "?g a = Some s" "a < s" using om.last_below_Some [OF assms(1)] by blast+
    have get: "om_get (om_remove a m) = ?g(a := None)" by (rule om_get_remove)
    show ?thesis
    proof (rule that [of "om_remove a m" a])
      show "(case om_last_below m s of
          Some (a, b) \<Rightarrow> if b = s then (om_remove a m, a) else (m, s)
        | None \<Rightarrow> (m, s)) = (om_remove a m, a)" using a by simp
      show "om_ok (om_remove a m)" using assms(1) by (rule om_ok_remove)
      show "spaced (om_get (om_remove a m))" unfolding get using assms(2) by (rule spaced_remove)
      have c: "cells (?g(a := None)) = cells ?g - {a..<s}"
        using ap ga(1) by (rule cells_remove)
      have sub: "{a..<s} \<subseteq> cells ?g" using ga(1) by (rule extent_subset_cells)
      show "cells ?g = cells (om_get (om_remove a m)) \<union> {a..<s}" unfolding get c using sub by blast
      show "{a..<e} \<inter> cells (om_get (om_remove a m)) = {}" 
      proof -
        have "{a..<e} - {a..<s} \<subseteq> {s..<e}" by auto
        then show ?thesis unfolding get c using assms(4) by blast
      qed
      fix c d assume "om_get (om_remove a m) c = Some d"
      then have "c \<noteq> a" "?g c = Some d" by (auto simp: get split: if_splits)
      moreover from this ga(1) assms(2) have "c < d" "c < a \<Longrightarrow> d < a" "a < c \<Longrightarrow> s < c"
        by (auto simp: spaced_def)
      ultimately show "d < a \<or> e \<le> c"
        using sep [of c d] by (cases c a rule: linorder_cases) auto
    qed (use ga in simp)
  next
    case False
    have ne: "b \<noteq> s" if "?g a = Some b" for a b
    proof
      assume "b = s"
      with that assms(2) have "a < s" by (auto simp: spaced_def)
      moreover have "c \<le> a" if "?g c \<noteq> None" "c < s" for c
      proof (rule ccontr)
        assume "\<not> c \<le> a"
        with that \<open>?g a = Some b\<close> assms(2) have "b < c" by (auto simp: spaced_def)
        with that \<open>b = s\<close> show False by simp
      qed
      ultimately have "om_last_below m s = Some (a, s)"
        using that \<open>b = s\<close> by (simp add: om.last_below_Some [OF assms(1)])
      with False show False by blast
    qed
    show ?thesis
    proof (rule that [of m s])
      show "(case om_last_below m s of
          Some (a, b) \<Rightarrow> if b = s then (om_remove a m, a) else (m, s)
        | None \<Rightarrow> (m, s)) = (m, s)"
        using False by (auto split: option.split prod.split)
      show "b < s \<or> e \<le> a" if "?g a = Some b" for a b
        using sep [OF that] ne [OF that] by auto
    qed (use assms in auto)
  qed
qed

lemma insert_coalesced_correct:
  assumes "om_ok m" "spaced (om_get m)" "s < e" "{s..<e} \<inter> cells (om_get m) = {}"
  shows "om_ok (insert_coalesced m s e) \<and> spaced (om_get (insert_coalesced m s e)) \<and>
         cells (om_get (insert_coalesced m s e)) = cells (om_get m) \<union> {s..<e}"
proof -
  from assms obtain m1 start where j:
    "(case om_last_below m s of
        Some (a, b) \<Rightarrow> if b = s then (om_remove a m, a) else (m, s)
      | None \<Rightarrow> (m, s)) = (m1, start)"
    "om_ok m1" "spaced (om_get m1)" "start \<le> s"
    "cells (om_get m) = cells (om_get m1) \<union> {start..<s}"
    "{start..<e} \<inter> cells (om_get m1) = {}"
    "\<And>a b. om_get m1 a = Some b \<Longrightarrow> b < start \<or> e \<le> a"
    by (rule join_earlier) blast
  let ?g = "om_get m1"
  have se: "start < e" using j(4) assms(3) by simp
  have fresh: "?g start = None"
    using j(3,7) se by (cases "?g start") (fastforce simp: spaced_def)+
  show ?thesis
  proof (cases "?g e")
    case None
    then have ic: "insert_coalesced m s e = om_insert start e m1"
      by (simp add: insert_coalesced_def j(1))
    have "spaced (?g(start \<mapsto> e))"
      using j(3) se
    proof (rule spaced_insert)
      fix a b assume "?g a = Some b"
      with j(7) None show "b < start \<or> e < a" by (metis option.discI order_le_less)
    qed
    then show ?thesis
      unfolding ic
      using j(2,4,5) se assms(3)
      by (auto simp: om_ok_insert om_get_insert cells_insert fresh)
  next
    case (Some d)
    let ?h = "?g(e := None)"
    have ic: "insert_coalesced m s e = om_insert start d (om_remove e m1)"
      using Some by (simp add: insert_coalesced_def j(1))
    have ed: "e < d" using j(3) Some by (auto simp: spaced_def)
    have c: "cells ?h = cells ?g - {e..<d}"
      by (rule cells_remove [OF spaced_apart [OF j(3)] Some])
    have sub: "{e..<d} \<subseteq> cells ?g" using Some by (rule extent_subset_cells)
    have "spaced (?h(start \<mapsto> d))"
    proof (rule spaced_insert)
      show "spaced ?h" using j(3) by (rule spaced_remove)
      show "start < d" using se ed by simp
      fix a b assume "?h a = Some b"
      then have ab: "?g a = Some b" "a \<noteq> e" by (auto split: if_splits)
      with j(7) have "b < start \<or> e < a" by (metis order_le_less)
      moreover have "e < a \<Longrightarrow> d < a" using j(3) ab Some by (auto simp: spaced_def)
      ultimately show "b < start \<or> d < a" by blast
    qed
    moreover have "cells ?h \<union> {start..<d} = cells (om_get m) \<union> {s..<e}"
      unfolding c j(5) using sub j(4) se ed assms(3) by (auto simp: not_less)
    ultimately show ?thesis
      unfolding ic
      using j(2) fresh
      by (simp add: om_ok_insert om_ok_remove om_get_insert om_get_remove cells_insert)
  qed
qed

section \<open>Checking a range\<close>


lemma overlaps_iff:
  assumes "om_ok m" "apart (om_get m)" "s < e"
  shows "overlaps m s e \<longleftrightarrow> {s..<e} \<inter> cells (om_get m) \<noteq> {}"
proof (cases "om_get m s")
  case None
  then show ?thesis
    using oi.neighbours_disjoint [OF assms]
    by (auto simp: overlaps_def oi.last_below_eq_upto [OF assms(1) None])
next
  case (Some b)
  then have "s < b" using assms(2) by (auto simp: apart_def)
  with Some assms(3) have "s \<in> {s..<e} \<inter> cells (om_get m)"
    using extent_subset_cells [of "om_get m" s b] by auto
  moreover have "om_first_from m s = Some (s, b)"
    using Some by (simp add: om.first_from_Some [OF assms(1)])
  ultimately show ?thesis using assms(3) by (auto simp: overlaps_def)
qed

lemma merges_earlier_iff:
  fixes m :: "(nat, nat) omap"
  assumes "om_ok m" "spaced (om_get m)" "s < e" "{s..<e} \<inter> cells (om_get m) = {}"
  shows "is_some_and (om_last_upto m s) (\<lambda>(_, b). b = s) \<longleftrightarrow> 0 < s \<and> s - 1 \<in> cells (om_get m)"
proof
  assume "is_some_and (om_last_upto m s) (\<lambda>(_, b). b = s)"
  then obtain a where "om_get m a = Some s"
    using om.last_upto_Some [OF assms(1)] by (auto simp: is_some_and_iff)
  moreover from this assms(2) have "a < s" by (auto simp: spaced_def)
  ultimately show "0 < s \<and> s - 1 \<in> cells (om_get m)"
    using extent_subset_cells [of "om_get m" a s] by auto
next
  assume pre: "0 < s \<and> s - 1 \<in> cells (om_get m)"
  then obtain a b where ab: "om_get m a = Some b" "a \<le> s - 1" "s - 1 < b"
    by (auto simp: cells_def)
  from apart_sep [OF spaced_apart [OF assms(2)] assms(3,4) ab(1)] ab(2,3) pre assms(3)
  have "b = s" by linarith
  have "c \<le> a" if "om_get m c \<noteq> None" "c \<le> s" for c
  proof (rule ccontr)
    assume "\<not> c \<le> a"
    with that ab assms(2) have "b < c" by (auto simp: spaced_def)
    with that \<open>b = s\<close> show False by simp
  qed
  with ab \<open>b = s\<close> pre have "om_last_upto m s = Some (a, s)"
    by (simp add: om.last_upto_Some [OF assms(1)])
  then show "is_some_and (om_last_upto m s) (\<lambda>(_, b). b = s)" by simp
qed

lemma merges_later_iff:
  fixes m :: "(nat, nat) omap"
  assumes "om_ok m" "spaced (om_get m)" "s < e" "{s..<e} \<inter> cells (om_get m) = {}"
  shows "is_some_and (om_first_from m s) (\<lambda>(a, _). a = e) \<longleftrightarrow> e \<in> cells (om_get m)"
proof
  assume "is_some_and (om_first_from m s) (\<lambda>(a, _). a = e)"
  then obtain b where "om_get m e = Some b"
    using om.first_from_Some [OF assms(1)] by (auto simp: is_some_and_iff)
  with assms(2) show "e \<in> cells (om_get m)"
    using extent_subset_cells [of "om_get m" e b] by (auto simp: spaced_def)
next
  assume "e \<in> cells (om_get m)"
  then obtain a b where ab: "om_get m a = Some b" "a \<le> e" "e < b"
    by (auto simp: cells_def)
  note sep = apart_sep [OF spaced_apart [OF assms(2)] assms(3,4)]
  from sep [OF ab(1)] ab assms(3) have "a = e" by auto
  have "e \<le> c" if "om_get m c \<noteq> None" "s \<le> c" for c
  proof -
    from that obtain d where d: "om_get m c = Some d" by blast
    with assms(2) have "c < d" by (auto simp: spaced_def)
    with sep [OF d] that(2) show ?thesis by auto
  qed
  with ab \<open>a = e\<close> assms(3) have "om_first_from m s = Some (e, b)"
    by (simp add: om.first_from_Some [OF assms(1)])
  then show "is_some_and (om_first_from m s) (\<lambda>(a, _). a = e)" by simp
qed

lemma coverage_inv_finite: "coverage_inv c \<Longrightarrow> finite (covered c)"
  by (auto simp: coverage_inv_def intro: finite_subset [of _ "{..<u64_max}"])

text \<open>Disjoint offsets below the top of the address space: their count cannot overflow.\<close>

lemma coverage_bytes_fit:
  assumes "coverage_inv c" "{s..<e} \<inter> covered c = {}" "s < e" "e \<le> u64_max"
  shows "cov_bytes c + (e - s) \<le> u64_max" "card (covered c \<union> {s..<e}) = cov_bytes c + (e - s)"
proof -
  have "card (covered c \<union> {s..<e}) = card (covered c) + card {s..<e}"
    using assms(1,2) by (intro card_Un_disjoint) (auto simp: coverage_inv_finite)
  then show c: "card (covered c \<union> {s..<e}) = cov_bytes c + (e - s)"
    using assms(1) by (simp add: coverage_inv_def)
  have "covered c \<union> {s..<e} \<subseteq> {..<u64_max}"
    using assms by (auto simp: coverage_inv_def)
  then have "card (covered c \<union> {s..<e}) \<le> card {..<u64_max}" by (intro card_mono) auto
  with c show "cov_bytes c + (e - s) \<le> u64_max" by simp
qed

text \<open>
  What \<open>check\<close> promises, stated on sets of offsets: a range wholly covered is a
  replay, one that touches covered or reserved offsets is refused, and a range that is
  new may be committed unless it would be an isolated extent beyond the limit.
\<close>

definition check_spec :: "coverage \<Rightarrow> nat \<Rightarrow> nat \<Rightarrow> coverage_error + check_outcome" where
  "check_spec c off n =
    (let r = {off..<off + n} in
     if n = 0 then Inl EmptyRange
     else if u64_max < off + n then Inl LengthExceeded
     else if r \<subseteq> covered c then Inr Replay
     else if r \<inter> covered c \<noteq> {} then Inl PartialOverlap
     else if r \<inter> held c \<noteq> {} then Inl ReservedOverlap
     else if \<not> (0 < off \<and> off - 1 \<in> covered c) \<and> off + n \<notin> covered c \<and>
             cov_limit c \<le> length (extents c) + length (reserved c) then Inl FragmentsExhausted
     else Inr (NewRange \<lparr>bk_offset = off, bk_end = off + n,
                         bk_next_bytes = card (covered c \<union> r)\<rparr>))"

lemma check_eq_spec:
  assumes inv: "coverage_inv c"
  shows "check c off n = check_spec c off n"
proof (cases "n = 0 \<or> u64_max < off + n")
  case True
  then show ?thesis
    by (auto simp: check_def check_spec_def Let_def ok_or_def checked_add_def)
next
  case False
  define e where "e = off + n"
  from False have n: "off < e" "e \<le> u64_max" "n \<noteq> 0" "e - off = n" by (auto simp: e_def)
  from inv have ok: "om_ok (extents c)" "spaced (om_get (extents c))" "om_ok (reserved c)"
      "apart (om_get (reserved c))"
    by (auto simp: coverage_inv_def)
  have replay: "is_some_and (om_last_upto (extents c) off) (\<lambda>(_, b). e \<le> b) \<longleftrightarrow> {off..<e} \<subseteq> covered c"
    using oi.neighbour_contains [OF ok(1,2) n(1)] by (auto simp: is_some_and_iff covered_def)
  have partial: "is_some_and (om_last_upto (extents c) off) (\<lambda>(_, b). off < b) \<or>
      is_some_and (om_first_from (extents c) off) (\<lambda>(a, _). a < e) \<longleftrightarrow> {off..<e} \<inter> covered c \<noteq> {}"
    using oi.neighbours_disjoint [OF ok(1) spaced_apart [OF ok(2)] n(1)] by (auto simp: covered_def)
  have res: "overlaps (reserved c) off e \<longleftrightarrow> {off..<e} \<inter> held c \<noteq> {}"
    using overlaps_iff [OF ok(3,4) n(1)] by (simp add: held_def)
  show ?thesis
  proof (cases "{off..<e} \<inter> covered c = {}")
    case True
    note fit = coverage_bytes_fit [OF inv True n(1,2)]
    note m = merges_earlier_iff [OF ok(1,2) n(1) True [unfolded covered_def]]
      merges_later_iff [OF ok(1,2) n(1) True [unfolded covered_def]]
    show ?thesis
      unfolding check_def check_spec_def
      using n replay partial res fit m True
      by (simp add: Let_def ok_or_def checked_add_def e_def [symmetric] covered_def [symmetric])
  next
    case overlap: False
    then show ?thesis
      unfolding check_def check_spec_def
      using n replay partial
      by (simp add: Let_def ok_or_def checked_add_def e_def [symmetric])
  qed
qed

section \<open>Every operation keeps the invariant\<close>

lemma check_NewD:
  assumes "coverage_inv c" "check c off n = Inr (NewRange b)"
  shows "0 < n" "off + n \<le> u64_max" "{off..<off + n} \<inter> covered c = {}"
    "{off..<off + n} \<inter> held c = {}"
    "b = \<lparr>bk_offset = off, bk_end = off + n, bk_next_bytes = card (covered c \<union> {off..<off + n})\<rparr>"
  using assms(2) unfolding check_eq_spec [OF assms(1)] check_spec_def
  by (auto simp: Let_def split: if_splits)

lemma coverage_inv_insert:
  assumes "coverage_inv c" "s < e" "e \<le> u64_max" "{s..<e} \<inter> covered c = {}"
    "om_ok r" "apart (om_get r)" "cells (om_get r) \<subseteq> held c" "{s..<e} \<inter> cells (om_get r) = {}"
    "n = card (covered c \<union> {s..<e})"
  shows "coverage_inv (c\<lparr>reserved := r, cov_bytes := n, extents := insert_coalesced (extents c) s e\<rparr>) \<and>
    covered (c\<lparr>reserved := r, cov_bytes := n, extents := insert_coalesced (extents c) s e\<rparr>) =
      covered c \<union> {s..<e}"
proof -
  have "om_ok (extents c)" "spaced (om_get (extents c))"
    using assms(1) by (simp_all add: coverage_inv_def)
  from insert_coalesced_correct [OF this assms(2) assms(4) [unfolded covered_def]] assms
  show ?thesis
    by (auto simp: coverage_inv_def covered_def held_def)
qed

lemma booking_commit_correct:
  assumes "coverage_inv c" "check c off n = Inr (NewRange b)"
  shows "coverage_inv (booking_commit c b) \<and>
         covered (booking_commit c b) = covered c \<union> {off..<off + n} \<and>
         held (booking_commit c b) = held c"
proof -
  note d = check_NewD [OF assms]
  have eq: "booking_commit c b = c\<lparr>reserved := reserved c, cov_bytes := bk_next_bytes b,
      extents := insert_coalesced (extents c) off (off + n)\<rparr>"
    by (simp add: booking_commit_def d(5))
  have ok: "om_ok (reserved c)" "apart (om_get (reserved c))"
    using assms(1) by (simp_all add: coverage_inv_def)
  show ?thesis
    unfolding eq
    using coverage_inv_insert [OF assms(1) _ d(2,3) ok, of "bk_next_bytes b"] d(1,4,5)
    by (simp add: held_def)
qed

lemma reserve_correct:
  assumes "coverage_inv c" "reserve c off n = Inr (c', out)"
  shows "coverage_inv c' \<and> covered c' = covered c \<and>
    (out = ReserveReplay \<and> c' = c \<and> {off..<off + n} \<subseteq> covered c \<or>
     out = ReserveNew \<lparr>rs_offset = off, rs_end = off + n\<rparr> \<and> held c' = held c \<union> {off..<off + n} \<and>
     om_get (reserved c') off = Some (off + n) \<and> {off..<off + n} \<inter> (covered c \<union> held c) = {})"
proof -
  from assms(2) obtain oc where oc: "check c off n = Inr oc"
    by (auto simp: reserve_def)
  show ?thesis
  proof (cases oc)
    case Replay
    with oc have "{off..<off + n} \<subseteq> covered c"
      unfolding check_eq_spec [OF assms(1)] check_spec_def by (auto simp: Let_def split: if_splits)
    with Replay oc assms show ?thesis by (auto simp: reserve_def)
  next
    case (NewRange b)
    note d = check_NewD [OF assms(1) oc [unfolded NewRange]]
    from NewRange oc assms(2) d(5)
    have c': "c' = c\<lparr>reserved := om_insert off (off + n) (reserved c)\<rparr>"
      and out: "out = ReserveNew \<lparr>rs_offset = off, rs_end = off + n\<rparr>"
      by (auto simp: reserve_def)
    have ok: "om_ok (reserved c)" "apart (om_get (reserved c))"
      using assms(1) by (simp_all add: coverage_inv_def)
    have fresh: "om_get (reserved c) off = None"
    proof (cases "om_get (reserved c) off")
      case (Some e)
      with ok(2) d(1,4) show ?thesis
        using extent_subset_cells [of "om_get (reserved c)" off e]
        by (fastforce simp: apart_def held_def disjoint_iff subset_iff)
    qed simp
    have "apart ((om_get (reserved c))(off \<mapsto> off + n))"
      using ok(2) d(1,4) by (intro apart_insert) (auto simp: held_def)
    moreover have get: "om_get (reserved c') = (om_get (reserved c))(off \<mapsto> off + n)"
      by (simp add: c' om_get_insert ok)
    moreover have "held c' = held c \<union> {off..<off + n}"
      using fresh by (simp add: held_def get cells_insert)
    moreover have "om_ok (reserved c')" by (simp add: c' om_ok_insert ok)
    moreover have "covered c' = covered c" "extents c' = extents c" "cov_bytes c' = cov_bytes c"
      by (simp_all add: c' covered_def)
    ultimately show ?thesis
      using assms(1) d out by (auto simp: coverage_inv_def)
  qed
qed

lemma reservation_facts:
  assumes "coverage_inv c" "om_get (reserved c) s = Some e"
  shows "s < e" "e \<le> u64_max" "{s..<e} \<subseteq> held c" "{s..<e} \<inter> covered c = {}"
    "om_ok (om_remove s (reserved c))" "apart (om_get (om_remove s (reserved c)))"
    "cells (om_get (om_remove s (reserved c))) = held c - {s..<e}"
proof -
  have ok: "om_ok (reserved c)" "apart (om_get (reserved c))"
    using assms(1) by (simp_all add: coverage_inv_def)
  show lt: "s < e" using ok(2) assms(2) by (auto simp: apart_def)
  show sub: "{s..<e} \<subseteq> held c"
    unfolding held_def using assms(2) by (rule extent_subset_cells)
  with assms(1) show "{s..<e} \<inter> covered c = {}" by (auto simp: coverage_inv_def)
  have "e - 1 \<in> held c" using sub lt by auto
  with assms(1) have "e - 1 < u64_max" by (auto simp: coverage_inv_def)
  then show "e \<le> u64_max" by simp
  show "om_ok (om_remove s (reserved c))" using ok(1) by (rule om_ok_remove)
  show "apart (om_get (om_remove s (reserved c)))"
    unfolding om_get_remove using ok(2) by (rule apart_remove)
  show "cells (om_get (om_remove s (reserved c))) = held c - {s..<e}"
    unfolding om_get_remove held_def using ok(2) assms(2) by (rule cells_remove)
qed

lemma commit_reservation_correct:
  assumes "coverage_inv c" "om_get (reserved c) (rs_offset r) = Some (rs_end r)"
  shows "coverage_inv (commit_reservation c r) \<and>
    covered (commit_reservation c r) = covered c \<union> {rs_offset r..<rs_end r} \<and>
    held (commit_reservation c r) = held c - {rs_offset r..<rs_end r}"
proof -
  note f = reservation_facts [OF assms]
  note fit = coverage_bytes_fit [OF assms(1) f(4,1,2)]
  have eq: "commit_reservation c r = c\<lparr>reserved := om_remove (rs_offset r) (reserved c),
      cov_bytes := card (covered c \<union> {rs_offset r..<rs_end r}),
      extents := insert_coalesced (extents c) (rs_offset r) (rs_end r)\<rparr>"
    using fit by (simp add: commit_reservation_def)
  show ?thesis
    using coverage_inv_insert [OF assms(1) f(1,2,4,5,6), of "card (covered c \<union> {rs_offset r..<rs_end r})"] f(7)
    unfolding eq by (auto simp: held_def)
qed

lemma release_reservation_correct:
  assumes "coverage_inv c" "om_get (reserved c) (rs_offset r) = Some (rs_end r)"
  shows "coverage_inv (release_reservation c r) \<and>
    covered (release_reservation c r) = covered c \<and>
    held (release_reservation c r) = held c - {rs_offset r..<rs_end r}"
  using reservation_facts [OF assms] assms(1)
  by (auto simp: release_reservation_def coverage_inv_def covered_def held_def)

lemma coverage_step_correct:
  assumes "coverage_inv c"
  shows "coverage_inv (coverage_step c op) \<and> covered c \<subseteq> covered (coverage_step c op)"
proof (cases op)
  case (CheckAndCommit off n)
  with assms booking_commit_correct [OF assms, of off n] show ?thesis
    by (auto split: sum.split check_outcome.split)
next
  case (Reserve off n)
  with assms reserve_correct [OF assms, of off n] show ?thesis
    by (auto split: sum.split)
next
  case (CommitReservation r)
  with assms commit_reservation_correct [OF assms, of r] show ?thesis by auto
next
  case (ReleaseReservation r)
  with assms release_reservation_correct [OF assms, of r] show ?thesis by auto
qed

lemma coverage_inv_new [simp]: "coverage_inv new_coverage" "coverage_inv (for_object len)"
  by (simp_all add: coverage_inv_def new_coverage_def for_object_def covered_def held_def
      om_get_def spaced_def apart_def cells_def)

interpretation coverage: monotone_machine coverage_step coverage_inv "\<lambda>c c'. covered c \<subseteq> covered c'"
  by unfold_locales (use coverage_step_correct in blast)+

section \<open>Progress and checkpoints\<close>

definition extent_of_run :: "nat \<times> nat \<Rightarrow> nat \<times> nat" where
  "extent_of_run = (\<lambda>(off, len). (off, off + len))"

lemma extent_total_fits:
  assumes "separated m" "\<forall>(a, b) \<in> set m. b \<le> u64_max"
  shows "extent_total m \<le> u64_max"
proof -
  have "cells (om_get m) \<subseteq> {..<u64_max}" using assms by (simp add: cells_bound)
  then have "card (cells (om_get m)) \<le> u64_max"
    using card_mono [of "{..<u64_max}"] by force
  then show ?thesis using cells_finite_card [OF assms(1)] by simp
qed

lemma extent_total_append: "extent_total (m @ [(s, e)]) = extent_total m + (e - s)"
  by (simp add: extent_total_def)

lemma from_runs_loop_iff:
  assumes "separated ext" "n = extent_total ext" "prev = map_option snd (last_opt ext)"
    "\<forall>(a, b) \<in> set ext. b \<le> L \<and> b \<le> u64_max" "i \<le> lim"
  shows "from_runs_loop L lim i ext n prev rs = Inr (ext', n') \<longleftrightarrow>
    ext' = ext @ map extent_of_run rs \<and> n' = extent_total ext' \<and> separated ext' \<and>
    (\<forall>(a, b) \<in> set ext'. b \<le> L \<and> b \<le> u64_max) \<and> i + length rs \<le> lim"
  using assms
proof (induction rs arbitrary: ext n prev i)
  case Nil
  then show ?case by auto
next
  case (Cons r rs)
  obtain off len where r: "r = (off, len)" by (cases r)
  let ?ext = "ext @ [(off, off + len)]"
  let ?go = "i < lim \<and> 0 < len \<and> off + len \<le> u64_max \<and> off + len \<le> L \<and>
    \<not> is_some_and prev (\<lambda>previous. off \<le> previous)"
  show ?case
  proof (cases ?go)
    case True
    have sep: "separated ?ext"
      using True Cons.prems by (simp add: separated_last)
    have ins: "om_insert off (off + len) ext = ?ext"
      using separated_snoc_keys [OF sep] by (rule om_insert_last)
    have "extent_total ?ext \<le> u64_max"
      using True Cons.prems sep by (intro extent_total_fits) auto
    then have add: "wrapping_add n len = extent_total ?ext"
      using Cons.prems by (simp add: extent_total_append)
    have ends: "\<forall>(a, b) \<in> set ?ext. b \<le> L \<and> b \<le> u64_max"
      using True Cons.prems by auto
    show ?thesis
      using True Cons.IH [OF sep add _ ends, of "Some (off + len)" "i + 1"]
      by (auto simp: r ins extent_of_run_def checked_add_def)
  next
    case False
    have "\<not> (separated ext' \<and> (\<forall>(a, b) \<in> set ext'. b \<le> L \<and> b \<le> u64_max) \<and> i + Suc (length rs) \<le> lim)"
      if "ext' = ext @ (off, off + len) # map extent_of_run rs"
    proof
      assume *: "separated ext' \<and> (\<forall>(a, b) \<in> set ext'. b \<le> L \<and> b \<le> u64_max) \<and> i + Suc (length rs) \<le> lim"
      then have "separated ?ext"
        using separated_append [of ?ext "map extent_of_run rs"] that by simp
      with * that False Cons.prems show False
        by (auto simp: separated_last)
    qed
    moreover have "\<not> from_runs_loop L lim i ext n prev (r # rs) = Inr (ext', n')"
      using False by (auto simp: r checked_add_def not_less)
    ultimately show ?thesis by (auto simp: r extent_of_run_def)
  qed
qed

lemma from_runs_iff:
  "from_runs L rs = Inr c \<longleftrightarrow>
    separated (extents c) \<and> extents c = map extent_of_run rs \<and>
    (\<forall>(a, b) \<in> set (extents c). b \<le> L \<and> b \<le> u64_max) \<and> length rs \<le> fragment_limit L \<and>
    reserved c = [] \<and> cov_bytes c = extent_total (extents c) \<and> cov_limit c = fragment_limit L"
  using from_runs_loop_iff [of "[]" 0 None L 0 "fragment_limit L" rs "extents c" "cov_bytes c"]
  by (cases c) (auto simp: from_runs_def Let_def extent_total_def)

lemma runs_extents:
  assumes "separated m"
  shows "map extent_of_run (map (\<lambda>(s, e). (s, e - s)) m) = m"
  using assms by (induction m) (auto simp: separated_Cons extent_of_run_def)

lemma runs_of_extents: "map (\<lambda>(s, e). (s, e - s)) (map extent_of_run rs) = rs"
  by (induction rs) (auto simp: extent_of_run_def)

lemma contiguous_prefix_correct:
  assumes "coverage_inv c"
  shows "{..<contiguous_prefix c} \<subseteq> covered c" "contiguous_prefix c \<notin> covered c"
proof -
  have sp: "spaced (om_get (extents c))" using assms by (simp add: coverage_inv_def)
  show "{..<contiguous_prefix c} \<subseteq> covered c"
    using extent_subset_cells [of "om_get (extents c)" 0]
    by (auto simp: contiguous_prefix_def covered_def lessThan_atLeast0 split: option.splits)
  show "contiguous_prefix c \<notin> covered c"
  proof
    assume "contiguous_prefix c \<in> covered c"
    then obtain a b where ab: "om_get (extents c) a = Some b" "a \<le> contiguous_prefix c" "contiguous_prefix c < b"
      by (auto simp: covered_def cells_def)
    show False
    proof (cases "om_get (extents c) 0")
      case None
      with ab show False by (auto simp: contiguous_prefix_def)
    next
      case (Some e)
      with ab have "a \<noteq> 0" by (cases a) (auto simp: contiguous_prefix_def)
      with Some ab sp have "e < a" unfolding spaced_def by (metis gr0I)
      with Some ab show False by (simp add: contiguous_prefix_def)
    qed
  qed
qed

lemma om_get_Nil: "om_get [] = (\<lambda>_. None)"
  by (simp add: fun_eq_iff)

lemma for_object_empty [simp]:
  "covered (for_object len) = {}" "held (for_object len) = {}" "cov_bytes (for_object len) = 0"
  by (simp_all add: covered_def held_def for_object_def om_get_Nil)

lemma coverage_inv_card: "coverage_inv c \<Longrightarrow> cov_bytes c = card (covered c)"
  by (simp add: coverage_inv_def)

lemma complete_iff:
  assumes "coverage_inv c" "covered c \<subseteq> {..<L}"
  shows "is_complete c L \<longleftrightarrow> covered c = {..<L}"
  using card_subset_eq [of "{..<L}" "covered c"] assms
  by (auto simp: is_complete_def coverage_inv_card)

section \<open>Properties\<close>

text \<open>C26. On every coverage map that satisfies its invariant, checking a range against the
  two neighbouring extents and reservations decides exactly the set-level question: whether
  the range is empty or too long, wholly covered, partly covered or reserved, a new isolated
  extent beyond the fragment limit, or free; the booking carries the exact next byte count.\<close>

theorem check_classifies:
  assumes "coverage_inv c"
  shows "check c off n = check_spec c off n"
  using assms by (rule check_eq_spec)

theorem check_classifies_witness:
  "coverage_inv (for_object 100) \<and> check (for_object 100) 3 4 = check_spec (for_object 100) 3 4"
  using check_classifies [of "for_object 100" 3 4] by simp

text \<open>C6. Whatever sequence of checks, reservations, commits and releases is applied to a
  new map, the byte count is exactly the number of covered offsets (so neither the saturating
  nor the checked addition ever bites), covered and reserved offsets stay disjoint, the extents
  stay sorted, non-empty and coalesced, and no further sequence ever uncovers an offset.\<close>

theorem coverage_sequence_exact:
  "let c = foldl coverage_step (for_object len) ops in
     cov_bytes c = card (covered c) \<and> covered c \<inter> held c = {} \<and> separated (extents c) \<and>
     covered c \<subseteq> covered (foldl coverage_step c ops')"
proof -
  let ?c = "foldl coverage_step (for_object len) ops"
  have inv: "coverage_inv ?c" by (intro coverage.run_inv) simp
  moreover have "covered ?c \<subseteq> covered (foldl coverage_step ?c ops')"
    by (rule coverage.run_above [OF inv])
  ultimately show ?thesis by (simp add: Let_def coverage_inv_def separated_iff)
qed

text \<open>The life of a reservation. Reserving a range that is new changes no coverage and holds
  exactly that range; committing it later covers exactly that range, adds exactly its length to
  the byte count and gives the hold back; releasing it instead restores the map's coverage,
  hold and byte count as they were.\<close>

theorem reservation_lifecycle:
  assumes "coverage_inv c" "reserve c off n = Inr (c', ReserveNew r)"
  shows "covered c' = covered c \<and> held c' = held c \<union> {off..<off + n} \<and>
    {off..<off + n} \<inter> (covered c \<union> held c) = {} \<and>
    covered (commit_reservation c' r) = covered c \<union> {off..<off + n} \<and>
    cov_bytes (commit_reservation c' r) = cov_bytes c + n \<and>
    held (commit_reservation c' r) = held c \<and>
    covered (release_reservation c' r) = covered c \<and>
    cov_bytes (release_reservation c' r) = cov_bytes c \<and>
    held (release_reservation c' r) = held c"
proof -
  have c': "coverage_inv c'" "covered c' = covered c" "held c' = held c \<union> {off..<off + n}"
    and r: "r = \<lparr>rs_offset = off, rs_end = off + n\<rparr>" "om_get (reserved c') (rs_offset r) = Some (rs_end r)"
    and dis: "{off..<off + n} \<inter> (covered c \<union> held c) = {}"
    using reserve_correct [OF assms] by auto
  have "card (covered c \<union> {off..<off + n}) = card (covered c) + n"
    using dis coverage_inv_finite [OF assms(1)] by (subst card_Un_disjoint) auto
  then show ?thesis
    using commit_reservation_correct [OF c'(1) r(2)] release_reservation_correct [OF c'(1) r(2)]
      c' dis assms(1) by (auto simp: r(1) coverage_inv_card)
qed

text \<open>Progress is reported exactly: the contiguous prefix is the longest prefix of the object
  that is covered, and, for a map that covers nothing beyond the object, counting bytes decides
  completeness: the object is complete exactly when every one of its offsets is covered.\<close>

theorem progress_is_exact:
  assumes "coverage_inv c"
  shows "{..<contiguous_prefix c} \<subseteq> covered c \<and> contiguous_prefix c \<notin> covered c \<and>
    (covered c \<subseteq> {..<L} \<longrightarrow> (is_complete c L \<longleftrightarrow> covered c = {..<L}))"
  using contiguous_prefix_correct [OF assms] complete_iff [OF assms] by blast

text \<open>Checkpoints restore. A map rebuilt from untrusted runs satisfies the invariant, holds
  nothing, stays within the object and prints back exactly the runs it was given; and the runs
  of a map within the object and the fragment limit are accepted and restore its extents and
  byte count.\<close>

theorem from_runs_roundtrip:
  "(from_runs L rs = Inr c \<longrightarrow> coverage_inv c \<and> runs c = rs \<and> covered c \<subseteq> {..<L} \<and> held c = {}) \<and>
   (coverage_inv d \<and> covered d \<subseteq> {..<L} \<and> length (extents d) \<le> fragment_limit L \<longrightarrow>
     from_runs L (runs d) = Inr \<lparr>extents = extents d, reserved = [], cov_bytes = cov_bytes d,
       cov_limit = fragment_limit L\<rparr>)"
proof (intro conjI impI; (elim conjE)?)
  assume *: "from_runs L rs = Inr c"
  then have sep: "separated (extents c)" and ext: "extents c = map extent_of_run rs"
    and bound: "\<forall>(a, b) \<in> set (extents c). b \<le> L \<and> b \<le> u64_max" and res: "reserved c = []"
    and bytes: "cov_bytes c = extent_total (extents c)"
    unfolding from_runs_iff by blast+
  show "covered c \<subseteq> {..<L}"
    unfolding covered_def using bound by (subst cells_bound [OF sep]) auto
  show "held c = {}" by (simp add: held_def res om_get_Nil)
  have "covered c \<subseteq> {..<u64_max}"
    unfolding covered_def using bound by (subst cells_bound [OF sep]) auto
  then show "coverage_inv c"
    using sep cells_finite_card [OF sep] \<open>held c = {}\<close>
    by (simp add: coverage_inv_def separated_iff res om_get_Nil bytes covered_def)
  show "runs c = rs" by (simp only: runs_def ext runs_of_extents)
next
  assume d: "coverage_inv d" "covered d \<subseteq> {..<L}" "length (extents d) \<le> fragment_limit L"
  then have sep: "separated (extents d)" by (simp add: coverage_inv_def separated_iff)
  have "\<forall>(a, b) \<in> set (extents d). b \<le> L" "\<forall>(a, b) \<in> set (extents d). b \<le> u64_max"
    using d cells_bound [OF sep] by (simp_all add: covered_def coverage_inv_def)
  moreover have "cov_bytes d = extent_total (extents d)"
    using d(1) cells_finite_card [OF sep] by (simp add: coverage_inv_card covered_def)
  ultimately show "from_runs L (runs d) = Inr \<lparr>extents = extents d, reserved = [], cov_bytes = cov_bytes d,
       cov_limit = fragment_limit L\<rparr>"
    using d(3) sep unfolding from_runs_iff runs_def by (auto simp: runs_extents simp del: map_map)
qed

end
