(* ===== verification/Cbor.thy ===== *)
theory Cbor
  imports Vot_Prelude
begin

text \<open>
  Deterministic CBOR (\<open>src/crates/vot-cbor/src/lib.rs\<close>): the shortest-form encoders, which
  append to a byte vector, and the reader, a cursor over an input slice. A reader operation
  returns its value with the advanced reader; a reader that has failed is finished, so an
  error carries no reader. The contract \<open>reader_codec\<close> says that an operation accepts
  exactly the encodings of its valid values; every item type is an interpretation of it.
  \<open>str::from_utf8\<close> is the standard's byte-level definition of well-formed UTF-8.
\<close>

unbundle bit_operations_syntax

datatype cbor_error = Truncated | Malformed | NonCanonical | WrongType | TooLarge | Trailing | NotUtf8

definition major_unsigned :: byte where "major_unsigned = 0"
definition major_negative :: byte where "major_negative = 1"
definition major_bytes :: byte where "major_bytes = 2"
definition major_text :: byte where "major_text = 3"
definition major_array :: byte where "major_array = 4"
definition major_map :: byte where "major_map = 5"
definition major_simple :: byte where "major_simple = 7"

lemmas major_defs = major_unsigned_def major_negative_def major_bytes_def major_text_def
  major_array_def major_map_def major_simple_def

definition NULL :: byte where "NULL = 0xf6"

section \<open>Encoders\<close>

definition head_len :: "nat \<Rightarrow> nat" where
  "head_len value =
    (if value \<le> 23 then 1
     else if value \<le> 0xff then 2
     else if value \<le> 0xffff then 3
     else if value \<le> 0xffffffff then 5
     else 9)"

definition unsigned_abs :: "int \<Rightarrow> nat" where
  "unsigned_abs value = nat \<bar>value\<bar>"

definition int_len :: "int \<Rightarrow> nat" where
  "int_len value =
    (if value < 0 then head_len (unsigned_abs value - 1) else head_len (unsigned_abs value))"

definition payload_len :: "nat \<Rightarrow> nat" where
  "payload_len len = saturating_add (head_len len) len"

definition head :: "bytes \<Rightarrow> byte \<Rightarrow> nat \<Rightarrow> bytes" where
  "head out major value =
    (let tag = major * 32 in
     if value \<le> 23 then out @ [tag + word_of_nat value]
     else if value \<le> 0xff then out @ [tag + 24] @ [word_of_nat value]
     else if value \<le> 0xffff then out @ [tag + 25] @ be_bytes 2 value
     else if value \<le> 0xffffffff then out @ [tag + 26] @ be_bytes 4 value
     else out @ [tag + 27] @ be_bytes 8 value)"

definition cbor_uint :: "bytes \<Rightarrow> nat \<Rightarrow> bytes" where
  "cbor_uint out value = head out major_unsigned value"

definition cbor_int :: "bytes \<Rightarrow> int \<Rightarrow> bytes" where
  "cbor_int out value =
    (if value < 0 then head out major_negative (unsigned_abs value - 1)
     else head out major_unsigned (unsigned_abs value))"

definition byte_string :: "bytes \<Rightarrow> bytes \<Rightarrow> bytes" where
  "byte_string out value = head out major_bytes (length value) @ value"

definition text_string :: "bytes \<Rightarrow> bytes \<Rightarrow> bytes" where
  "text_string out value = head out major_text (length value) @ value"

definition array_head :: "bytes \<Rightarrow> nat \<Rightarrow> bytes" where
  "array_head out len = head out major_array len"

definition map_head :: "bytes \<Rightarrow> nat \<Rightarrow> bytes" where
  "map_head out len = head out major_map len"

definition null_item :: "bytes \<Rightarrow> bytes" where
  "null_item out = out @ [NULL]"

section \<open>The reader\<close>

record reader =
  rd_input :: bytes
  rd_offset :: nat

definition new_reader :: "bytes \<Rightarrow> reader" where
  "new_reader input = \<lparr>rd_input = input, rd_offset = 0\<rparr>"

definition remaining :: "reader \<Rightarrow> bytes" where
  "remaining r = drop (rd_offset r) (rd_input r)"

definition rd_is_empty :: "reader \<Rightarrow> bool" where
  "rd_is_empty r \<longleftrightarrow> length (rd_input r) \<le> rd_offset r"

definition rd_take :: "nat \<Rightarrow> reader \<Rightarrow> cbor_error + bytes \<times> reader" where
  "rd_take len r =
    and_then (ok_or (checked_add (rd_offset r) len) Truncated) (\<lambda>stop.
    and_then (ok_or (slice_get (rd_input r) (rd_offset r) stop) Truncated) (\<lambda>bs.
      Inr (bs, r\<lparr>rd_offset := stop\<rparr>)))"

definition rd_byte :: "reader \<Rightarrow> cbor_error + byte \<times> reader" where
  "rd_byte r =
    and_then (rd_take 1 r) (\<lambda>(bs, r).
      case bs of [] \<Rightarrow> Inl Truncated | b # _ \<Rightarrow> Inr (b, r))"

definition rd_fixed :: "nat \<Rightarrow> reader \<Rightarrow> cbor_error + bytes \<times> reader" where
  "rd_fixed n r =
    and_then (rd_take n r) (\<lambda>(bs, r). if length bs = n then Inr (bs, r) else Inl Truncated)"

definition rd_head :: "reader \<Rightarrow> cbor_error + (byte \<times> nat) \<times> reader" where
  "rd_head r =
    and_then (rd_byte r) (\<lambda>(first, r).
      let major = drop_bit 5 first;
          additional = unat (first AND 0x1f) in
      and_then
        (if additional \<le> 23 then Inr ((additional, 0), r)
         else if additional = 24 then
           and_then (rd_byte r) (\<lambda>(b, r). Inr ((unat b, 24), r))
         else if additional = 25 then
           and_then (rd_fixed 2 r) (\<lambda>(bs, r). Inr ((be_value bs, 0x100), r))
         else if additional = 26 then
           and_then (rd_fixed 4 r) (\<lambda>(bs, r). Inr ((be_value bs, 0x10000), r))
         else if additional = 27 then
           and_then (rd_fixed 8 r) (\<lambda>(bs, r). Inr ((be_value bs, 0x100000000), r))
         else Inl Malformed)
        (\<lambda>((value, floor), r).
          if value < floor then Inl NonCanonical else Inr ((major, value), r)))"

definition rd_typed_head :: "byte \<Rightarrow> reader \<Rightarrow> cbor_error + nat \<times> reader" where
  "rd_typed_head expected r =
    and_then (rd_head r) (\<lambda>((major, value), r).
      if major = expected then Inr (value, r) else Inl WrongType)"

definition rd_uint :: "reader \<Rightarrow> cbor_error + nat \<times> reader" where
  "rd_uint r = rd_typed_head major_unsigned r"

definition rd_key :: "nat \<Rightarrow> reader \<Rightarrow> cbor_error + unit \<times> reader" where
  "rd_key expected r =
    and_then (rd_uint r) (\<lambda>(value, r). if value = expected then Inr ((), r) else Inl WrongType)"

definition i64_max :: nat where "i64_max = 2 ^ 63 - 1"

definition rd_int :: "reader \<Rightarrow> cbor_error + int \<times> reader" where
  "rd_int r =
    and_then (rd_head r) (\<lambda>((major, value), r).
      if major = major_unsigned then
        if value \<le> i64_max then Inr (int value, r) else Inl TooLarge
      else if major = major_negative then
        if value \<le> i64_max then Inr (- 1 - int value, r) else Inl TooLarge
      else Inl WrongType)"

definition rd_length :: "byte \<Rightarrow> nat \<Rightarrow> reader \<Rightarrow> cbor_error + nat \<times> reader" where
  "rd_length expected maximum r =
    and_then (rd_typed_head expected r) (\<lambda>(len, r).
      if u64_max < len then Inl TooLarge
      else if maximum < len then Inl TooLarge
      else Inr (len, r))"

definition rd_bytes :: "nat \<Rightarrow> reader \<Rightarrow> cbor_error + bytes \<times> reader" where
  "rd_bytes maximum r = and_then (rd_length major_bytes maximum r) (\<lambda>(len, r). rd_take len r)"

definition rd_fixed_bytes :: "nat \<Rightarrow> reader \<Rightarrow> cbor_error + bytes \<times> reader" where
  "rd_fixed_bytes n r =
    and_then (rd_length major_bytes n r) (\<lambda>(len, r).
      if len \<noteq> n then Inl TooLarge else rd_fixed n r)"

text \<open>Well-formed UTF-8, as the standard library's \<open>str::from_utf8\<close> decides it (Unicode,
  table 3-7): no overlong form, no surrogate, nothing above U+10FFFF.\<close>

definition utf8_cont :: "byte \<Rightarrow> bool" where
  "utf8_cont b \<longleftrightarrow> 0x80 \<le> b \<and> b \<le> 0xbf"

fun utf8_ok :: "bytes \<Rightarrow> bool" where
  "utf8_ok [] \<longleftrightarrow> True"
| "utf8_ok (a # bs) \<longleftrightarrow>
    (if a \<le> 0x7f then utf8_ok bs
     else if 0xc2 \<le> a \<and> a \<le> 0xdf then
       (case bs of b # t \<Rightarrow> utf8_cont b \<and> utf8_ok t | _ \<Rightarrow> False)
     else if 0xe0 \<le> a \<and> a \<le> 0xef then
       (case bs of b # c # t \<Rightarrow>
          utf8_cont b \<and> (a = 0xe0 \<longrightarrow> 0xa0 \<le> b) \<and> (a = 0xed \<longrightarrow> b \<le> 0x9f) \<and>
          utf8_cont c \<and> utf8_ok t
        | _ \<Rightarrow> False)
     else if 0xf0 \<le> a \<and> a \<le> 0xf4 then
       (case bs of b # c # d # t \<Rightarrow>
          utf8_cont b \<and> (a = 0xf0 \<longrightarrow> 0x90 \<le> b) \<and> (a = 0xf4 \<longrightarrow> b \<le> 0x8f) \<and>
          utf8_cont c \<and> utf8_cont d \<and> utf8_ok t
        | _ \<Rightarrow> False)
     else False)"

definition rd_text :: "nat \<Rightarrow> reader \<Rightarrow> cbor_error + bytes \<times> reader" where
  "rd_text maximum r =
    and_then (rd_length major_text maximum r) (\<lambda>(len, r).
    and_then (rd_take len r) (\<lambda>(bs, r). if utf8_ok bs then Inr (bs, r) else Inl NotUtf8))"

definition rd_array_len :: "nat \<Rightarrow> reader \<Rightarrow> cbor_error + nat \<times> reader" where
  "rd_array_len maximum r =
    and_then (rd_typed_head major_array r) (\<lambda>(len, r).
      if maximum < len then Inl TooLarge else Inr (len, r))"

definition rd_array :: "nat \<Rightarrow> reader \<Rightarrow> cbor_error + unit \<times> reader" where
  "rd_array expected r =
    and_then (rd_typed_head major_array r) (\<lambda>(len, r).
      if len = expected then Inr ((), r) else Inl WrongType)"

definition rd_map_len :: "nat \<Rightarrow> reader \<Rightarrow> cbor_error + nat \<times> reader" where
  "rd_map_len maximum r =
    and_then (rd_typed_head major_map r) (\<lambda>(len, r).
      if maximum < len then Inl TooLarge else Inr (len, r))"

definition rd_map :: "nat \<Rightarrow> reader \<Rightarrow> cbor_error + unit \<times> reader" where
  "rd_map expected r =
    and_then (rd_typed_head major_map r) (\<lambda>(len, r).
      if len = expected then Inr ((), r) else Inl WrongType)"

definition rd_null :: "reader \<Rightarrow> cbor_error + unit \<times> reader" where
  "rd_null r =
    and_then (rd_byte r) (\<lambda>(b, r). if b = NULL then Inr ((), r) else Inl WrongType)"

definition rd_peek_null :: "reader \<Rightarrow> bool" where
  "rd_peek_null r \<longleftrightarrow> rd_offset r < length (rd_input r) \<and> rd_input r ! rd_offset r = NULL"

definition rd_finish :: "reader \<Rightarrow> cbor_error + unit" where
  "rd_finish r = (if rd_offset r = length (rd_input r) then Inr () else Inl Trailing)"

section \<open>The contract of a reader operation\<close>

text \<open>A reader whose cursor is inside an input that a 64-bit length can describe.\<close>

definition reader_ok :: "reader \<Rightarrow> bool" where
  "reader_ok r \<longleftrightarrow> rd_offset r \<le> length (rd_input r) \<and> length (rd_input r) \<le> u64_max"

definition advance :: "reader \<Rightarrow> nat \<Rightarrow> reader" where
  "advance r n = r\<lparr>rd_offset := rd_offset r + n\<rparr>"

definition starts_with :: "reader \<Rightarrow> bytes \<Rightarrow> bool" where
  "starts_with r bs \<longleftrightarrow> take (length bs) (remaining r) = bs"

locale reader_codec =
  fixes valid :: "'v \<Rightarrow> bool"
    and enc :: "'v \<Rightarrow> bytes"
    and read :: "reader \<Rightarrow> cbor_error + 'v \<times> reader"
  assumes enc_len: "valid x \<Longrightarrow> length (enc x) \<le> u64_max"
    and read_iff: "reader_ok r \<Longrightarrow>
      read r = Inr (x, r') \<longleftrightarrow> valid x \<and> starts_with r (enc x) \<and> r' = advance r (length (enc x))"

lemma reader_ok_new [simp]: "reader_ok (new_reader bs) \<longleftrightarrow> length bs \<le> u64_max"
  by (simp add: reader_ok_def new_reader_def)

lemma reader_ok_advance:
  "reader_ok r \<Longrightarrow> starts_with r bs \<Longrightarrow> reader_ok (advance r (length bs))"
  unfolding reader_ok_def starts_with_def remaining_def advance_def
  by simp (metis le_diff_conv2 length_drop length_take min.cobounded1 add.commute)

lemma remaining_advance [simp]: "remaining (advance r n) = drop n (remaining r)"
  by (simp add: remaining_def advance_def add.commute)

lemma advance_advance [simp]: "advance (advance r m) n = advance r (m + n)"
  by (simp add: advance_def add.assoc)

lemma starts_with_iff: "starts_with r bs \<longleftrightarrow> (\<exists>rest. remaining r = bs @ rest)"
  unfolding starts_with_def by (metis append_eq_conv_conj append_take_drop_id)

lemma starts_with_append:
  "starts_with r (xs @ ys) \<longleftrightarrow> starts_with r xs \<and> starts_with (advance r (length xs)) ys"
  by (auto simp: starts_with_iff)

lemma starts_with_same_length:
  "starts_with r xs \<Longrightarrow> starts_with r ys \<Longrightarrow> length xs = length ys \<Longrightarrow> xs = ys"
  by (auto simp: starts_with_iff)

lemma starts_with_new: "starts_with (new_reader bs) e \<longleftrightarrow> (\<exists>rest. bs = e @ rest)"
  by (simp add: starts_with_iff remaining_def new_reader_def)

lemma rd_take_eq:
  assumes "reader_ok r"
  shows "rd_take n r = (if n \<le> length (remaining r) then Inr (take n (remaining r), advance r n) else Inl Truncated)"
  using assms
  by (auto simp: rd_take_def reader_ok_def remaining_def advance_def slice_get_def checked_add_def)

lemma rd_take_iff:
  assumes "reader_ok r"
  shows "rd_take n r = Inr (bs, r') \<longleftrightarrow> length bs = n \<and> starts_with r bs \<and> r' = advance r n"
  unfolding rd_take_eq [OF assms] starts_with_iff
  by (auto split: if_splits) (metis append_take_drop_id)

lemma rd_fixed_eq: "reader_ok r \<Longrightarrow> rd_fixed n r = rd_take n r"
  by (auto simp: rd_fixed_def rd_take_eq)

lemma rd_byte_iff:
  assumes "reader_ok r"
  shows "rd_byte r = Inr (b, r') \<longleftrightarrow> starts_with r [b] \<and> r' = advance r 1"
proof (cases "remaining r")
  case Nil
  then show ?thesis by (simp add: rd_byte_def rd_take_eq [OF assms] starts_with_iff)
next
  case (Cons c cs)
  then show ?thesis by (auto simp: rd_byte_def rd_take_eq [OF assms] starts_with_iff)
qed

context reader_codec
begin

definition dec :: "bytes \<Rightarrow> cbor_error + 'v \<times> nat" where
  "dec bs = and_then (read (new_reader bs)) (\<lambda>(x, r). Inr (x, rd_offset r))"

lemma dec_iff_read:
  assumes "length bs \<le> u64_max"
  shows "dec bs = Inr (x, n) \<longleftrightarrow> valid x \<and> n = length (enc x) \<and> (\<exists>rest. bs = enc x @ rest)"
proof -
  have "dec bs = Inr (x, n) \<longleftrightarrow> (\<exists>r. read (new_reader bs) = Inr (x, r) \<and> n = rd_offset r)"
    by (auto simp: dec_def)
  also have "\<dots> \<longleftrightarrow> valid x \<and> n = length (enc x) \<and> (\<exists>rest. bs = enc x @ rest)"
    using assms by (auto simp: read_iff starts_with_new) (simp_all add: advance_def new_reader_def)
  finally show ?thesis .
qed

end

sublocale reader_codec \<subseteq> canonical_codec valid enc dec
  by unfold_locales (auto simp: enc_len dec_iff_read)

section \<open>Heads and integers\<close>

lemma byte_fields:
  fixes b :: byte
  shows "unat (drop_bit 5 b) = unat b div 32" "unat (b AND 0x1f) = unat b mod 32"
proof -
  show "unat (drop_bit 5 b) = unat b div 32"
    by (simp add: drop_bit_eq_div unat_div)
  have "b AND 0x1f = take_bit 5 b"
    by (simp add: take_bit_eq_mask mask_eq_exp_minus_1)
  then show "unat (b AND 0x1f) = unat b mod 32"
    by (simp add: take_bit_eq_mod unat_mod)
qed

lemma byte_tag_iff:
  fixes m b :: byte
  assumes "a < 32"
  shows "m \<le> 7 \<and> b = m * 32 + word_of_nat a \<longleftrightarrow> m = drop_bit 5 b \<and> a = unat b mod 32"
proof -
  have le7: "m \<le> 7 \<longleftrightarrow> unat m \<le> 7" by (simp add: word_le_nat_alt)
  have split: "unat (m * 32 + word_of_nat a :: byte) = unat m * 32 + a" if "unat m \<le> 7"
    using that assms by (simp add: unat_word_ariths unat_of_nat)
  show ?thesis
  proof
    assume "m \<le> 7 \<and> b = m * 32 + word_of_nat a"
    then have "unat b = unat m * 32 + a" using split le7 by simp
    then show "m = drop_bit 5 b \<and> a = unat b mod 32"
      using assms by (simp add: word_unat_eq_iff byte_fields)
  next
    assume *: "m = drop_bit 5 b \<and> a = unat b mod 32"
    then have m: "unat m = unat b div 32" by (simp add: byte_fields)
    with unat_byte_less [of b] have "unat m \<le> 7" by linarith
    moreover from this have "unat b = unat (m * 32 + word_of_nat a :: byte)"
      using * m split by simp
    ultimately show "m \<le> 7 \<and> b = m * 32 + word_of_nat a"
      by (simp add: le7 word_unat_eq_iff)
  qed
qed

lemma be_bytes_take_iff:
  assumes "v < 256 ^ k"
  shows "take k t = be_bytes k v \<longleftrightarrow> k \<le> length t \<and> be_value (take k t) = v"
proof
  assume *: "take k t = be_bytes k v"
  then have "length (take k t) = k" by (simp only: length_be_bytes)
  then have "k \<le> length t" by simp
  with * show "k \<le> length t \<and> be_value (take k t) = v" using assms by simp
next
  assume "k \<le> length t \<and> be_value (take k t) = v"
  then show "take k t = be_bytes k v"
    using be_bytes_be_value [of "take k t"] by (auto simp: min.absorb2)
qed

definition head_info :: "nat \<Rightarrow> nat" where
  "head_info v = (if v \<le> 23 then v else if v \<le> 0xff then 24 else if v \<le> 0xffff then 25
     else if v \<le> 0xffffffff then 26 else 27)"

definition head_width :: "nat \<Rightarrow> nat" where
  "head_width a = (if a \<le> 23 then 0 else if a = 24 then 1 else if a = 25 then 2
     else if a = 26 then 4 else 8)"

lemma be_bytes_1: "be_bytes 1 v = [word_of_nat v]"
  by (simp add: be_bytes_def)

lemma head_eq:
  "head out m v = out @ (m * 32 + word_of_nat (head_info v)) # be_bytes (head_width (head_info v)) v"
  using be_bytes_1 [of v] by (simp add: head_def head_info_def head_width_def Let_def be_bytes_def)

lemma head_info_less: "head_info v < 32"
  by (simp add: head_info_def)

lemma head_width_bound: "v \<le> u64_max \<Longrightarrow> 23 < v \<Longrightarrow> v < 256 ^ head_width (head_info v)"
  by (simp add: head_info_def head_width_def u64_max_def)

lemma rd_head_eq:
  assumes "reader_ok r" "remaining r = b # t"
  defines "a \<equiv> unat b mod 32"
  shows "rd_head r =
    (if 27 < a then Inl Malformed
     else if length t < head_width a then Inl Truncated
     else let v = (if a \<le> 23 then a else be_value (take (head_width a) t)) in
       if head_info v = a then Inr ((drop_bit 5 b, v), advance r (1 + head_width a)) else Inl NonCanonical)"
proof -
  have sw: "starts_with r [b]" by (simp add: starts_with_iff assms(2))
  have first: "rd_byte r = Inr (b, advance r 1)"
    using sw by (simp add: rd_byte_iff [OF assms(1)])
  have ok: "reader_ok (advance r 1)" using reader_ok_advance [OF assms(1) sw] by simp
  have fixed: "rd_fixed n (advance r 1) =
      (if n \<le> length t then Inr (take n t, advance r (1 + n)) else Inl Truncated)" for n
    unfolding rd_fixed_eq [OF ok] rd_take_eq [OF ok] by (simp add: assms(2))
  have byte: "rd_byte (advance r 1) = (case t of [] \<Rightarrow> Inl Truncated | c # _ \<Rightarrow> Inr (c, advance r 2))"
    unfolding rd_byte_def rd_take_eq [OF ok] by (simp add: assms(2) numeral_2_eq_2 split: list.split)
  have bound: "length t < n \<or> be_value (take n t) < 256 ^ n" for n
    using be_value_bound [of "take n t"] by (cases "n \<le> length t") (simp_all add: min.absorb2)
  note at = first byte [unfolded One_nat_def] fixed [unfolded One_nat_def]
  consider "a \<le> 23" | "a = 24" | "a = 25" | "a = 26" | "a = 27" | "27 < a" by linarith
  then show ?thesis
  proof cases
    case 2
    have v: "head_info (unat c) = 24 \<longleftrightarrow> 24 \<le> unat c" for c :: byte
    proof -
      have "unat c \<le> 255" using unat_byte_less [of c] by linarith
      then show ?thesis by (auto simp: head_info_def)
    qed
    show ?thesis
    proof (cases t)
      case Nil
      with 2 show ?thesis
        by (simp add: rd_head_def at byte_fields a_def [symmetric] head_width_def)
    next
      case (Cons c cs)
      with 2 show ?thesis
        by (auto simp: rd_head_def at byte_fields a_def [symmetric] head_width_def be_value_Cons v Let_def
            numeral_2_eq_2)
    qed
  qed (use bound [of 2] bound [of 4] bound [of 8] in
      \<open>auto simp: rd_head_def at byte_fields a_def [symmetric] head_width_def head_info_def Let_def\<close>)
qed

lemma head_info_fits: "head_info v = a \<Longrightarrow> a \<le> 27 \<and> (a \<le> 23 \<longrightarrow> v = a)"
  by (auto simp: head_info_def split: if_splits)

lemma rd_head_iff:
  assumes "reader_ok r"
  shows "rd_head r = Inr ((m, v), r') \<longleftrightarrow>
    (m \<le> 7 \<and> v \<le> u64_max) \<and> starts_with r (head [] m v) \<and> r' = advance r (length (head [] m v))"
proof (cases "remaining r")
  case Nil
  then show ?thesis
    by (auto simp: rd_head_def rd_byte_def rd_take_eq [OF assms] starts_with_iff head_eq)
next
  case (Cons b t)
  define a where "a = unat b mod 32"
  let ?k = "head_width (head_info v)"
  have "starts_with r (head [] m v) \<longleftrightarrow> b = m * 32 + word_of_nat (head_info v) \<and> take ?k t = be_bytes ?k v"
    by (simp add: starts_with_def head_eq Cons)
  then have "(m \<le> 7 \<and> v \<le> u64_max) \<and> starts_with r (head [] m v) \<longleftrightarrow>
      m = drop_bit 5 b \<and> head_info v = a \<and> v \<le> u64_max \<and> take ?k t = be_bytes ?k v"
    using byte_tag_iff [OF head_info_less [of v], of m b] by (auto simp: a_def)
  also have "\<dots> \<longleftrightarrow> m = drop_bit 5 b \<and> head_info v = a \<and> a \<le> 27 \<and> head_width a \<le> length t \<and>
      v = (if a \<le> 23 then a else be_value (take (head_width a) t))"
  proof (cases "head_info v = a")
    case True
    note f = head_info_fits [OF True]
    show ?thesis
    proof (cases "a \<le> 23")
      case True
      with f \<open>head_info v = a\<close> show ?thesis
        by (auto simp: head_width_def be_bytes_def u64_max_def)
    next
      case False
      have "v \<le> u64_max \<and> take ?k t = be_bytes ?k v \<longleftrightarrow> head_width a \<le> length t \<and> be_value (take (head_width a) t) = v"
      proof (cases "v \<le> u64_max")
        case le: True
        from False True have "23 < v" by (auto simp: head_info_def split: if_splits)
        with head_width_bound [OF le] be_bytes_take_iff [of v "head_width a" t] True le show ?thesis by simp
      next
        case gt: False
        have "be_value (take (head_width a) t) < 256 ^ 8" if "head_width a \<le> length t"
          using be_value_bound [of "take (head_width a) t"] that
            power_increasing [of "head_width a" 8 "256 :: nat"]
          by (auto simp: min.absorb2 head_width_def split: if_splits)
        with gt show ?thesis by (auto simp: u64_max_def)
      qed
      with False True f show ?thesis by auto
    qed
  qed simp
  finally have spec: "(m \<le> 7 \<and> v \<le> u64_max) \<and> starts_with r (head [] m v) \<longleftrightarrow>
      m = drop_bit 5 b \<and> head_info v = a \<and> a \<le> 27 \<and> head_width a \<le> length t \<and>
      v = (if a \<le> 23 then a else be_value (take (head_width a) t))" .
  have "length (head [] m v) = 1 + ?k" by (simp add: head_eq)
  with spec show ?thesis
    unfolding rd_head_eq [OF assms Cons] a_def [symmetric] by (auto simp: Let_def)
qed

lemma head_nonempty [simp]: "head out m v \<noteq> []"
  by (simp add: head_eq)

lemma head_append: "head out m v = out @ head [] m v"
  by (simp add: head_eq)

lemma length_head: "length (head [] m v) = head_len v"
  by (simp add: head_def head_len_def Let_def)

lemma head_len_le: "head_len v \<le> 9"
  by (simp add: head_len_def)

lemma head_fits: "length (head [] m v) \<le> u64_max"
  using head_len_le [of v] by (simp add: length_head u64_max_def)

interpretation head_codec: reader_codec "\<lambda>(m, v). m \<le> 7 \<and> v \<le> u64_max" "\<lambda>(m, v). head [] m v" rd_head
  by unfold_locales (auto simp: head_fits rd_head_iff)

lemma rd_typed_head_iff:
  assumes "reader_ok r" "m \<le> 7"
  shows "rd_typed_head m r = Inr (v, r') \<longleftrightarrow>
    v \<le> u64_max \<and> starts_with r (head [] m v) \<and> r' = advance r (length (head [] m v))"
  using assms by (auto simp: rd_typed_head_def rd_head_iff)

lemma major_le [simp]:
  "major_unsigned \<le> 7" "major_negative \<le> 7" "major_bytes \<le> 7" "major_text \<le> 7"
  "major_array \<le> 7" "major_map \<le> 7"
  by (simp_all add: major_defs word_le_nat_alt)

lemma rd_length_iff:
  assumes "reader_ok r" "m \<le> 7"
  shows "rd_length m maximum r = Inr (v, r') \<longleftrightarrow>
    v \<le> maximum \<and> v \<le> u64_max \<and> starts_with r (head [] m v) \<and> r' = advance r (length (head [] m v))"
proof -
  have "rd_length m maximum r = Inr (v, r') \<longleftrightarrow>
      rd_typed_head m r = Inr (v, r') \<and> v \<le> u64_max \<and> v \<le> maximum"
    unfolding rd_length_def by (cases "rd_typed_head m r") auto
  then show ?thesis unfolding rd_typed_head_iff [OF assms] by blast
qed

lemmas rd_iffs = rd_head_iff rd_typed_head_iff rd_length_iff rd_take_iff rd_byte_iff

interpretation uint_codec: reader_codec "\<lambda>v. v \<le> u64_max" "cbor_uint []" rd_uint
  by unfold_locales (simp_all add: cbor_uint_def rd_uint_def head_fits rd_typed_head_iff)

lemma rd_int_head:
  "rd_int r = Inr (x, r') \<longleftrightarrow>
    (\<exists>m v. rd_head r = Inr ((m, v), r') \<and> v \<le> i64_max \<and>
      (m = major_unsigned \<and> x = int v \<or> m = major_negative \<and> x = - 1 - int v))"
proof (cases "rd_head r")
  case (Inr p)
  obtain m v s where p: "p = ((m, v), s)" by (cases p) auto
  show ?thesis unfolding rd_int_def Inr p by (auto simp: major_defs)
qed (simp add: rd_int_def)

lemma abs_bounds:
  "x < 0 \<Longrightarrow> unsigned_abs x - 1 \<le> i64_max \<longleftrightarrow> - (2 ^ 63) \<le> x"
  "\<not> x < 0 \<Longrightarrow> unsigned_abs x \<le> i64_max \<longleftrightarrow> x < 2 ^ 63"
  by (simp_all add: unsigned_abs_def i64_max_def) linarith+

lemma i64_le_u64: "v \<le> i64_max \<Longrightarrow> v \<le> u64_max"
  by (simp add: i64_max_def u64_max_def)

lemma rd_int_iff:
  assumes ok: "reader_ok r"
  shows "rd_int r = Inr (x, r') \<longleftrightarrow> (- (2 ^ 63) \<le> x \<and> x < 2 ^ 63) \<and>
    starts_with r (cbor_int [] x) \<and> r' = advance r (length (cbor_int [] x))"
proof (cases "x < 0")
  case True
  have v: "x = - 1 - int v \<longleftrightarrow> v = unsigned_abs x - 1" for v
    using True unfolding unsigned_abs_def by linarith
  have sign: "x \<noteq> int v" for v using True by simp
  have "rd_int r = Inr (x, r') \<longleftrightarrow> unsigned_abs x - 1 \<le> i64_max \<and>
      rd_head r = Inr ((major_negative, unsigned_abs x - 1), r')"
    unfolding rd_int_head by (simp add: v sign) blast
  also have "\<dots> \<longleftrightarrow> - (2 ^ 63) \<le> x \<and> rd_head r = Inr ((major_negative, unsigned_abs x - 1), r')"
    by (simp only: abs_bounds(1) [OF True])
  finally have eq: "rd_int r = Inr (x, r') \<longleftrightarrow>
      - (2 ^ 63) \<le> x \<and> rd_head r = Inr ((major_negative, unsigned_abs x - 1), r')" .
  have "- (2 ^ 63) \<le> x \<Longrightarrow> unsigned_abs x - 1 \<le> u64_max"
    using abs_bounds(1) [OF True] i64_le_u64 by blast
  moreover have "x < 2 ^ 63" using True by simp
  ultimately show ?thesis
    unfolding eq rd_head_iff [OF ok] cbor_int_def using True major_le by (simp only: if_True) blast
next
  case False
  have v: "x = int v \<longleftrightarrow> v = unsigned_abs x" for v
    using False unfolding unsigned_abs_def by linarith
  have sign: "x \<noteq> - 1 - int v" for v using False by linarith
  have "rd_int r = Inr (x, r') \<longleftrightarrow> unsigned_abs x \<le> i64_max \<and>
      rd_head r = Inr ((major_unsigned, unsigned_abs x), r')"
    unfolding rd_int_head by (simp add: v sign) blast
  also have "\<dots> \<longleftrightarrow> x < 2 ^ 63 \<and> rd_head r = Inr ((major_unsigned, unsigned_abs x), r')"
    by (simp only: abs_bounds(2) [OF False])
  finally have eq: "rd_int r = Inr (x, r') \<longleftrightarrow>
      x < 2 ^ 63 \<and> rd_head r = Inr ((major_unsigned, unsigned_abs x), r')" .
  have "x < 2 ^ 63 \<Longrightarrow> unsigned_abs x \<le> u64_max"
    using abs_bounds(2) [OF False] i64_le_u64 by blast
  moreover have "- (2 ^ 63) \<le> x" using False by simp
  ultimately show ?thesis
    unfolding eq rd_head_iff [OF ok] cbor_int_def using False major_le by (simp only: if_False) blast
qed

interpretation int_codec: reader_codec "\<lambda>v. - (2 ^ 63) \<le> v \<and> v < 2 ^ 63" "cbor_int []" rd_int
  by unfold_locales (simp add: cbor_int_def head_fits, rule rd_int_iff)

section \<open>Strings, containers and null\<close>

lemma starts_with_length: "reader_ok r \<Longrightarrow> starts_with r bs \<Longrightarrow> length bs \<le> u64_max"
  by (auto simp: starts_with_iff reader_ok_def remaining_def dest: arg_cong [where f = length])

lemma rd_string_iff:
  assumes "reader_ok r" "m \<le> 7"
  shows "and_then (rd_length m maximum r) (\<lambda>(len, r). rd_take len r) = Inr (bs, r') \<longleftrightarrow>
    (length bs \<le> maximum \<and> length (head [] m (length bs) @ bs) \<le> u64_max) \<and>
    starts_with r (head [] m (length bs) @ bs) \<and> r' = advance r (length (head [] m (length bs) @ bs))"
    (is "?read = _ \<longleftrightarrow> ?spec")
proof -
  have "?read = Inr (bs, r') \<longleftrightarrow>
      (\<exists>n s. rd_length m maximum r = Inr (n, s) \<and> rd_take n s = Inr (bs, r'))"
    by (auto split: prod.splits)
  also have "\<dots> \<longleftrightarrow> (\<exists>n. n \<le> maximum \<and> n \<le> u64_max \<and> starts_with r (head [] m n) \<and>
      rd_take n (advance r (length (head [] m n))) = Inr (bs, r'))"
    unfolding rd_length_iff [OF assms] by blast
  also have "\<dots> \<longleftrightarrow> (\<exists>n. n \<le> maximum \<and> n \<le> u64_max \<and> starts_with r (head [] m n) \<and>
      length bs = n \<and> starts_with (advance r (length (head [] m n))) bs \<and>
      r' = advance r (length (head [] m n) + n))"
    using rd_take_iff [OF reader_ok_advance [OF assms(1)]] by (metis advance_advance)
  also have "\<dots> \<longleftrightarrow> ?spec"
    using starts_with_length [OF assms(1), of "head [] m (length bs) @ bs"]
    by (auto simp: starts_with_append)
  finally show ?thesis .
qed

lemma rd_bytes_iff:
  assumes "reader_ok r"
  shows "rd_bytes maximum r = Inr (bs, r') \<longleftrightarrow>
    (length bs \<le> maximum \<and> length (byte_string [] bs) \<le> u64_max) \<and>
    starts_with r (byte_string [] bs) \<and> r' = advance r (length (byte_string [] bs))"
  unfolding rd_bytes_def byte_string_def by (rule rd_string_iff [OF assms]) simp

lemma rd_text_iff:
  assumes "reader_ok r"
  shows "rd_text maximum r = Inr (bs, r') \<longleftrightarrow>
    (length bs \<le> maximum \<and> length (text_string [] bs) \<le> u64_max \<and> utf8_ok bs) \<and>
    starts_with r (text_string [] bs) \<and> r' = advance r (length (text_string [] bs))"
proof -
  have "rd_text maximum r = Inr (bs, r') \<longleftrightarrow> utf8_ok bs \<and>
      and_then (rd_length major_text maximum r) (\<lambda>(len, r). rd_take len r) = Inr (bs, r')"
    unfolding rd_text_def by (auto split: prod.splits)
  then show ?thesis
    unfolding text_string_def rd_string_iff [OF assms major_le(4)] by blast
qed

lemma rd_fixed_bytes_iff:
  assumes "reader_ok r"
  shows "rd_fixed_bytes n r = Inr (bs, r') \<longleftrightarrow>
    (length bs = n \<and> length (byte_string [] bs) \<le> u64_max) \<and>
    starts_with r (byte_string [] bs) \<and> r' = advance r (length (byte_string [] bs))"
proof -
  have "rd_fixed_bytes n r = Inr (bs, r') \<longleftrightarrow> rd_bytes n r = Inr (bs, r') \<and> length bs = n"
  proof (cases "rd_length major_bytes n r")
    case (Inr p)
    obtain k s where p: "p = (k, s)" by (cases p)
    have ok: "reader_ok s"
      using Inr assms reader_ok_advance by (auto simp: p rd_length_iff)
    show ?thesis
      unfolding rd_fixed_bytes_def rd_bytes_def Inr p
      by (auto simp: rd_fixed_eq [OF ok] rd_take_iff [OF ok])
  qed (simp add: rd_fixed_bytes_def rd_bytes_def)
  then show ?thesis unfolding rd_bytes_iff [OF assms] by auto
qed

interpretation bytes_codec: reader_codec
    "\<lambda>bs. length bs \<le> maximum \<and> length (byte_string [] bs) \<le> u64_max" "byte_string []" "rd_bytes maximum"
  for maximum
  by unfold_locales (simp_all add: rd_bytes_iff)

interpretation fixed_bytes_codec: reader_codec
    "\<lambda>bs. length bs = n \<and> length (byte_string [] bs) \<le> u64_max" "byte_string []" "rd_fixed_bytes n"
  for n
  by unfold_locales (simp_all add: rd_fixed_bytes_iff)

interpretation text_codec: reader_codec
    "\<lambda>bs. length bs \<le> maximum \<and> length (text_string [] bs) \<le> u64_max \<and> utf8_ok bs"
    "text_string []" "rd_text maximum"
  for maximum
  by unfold_locales (simp_all add: rd_text_iff)

lemma rd_array_len_iff:
  assumes "reader_ok r"
  shows "rd_array_len maximum r = Inr (v, r') \<longleftrightarrow> (v \<le> maximum \<and> v \<le> u64_max) \<and>
    starts_with r (array_head [] v) \<and> r' = advance r (length (array_head [] v))"
proof -
  have "rd_array_len maximum r = Inr (v, r') \<longleftrightarrow> rd_typed_head major_array r = Inr (v, r') \<and> v \<le> maximum"
    unfolding rd_array_len_def by (cases "rd_typed_head major_array r") auto
  then show ?thesis
    unfolding rd_typed_head_iff [OF assms major_le(5)] array_head_def by blast
qed

lemma rd_map_len_iff:
  assumes "reader_ok r"
  shows "rd_map_len maximum r = Inr (v, r') \<longleftrightarrow> (v \<le> maximum \<and> v \<le> u64_max) \<and>
    starts_with r (map_head [] v) \<and> r' = advance r (length (map_head [] v))"
proof -
  have "rd_map_len maximum r = Inr (v, r') \<longleftrightarrow> rd_typed_head major_map r = Inr (v, r') \<and> v \<le> maximum"
    unfolding rd_map_len_def by (cases "rd_typed_head major_map r") auto
  then show ?thesis
    unfolding rd_typed_head_iff [OF assms major_le(6)] map_head_def by blast
qed

interpretation array_codec: reader_codec
    "\<lambda>v. v \<le> maximum \<and> v \<le> u64_max" "array_head []" "rd_array_len maximum" for maximum
  by unfold_locales (simp_all add: rd_array_len_iff array_head_def head_fits)

interpretation map_codec: reader_codec
    "\<lambda>v. v \<le> maximum \<and> v \<le> u64_max" "map_head []" "rd_map_len maximum" for maximum
  by unfold_locales (simp_all add: rd_map_len_iff map_head_def head_fits)

lemma rd_null_iff:
  assumes "reader_ok r"
  shows "rd_null r = Inr (u, r') \<longleftrightarrow> starts_with r (null_item []) \<and> r' = advance r 1"
  using rd_byte_iff [OF assms, of NULL r']
  by (cases "rd_byte r") (auto simp: rd_null_def null_item_def)

interpretation null_codec: reader_codec "\<lambda>_. True" "\<lambda>_. null_item []" rd_null
  by unfold_locales (simp_all add: rd_null_iff null_item_def u64_max_def)

lemma rd_exact_iff:
  assumes "reader_ok r"
  shows "rd_key k r = Inr (u, r') \<longleftrightarrow>
      k \<le> u64_max \<and> starts_with r (cbor_uint [] k) \<and> r' = advance r (length (cbor_uint [] k))"
    "rd_array k r = Inr (u, r') \<longleftrightarrow>
      k \<le> u64_max \<and> starts_with r (array_head [] k) \<and> r' = advance r (length (array_head [] k))"
    "rd_map k r = Inr (u, r') \<longleftrightarrow>
      k \<le> u64_max \<and> starts_with r (map_head [] k) \<and> r' = advance r (length (map_head [] k))"
proof -
  have "rd_key k r = Inr (u, r') \<longleftrightarrow> rd_typed_head major_unsigned r = Inr (k, r')"
    by (cases "rd_typed_head major_unsigned r") (auto simp: rd_key_def rd_uint_def)
  then show "rd_key k r = Inr (u, r') \<longleftrightarrow>
      k \<le> u64_max \<and> starts_with r (cbor_uint [] k) \<and> r' = advance r (length (cbor_uint [] k))"
    by (simp add: rd_typed_head_iff assms cbor_uint_def)
  have "rd_array k r = Inr (u, r') \<longleftrightarrow> rd_typed_head major_array r = Inr (k, r')"
    by (cases "rd_typed_head major_array r") (auto simp: rd_array_def)
  then show "rd_array k r = Inr (u, r') \<longleftrightarrow>
      k \<le> u64_max \<and> starts_with r (array_head [] k) \<and> r' = advance r (length (array_head [] k))"
    by (simp add: rd_typed_head_iff assms array_head_def)
  have "rd_map k r = Inr (u, r') \<longleftrightarrow> rd_typed_head major_map r = Inr (k, r')"
    by (cases "rd_typed_head major_map r") (auto simp: rd_map_def)
  then show "rd_map k r = Inr (u, r') \<longleftrightarrow>
      k \<le> u64_max \<and> starts_with r (map_head [] k) \<and> r' = advance r (length (map_head [] k))"
    by (simp add: rd_typed_head_iff assms map_head_def)
qed

section \<open>Properties\<close>

text \<open>Head decoding is exact and canonical: the reader accepts a head with major type m and
  argument v exactly when the input continues with the shortest-form encoding of (m, v), for
  every major type and every 64-bit argument, and it consumes exactly that encoding. No other
  byte sequence decodes to (m, v).\<close>

theorem cbor_head_canonical:
  assumes "reader_ok r"
  shows "rd_head r = Inr ((m, v), r') \<longleftrightarrow>
    m \<le> 7 \<and> v \<le> u64_max \<and> starts_with r (head [] m v) \<and> r' = advance r (head_len v)"
  using rd_head_iff [OF assms] by (auto simp: length_head)

text \<open>Signed integers round-trip over the whole 64-bit range, including the smallest value
  whose magnitude does not fit a signed word: an integer is read exactly from its one encoding,
  its encoding has the length predicted by the length function, and two encodings followed by
  any bytes agree only when the integers and the rest agree.\<close>

theorem cbor_int_canonical:
  assumes "reader_ok r" "- (2 ^ 63) \<le> x" "x < 2 ^ 63" "- (2 ^ 63) \<le> y" "y < 2 ^ 63"
  shows "(rd_int r = Inr (x, r') \<longleftrightarrow> starts_with r (cbor_int [] x) \<and> r' = advance r (int_len x)) \<and>
    length (cbor_int [] x) = int_len x \<and>
    (cbor_int [] x @ s = cbor_int [] y @ t \<longleftrightarrow> x = y \<and> s = t)"
proof -
  have "length (cbor_int [] x) = int_len x"
    by (simp add: cbor_int_def int_len_def length_head)
  moreover have "cbor_int [] x @ s = cbor_int [] y @ t \<longleftrightarrow> x = y \<and> s = t"
    using int_codec.enc_append_inject [of x y s t] assms by auto
  ultimately show ?thesis using rd_int_iff [OF assms(1)] assms by auto
qed

text \<open>Byte and text strings: reading with a bound accepts exactly the canonical encoding of
  a string within the bound (for text, one that is well-formed UTF-8), consumes exactly the
  predicted payload length, and never reads past it.\<close>

theorem cbor_strings_canonical:
  assumes "reader_ok r" "length (byte_string [] bs) \<le> u64_max"
  shows "(rd_bytes maximum r = Inr (bs, r') \<longleftrightarrow>
      length bs \<le> maximum \<and> starts_with r (byte_string [] bs) \<and> r' = advance r (payload_len (length bs))) \<and>
    (rd_text maximum r = Inr (bs, r') \<longleftrightarrow>
      length bs \<le> maximum \<and> utf8_ok bs \<and> starts_with r (text_string [] bs) \<and>
      r' = advance r (payload_len (length bs)))"
proof -
  have len: "length (byte_string [] bs) = payload_len (length bs)"
      "length (text_string [] bs) = payload_len (length bs)"
    using assms(2) by (simp_all add: byte_string_def text_string_def payload_len_def length_head)
  with assms(2) have "length (text_string [] bs) \<le> u64_max" by simp
  then show ?thesis
    unfolding rd_bytes_iff [OF assms(1)] rd_text_iff [OF assms(1)] using assms(2) len by auto
qed

end
