(* ===== verification/Frame_Codec.thy ===== *)
theory Frame_Codec
  imports Vot_Prelude
begin

text \<open>
  The wire framing (\<open>src/crates/vot-codec/src/lib.rs\<close> and its generated registries): QUIC
  variable-length integers, the frame envelope with its registered payload bounds, batch
  decoding, and the two payloads that negotiation exchanges, \<open>SETTINGS\<close> and \<open>HELLO\<close>.
  Encoders append to an output vector and return it, or an error; what a failed encoder has
  already written is not represented, as callers discard the vector. A \<open>BTreeSet\<close> is the
  strictly increasing list of its elements, the order in which the source iterates it.
\<close>

unbundle bit_operations_syntax

section \<open>Registries\<close>

definition MAX_QUIC_VARINT :: nat where "MAX_QUIC_VARINT = 2 ^ 62 - 1"
definition HARD_MAX_FRAME_PAYLOAD :: nat where "HARD_MAX_FRAME_PAYLOAD = 16 * 1024 * 1024"
definition DEFAULT_MAX_UNKNOWN_PAYLOAD :: nat where "DEFAULT_MAX_UNKNOWN_PAYLOAD = 1024 * 1024"
definition DEFAULT_MAX_FRAMES_PER_BATCH :: nat where "DEFAULT_MAX_FRAMES_PER_BATCH = 4096"
definition MAX_SETTINGS_PER_FRAME :: nat where "MAX_SETTINGS_PER_FRAME = 128"
definition MAX_EXTENSIONS_PER_HELLO :: nat where "MAX_EXTENSIONS_PER_HELLO = 256"
definition DRAFT_REVISION :: nat where "DRAFT_REVISION = 5"

text \<open>One row per registered frame: its type, payload limit, whether an authenticated session
  is required to send it, and the extension it needs.\<close>

definition DATAGRAM_FEC :: nat where "DATAGRAM_FEC = 1"

definition frame_registry :: "(nat \<times> nat \<times> bool \<times> nat option) list" where
  "frame_registry =
   [(0x01, 4 * 1024, False, None), (0x03, 16 * 1024, False, None), (0x05, 0, False, None),
    (0x07, 64 * 1024, False, None), (0x09, 64 * 1024, False, None),
    (0x0b, 64 * 1024, False, None), (0x0d, 64 * 1024, False, None),
    (0x21, 1024 * 1024, True, None), (0x23, 64 * 1024, True, None),
    (0x25, 1024 * 1024, True, None), (0x27, 1024 * 1024, True, None),
    (0x29, 256 * 1024, True, None), (0x2b, 4 * 1024 * 1024, True, None),
    (0x2d, 1024 * 1024, True, None), (0x2f, HARD_MAX_FRAME_PAYLOAD, True, None),
    (0x31, 256 * 1024, True, None), (0x33, 64 * 1024, True, None),
    (0x40, 4 * 1024, True, None), (0x43, 64 * 1024, True, None),
    (0x45, 64 * 1024, True, None), (0x47, 64 * 1024, True, None),
    (0x49, 64 * 1024, True, None), (0x60, 4 * 1024, True, Some DATAGRAM_FEC),
    (0x62, 64 * 1024, True, Some DATAGRAM_FEC), (0x64, 64 * 1024, True, Some DATAGRAM_FEC),
    (0x66, 64 * 1024, True, Some DATAGRAM_FEC), (0x68, 64 * 1024, True, Some DATAGRAM_FEC),
    (0x80, 0, False, None), (0x83, 4 * 1024, True, None), (0x85, 64 * 1024, False, None),
    (0x86, 64 * 1024, True, None), (0x89, 64 * 1024, True, None)]"

text \<open>The registered frame types, by name.\<close>

definition HELLO :: nat where "HELLO = 0x01"
definition SETTINGS :: nat where "SETTINGS = 0x03"
definition SETTINGS_ACK :: nat where "SETTINGS_ACK = 0x05"
definition AUTH_CONTEXT :: nat where "AUTH_CONTEXT = 0x07"
definition SESSION_OPEN :: nat where "SESSION_OPEN = 0x09"
definition SESSION_ACCEPT :: nat where "SESSION_ACCEPT = 0x0b"
definition SESSION_REJECT :: nat where "SESSION_REJECT = 0x0d"
definition PACKAGE_DESCRIPTOR :: nat where "PACKAGE_DESCRIPTOR = 0x21"
definition MANIFEST_REQUEST :: nat where "MANIFEST_REQUEST = 0x23"
definition MANIFEST_PAGE :: nat where "MANIFEST_PAGE = 0x25"
definition PROGRESSIVE_PAGE :: nat where "PROGRESSIVE_PAGE = 0x27"
definition SEAL :: nat where "SEAL = 0x29"
definition HAVE :: nat where "HAVE = 0x2b"
definition RANGE_REQUEST :: nat where "RANGE_REQUEST = 0x2d"
definition PROOF_BUNDLE :: nat where "PROOF_BUNDLE = 0x2f"
definition DATA_RECORD :: nat where "DATA_RECORD = 0x31"
definition RANGE_CANCEL :: nat where "RANGE_CANCEL = 0x33"
definition CAPACITY :: nat where "CAPACITY = 0x40"
definition TRANSIT_VERIFIED :: nat where "TRANSIT_VERIFIED = 0x43"
definition CHUNK_DURABLE :: nat where "CHUNK_DURABLE = 0x45"
definition CHUNK_AT_REST_VERIFIED :: nat where "CHUNK_AT_REST_VERIFIED = 0x47"
definition PUBLISH_RECEIPT :: nat where "PUBLISH_RECEIPT = 0x49"
definition DATAGRAM_CREDIT :: nat where "DATAGRAM_CREDIT = 0x60"
definition CODING_EPOCH_OPEN :: nat where "CODING_EPOCH_OPEN = 0x62"
definition GEN_STATE :: nat where "GEN_STATE = 0x64"
definition GEN_DONE :: nat where "GEN_DONE = 0x66"
definition CODING_EPOCH_CLOSE :: nat where "CODING_EPOCH_CLOSE = 0x68"
definition PING :: nat where "PING = 0x80"
definition GOAWAY :: nat where "GOAWAY = 0x83"
definition ERROR :: nat where "ERROR = 0x85"
definition SOURCE_SCORE_HINT :: nat where "SOURCE_SCORE_HINT = 0x86"
definition JOB_PRIORITY_UPDATE :: nat where "JOB_PRIORITY_UPDATE = 0x89"

lemmas frame_types = HELLO_def SETTINGS_def SETTINGS_ACK_def AUTH_CONTEXT_def SESSION_OPEN_def
  SESSION_ACCEPT_def SESSION_REJECT_def PACKAGE_DESCRIPTOR_def MANIFEST_REQUEST_def
  MANIFEST_PAGE_def PROGRESSIVE_PAGE_def SEAL_def HAVE_def RANGE_REQUEST_def PROOF_BUNDLE_def
  DATA_RECORD_def RANGE_CANCEL_def CAPACITY_def TRANSIT_VERIFIED_def CHUNK_DURABLE_def
  CHUNK_AT_REST_VERIFIED_def PUBLISH_RECEIPT_def DATAGRAM_CREDIT_def CODING_EPOCH_OPEN_def
  GEN_STATE_def GEN_DONE_def CODING_EPOCH_CLOSE_def PING_def GOAWAY_def ERROR_def
  SOURCE_SCORE_HINT_def JOB_PRIORITY_UPDATE_def

definition registered_payload_limit :: "nat \<Rightarrow> nat option" where
  "registered_payload_limit frame_type = map_option fst (map_of frame_registry frame_type)"

definition required_extension :: "nat \<Rightarrow> nat option" where
  "required_extension frame_type =
    (case map_of frame_registry frame_type of Some (_, _, extension) \<Rightarrow> extension | None \<Rightarrow> None)"

definition requires_authentication :: "nat \<Rightarrow> bool" where
  "requires_authentication frame_type =
    (case map_of frame_registry frame_type of Some (_, auth, _) \<Rightarrow> auth | None \<Rightarrow> True)"

definition is_critical :: "nat \<Rightarrow> bool" where
  "is_critical frame_type \<longleftrightarrow> frame_type mod 2 = 1"

definition is_grease :: "nat \<Rightarrow> bool" where
  "is_grease frame_type \<longleftrightarrow> 0x1f00 \<le> frame_type \<and> frame_type \<le> 0x1ffe \<and> frame_type mod 2 = 0"

definition is_known :: "nat \<Rightarrow> bool" where
  "is_known frame_type \<longleftrightarrow> registered_payload_limit frame_type \<noteq> None"

section \<open>Errors and limits\<close>

record decode_limits =
  max_unknown_payload :: nat
  max_frames :: nat

definition default_limits :: decode_limits where
  "default_limits = \<lparr>max_unknown_payload = DEFAULT_MAX_UNKNOWN_PAYLOAD,
     max_frames = DEFAULT_MAX_FRAMES_PER_BATCH\<rparr>"

datatype decode_error =
    Incomplete (needed: nat) (available: nat)
  | ValueOutOfRange nat
  | InvalidLimits
  | LengthOverflow nat
  | FrameTooLarge nat nat nat
  | UnknownCritical nat
  | TooManyFrames nat

fun decode_protocol_code :: "decode_error \<Rightarrow> nat" where
  "decode_protocol_code (FrameTooLarge _ _ _) = 0x0103"
| "decode_protocol_code (UnknownCritical _) = 0x0101"
| "decode_protocol_code (TooManyFrames _) = 0x0502"
| "decode_protocol_code (Incomplete _ _) = 0x0102"
| "decode_protocol_code (ValueOutOfRange _) = 0x0102"
| "decode_protocol_code InvalidLimits = 0x0102"
| "decode_protocol_code (LengthOverflow _) = 0x0102"

definition validate_limits :: "decode_limits \<Rightarrow> decode_error + unit" where
  "validate_limits limits =
    (if HARD_MAX_FRAME_PAYLOAD < max_unknown_payload limits \<or> max_frames limits = 0
     then Inl InvalidLimits else Inr ())"

section \<open>Variable-length integers\<close>

definition encode_varint :: "nat \<Rightarrow> bytes \<Rightarrow> decode_error + bytes" where
  "encode_varint value out =
    (if MAX_QUIC_VARINT < value then Inl (ValueOutOfRange value)
     else if value < 2 ^ 6 then Inr (out @ [word_of_nat value])
     else if value < 2 ^ 14 then Inr (out @ be_bytes 2 (value + 0x4000))
     else if value < 2 ^ 30 then Inr (out @ be_bytes 4 (value + 0x80000000))
     else Inr (out @ be_bytes 8 (value + 0xc000000000000000)))"

definition decode_varint :: "bytes \<Rightarrow> decode_error + nat \<times> nat" where
  "decode_varint input =
    (case input of
       [] \<Rightarrow> Inl (Incomplete 1 0)
     | first # _ \<Rightarrow>
         let width = 2 ^ unat (drop_bit 6 first) in
         if length input < width then Inl (Incomplete width (length input))
         else Inr (foldl (\<lambda>value b. value * 2 ^ 8 + unat b) (unat (first AND 0x3f))
                     (take (width - 1) (drop 1 input)), width))"

lemma decode_varint_width:
  "decode_varint input = Inr (value, width) \<Longrightarrow> 1 \<le> width \<and> width \<le> length input"
  by (auto simp: decode_varint_def Let_def split: list.splits)

section \<open>Frames\<close>

definition encode_frame :: "nat \<Rightarrow> bytes \<Rightarrow> bytes \<Rightarrow> decode_error + bytes" where
  "encode_frame frame_type payload out =
    (let len = length payload;
         limit = (case registered_payload_limit frame_type of
             Some limit \<Rightarrow> limit | None \<Rightarrow> DEFAULT_MAX_UNKNOWN_PAYLOAD);
         limit = min limit HARD_MAX_FRAME_PAYLOAD in
     if limit < length payload then Inl (FrameTooLarge frame_type len limit)
     else and_then (encode_varint frame_type out) (\<lambda>out.
          and_then (encode_varint len out) (\<lambda>out. Inr (out @ payload))))"

record frame_envelope =
  env_frame_type :: nat
  payload_length :: nat
  header_length :: nat
  total_length :: nat
  skipped :: bool

definition parse_envelope_prefix :: "bytes \<Rightarrow> decode_limits \<Rightarrow> decode_error + frame_envelope" where
  "parse_envelope_prefix input limits =
    and_then (validate_limits limits) (\<lambda>_.
    and_then (decode_varint input) (\<lambda>(frame_type, type_width).
    and_then (decode_varint (drop type_width input)) (\<lambda>(len, length_width).
      let known_limit = registered_payload_limit frame_type;
          limit = min (case known_limit of Some limit \<Rightarrow> limit | None \<Rightarrow> max_unknown_payload limits)
                      HARD_MAX_FRAME_PAYLOAD in
      if limit < len then Inl (FrameTooLarge frame_type len limit)
      else if known_limit = None \<and> is_critical frame_type then Inl (UnknownCritical frame_type)
      else
        and_then (ok_or (checked_add type_width length_width) (LengthOverflow len)) (\<lambda>header.
        and_then (ok_or (checked_add header len) (LengthOverflow len)) (\<lambda>total.
          Inr \<lparr>env_frame_type = frame_type, payload_length = len, header_length = header,
               total_length = total, skipped = known_limit = None \<or> is_grease frame_type\<rparr>)))))"

definition peek_envelope :: "bytes \<Rightarrow> decode_limits \<Rightarrow> decode_error + frame_envelope" where
  "peek_envelope input limits = parse_envelope_prefix input limits"

datatype decoded_frame = Known nat bytes | SkippedOptional nat nat

definition decode_one :: "bytes \<Rightarrow> decode_limits \<Rightarrow> decode_error + decoded_frame \<times> nat" where
  "decode_one input limits =
    and_then (parse_envelope_prefix input limits) (\<lambda>envelope.
      if length input < total_length envelope
      then Inl (Incomplete (total_length envelope) (length input))
      else if skipped envelope
      then Inr (SkippedOptional (env_frame_type envelope) (payload_length envelope), total_length envelope)
      else Inr (Known (env_frame_type envelope)
                  (take (total_length envelope - header_length envelope) (drop (header_length envelope) input)),
                total_length envelope))"

lemma decode_one_progress:
  "decode_one input limits = Inr (frame, n) \<Longrightarrow> 0 < n \<and> n \<le> length input"
  by (auto simp: decode_one_def parse_envelope_prefix_def Let_def
      dest: decode_varint_width split: if_splits)

function decode_all_loop ::
  "bytes \<Rightarrow> decode_limits \<Rightarrow> nat \<Rightarrow> decoded_frame list \<Rightarrow> decode_error + decoded_frame list" where
  "decode_all_loop input limits offset frames =
    (if offset < length input then
       if length frames = max_frames limits then Inl (TooManyFrames (max_frames limits))
       else
         and_then (decode_one (drop offset input) limits) (\<lambda>(frame, consumed).
         and_then (ok_or (checked_add offset consumed) (LengthOverflow consumed)) (\<lambda>offset'.
           decode_all_loop input limits offset' (frames @ [frame])))
     else Inr frames)"
  by pat_completeness auto

termination
  by (relation "measure (\<lambda>(input, limits, offset, frames). length input - offset)")
    (auto dest!: decode_one_progress)

declare decode_all_loop.simps [simp del]

definition decode_all :: "bytes \<Rightarrow> decode_limits \<Rightarrow> decode_error + decoded_frame list" where
  "decode_all input limits =
    and_then (validate_limits limits) (\<lambda>_. decode_all_loop input limits 0 [])"

section \<open>The SETTINGS payload\<close>

record settings =
  max_control_frame_payload :: nat
  max_data_record_payload :: nat
  max_manifest_page_payload :: nat
  reliable_lane_limit :: nat
  idle_timeout_ms :: nat

definition default_settings :: settings where
  "default_settings =
    \<lparr>max_control_frame_payload = 1048576, max_data_record_payload = 262144,
     max_manifest_page_payload = 1048576, reliable_lane_limit = 16, idle_timeout_ms = 90000\<rparr>"

definition advertised :: "settings \<Rightarrow> (nat \<times> nat) list" where
  "advertised s =
    [(0x01, max_control_frame_payload s), (0x03, max_data_record_payload s),
     (0x05, max_manifest_page_payload s), (0x07, reliable_lane_limit s), (0x09, idle_timeout_ms s)]"

datatype settings_error =
    SettingsMalformed decode_error
  | SettingsDuplicate nat
  | SettingsUnknownCritical nat
  | SettingsInvalidValue nat nat
  | SettingsTooMany nat

fun settings_protocol_code :: "settings_error \<Rightarrow> nat" where
  "settings_protocol_code (SettingsDuplicate _) = 0x0106"
| "settings_protocol_code (SettingsInvalidValue _ _) = 0x0105"
| "settings_protocol_code (SettingsUnknownCritical _) = 0x0105"
| "settings_protocol_code (SettingsTooMany _) = 0x0502"
| "settings_protocol_code (SettingsMalformed error) = decode_protocol_code error"

definition setting_range :: "nat \<Rightarrow> (nat \<times> nat) option" where
  "setting_range identifier =
    (if identifier = 0x01 then Some (1024, 16777216)
     else if identifier = 0x03 then Some (65536, 262144)
     else if identifier = 0x05 then Some (65536, 1048576)
     else if identifier = 0x07 then Some (1, 256)
     else if identifier = 0x09 then Some (1000, 600000)
     else None)"

definition setting_in_range :: "nat \<Rightarrow> nat \<Rightarrow> bool" where
  "setting_in_range identifier value =
    is_some_and (setting_range identifier) (\<lambda>(low, high). low \<le> value \<and> value \<le> high)"

text \<open>Writing through the reference \<open>setting_field\<close> returns.\<close>

definition set_setting_field :: "settings \<Rightarrow> nat \<Rightarrow> nat \<Rightarrow> settings" where
  "set_setting_field s identifier value =
    (if identifier = 0x01 then s\<lparr>max_control_frame_payload := value\<rparr>
     else if identifier = 0x03 then s\<lparr>max_data_record_payload := value\<rparr>
     else if identifier = 0x05 then s\<lparr>max_manifest_page_payload := value\<rparr>
     else if identifier = 0x07 then s\<lparr>reliable_lane_limit := value\<rparr>
     else if identifier = 0x09 then s\<lparr>idle_timeout_ms := value\<rparr>
     else s)"

definition apply_setting :: "settings \<Rightarrow> nat \<Rightarrow> nat \<Rightarrow> settings_error + settings" where
  "apply_setting s identifier value =
    (if \<not> setting_in_range identifier value then
       if setting_range identifier \<noteq> None then Inl (SettingsInvalidValue identifier value)
       else if is_critical identifier then Inl (SettingsUnknownCritical identifier)
       else Inr s
     else Inr (set_setting_field s identifier value))"

function decode_settings_loop ::
  "bytes \<Rightarrow> nat \<Rightarrow> settings \<Rightarrow> nat list \<Rightarrow> settings_error + settings" where
  "decode_settings_loop payload offset s seen =
    (if offset < length payload then
       if length seen = MAX_SETTINGS_PER_FRAME then Inl (SettingsTooMany MAX_SETTINGS_PER_FRAME)
       else
         and_then (map_err SettingsMalformed (decode_varint (drop offset payload)))
           (\<lambda>(identifier, identifier_width).
         and_then (ok_or (checked_add offset identifier_width) (SettingsMalformed (LengthOverflow u64_max)))
           (\<lambda>offset1.
         and_then (map_err SettingsMalformed (decode_varint (drop offset1 payload)))
           (\<lambda>(value, value_width).
         and_then (ok_or (checked_add offset1 value_width) (SettingsMalformed (LengthOverflow u64_max)))
           (\<lambda>offset2.
             let (fresh, seen') = btree_insert identifier seen in
             if \<not> fresh then Inl (SettingsDuplicate identifier)
             else and_then (apply_setting s identifier value) (\<lambda>s'.
               decode_settings_loop payload offset2 s' seen')))))
     else Inr s)"
  by pat_completeness auto

termination
  by (relation "measure (\<lambda>(payload, offset, s, seen). length payload - offset)")
    (auto dest!: decode_varint_width)

declare decode_settings_loop.simps [simp del]

definition decode_settings :: "bytes \<Rightarrow> settings_error + settings" where
  "decode_settings payload = decode_settings_loop payload 0 default_settings []"

fun encode_settings_loop :: "(nat \<times> nat) list \<Rightarrow> bytes \<Rightarrow> settings_error + bytes" where
  "encode_settings_loop [] out = Inr out"
| "encode_settings_loop ((identifier, value) # rows) out =
    (if \<not> setting_in_range identifier value then Inl (SettingsInvalidValue identifier value)
     else
       and_then (map_err SettingsMalformed (encode_varint identifier out)) (\<lambda>out.
       and_then (map_err SettingsMalformed (encode_varint value out)) (\<lambda>out.
         encode_settings_loop rows out)))"

definition encode_settings :: "settings \<Rightarrow> bytes \<Rightarrow> settings_error + bytes" where
  "encode_settings s out = encode_settings_loop (advertised s) out"

section \<open>The HELLO payload\<close>

datatype endpoint_role = Client | Server

fun role_value :: "endpoint_role \<Rightarrow> nat" where
  "role_value Client = 0"
| "role_value Server = 1"

record hello =
  draft_revision :: nat
  hello_role :: endpoint_role
  extensions :: "nat list"

datatype hello_error =
    HelloMalformed decode_error
  | UnsupportedRevision nat
  | RoleMismatch endpoint_role endpoint_role
  | DuplicateExtension nat
  | TooManyExtensions nat
  | TrailingBytes

fun hello_protocol_code :: "hello_error \<Rightarrow> nat" where
  "hello_protocol_code (UnsupportedRevision _) = 0x0104"
| "hello_protocol_code (TooManyExtensions _) = 0x0502"
| "hello_protocol_code (HelloMalformed _) = 0x0102"
| "hello_protocol_code (RoleMismatch _ _) = 0x0102"
| "hello_protocol_code (DuplicateExtension _) = 0x0102"
| "hello_protocol_code TrailingBytes = 0x0102"

definition hello_varint :: "bytes \<Rightarrow> nat \<Rightarrow> hello_error + nat \<times> nat" where
  "hello_varint payload offset =
    and_then (map_err HelloMalformed (decode_varint (drop offset payload))) (\<lambda>(value, width).
    and_then (ok_or (checked_add offset width) (HelloMalformed (LengthOverflow u64_max))) (\<lambda>offset.
      Inr (value, offset)))"

fun decode_extensions :: "nat \<Rightarrow> bytes \<Rightarrow> nat \<Rightarrow> nat list \<Rightarrow> hello_error + nat list \<times> nat" where
  "decode_extensions 0 payload offset exts = Inr (exts, offset)"
| "decode_extensions (Suc n) payload offset exts =
    and_then (hello_varint payload offset) (\<lambda>(extension, offset).
      let (fresh, exts') = btree_insert extension exts in
      if \<not> fresh then Inl (DuplicateExtension extension)
      else decode_extensions n payload offset exts')"

definition decode_hello :: "bytes \<Rightarrow> endpoint_role \<Rightarrow> hello_error + hello" where
  "decode_hello payload expected_role =
    and_then (hello_varint payload 0) (\<lambda>(revision, offset).
    if revision \<noteq> DRAFT_REVISION then Inl (UnsupportedRevision revision)
    else
      and_then (hello_varint payload offset) (\<lambda>(r, offset).
      and_then
        (if r = 0 then Inr Client else if r = 1 then Inr Server
         else Inl (HelloMalformed (ValueOutOfRange u64_max))) (\<lambda>role.
      if role \<noteq> expected_role then Inl (RoleMismatch expected_role role)
      else
        and_then (hello_varint payload offset) (\<lambda>(extension_count, offset).
        if MAX_EXTENSIONS_PER_HELLO < extension_count then Inl (TooManyExtensions extension_count)
        else
          and_then (decode_extensions extension_count payload offset []) (\<lambda>(exts, offset).
          if offset \<noteq> length payload then Inl TrailingBytes
          else Inr \<lparr>draft_revision = revision, hello_role = role, extensions = exts\<rparr>)))))"

fun encode_varints :: "nat list \<Rightarrow> bytes \<Rightarrow> decode_error + bytes" where
  "encode_varints [] out = Inr out"
| "encode_varints (v # vs) out = and_then (encode_varint v out) (\<lambda>out. encode_varints vs out)"

definition encode_hello :: "hello \<Rightarrow> bytes \<Rightarrow> hello_error + bytes" where
  "encode_hello h out =
    (let count = length (extensions h) in
     if MAX_EXTENSIONS_PER_HELLO < count then Inl (TooManyExtensions count)
     else
       and_then (map_err HelloMalformed (encode_varint (draft_revision h) out)) (\<lambda>out.
       and_then (map_err HelloMalformed (encode_varint (role_value (hello_role h)) out)) (\<lambda>out.
       and_then (map_err HelloMalformed (encode_varint count out)) (\<lambda>out.
         map_err HelloMalformed (encode_varints (extensions h) out)))))"

section \<open>Operations and resource limits\<close>

datatype operation = Publish | ReadManifest | ReadRanges

fun operation_identifier :: "operation \<Rightarrow> nat" where
  "operation_identifier Publish = 1"
| "operation_identifier ReadManifest = 2"
| "operation_identifier ReadRanges = 3"

definition operation_try_from :: "nat \<Rightarrow> nat + operation" where
  "operation_try_from identifier =
    (if identifier = 1 then Inr Publish
     else if identifier = 2 then Inr ReadManifest
     else if identifier = 3 then Inr ReadRanges
     else Inl identifier)"

definition is_registered_operation :: "nat \<Rightarrow> bool" where
  "is_registered_operation identifier \<longleftrightarrow> identifier \<in> set [1, 2, 3]"

definition is_registered_limit :: "nat \<Rightarrow> bool" where
  "is_registered_limit identifier \<longleftrightarrow> identifier \<in> set [1, 2, 3]"

section \<open>Variable-length integers: round trip, shortest form, streaming\<close>

lemma byte_top_bits:
  fixes b :: byte
  shows "unat (drop_bit 6 b) = unat b div 64" "unat (b AND 0x3f) = unat b mod 64"
proof -
  show "unat (drop_bit 6 b) = unat b div 64"
    by (simp add: drop_bit_eq_div unat_div)
  have "b AND 0x3f = take_bit 6 b"
    by (simp add: take_bit_eq_mask mask_eq_exp_minus_1)
  then show "unat (b AND 0x3f) = unat b mod 64"
    by (simp add: take_bit_eq_mod unat_mod)
qed

lemma be_value_hd:
  assumes "n < length bs"
  shows "unat (hd bs) = be_value (take (Suc n) bs) div 256 ^ n"
    and "unat (hd bs) * 256 ^ n + be_value (take n (tl bs)) = be_value (take (Suc n) bs)"
proof -
  obtain b t where bs: "bs = b # t" using assms by (cases bs) auto
  have "length (take n t) = n" using assms bs by simp
  then have v: "be_value (take (Suc n) bs) = unat b * 256 ^ n + be_value (take n t)"
    by (simp add: bs be_value_Cons)
  moreover have "be_value (take n t) < 256 ^ n"
    using be_value_bound [of "take n t"] \<open>length (take n t) = n\<close> by simp
  ultimately show "unat (hd bs) = be_value (take (Suc n) bs) div 256 ^ n"
    by (simp add: bs)
  show "unat (hd bs) * 256 ^ n + be_value (take n (tl bs)) = be_value (take (Suc n) bs)"
    using v by (simp add: bs)
qed

lemma decode_varint_iff:
  "decode_varint bs = Inr (v, w) \<longleftrightarrow>
    (\<exists>k < 4. w = 2 ^ k \<and> w \<le> length bs \<and> v < 64 * 256 ^ (w - 1) \<and>
      be_value (take w bs) = k * 64 * 256 ^ (w - 1) + v)"
proof (cases bs)
  case Nil
  then show ?thesis by (simp add: decode_varint_def)
next
  case (Cons b t)
  define K where "K = unat b div 64"
  have "unat b < 256" by simp
  then have K: "K < 4" unfolding K_def by linarith
  have b: "unat b = K * 64 + unat b mod 64" by (simp add: K_def)
  have bX: "unat b * X = K * 64 * X + unat b mod 64 * X" for X
    by (subst b) (rule add_mult_distrib)
  have dec: "decode_varint bs = (if length bs < 2 ^ K then Inl (Incomplete (2 ^ K) (length bs))
      else Inr ((unat b mod 64) * 256 ^ (2 ^ K - 1) + be_value (take (2 ^ K - 1) t), 2 ^ K))"
    using Cons by (simp add: decode_varint_def byte_top_bits K_def foldl_be_value Let_def min.absorb2)
  show ?thesis
  proof
    assume "decode_varint bs = Inr (v, w)"
    then have w: "w = 2 ^ K" "w \<le> length bs"
      and v: "v = (unat b mod 64) * 256 ^ (w - 1) + be_value (take (w - 1) t)"
      by (auto simp: dec split: if_splits)
    have "0 < w" by (simp add: w(1))
    then have "w - 1 < length bs" "Suc (w - 1) = w" using w(2) by linarith+
    note hd = be_value_hd [OF this(1), unfolded this(2)]
    have "be_value (take (w - 1) t) < 256 ^ (w - 1)"
      using be_value_bound [of "take (w - 1) t"] w Cons by (simp add: min.absorb2)
    moreover have "unat b mod 64 * 256 ^ (w - 1) + 256 ^ (w - 1) \<le> 64 * 256 ^ (w - 1)"
    proof -
      have "(unat b mod 64 + 1) * 256 ^ (w - 1) \<le> 64 * 256 ^ (w - 1)"
        by (rule mult_le_mono1) (simp add: Suc_le_eq)
      then show ?thesis by simp
    qed
    ultimately have "v < 64 * 256 ^ (w - 1)" using v by linarith
    moreover have "be_value (take w bs) = K * 64 * 256 ^ (w - 1) + v"
      using hd(2) v bX [of "256 ^ (w - 1)"] Cons by simp
    ultimately show "\<exists>k < 4. w = 2 ^ k \<and> w \<le> length bs \<and> v < 64 * 256 ^ (w - 1) \<and>
      be_value (take w bs) = k * 64 * 256 ^ (w - 1) + v"
      using w K by blast
  next
    assume "\<exists>k < 4. w = 2 ^ k \<and> w \<le> length bs \<and> v < 64 * 256 ^ (w - 1) \<and>
      be_value (take w bs) = k * 64 * 256 ^ (w - 1) + v"
    then obtain k where k: "k < 4" "w = 2 ^ k" "w \<le> length bs" "v < 64 * 256 ^ (w - 1)"
      "be_value (take w bs) = k * 64 * 256 ^ (w - 1) + v" by blast
    have "0 < w" by (simp add: k(2))
    then have "w - 1 < length bs" "Suc (w - 1) = w" using k(3) by linarith+
    note hd = be_value_hd [OF this(1), unfolded this(2)]
    have "unat b = k * 64 + v div 256 ^ (w - 1)"
      using hd(1) k(5) Cons by simp
    moreover have "v div 256 ^ (w - 1) < 64"
      using k(4) by (simp add: less_mult_imp_div_less)
    ultimately have Kk: "K = k" "unat b mod 64 = v div 256 ^ (w - 1)" by (simp_all add: K_def)
    have "unat b * 256 ^ (w - 1) + be_value (take (w - 1) t) = k * 64 * 256 ^ (w - 1) + v"
      using hd(2) k(5) Cons by simp
    then have "(unat b mod 64) * 256 ^ (w - 1) + be_value (take (w - 1) t) = v"
      using bX [of "256 ^ (w - 1)"] Kk(1) by simp
    then show "decode_varint bs = Inr (v, w)"
      using dec k Kk by simp
  qed
qed

text \<open>The bytes \<open>encode_varint\<close> appends.\<close>

definition varint_class :: "nat \<Rightarrow> nat" where
  "varint_class v = (if v < 2 ^ 6 then 0 else if v < 2 ^ 14 then 1 else if v < 2 ^ 30 then 2 else 3)"

definition varint :: "nat \<Rightarrow> bytes" where
  "varint v = (let k = varint_class v; w = 2 ^ k in be_bytes w (k * 64 * 256 ^ (w - 1) + v))"

lemma length_varint [simp]: "length (varint v) = 2 ^ varint_class v"
  by (simp add: varint_def Let_def)

lemma varint_nonempty [simp]: "varint v \<noteq> []"
proof
  assume "varint v = []"
  then have "length (varint v) = 0" by simp
  then show False by simp
qed

lemma length_varint_le: "length (varint v) \<le> 8"
  by (simp add: varint_class_def)

lemma encode_varint_eq:
  "encode_varint v out = (if MAX_QUIC_VARINT < v then Inl (ValueOutOfRange v) else Inr (out @ varint v))"
proof -
  have "be_bytes (Suc 0) v = [word_of_nat v]" "be_bytes (Suc (Suc 0)) x = be_bytes 2 x" for x
    by (simp add: be_bytes_def) (simp only: numeral_2_eq_2)
  then show ?thesis
    by (simp add: encode_varint_def varint_def varint_class_def add.commute)
qed

lemma varint_class_bound: "v \<le> MAX_QUIC_VARINT \<Longrightarrow> v < 64 * 256 ^ (2 ^ varint_class v - 1)"
  by (simp add: varint_class_def MAX_QUIC_VARINT_def)

lemma varint_class_less: "varint_class v < 4"
  by (simp add: varint_class_def)

lemma varint_value:
  assumes "v \<le> MAX_QUIC_VARINT"
  shows "be_value (varint v) = varint_class v * 64 * 256 ^ (2 ^ varint_class v - 1) + v"
proof -
  let ?k = "varint_class v" let ?w = "2 ^ ?k :: nat"
  have "?k * 64 * 256 ^ (?w - 1) + v < (?k * 64 + 64) * 256 ^ (?w - 1)"
    using varint_class_bound [OF assms] unfolding add_mult_distrib by (rule add_strict_left_mono)
  also have "\<dots> \<le> 256 * 256 ^ (?w - 1)"
    using varint_class_less [of v] by (intro mult_le_mono1) linarith
  also have "\<dots> = 256 ^ Suc (?w - 1)" by (rule power_Suc [symmetric])
  also have "Suc (?w - 1) = ?w" by simp
  finally show ?thesis unfolding varint_def Let_def by (rule be_value_be_bytes_exact)
qed

lemma decode_varint_varint:
  assumes "v \<le> MAX_QUIC_VARINT"
  shows "decode_varint (varint v @ rest) = Inr (v, length (varint v))"
  unfolding decode_varint_iff
  using varint_class_less [of v] varint_class_bound [OF assms] varint_value [OF assms]
  by (intro exI [of _ "varint_class v"]) simp

lemma decode_varint_shortest:
  assumes "decode_varint bs = Inr (v, w)"
  shows "v \<le> MAX_QUIC_VARINT \<and> length (varint v) \<le> w"
proof -
  from assms obtain k where k: "k < 4" "w = 2 ^ k" "v < 64 * 256 ^ (w - 1)"
    unfolding decode_varint_iff by blast
  then consider "k = 0" | "k = 1" | "k = 2" | "k = 3" by linarith
  then show ?thesis
    by cases (use k in \<open>auto simp: varint_class_def MAX_QUIC_VARINT_def\<close>)
qed

interpretation varint_codec: prefix_codec "\<lambda>v. v \<le> MAX_QUIC_VARINT" varint decode_varint
proof unfold_locales
  show "length (varint x) \<le> u64_max" for x
    using length_varint_le [of x] by (simp add: u64_max_def)
qed (rule decode_varint_varint)

lemma decode_varint_append:
  "decode_varint bs = Inr (v, w) \<Longrightarrow> decode_varint (bs @ rest) = Inr (v, w)"
  unfolding decode_varint_iff by (elim exE conjE, intro exI conjI) simp_all

lemma decode_varint_error:
  assumes "decode_varint bs = Inl e"
  shows "\<exists>n. e = Incomplete n (length bs) \<and> length bs < n \<and> n \<le> 8"
proof (cases bs)
  case Nil
  with assms show ?thesis by (auto simp: decode_varint_def)
next
  case (Cons b t)
  have "unat b < 256" by simp
  then have "unat b div 64 \<le> 3" by linarith
  then have "(2 :: nat) ^ (unat b div 64) \<le> 2 ^ 3" by (intro power_increasing) simp_all
  with assms Cons show ?thesis
    by (auto simp: decode_varint_def Let_def byte_top_bits split: if_splits)
qed

section \<open>Frames: round trip, stable verdicts, bounded buffering\<close>

definition frame_bytes :: "nat \<Rightarrow> bytes \<Rightarrow> bytes" where
  "frame_bytes t p = varint t @ varint (length p) @ p"

definition payload_limit :: "nat \<Rightarrow> nat \<Rightarrow> nat" where
  "payload_limit unknown t =
    min (case registered_payload_limit t of Some limit \<Rightarrow> limit | None \<Rightarrow> unknown) HARD_MAX_FRAME_PAYLOAD"

lemma payload_limit_varint: "n \<le> payload_limit unknown t \<Longrightarrow> n \<le> MAX_QUIC_VARINT"
  by (simp add: payload_limit_def HARD_MAX_FRAME_PAYLOAD_def MAX_QUIC_VARINT_def)

lemma encode_frame_eq:
  "encode_frame t p out =
    (let limit = payload_limit DEFAULT_MAX_UNKNOWN_PAYLOAD t in
     if limit < length p then Inl (FrameTooLarge t (length p) limit)
     else if MAX_QUIC_VARINT < t then Inl (ValueOutOfRange t)
     else Inr (out @ frame_bytes t p))"
  using payload_limit_varint [of "length p" DEFAULT_MAX_UNKNOWN_PAYLOAD t]
  unfolding encode_frame_def payload_limit_def [symmetric] Let_def
  by (auto simp: encode_varint_eq frame_bytes_def)

lemma decode_varint_width_le:
  assumes "decode_varint bs = Inr (v, w)"
  shows "w \<le> 8"
proof -
  from assms obtain k :: nat where "k < 4" "w = 2 ^ k" unfolding decode_varint_iff by blast
  then have "w \<le> 2 ^ 3" by (simp only:) (rule power_increasing, simp_all)
  then show ?thesis by simp
qed

lemma parse_eq:
  "parse_envelope_prefix bs limits =
    and_then (validate_limits limits) (\<lambda>_.
    and_then (decode_varint bs) (\<lambda>(t, tw).
    and_then (decode_varint (drop tw bs)) (\<lambda>(len, lw).
      let limit = payload_limit (max_unknown_payload limits) t in
      if limit < len then Inl (FrameTooLarge t len limit)
      else if \<not> is_known t \<and> is_critical t then Inl (UnknownCritical t)
      else Inr \<lparr>env_frame_type = t, payload_length = len, header_length = tw + lw,
            total_length = tw + lw + len, skipped = \<not> is_known t \<or> is_grease t\<rparr>)))"
proof -
  have fits: "tw + lw + len \<le> u64_max"
    if "decode_varint bs = Inr (t, tw)" "decode_varint (drop tw bs) = Inr (len, lw)"
      "len \<le> payload_limit unknown t" for t tw len lw unknown
    using decode_varint_width_le [OF that(1)] decode_varint_width_le [OF that(2)] that(3)
    by (simp add: payload_limit_def HARD_MAX_FRAME_PAYLOAD_def u64_max_def)
  show ?thesis
    unfolding parse_envelope_prefix_def is_known_def payload_limit_def [symmetric] Let_def
  proof (intro and_then_cong refl; clarify; intro and_then_cong refl; clarify)
    fix t tw len lw
    assume d: "decode_varint bs = Inr (t, tw)" "decode_varint (drop tw bs) = Inr (len, lw)"
    let ?limit = "payload_limit (max_unknown_payload limits) t"
    have "len \<le> ?limit \<Longrightarrow> checked_add tw lw = Some (tw + lw) \<and> checked_add (tw + lw) len = Some (tw + lw + len)"
      using fits [OF d, of "max_unknown_payload limits"] by simp
    then show "(if ?limit < len then Inl (FrameTooLarge t len ?limit)
        else if registered_payload_limit t = None \<and> is_critical t then Inl (UnknownCritical t)
        else and_then (ok_or (checked_add tw lw) (LengthOverflow len)) (\<lambda>header.
             and_then (ok_or (checked_add header len) (LengthOverflow len)) (\<lambda>total.
               Inr \<lparr>env_frame_type = t, payload_length = len, header_length = header,
                 total_length = total, skipped = registered_payload_limit t = None \<or> is_grease t\<rparr>))) =
       (if ?limit < len then Inl (FrameTooLarge t len ?limit)
        else if \<not> registered_payload_limit t \<noteq> None \<and> is_critical t then Inl (UnknownCritical t)
        else Inr \<lparr>env_frame_type = t, payload_length = len, header_length = tw + lw,
            total_length = tw + lw + len,
            skipped = \<not> registered_payload_limit t \<noteq> None \<or> is_grease t\<rparr>)"
      by simp
  qed
qed

lemma parse_frame:
  assumes "validate_limits limits = Inr ()" "t \<le> MAX_QUIC_VARINT"
    "length p \<le> payload_limit (max_unknown_payload limits) t" "is_known t \<or> \<not> is_critical t"
  shows "parse_envelope_prefix (frame_bytes t p @ rest) limits =
    Inr \<lparr>env_frame_type = t, payload_length = length p,
         header_length = length (varint t) + length (varint (length p)),
         total_length = length (frame_bytes t p), skipped = \<not> is_known t \<or> is_grease t\<rparr>"
  using assms payload_limit_varint [OF assms(3)]
  by (auto simp: parse_eq frame_bytes_def decode_varint_varint Let_def)

definition frame_of :: "nat \<Rightarrow> bytes \<Rightarrow> decoded_frame" where
  "frame_of t p = (if is_known t \<and> \<not> is_grease t then Known t p else SkippedOptional t (length p))"

lemma decode_one_frame:
  assumes "validate_limits limits = Inr ()" "t \<le> MAX_QUIC_VARINT"
    "length p \<le> payload_limit (max_unknown_payload limits) t" "is_known t \<or> \<not> is_critical t"
  shows "decode_one (frame_bytes t p @ rest) limits = Inr (frame_of t p, length (frame_bytes t p))"
  by (auto simp: decode_one_def parse_frame [OF assms] frame_of_def)
    (simp_all add: frame_bytes_def)

lemma frame_bytes_nonempty [simp]: "frame_bytes t p \<noteq> []"
  by (simp add: frame_bytes_def)

definition decodable :: "decode_limits \<Rightarrow> nat \<times> bytes \<Rightarrow> bool" where
  "decodable limits = (\<lambda>(t, p). t \<le> MAX_QUIC_VARINT \<and>
     length p \<le> payload_limit (max_unknown_payload limits) t \<and> (is_known t \<or> \<not> is_critical t))"

abbreviation wire :: "(nat \<times> bytes) list \<Rightarrow> bytes" where
  "wire fs \<equiv> concat (map (\<lambda>(t, p). frame_bytes t p) fs)"

lemma decode_all_loop_frames:
  assumes "validate_limits limits = Inr ()" "list_all (decodable limits) fs"
    "length (pre @ wire fs) \<le> u64_max" "length acc + length fs \<le> max_frames limits"
  shows "decode_all_loop (pre @ wire fs) limits (length pre) acc =
    Inr (acc @ map (\<lambda>(t, p). frame_of t p) fs)"
  using assms(2-)
proof (induction fs arbitrary: pre acc)
  case Nil
  then show ?case by (simp add: decode_all_loop.simps)
next
  case (Cons f fs)
  obtain t p where f: "f = (t, p)" by (cases f)
  have "decode_one (frame_bytes t p @ wire fs) limits = Inr (frame_of t p, length (frame_bytes t p))"
    using Cons.prems by (intro decode_one_frame assms(1)) (simp_all add: f decodable_def)
  moreover have "decode_all_loop ((pre @ frame_bytes t p) @ wire fs) limits (length (pre @ frame_bytes t p))
      (acc @ [frame_of t p]) = Inr ((acc @ [frame_of t p]) @ map (\<lambda>(t, p). frame_of t p) fs)"
    using Cons.prems by (intro Cons.IH) (simp_all add: f)
  ultimately show ?case
    using Cons.prems by (subst decode_all_loop.simps) (simp add: f checked_add_def)
qed

lemma parse_stable:
  assumes "\<And>n a. parse_envelope_prefix bs limits \<noteq> Inl (Incomplete n a)"
  shows "parse_envelope_prefix (bs @ rest) limits = parse_envelope_prefix bs limits"
proof (cases "validate_limits limits")
  case (Inr u)
  from Inr assms have ok: "\<And>e. decode_varint bs \<noteq> Inl e"
    by (fastforce simp: parse_eq dest: decode_varint_error)
  then obtain t tw where 1: "decode_varint bs = Inr (t, tw)"
    by (cases "decode_varint bs") auto
  from Inr 1 assms have "\<And>e. decode_varint (drop tw bs) \<noteq> Inl e"
    by (fastforce simp: parse_eq dest: decode_varint_error)
  then obtain len lw where 2: "decode_varint (drop tw bs) = Inr (len, lw)"
    by (cases "decode_varint (drop tw bs)") auto
  have "drop tw (bs @ rest) = drop tw bs @ rest"
    using decode_varint_width [OF 1] by simp
  then show ?thesis
    using 1 2 decode_varint_append [OF 1, of rest] decode_varint_append [OF 2, of rest]
    by (simp only: parse_eq Inr and_then_simps prod.case)
qed (simp add: parse_eq)

lemma decode_one_bounded:
  assumes "decode_one bs limits = Inl (Incomplete n a)"
  shows "length bs < HARD_MAX_FRAME_PAYLOAD + 16"
proof (cases "parse_envelope_prefix bs limits")
  case (Inl e)
  with assms have p: "parse_envelope_prefix bs limits = Inl (Incomplete n a)"
    by (simp add: decode_one_def)
  have short: "length cs < 8" if "decode_varint cs = Inl e" for cs e
    using decode_varint_error [OF that] by auto
  consider e where "decode_varint bs = Inl e" |
    t tw e where "decode_varint bs = Inr (t, tw)" "decode_varint (drop tw bs) = Inl e" |
    t tw len lw where "decode_varint bs = Inr (t, tw)" "decode_varint (drop tw bs) = Inr (len, lw)"
    by (cases "decode_varint bs"; cases "decode_varint (drop (snd (projr (decode_varint bs))) bs)") auto
  then show ?thesis
  proof cases
    case 1
    with short show ?thesis by fastforce
  next
    case 2
    have "tw \<le> 8" by (rule decode_varint_width_le [OF 2(1)])
    with short [OF 2(2)] show ?thesis by simp
  next
    case 3
    with p show ?thesis
      by (cases "validate_limits limits") (auto simp: parse_eq validate_limits_def Let_def split: if_splits)
  qed
next
  case (Inr env)
  then have "length bs < total_length env"
    using assms by (auto simp: decode_one_def split: if_splits)
  moreover from Inr obtain t tw len lw where "decode_varint bs = Inr (t, tw)"
      "decode_varint (drop tw bs) = Inr (len, lw)" "total_length env = tw + lw + len"
      "len \<le> payload_limit (max_unknown_payload limits) t"
    by (auto simp: parse_eq Let_def not_less)
  ultimately show ?thesis
    using decode_varint_width_le [of bs t tw] decode_varint_width_le [of "drop tw bs" len lw]
    by (simp add: payload_limit_def)
qed

section \<open>SETTINGS and HELLO: round trips and range checks\<close>

definition pairs_bytes :: "(nat \<times> nat) list \<Rightarrow> bytes" where
  "pairs_bytes rows = concat (map (\<lambda>(i, v). varint i @ varint v) rows)"

fun apply_settings :: "settings \<Rightarrow> (nat \<times> nat) list \<Rightarrow> settings_error + settings" where
  "apply_settings s [] = Inr s"
| "apply_settings s ((i, v) # rows) = and_then (apply_setting s i v) (\<lambda>s. apply_settings s rows)"

definition settings_ok :: "settings \<Rightarrow> bool" where
  "settings_ok s \<longleftrightarrow> list_all (\<lambda>(i, v). setting_in_range i v) (advertised s)"

lemma setting_in_range_varint: "setting_in_range i v \<Longrightarrow> i \<le> MAX_QUIC_VARINT \<and> v \<le> MAX_QUIC_VARINT"
  by (auto simp: setting_in_range_def setting_range_def MAX_QUIC_VARINT_def split: if_splits)

lemma encode_settings_loop_iff:
  "encode_settings_loop rows out = Inr w \<longleftrightarrow>
    list_all (\<lambda>(i, v). setting_in_range i v) rows \<and> w = out @ pairs_bytes rows"
proof (induction rows arbitrary: out)
  case Nil
  then show ?case by (auto simp: pairs_bytes_def)
next
  case (Cons r rows)
  obtain i v where r: "r = (i, v)" by (cases r)
  show ?case
  proof (cases "setting_in_range i v")
    case True
    then have "\<not> MAX_QUIC_VARINT < i" "\<not> MAX_QUIC_VARINT < v"
      using setting_in_range_varint by (simp_all add: leD)
    with True Cons.IH show ?thesis
      by (simp add: r encode_varint_eq pairs_bytes_def)
  qed (simp add: r)
qed

lemma encode_settings_iff:
  "encode_settings s out = Inr w \<longleftrightarrow> settings_ok s \<and> w = out @ pairs_bytes (advertised s)"
  by (simp add: encode_settings_def encode_settings_loop_iff settings_ok_def)

lemma decode_settings_loop_pairs:
  assumes "\<forall>(i, v) \<in> set rows. i \<le> MAX_QUIC_VARINT \<and> v \<le> MAX_QUIC_VARINT \<and> i \<notin> set seen"
    "distinct (map fst rows)" "length seen + length rows \<le> MAX_SETTINGS_PER_FRAME"
    "length (pre @ pairs_bytes rows) \<le> u64_max"
  shows "decode_settings_loop (pre @ pairs_bytes rows) (length pre) s seen = apply_settings s rows"
  using assms
proof (induction rows arbitrary: pre s seen)
  case Nil
  then show ?case by (simp add: decode_settings_loop.simps pairs_bytes_def)
next
  case (Cons r rows)
  obtain i v where r: "r = (i, v)" by (cases r)
  let ?pre = "pre @ varint i @ varint v"
  have bytes: "pre @ pairs_bytes (r # rows) = ?pre @ pairs_bytes rows"
    by (simp add: r pairs_bytes_def)
  have "decode_settings_loop (?pre @ pairs_bytes rows) (length ?pre) s' (insort i seen) = apply_settings s' rows" for s'
    using Cons.prems by (intro Cons.IH) (auto simp: r pairs_bytes_def set_insort_key, force)
  moreover have "decode_varint (varint i @ varint v @ pairs_bytes rows) = Inr (i, length (varint i))"
      "decode_varint (varint v @ pairs_bytes rows) = Inr (v, length (varint v))"
    using Cons.prems by (intro decode_varint_varint; simp add: r)+
  moreover have "i \<notin> set seen" "length seen \<noteq> MAX_SETTINGS_PER_FRAME"
    "length pre + length (varint i) \<le> u64_max" "length pre + length (varint i) + length (varint v) \<le> u64_max"
    using Cons.prems by (auto simp: r pairs_bytes_def)
  ultimately show ?case
    unfolding bytes
    by (subst decode_settings_loop.simps)
      (simp add: r btree_insert_def checked_add_def add.assoc del: length_varint)
qed

lemma settings_ok_default [simp]: "settings_ok default_settings"
  by (simp add: settings_ok_def advertised_def default_settings_def setting_in_range_def setting_range_def)

lemma apply_setting_ok: "apply_setting s i v = Inr s' \<Longrightarrow> settings_ok s \<Longrightarrow> settings_ok s'"
  by (auto simp: apply_setting_def settings_ok_def advertised_def set_setting_field_def split: if_splits)

lemma decode_settings_loop_ok:
  "decode_settings_loop payload offset s seen = Inr s' \<Longrightarrow> settings_ok s \<Longrightarrow> settings_ok s'"
proof (induction payload offset s seen rule: decode_settings_loop.induct)
  case (1 payload offset s seen)
  show ?case
  proof (cases "offset < length payload")
    case True
    with 1(2) show ?thesis
      by (subst (asm) decode_settings_loop.simps)
        (auto simp: btree_insert_def split: if_splits dest!: 1(1) [OF True] intro: 1(3) dest: apply_setting_ok)
  next
    case False
    with 1 show ?thesis by (simp add: decode_settings_loop.simps)
  qed
qed

lemma apply_advertised:
  assumes "settings_ok s"
  shows "apply_settings default_settings (advertised s) = Inr s"
  using assms
  by (cases s) (simp add: settings_ok_def advertised_def apply_setting_def set_setting_field_def default_settings_def)

definition hello_ok :: "hello \<Rightarrow> bool" where
  "hello_ok h \<longleftrightarrow> draft_revision h = DRAFT_REVISION \<and> sorted_wrt (<) (extensions h) \<and>
     length (extensions h) \<le> MAX_EXTENSIONS_PER_HELLO \<and> (\<forall>e \<in> set (extensions h). e \<le> MAX_QUIC_VARINT)"

definition hello_bytes :: "hello \<Rightarrow> bytes" where
  "hello_bytes h = concat (map varint
     (draft_revision h # role_value (hello_role h) # length (extensions h) # extensions h))"

lemma encode_varints_eq:
  "\<forall>v \<in> set vs. v \<le> MAX_QUIC_VARINT \<Longrightarrow> encode_varints vs out = Inr (out @ concat (map varint vs))"
  by (induction vs arbitrary: out) (simp_all add: encode_varint_eq leD)

lemma encode_hello_eq:
  assumes "hello_ok h"
  shows "encode_hello h out = Inr (out @ hello_bytes h)"
proof -
  have "\<not> MAX_QUIC_VARINT < draft_revision h" "\<not> MAX_QUIC_VARINT < role_value (hello_role h)"
    "\<not> MAX_QUIC_VARINT < length (extensions h)" "\<not> MAX_EXTENSIONS_PER_HELLO < length (extensions h)"
    using assms by (cases "hello_role h"; simp add: hello_ok_def DRAFT_REVISION_def MAX_QUIC_VARINT_def
        MAX_EXTENSIONS_PER_HELLO_def)+
  moreover have "encode_varints (extensions h) o' = Inr (o' @ concat (map varint (extensions h)))" for o'
    using assms by (intro encode_varints_eq) (simp add: hello_ok_def)
  ultimately show ?thesis
    by (simp add: encode_hello_def encode_varint_eq hello_bytes_def)
qed

lemma hello_varint_at:
  assumes "v \<le> MAX_QUIC_VARINT" "length (pre @ varint v) \<le> u64_max"
  shows "hello_varint (pre @ varint v @ rest) (length pre) = Inr (v, length (pre @ varint v))"
  using assms by (simp add: hello_varint_def decode_varint_varint checked_add_def del: length_varint)

lemma insort_last: "\<forall>y \<in> set xs. y < x \<Longrightarrow> insort x xs = xs @ [x]"
  by (induction xs) auto

lemma decode_extensions_varints:
  assumes "sorted_wrt (<) (acc @ es)" "\<forall>e \<in> set es. e \<le> MAX_QUIC_VARINT"
    "length (pre @ concat (map varint es)) \<le> u64_max"
  shows "decode_extensions (length es) (pre @ concat (map varint es) @ rest) (length pre) acc =
    Inr (acc @ es, length (pre @ concat (map varint es)))"
  using assms
proof (induction es arbitrary: pre acc)
  case (Cons e es)
  have read: "hello_varint (pre @ varint e @ concat (map varint es) @ rest) (length pre) = Inr (e, length (pre @ varint e))"
    using Cons.prems by (intro hello_varint_at) simp_all
  have ins: "btree_insert e acc = (True, acc @ [e])"
    using Cons.prems(1) insort_last [of acc e] by (auto simp: btree_insert_def sorted_wrt_append)
  have "decode_extensions (length es) ((pre @ varint e) @ concat (map varint es) @ rest) (length (pre @ varint e)) (acc @ [e]) =
      Inr ((acc @ [e]) @ es, length ((pre @ varint e) @ concat (map varint es)))"
    using Cons.prems by (intro Cons.IH) simp_all
  with read ins show ?case by simp
qed simp

lemma decode_extensions_sound:
  "decode_extensions n payload offset acc = Inr (exts, offset') \<Longrightarrow> sorted_wrt (<) acc \<Longrightarrow>
   \<forall>e \<in> set acc. e \<le> MAX_QUIC_VARINT \<Longrightarrow>
   sorted_wrt (<) exts \<and> length exts = length acc + n \<and> (\<forall>e \<in> set exts. e \<le> MAX_QUIC_VARINT)"
proof (induction n arbitrary: offset acc)
  case (Suc n)
  from Suc.prems(1) obtain e o1 where read: "hello_varint payload offset = Inr (e, o1)"
    and new: "e \<notin> set acc" and rest: "decode_extensions n payload o1 (insort e acc) = Inr (exts, offset')"
    by (auto simp: btree_insert_def split: if_splits)
  obtain w where "decode_varint (drop offset payload) = Inr (e, w)"
    using read unfolding hello_varint_def by auto
  then have "e \<le> MAX_QUIC_VARINT" by (blast dest: decode_varint_shortest)
  then have bound: "\<forall>x \<in> set (insort e acc). x \<le> MAX_QUIC_VARINT"
    using Suc.prems(3) by (simp add: set_insort_key)
  have "sorted_wrt (<) (insort e acc)"
    using Suc.prems(2) new by (simp add: strict_sorted_iff sorted_insort distinct_insort)
  from Suc.IH [OF rest this bound] show ?case by simp
qed simp

lemma length_varints_le: "length (concat (map varint vs)) \<le> 8 * length vs"
proof (induction vs)
  case (Cons v vs)
  then show ?case using length_varint_le [of v] by (simp del: length_varint)
qed simp

lemma decode_hello_bytes:
  assumes "hello_ok h"
  shows "decode_hello (hello_bytes h) (hello_role h) = Inr h"
proof -
  let ?a = "varint (draft_revision h)" and ?b = "varint (role_value (hello_role h))"
    and ?c = "varint (length (extensions h))" and ?d = "concat (map varint (extensions h))"
  have bytes: "hello_bytes h = ?a @ ?b @ ?c @ ?d" by (simp add: hello_bytes_def)
  have ok: "draft_revision h \<le> MAX_QUIC_VARINT" "role_value (hello_role h) \<le> MAX_QUIC_VARINT"
    "length (extensions h) \<le> MAX_QUIC_VARINT" "length (extensions h) \<le> MAX_EXTENSIONS_PER_HELLO"
    using assms by (cases "hello_role h"; simp add: hello_ok_def DRAFT_REVISION_def MAX_QUIC_VARINT_def
        MAX_EXTENSIONS_PER_HELLO_def)+
  note d = length_varints_le [of "extensions h"]
  have len: "length (?a @ ?b @ ?c @ ?d) \<le> u64_max"
    using d ok(4) length_varint_le [of "draft_revision h"] length_varint_le [of "role_value (hello_role h)"]
      length_varint_le [of "length (extensions h)"]
    by (simp add: MAX_EXTENSIONS_PER_HELLO_def u64_max_def del: length_varint)
  obtain o1 o2 o3 where off: "o1 = length ?a" "o2 = length (?a @ ?b)" "o3 = length (?a @ ?b @ ?c)"
    by blast
  have "hello_varint (hello_bytes h) 0 = Inr (draft_revision h, o1)"
    using hello_varint_at [OF ok(1), of "[]" "?b @ ?c @ ?d"] len by (simp add: bytes off)
  moreover have "hello_varint (hello_bytes h) o1 = Inr (role_value (hello_role h), o2)"
    using hello_varint_at [OF ok(2), of ?a "?c @ ?d"] len by (simp add: bytes off)
  moreover have "hello_varint (hello_bytes h) o2 = Inr (length (extensions h), o3)"
    using hello_varint_at [OF ok(3), of "?a @ ?b" ?d] len by (simp add: bytes off add.assoc)
  moreover have "decode_extensions (length (extensions h)) (hello_bytes h) o3 [] =
      Inr (extensions h, length (hello_bytes h))"
    using decode_extensions_varints [of "[]" "extensions h" "?a @ ?b @ ?c" "[]"] assms len
    by (simp add: bytes off hello_ok_def add.assoc)
  moreover have "draft_revision h = DRAFT_REVISION" using assms by (simp add: hello_ok_def)
  ultimately show ?thesis
    using ok(4) by (cases h; cases "hello_role h") (simp_all add: decode_hello_def)
qed

section \<open>Properties\<close>

text \<open>Variable-length integers: every value up to 2^62 - 1 encodes, in one, two, four or eight
  bytes; what was encoded is read back exactly, whatever bytes follow; no decodable byte string
  for the value is shorter than the encoder's; a larger value is refused; and the decoder fails
  only for want of bytes.\<close>

theorem varint_roundtrip:
  "(v \<le> MAX_QUIC_VARINT \<longrightarrow>
     (\<exists>e. encode_varint v out = Inr (out @ e) \<and> length e \<in> {1, 2, 4, 8} \<and>
       decode_varint (e @ rest) = Inr (v, length e) \<and>
       (\<forall>bs w. decode_varint bs = Inr (v, w) \<longrightarrow> length e \<le> w))) \<and>
   (MAX_QUIC_VARINT < v \<longrightarrow> encode_varint v out = Inl (ValueOutOfRange v)) \<and>
   (decode_varint bs = Inl e' \<longrightarrow> (\<exists>n. e' = Incomplete n (length bs) \<and> length bs < n))"
proof (intro conjI impI)
  assume v: "v \<le> MAX_QUIC_VARINT"
  have "length (varint v) \<in> {1, 2, 4, 8}" by (simp add: varint_class_def)
  with v show "\<exists>e. encode_varint v out = Inr (out @ e) \<and> length e \<in> {1, 2, 4, 8} \<and>
      decode_varint (e @ rest) = Inr (v, length e) \<and>
      (\<forall>bs w. decode_varint bs = Inr (v, w) \<longrightarrow> length e \<le> w)"
    using decode_varint_varint [OF v, of rest] decode_varint_shortest [of _ v]
    by (intro exI [of _ "varint v"]) (simp add: encode_varint_eq leD)
next
  assume "decode_varint bs = Inl e'"
  then show "\<exists>n. e' = Incomplete n (length bs) \<and> length bs < n"
    using decode_varint_error by blast
qed (simp add: encode_varint_eq)

fun encode_frames :: "(nat \<times> bytes) list \<Rightarrow> bytes \<Rightarrow> decode_error + bytes" where
  "encode_frames [] out = Inr out"
| "encode_frames ((t, p) # fs) out = and_then (encode_frame t p out) (\<lambda>out. encode_frames fs out)"

lemma encode_frames_wire:
  "encode_frames fs out = Inr w \<Longrightarrow> w = out @ wire fs \<and>
   (\<forall>(t, p) \<in> set fs. t \<le> MAX_QUIC_VARINT \<and> length p \<le> payload_limit DEFAULT_MAX_UNKNOWN_PAYLOAD t)"
proof (induction fs arbitrary: out)
  case (Cons f fs)
  obtain t p where f: "f = (t, p)" by (cases f)
  from Cons.prems obtain o' where o': "encode_frame t p out = Inr o'" "encode_frames fs o' = Inr w"
    by (auto simp: f)
  from o'(1) have "o' = out @ frame_bytes t p" "t \<le> MAX_QUIC_VARINT"
      "length p \<le> payload_limit DEFAULT_MAX_UNKNOWN_PAYLOAD t"
    by (auto simp: encode_frame_eq Let_def)
  with Cons.IH [OF o'(2)] show ?case by (simp add: f)
qed simp

lemma payload_limit_mono: "a \<le> b \<Longrightarrow> payload_limit a t \<le> payload_limit b t"
  by (auto simp: payload_limit_def min_def split: option.splits)

text \<open>C11. A batch of frames survives the wire: when a sequence of frames is encoded one after the
  other and none is an unknown critical frame, decoding the bytes as a batch returns exactly the
  registered frames with their payloads, the unknown optional ones as skipped with their length,
  in order and with nothing left over, as long as the batch is within the frame limit.\<close>

theorem frame_batch_roundtrip:
  assumes "encode_frames fs [] = Inr w" "length w \<le> u64_max"
    and "validate_limits limits = Inr ()" "DEFAULT_MAX_UNKNOWN_PAYLOAD \<le> max_unknown_payload limits"
    and "length fs \<le> max_frames limits" "\<forall>(t, p) \<in> set fs. is_known t \<or> \<not> is_critical t"
  shows "decode_all w limits = Inr (map (\<lambda>(t, p).
    if is_known t \<and> \<not> is_grease t then Known t p else SkippedOptional t (length p)) fs)"
proof -
  note w = encode_frames_wire [OF assms(1)]
  have "list_all (decodable limits) fs"
    using w assms(4,6) payload_limit_mono [OF assms(4)]
    by (fastforce simp: list_all_iff decodable_def intro: order_trans)
  then show ?thesis
    using decode_all_loop_frames [OF assms(3), of fs "[]" "[]"] w assms(2,3,5)
    by (simp add: decode_all_def frame_of_def cong: if_cong)
qed

theorem frame_batch_roundtrip_witness:
  "\<exists>w. encode_frames [(3, [1, 2]), (0x10, [9])] [] = Inr w \<and>
     decode_all w default_limits = Inr [Known 3 [1, 2], SkippedOptional 0x10 1]"
proof -
  obtain w where w: "encode_frames [(3, [1, 2]), (0x10, [9])] [] = Inr w"
    and l: "w = wire [(3, [1, 2]), (0x10, [9])]"
    by (simp add: encode_frame_eq payload_limit_def registered_payload_limit_def frame_registry_def
        DEFAULT_MAX_UNKNOWN_PAYLOAD_def HARD_MAX_FRAME_PAYLOAD_def MAX_QUIC_VARINT_def Let_def)
  have "length w \<le> u64_max"
    by (simp add: l frame_bytes_def varint_class_def u64_max_def)
  moreover have "is_known 3" "\<not> is_grease 3" "\<not> is_known 0x10" "\<not> is_critical 0x10"
    by (simp_all add: is_known_def is_critical_def is_grease_def registered_payload_limit_def frame_registry_def)
  moreover have "validate_limits default_limits = Inr ()" "max_frames default_limits = 4096"
      "DEFAULT_MAX_UNKNOWN_PAYLOAD \<le> max_unknown_payload default_limits"
    by (simp_all add: default_limits_def validate_limits_def DEFAULT_MAX_UNKNOWN_PAYLOAD_def
        HARD_MAX_FRAME_PAYLOAD_def DEFAULT_MAX_FRAMES_PER_BATCH_def)
  ultimately show ?thesis
    using frame_batch_roundtrip [OF w, of default_limits] w by auto
qed

text \<open>C27. Streaming is safe: once the envelope parser has reached a verdict on a prefix of the
  stream, acceptance or a refusal other than wanting bytes, no later bytes change it; and the
  decoder asks for more bytes only while it holds fewer than the hard payload limit plus two
  eight-byte integers, so a peer cannot make a receiver buffer without bound.\<close>

theorem envelope_verdict_stable:
  "((\<forall>n a. peek_envelope bs limits \<noteq> Inl (Incomplete n a)) \<longrightarrow>
      peek_envelope (bs @ rest) limits = peek_envelope bs limits) \<and>
   (decode_one bs limits = Inl (Incomplete n a) \<longrightarrow> length bs < HARD_MAX_FRAME_PAYLOAD + 16)"
  using parse_stable [of bs limits rest] decode_one_bounded [of bs limits n a]
  by (simp add: peek_envelope_def)

theorem envelope_verdict_stable_witness:
  "peek_envelope ([0x41, 0x01, 0x00] @ [5]) default_limits = Inl (UnknownCritical 257) \<and>
   decode_one [] default_limits = Inl (Incomplete 1 0) \<and> length ([] :: bytes) < HARD_MAX_FRAME_PAYLOAD + 16"
proof -
  have d: "decode_varint [0x41, 0x01, 0x00] = Inr (257, 2)" "decode_varint [0] = Inr (0, 1)"
    by (simp_all add: decode_varint_def byte_top_bits Let_def)
  have p: "peek_envelope [0x41, 0x01, 0x00] default_limits = Inl (UnknownCritical 257)"
    using d by (simp add: peek_envelope_def parse_eq default_limits_def validate_limits_def
        DEFAULT_MAX_UNKNOWN_PAYLOAD_def HARD_MAX_FRAME_PAYLOAD_def DEFAULT_MAX_FRAMES_PER_BATCH_def
        is_known_def is_critical_def registered_payload_limit_def frame_registry_def Let_def)
  moreover have e: "decode_one [] default_limits = Inl (Incomplete 1 0)"
    by (simp add: decode_one_def parse_eq decode_varint_def default_limits_def validate_limits_def
        DEFAULT_MAX_UNKNOWN_PAYLOAD_def HARD_MAX_FRAME_PAYLOAD_def DEFAULT_MAX_FRAMES_PER_BATCH_def)
  ultimately show ?thesis
    using envelope_verdict_stable [of "[0x41, 0x01, 0x00]" default_limits "[5]" 1 0]
      envelope_verdict_stable [of "[]" default_limits "[]" 1 0] by simp
qed

text \<open>Settings: encoding succeeds exactly for settings within the registered ranges, and what
  was encoded decodes to the same settings; and no payload whatever, with any mix of unknown
  identifiers, decodes to settings outside those ranges.\<close>

theorem settings_roundtrip:
  "((\<exists>w. encode_settings s [] = Inr w) \<longleftrightarrow> list_all (\<lambda>(i, v). setting_in_range i v) (advertised s)) \<and>
   (encode_settings s [] = Inr w \<longrightarrow> decode_settings w = Inr s) \<and>
   (decode_settings payload = Inr s' \<longrightarrow> list_all (\<lambda>(i, v). setting_in_range i v) (advertised s'))"
proof (intro conjI impI)
  show "(\<exists>w. encode_settings s [] = Inr w) \<longleftrightarrow> list_all (\<lambda>(i, v). setting_in_range i v) (advertised s)"
    by (simp add: encode_settings_iff settings_ok_def)
next
  assume "encode_settings s [] = Inr w"
  then have ok: "settings_ok s" and w: "w = pairs_bytes (advertised s)"
    by (simp_all add: encode_settings_iff)
  have "\<forall>(i, v) \<in> set (advertised s). i \<le> MAX_QUIC_VARINT \<and> v \<le> MAX_QUIC_VARINT \<and> i \<notin> set []"
    using ok setting_in_range_varint by (fastforce simp: settings_ok_def list_all_iff)
  moreover have "distinct (map fst (advertised s))" "length (advertised s) \<le> MAX_SETTINGS_PER_FRAME"
    by (simp_all add: advertised_def MAX_SETTINGS_PER_FRAME_def)
  moreover have "length (pairs_bytes (advertised s)) \<le> u64_max"
    using length_varints_le [of "concat (map (\<lambda>(i, v). [i, v]) (advertised s))"]
    by (simp add: advertised_def pairs_bytes_def u64_max_def del: length_varint)
  ultimately show "decode_settings w = Inr s"
    using decode_settings_loop_pairs [of "advertised s" "[]" "[]" default_settings] apply_advertised [OF ok]
    by (simp add: decode_settings_def w)
next
  assume "decode_settings payload = Inr s'"
  then show "list_all (\<lambda>(i, v). setting_in_range i v) (advertised s')"
    using decode_settings_loop_ok [of payload 0 default_settings "[]" s'] settings_ok_default
    unfolding decode_settings_def settings_ok_def by blast
qed

text \<open>HELLO: a greeting of this revision with at most the registered number of extensions
  decodes, for the role it names, to itself; and every greeting the decoder accepts is of this
  revision, names the expected role, and lists distinct extensions within the bound.\<close>

theorem hello_roundtrip:
  "(hello_ok h \<longrightarrow>
     (\<exists>w. encode_hello h [] = Inr w \<and> decode_hello w (hello_role h) = Inr h)) \<and>
   (decode_hello payload role = Inr h' \<longrightarrow> hello_ok h' \<and> hello_role h' = role)"
proof (intro conjI impI)
  assume "hello_ok h"
  then show "\<exists>w. encode_hello h [] = Inr w \<and> decode_hello w (hello_role h) = Inr h"
    using encode_hello_eq [of h "[]"] decode_hello_bytes [of h] by simp
next
  assume "decode_hello payload role = Inr h'"
  then obtain count off exts off' where c: "count \<le> MAX_EXTENSIONS_PER_HELLO"
    and d: "decode_extensions count payload off [] = Inr (exts, off')"
    and h': "h' = \<lparr>draft_revision = DRAFT_REVISION, hello_role = role, extensions = exts\<rparr>"
    unfolding decode_hello_def by (fastforce simp: not_less split: if_splits)
  from decode_extensions_sound [OF d] c show "hello_ok h'"
    by (simp add: h' hello_ok_def)
  show "hello_role h' = role" by (simp add: h')
qed

end
