(* ===== verification/Unit_Ranges.thy ===== *)
theory Unit_Ranges
  imports Vot_Prelude "HOL-Library.Product_Lexorder"
begin

text \<open>
  Run-length unit sets (\<open>src/crates/vot-resume-core/src/units.rs\<close>): a set of unit indices
  held as sorted, disjoint, non-adjacent runs of a start and a length. The operations are
  those of the source, on the vector of runs; the lemmas say what each does to the set of
  units the runs stand for, and that the representation of a set is unique.
  \<open>binary_search_by_key\<close>, \<open>partition_point\<close> and \<open>sort_unstable\<close> are the standard
  library's, on sorted input.
\<close>

type_synonym unit_runs = "(nat \<times> nat) list"

datatype run_error = EmptyRun | EndOverflow | TooManyRuns

definition MAX_UNIT :: nat where "MAX_UNIT = u64_max - 1"

definition run_count :: "unit_runs \<Rightarrow> nat" where
  "run_count runs = length runs"

definition count :: "unit_runs \<Rightarrow> nat" where
  "count runs = foldl (\<lambda>total (_, len). saturating_add total len) 0 runs"

definition max_unit :: "unit_runs \<Rightarrow> nat option" where
  "max_unit runs =
    (if runs = [] then None
     else let (start, len) = last runs in Some (saturating_add start len - 1))"

definition units :: "unit_runs \<Rightarrow> nat list" where
  "units runs = concat (map (\<lambda>(start, len). [start..<saturating_add start len]) runs)"

definition partition_point :: "('a \<Rightarrow> bool) \<Rightarrow> 'a list \<Rightarrow> nat" where
  "partition_point p xs = length (takeWhile p xs)"

text \<open>\<open>Ok\<close> of the index of the run that starts at the unit, or \<open>Err\<close> of where it would go.\<close>

definition binary_search :: "unit_runs \<Rightarrow> nat \<Rightarrow> nat + nat" where
  "binary_search runs unit =
    (let index = partition_point (\<lambda>(start, _). start < unit) runs in
     if index < length runs \<and> fst (runs ! index) = unit then Inr index else Inl index)"

definition run_index :: "unit_runs \<Rightarrow> nat \<Rightarrow> nat option" where
  "run_index runs unit =
    (case binary_search runs unit of
       Inr index \<Rightarrow> Some index
     | Inl index \<Rightarrow>
         if index = 0 then None
         else let (start, len) = runs ! (index - 1) in
           if unit - start < len then Some (index - 1) else None)"

definition contains :: "unit_runs \<Rightarrow> nat \<Rightarrow> bool" where
  "contains runs unit \<longleftrightarrow> run_index runs unit \<noteq> None"

definition end_of :: "unit_runs \<Rightarrow> nat \<Rightarrow> nat" where
  "end_of runs index = (let (start, len) = runs ! index in saturating_add start len)"

definition insert_unit :: "unit_runs \<Rightarrow> nat \<Rightarrow> unit_runs" where
  "insert_unit runs unit =
    (if MAX_UNIT < unit then runs
     else
       let at = partition_point (\<lambda>(start, _). start \<le> unit) runs;
           previous = checked_sub at 1 in
       if is_some_and previous (\<lambda>index. unit < end_of runs index) then runs
       else
         let joins_previous = is_some_and previous (\<lambda>index. end_of runs index = unit);
             joins_next = at < length runs \<and> fst (runs ! at) = saturating_add unit 1 in
         if joins_previous then
           if joins_next then
             let next_length = snd (runs ! at);
                 runs = take at runs @ drop (Suc at) runs;
                 (start, len) = runs ! (at - 1) in
             runs[at - 1 := (start, saturating_add (saturating_add len 1) next_length)]
           else
             let (start, len) = runs ! (at - 1) in
             runs[at - 1 := (start, saturating_add len 1)]
         else
           if joins_next then runs[at := (unit, saturating_add (snd (runs ! at)) 1)]
           else take at runs @ [(unit, 1)] @ drop at runs)"

definition extend_units :: "unit_runs \<Rightarrow> nat list \<Rightarrow> unit_runs" where
  "extend_units runs us = foldl insert_unit runs us"

definition push_run :: "unit_runs \<Rightarrow> nat \<Rightarrow> nat \<Rightarrow> unit_runs" where
  "push_run runs start len =
    (let stop = saturating_add start len in
     if runs \<noteq> [] \<and> start \<le> saturating_add (fst (last runs)) (snd (last runs)) then
       let (s, l) = last runs; last_end = saturating_add s l in
       butlast runs @ [(s, max stop last_end - s)]
     else runs @ [(start, len)])"

fun merge_runs :: "unit_runs \<Rightarrow> unit_runs \<Rightarrow> unit_runs \<Rightarrow> unit_runs" where
  "merge_runs merged [] [] = merged"
| "merge_runs merged ((s, l) # left) [] = merge_runs (push_run merged s l) left []"
| "merge_runs merged [] ((s, l) # right) = merge_runs (push_run merged s l) [] right"
| "merge_runs merged ((s, l) # left) ((s', l') # right) =
    (if s \<le> s' then merge_runs (push_run merged s l) left ((s', l') # right)
     else merge_runs (push_run merged s' l') ((s, l) # left) right)"

definition union_runs :: "unit_runs \<Rightarrow> unit_runs \<Rightarrow> unit_runs" where
  "union_runs runs other =
    (if other = [] then runs
     else if runs = [] then other
     else merge_runs [] runs other)"

fun collect_runs :: "nat \<Rightarrow> unit_runs \<Rightarrow> (nat \<times> nat) list \<Rightarrow> run_error + unit_runs" where
  "collect_runs max_input_runs collected [] = Inr collected"
| "collect_runs max_input_runs collected ((start, len) # rest) =
    (if length collected = max_input_runs then Inl TooManyRuns
     else if len = 0 then Inl EmptyRun
     else and_then (ok_or (checked_add start len) EndOverflow) (\<lambda>_.
       collect_runs max_input_runs (collected @ [(start, len)]) rest))"

definition from_runs_bounded :: "(nat \<times> nat) list \<Rightarrow> nat \<Rightarrow> run_error + unit_runs" where
  "from_runs_bounded rs max_input_runs =
    and_then (collect_runs max_input_runs [] rs) (\<lambda>collected.
      Inr (foldl (\<lambda>runs (start, len). push_run runs start len) [] (sort collected)))"

definition units_from_runs :: "(nat \<times> nat) list \<Rightarrow> run_error + unit_runs" where
  "units_from_runs rs = from_runs_bounded rs u64_max"

text \<open>The inner loop of \<open>difference\<close> for one run \<open>cursor..stop\<close>: the advanced cursor, what is
  left of the other set's runs (its peekable iterator), and the runs so far.\<close>

fun difference_run :: "nat \<Rightarrow> nat \<Rightarrow> unit_runs \<Rightarrow> unit_runs \<Rightarrow> nat \<times> unit_runs \<times> unit_runs" where
  "difference_run cursor stop [] runs = (cursor, [], runs)"
| "difference_run cursor stop ((other_start, other_length) # others) runs =
    (let other_end = saturating_add other_start other_length in
     if other_end \<le> cursor then difference_run cursor stop others runs
     else if stop \<le> other_start then (cursor, (other_start, other_length) # others, runs)
     else
       let runs = (if cursor < other_start then push_run runs cursor (other_start - cursor) else runs);
           cursor = max cursor other_end in
       if stop \<le> cursor then (cursor, (other_start, other_length) # others, runs)
       else difference_run cursor stop others runs)"

fun difference_loop :: "unit_runs \<Rightarrow> unit_runs \<Rightarrow> unit_runs \<Rightarrow> unit_runs" where
  "difference_loop [] others runs = runs"
| "difference_loop ((start, len) # rest) others runs =
    (let stop = saturating_add start len;
         (cursor, others, runs) = difference_run start stop others runs;
         runs = (if cursor < stop then push_run runs cursor (stop - cursor) else runs) in
     difference_loop rest others runs)"

definition difference :: "unit_runs \<Rightarrow> unit_runs \<Rightarrow> unit_runs" where
  "difference runs other = difference_loop runs other []"

fun gaps_between :: "unit_runs \<Rightarrow> (nat \<times> nat) list" where
  "gaps_between ((start, len) # (start', len') # runs) =
    (saturating_add start len, start') # gaps_between ((start', len') # runs)"
| "gaps_between _ = []"

definition missing :: "unit_runs \<Rightarrow> nat \<Rightarrow> nat list" where
  "missing runs total_units =
    (let leading = [(0, case runs of [] \<Rightarrow> total_units | (start, _) # _ \<Rightarrow> start)];
         between = gaps_between runs;
         trailing = [if runs = [] then (total_units, total_units)
           else (saturating_add (fst (last runs)) (snd (last runs)), total_units)] in
     concat (map (\<lambda>(from, to). [min from total_units..<min to total_units])
       (leading @ between @ trailing)))"

section \<open>What the runs stand for\<close>

text \<open>The invariant: runs are non-empty, end within 64 bits, and leave a gap to every later run.\<close>

fun runs_ok :: "unit_runs \<Rightarrow> bool" where
  "runs_ok [] \<longleftrightarrow> True"
| "runs_ok ((s, l) # rs) \<longleftrightarrow> 0 < l \<and> s + l \<le> u64_max \<and> (\<forall>(s', l') \<in> set rs. s + l < s') \<and> runs_ok rs"

definition unit_set :: "unit_runs \<Rightarrow> nat set" where
  "unit_set rs = (\<Union>(s, l) \<in> set rs. {s..<s + l})"

lemma unit_set_simps [simp]:
  "unit_set [] = {}"
  "unit_set ((s, l) # rs) = {s..<s + l} \<union> unit_set rs"
  "unit_set (xs @ ys) = unit_set xs \<union> unit_set ys"
  by (auto simp: unit_set_def)

lemma runs_ok_append:
  "runs_ok (xs @ ys) \<longleftrightarrow> runs_ok xs \<and> runs_ok ys \<and>
    (\<forall>(s, l) \<in> set xs. \<forall>(s', l') \<in> set ys. s + l < s')"
  by (induction xs rule: runs_ok.induct) fastforce+

lemma runs_ok_member: "runs_ok rs \<Longrightarrow> (s, l) \<in> set rs \<Longrightarrow> 0 < l \<and> s + l \<le> u64_max"
  by (induction rs rule: runs_ok.induct) auto

lemma unit_set_above: "\<forall>(s, l) \<in> set rs. a < s \<Longrightarrow> x \<in> unit_set rs \<Longrightarrow> a < x"
  by (fastforce simp: unit_set_def)

lemma unit_set_below: "\<forall>(s, l) \<in> set rs. s + l \<le> a \<Longrightarrow> x \<in> unit_set rs \<Longrightarrow> x < a"
  by (fastforce simp: unit_set_def)

lemma unit_set_finite [simp]: "finite (unit_set rs)"
  by (auto simp: unit_set_def)

lemma unit_set_bound: "runs_ok rs \<Longrightarrow> unit_set rs \<subseteq> {..<u64_max}"
  by (induction rs rule: runs_ok.induct) auto

lemma run_end_exact: "runs_ok rs \<Longrightarrow> (s, l) \<in> set rs \<Longrightarrow> saturating_add s l = s + l"
  using runs_ok_member by fastforce

lemma units_sorted:
  assumes "runs_ok rs"
  shows "set (units rs) = unit_set rs \<and> sorted_wrt (<) (units rs)"
  using assms
proof (induction rs rule: runs_ok.induct)
  case 1
  then show ?case by (simp add: units_def)
next
  case (2 s l rs)
  then have ih: "set (units rs) = unit_set rs" "sorted_wrt (<) (units rs)" by simp_all
  have "units ((s, l) # rs) = [s..<s + l] @ units rs"
    using 2 by (simp add: units_def)
  with ih 2 show ?case
    using unit_set_above [of rs "s + l"] by (fastforce simp: sorted_wrt_append)
qed

lemma count_card: "runs_ok rs \<Longrightarrow> count rs = card (unit_set rs)"
proof -
  assume ok: "runs_ok rs"
  have "foldl (\<lambda>total (_, len). saturating_add total len) a rs = a + card (unit_set rs)"
    if "a + card (unit_set rs) \<le> u64_max" for a
    using ok that
  proof (induction rs arbitrary: a rule: runs_ok.induct)
    case (2 s l rs)
    have "card (unit_set ((s, l) # rs)) = l + card (unit_set rs)"
      using 2 unit_set_above [of rs "s + l"] by (simp, subst card_Un_disjoint) force+
    with 2 show ?case by simp
  qed simp
  moreover have "card (unit_set rs) \<le> u64_max"
    using card_mono [OF _ unit_set_bound [OF ok]] by simp
  ultimately show ?thesis by (simp add: count_def)
qed

lemma max_unit_Max:
  assumes "runs_ok rs"
  shows "max_unit rs = (if unit_set rs = {} then None else Some (Max (unit_set rs)))"
proof (cases rs rule: rev_cases)
  case Nil
  then show ?thesis by (simp add: max_unit_def)
next
  case (snoc xs p)
  obtain s l where p: "p = (s, l)" by (cases p)
  have l: "0 < l" "s + l \<le> u64_max" and below: "\<forall>(a, b) \<in> set xs. a + b < s"
    using assms by (auto simp: snoc p runs_ok_append)
  have "Max (unit_set rs) = s + l - 1"
  proof (rule Max_eqI)
    fix y assume "y \<in> unit_set rs"
    moreover have "x < s" if "x \<in> unit_set xs" for x
      using unit_set_below [of xs s x] below that by (force intro: less_imp_le)
    ultimately show "y \<le> s + l - 1" using l by (fastforce simp: snoc p)
  qed (use l in \<open>auto simp: snoc p\<close>)
  moreover have "s \<in> unit_set rs" using l by (simp add: snoc p)
  ultimately show ?thesis using l by (auto simp: max_unit_def snoc p)
qed

lemma unit_set_empty_iff: "runs_ok rs \<Longrightarrow> unit_set rs = {} \<longleftrightarrow> rs = []"
  by (cases rs) auto

lemma runs_unique:
  assumes "runs_ok xs" "runs_ok ys" "unit_set xs = unit_set ys"
  shows "xs = ys"
  using assms
proof (induction xs arbitrary: ys rule: runs_ok.induct)
  case 1
  then show ?case using unit_set_empty_iff [of ys] by simp
next
  case (2 s l xs)
  have "unit_set ys \<noteq> {}" using 2(2,4) by auto
  then obtain s' l' ys' where ys: "ys = (s', l') # ys'"
    by (cases ys) auto
  have X: "0 < l" "\<forall>x \<in> unit_set xs. s + l < x" and Y: "0 < l'" "\<forall>x \<in> unit_set ys'. s' + l' < x"
    using 2(2,3) unit_set_above [of xs "s + l"] unit_set_above [of ys' "s' + l'"] by (auto simp: ys)
  have eq: "x \<in> {s..<s + l} \<union> unit_set xs \<longleftrightarrow> x \<in> {s'..<s' + l'} \<union> unit_set ys'" for x
    using 2(4) by (simp add: ys set_eq_iff)
  have "s' \<le> s" using eq [of s] X(1) Y(2) by auto
  moreover have "s \<le> s'" using eq [of s'] X(2) Y(1) by auto
  ultimately have "s = s'" by simp
  moreover have "l = l'"
  proof (rule ccontr)
    assume "l \<noteq> l'"
    then consider "l < l'" | "l' < l" by linarith
    then show False
    proof cases
      case 1
      then have "s + l \<in> unit_set xs" using eq [of "s + l"] \<open>s = s'\<close> by auto
      with X(2) show False by blast
    next
      case 2
      then have "s' + l' \<in> unit_set ys'" using eq [of "s' + l'"] \<open>s = s'\<close> by auto
      with Y(2) show False by blast
    qed
  qed
  moreover have "unit_set xs = unit_set ys'"
  proof (rule set_eqI)
    fix x
    show "x \<in> unit_set xs \<longleftrightarrow> x \<in> unit_set ys'"
      using eq [of x] X(2) Y(2) \<open>s = s'\<close> \<open>l = l'\<close>
      by (metis UnE UnI2 atLeastLessThan_iff less_asym)
  qed
  ultimately show ?case
    using 2(1) [of ys'] 2(2,3) \<open>s = s'\<close> by (simp add: ys)
qed

section \<open>Membership\<close>

lemma runs_sorted: "runs_ok rs \<Longrightarrow> sorted_wrt (\<lambda>(s, _) (s', _). s < s') rs"
  by (induction rs rule: runs_ok.induct) fastforce+

lemma dropWhile_starts:
  assumes "sorted_wrt (\<lambda>(s, _) (s', _). s < (s' :: nat)) rs"
  shows "(s, l) \<in> set (dropWhile (\<lambda>(s, _). s \<le> u) rs) \<Longrightarrow> u < s"
    "(s, l) \<in> set (dropWhile (\<lambda>(s, _). s < u) rs) \<Longrightarrow> u \<le> s"
proof -
  show "(s, l) \<in> set (dropWhile (\<lambda>(s, _). s \<le> u) rs) \<Longrightarrow> u < s"
    using assms
  proof (induction rs)
    case (Cons p rs)
    then show ?case by (cases p) (fastforce split: if_splits)
  qed simp
  show "(s, l) \<in> set (dropWhile (\<lambda>(s, _). s < u) rs) \<Longrightarrow> u \<le> s"
    using assms
  proof (induction rs)
    case (Cons p rs)
    then show ?case by (cases p) (fastforce split: if_splits)
  qed simp
qed

lemma split_le:
  assumes "runs_ok rs"
  obtains L R where "rs = L @ R" "partition_point (\<lambda>(s, _). s \<le> u) rs = length L"
    "\<forall>(s, l) \<in> set L. s \<le> u" "\<forall>(s, l) \<in> set R. u < s"
proof
  let ?P = "\<lambda>(s, _). s \<le> u"
  show "rs = takeWhile ?P rs @ dropWhile ?P rs" by simp
  show "partition_point ?P rs = length (takeWhile ?P rs)" by (simp add: partition_point_def)
  show "\<forall>(s, l) \<in> set (takeWhile ?P rs). s \<le> u" by (auto dest: set_takeWhileD)
  show "\<forall>(s, l) \<in> set (dropWhile ?P rs). u < s"
    using dropWhile_starts [OF runs_sorted [OF assms]] by fast
qed

lemma split_less:
  assumes "runs_ok rs"
  obtains L R where "rs = L @ R" "partition_point (\<lambda>(s, _). s < u) rs = length L"
    "\<forall>(s, l) \<in> set L. s < u" "\<forall>(s, l) \<in> set R. u \<le> s"
proof
  let ?P = "\<lambda>(s, _). s < u"
  show "rs = takeWhile ?P rs @ dropWhile ?P rs" by simp
  show "partition_point ?P rs = length (takeWhile ?P rs)" by (simp add: partition_point_def)
  show "\<forall>(s, l) \<in> set (takeWhile ?P rs). s < u" by (auto dest: set_takeWhileD)
  show "\<forall>(s, l) \<in> set (dropWhile ?P rs). u \<le> s"
    using dropWhile_starts [OF runs_sorted [OF assms]] by fast
qed

lemma member_at:
  assumes "runs_ok (xs @ (s, l) # ys)" "s \<le> u" "\<forall>(s', l') \<in> set ys. u < s'"
  shows "u \<in> unit_set (xs @ (s, l) # ys) \<longleftrightarrow> u < s + l"
proof -
  have "u \<notin> unit_set ys" using assms(3) unit_set_above [of ys u u] by auto
  moreover have "u \<notin> unit_set xs"
    using assms(1,2) unit_set_below [of xs s u] by (force simp: runs_ok_append intro: less_imp_le)
  ultimately show ?thesis using assms(2) by auto
qed

lemma contains_iff:
  assumes "runs_ok rs"
  shows "contains rs u \<longleftrightarrow> u \<in> unit_set rs"
proof -
  obtain L R where rs: "rs = L @ R" and at: "partition_point (\<lambda>(s, _). s < u) rs = length L"
    and L: "\<forall>(s, l) \<in> set L. s < u" and R: "\<forall>(s, l) \<in> set R. u \<le> s"
    using split_less [OF assms] by blast
  show ?thesis
  proof (cases "\<exists>l R'. R = (u, l) # R'")
    case True
    then obtain l R' where R': "R = (u, l) # R'" by blast
    have "0 < l" using assms by (simp add: rs R' runs_ok_append)
    then show ?thesis
      using at by (simp add: contains_def run_index_def binary_search_def rs R' Let_def nth_append)
  next
    case False
    have above: "\<forall>(s, l) \<in> set R. u < s"
    proof (cases R)
      case (Cons p R')
      obtain s l where p: "p = (s, l)" by (cases p)
      have "u < s" using False R by (auto simp: Cons p le_less)
      moreover have "\<forall>(s', l') \<in> set R'. s < s'"
        using assms by (fastforce simp: rs Cons p runs_ok_append)
      ultimately show ?thesis by (auto simp: Cons p)
    qed simp
    have nokey: "\<not> (length L < length rs \<and> fst (rs ! length L) = u)"
      using False by (cases R) (auto simp: rs nth_append)
    have idx: "binary_search rs u = Inl (length L)"
      using at nokey by (simp add: binary_search_def Let_def)
    show ?thesis
    proof (cases L rule: rev_cases)
      case Nil
      then show ?thesis
        using above idx unit_set_above [of rs u u] by (auto simp: contains_def run_index_def rs)
    next
      case (snoc L' p)
      obtain s l where p: "p = (s, l)" by (cases p)
      have "s < u" using L by (simp add: snoc p)
      then have "u \<in> unit_set rs \<longleftrightarrow> u < s + l"
        using member_at [of L' s l R u] assms above by (simp add: rs snoc p)
      moreover have "contains rs u \<longleftrightarrow> u - s < l"
        using idx by (simp add: contains_def run_index_def rs snoc p nth_append)
      ultimately show ?thesis using \<open>s < u\<close> by auto
    qed
  qed
qed

section \<open>Insertion\<close>

lemma MAX_UNIT_iff: "u \<le> MAX_UNIT \<longleftrightarrow> u + 1 \<le> u64_max"
  using u64_max_pos unfolding MAX_UNIT_def by linarith

lemma checked_pred [simp]: "checked_sub 0 (Suc 0) = None" "checked_sub (Suc n) (Suc 0) = Some n"
  by simp_all

text \<open>Insertion seen from the place where the unit belongs: what it does to the run before and
  the run after.\<close>

fun place :: "nat \<Rightarrow> unit_runs \<Rightarrow> unit_runs" where
  "place u [] = [(u, 1)]"
| "place u ((s, l) # R) = (if s = u + 1 then (u, l + 1) # R else (u, 1) # (s, l) # R)"

lemma insert_unit_front:
  assumes "u \<le> MAX_UNIT" "runs_ok rs" "\<forall>(s, l) \<in> set rs. u < s"
  shows "insert_unit rs u = place u rs"
proof -
  have at: "partition_point (\<lambda>(s, _). s \<le> u) rs = 0"
    using assms(3) by (cases rs) (auto simp: partition_point_def)
  have exact: "saturating_add u 1 = u + 1"
    using assms(1) unfolding MAX_UNIT_iff by (rule saturating_add_exact)
  have "saturating_add l 1 = l + 1" if "rs = (s, l) # R" "s = u + 1" for s l R
    using assms(2) that by simp
  moreover have "\<not> MAX_UNIT < u" using assms(1) by simp
  moreover have "checked_sub 0 1 = None" by simp
  ultimately show ?thesis
    using exact unfolding insert_unit_def at by (cases rs) (auto simp: Let_def)
qed

lemma insert_unit_after:
  assumes "u \<le> MAX_UNIT" "runs_ok (L @ (s, l) # R)" "s \<le> u" "\<forall>(s', l') \<in> set R. u < s'"
  shows "insert_unit (L @ (s, l) # R) u =
    (if u < s + l then L @ (s, l) # R
     else if s + l = u then L @ (s, l + snd (hd (place u R))) # tl (place u R)
     else L @ (s, l) # place u R)"
proof -
  let ?rs = "L @ (s, l) # R"
  have "\<forall>(a, b) \<in> set L. a \<le> u"
    using assms(2,3) by (fastforce simp: runs_ok_append)
  then have "takeWhile (\<lambda>(a, _). a \<le> u) (L @ [(s, l)]) = L @ [(s, l)]"
    using assms(3) by (simp add: takeWhile_eq_all_conv)
  moreover have "takeWhile (\<lambda>(a, _). a \<le> u) R = []"
    using assms(4) by (cases R) auto
  ultimately have "takeWhile (\<lambda>(a, _). a \<le> u) ((L @ [(s, l)]) @ R) = L @ [(s, l)]"
    using \<open>\<forall>(a, b) \<in> set L. a \<le> u\<close> assms(3) by (subst takeWhile_append2) auto
  then have at: "partition_point (\<lambda>(a, _). a \<le> u) (L @ (s, l) # R) = Suc (length L)"
    by (simp add: partition_point_def)
  have fits: "s + l \<le> u64_max" "u + 1 \<le> u64_max" "\<not> MAX_UNIT < u"
    using assms(1,2) MAX_UNIT_iff [of u] by (auto simp: runs_ok_append)
  have prev: "checked_sub (Suc (length L)) 1 = Some (length L)" by simp
  have stop: "end_of ?rs (length L) = s + l"
    using fits(1) by (simp add: end_of_def nth_append)
  have fit2: "s' + l' \<le> u64_max" if "R = (s', l') # R'" for s' l' R'
    using assms(2) by (simp add: that runs_ok_append)
  show ?thesis
  proof (cases R)
    case Nil
    then show ?thesis
      using fits by (simp add: insert_unit_def at [unfolded Nil] stop [unfolded Nil] Let_def nth_append list_update_append)
  next
    case (Cons p R')
    obtain s' l' where p: "p = (s', l')" by (cases p)
    show ?thesis
      using fits fit2 [OF Cons [unfolded p]]
      by (simp add: insert_unit_def at [unfolded Cons p] stop [unfolded Cons p] Let_def nth_append list_update_append Cons p)
  qed
qed

lemma place_correct:
  assumes "u + 1 \<le> u64_max" "runs_ok R" "\<forall>(s, l) \<in> set R. u < s"
  obtains k R' where "place u R = (u, k) # R'" "runs_ok ((u, k) # R')"
    "unit_set ((u, k) # R') = insert u (unit_set R)"
proof (cases R)
  case Nil
  then show ?thesis using assms that [of 1 "[]"] by auto
next
  case (Cons p R')
  obtain s l where p: "p = (s, l)" by (cases p)
  have ok: "0 < l" "s + l \<le> u64_max" "\<forall>(a, b) \<in> set R'. s + l < a" "runs_ok R'" and u: "u < s"
    using assms by (auto simp: Cons p)
  show ?thesis
  proof (cases "s = u + 1")
    case True
    moreover have "{u..<u + (l + 1)} = insert u {s..<s + l}" using True by auto
    ultimately show ?thesis
      using that [of "l + 1" R'] ok by (simp add: Cons p)
  next
    case False
    then have "\<forall>(a, b) \<in> set R. u + 1 < a"
      using ok u by (fastforce simp: Cons p)
    with False show ?thesis
      using that [of 1 R] assms by (simp add: Cons p)
  qed
qed

lemma insert_unit_correct:
  assumes "runs_ok rs"
  shows "runs_ok (insert_unit rs u) \<and>
    unit_set (insert_unit rs u) = (if u \<le> MAX_UNIT then insert u (unit_set rs) else unit_set rs)"
proof (cases "u \<le> MAX_UNIT")
  case False
  then show ?thesis using assms by (simp add: insert_unit_def)
next
  case u: True
  then have fit: "u + 1 \<le> u64_max" by (simp only: MAX_UNIT_iff)
  obtain L R where rs: "rs = L @ R" and L: "\<forall>(s, l) \<in> set L. s \<le> u" and R: "\<forall>(s, l) \<in> set R. u < s"
    using split_le [OF assms] by blast
  have "runs_ok R" using assms by (simp add: rs runs_ok_append)
  from place_correct [OF fit this R] obtain k R' where pl: "place u R = (u, k) # R'"
    and okR: "runs_ok ((u, k) # R')" and setR: "unit_set ((u, k) # R') = insert u (unit_set R)" .
  show ?thesis
  proof (cases L rule: rev_cases)
    case Nil
    then show ?thesis
      using insert_unit_front [OF u, of R] assms R u okR setR pl by (simp add: rs)
  next
    case (snoc L' p)
    obtain s l where p: "p = (s, l)" by (cases p)
    have ok: "runs_ok (L' @ (s, l) # R)" and s: "s \<le> u" using assms L by (auto simp: rs snoc p)
    note eq = insert_unit_after [OF u ok s R, unfolded pl list.sel snd_conv]
    consider "u < s + l" | "s + l = u" | "s + l < u" by linarith
    then show ?thesis
    proof cases
      case 1
      then show ?thesis using eq ok s u by (auto simp: rs snoc p)
    next
      case 2
      have "{s..<s + (l + k)} = {s..<s + l} \<union> {u..<u + k}" using 2 by auto
      with 2 show ?thesis
        using eq ok okR setR u by (auto simp: rs snoc p runs_ok_append) fastforce
    next
      case 3
      have "\<forall>(a, b) \<in> set L'. a + b < u" using ok 3 by (fastforce simp: runs_ok_append)
      with 3 show ?thesis
        using eq ok okR setR u by (fastforce simp: rs snoc p runs_ok_append)
    qed
  qed
qed

section \<open>Appending, union, difference\<close>

lemma push_run_correct:
  assumes "runs_ok rs" "\<forall>(s, l) \<in> set rs. s \<le> a" "0 < n" "a + n \<le> u64_max"
  shows "runs_ok (push_run rs a n)" "unit_set (push_run rs a n) = unit_set rs \<union> {a..<a + n}"
    "\<forall>(s, l) \<in> set (push_run rs a n). s \<le> a"
proof -
  have "runs_ok (push_run rs a n) \<and> unit_set (push_run rs a n) = unit_set rs \<union> {a..<a + n} \<and>
      (\<forall>(s, l) \<in> set (push_run rs a n). s \<le> a)"
  proof (cases rs rule: rev_cases)
    case Nil
    then show ?thesis using assms by (simp add: push_run_def)
  next
    case (snoc xs p)
    obtain s l where p: "p = (s, l)" by (cases p)
    have sl: "0 < l" "s + l \<le> u64_max" "s \<le> a" and xs: "runs_ok xs" "\<forall>(c, d) \<in> set xs. c + d < s"
      using assms by (auto simp: snoc p runs_ok_append)
    show ?thesis
    proof (cases "a \<le> s + l")
      case True
      then have eq: "push_run rs a n = xs @ [(s, max (a + n) (s + l) - s)]"
        using sl assms(4) by (simp add: push_run_def snoc p)
      have "{s..<s + (max (a + n) (s + l) - s)} = {s..<s + l} \<union> {a..<a + n}"
        using True sl(3) by auto
      moreover have "0 < max (a + n) (s + l) - s" "s + (max (a + n) (s + l) - s) \<le> u64_max"
        using sl assms(4) by auto
      ultimately show ?thesis
        unfolding eq using xs sl(3) assms(2) by (simp add: snoc p runs_ok_append Un_assoc)
    next
      case False
      then have eq: "push_run rs a n = rs @ [(a, n)]"
        using sl by (simp add: push_run_def snoc p)
      have "\<forall>(c, d) \<in> set rs. c + d < a"
        using False xs(2) sl(3) by (fastforce simp: snoc p)
      then show ?thesis using assms by (auto simp: eq runs_ok_append)
    qed
  qed
  then show "runs_ok (push_run rs a n)" "unit_set (push_run rs a n) = unit_set rs \<union> {a..<a + n}"
    "\<forall>(s, l) \<in> set (push_run rs a n). s \<le> a" by simp_all
qed

lemma push_runs_correct:
  assumes "sorted_wrt (\<lambda>(s, _) (s', _). s \<le> s') rs" "\<forall>(s, l) \<in> set rs. 0 < l \<and> s + l \<le> u64_max"
    "runs_ok acc" "\<forall>(s, l) \<in> set acc. \<forall>(s', l') \<in> set rs. s \<le> s'"
  shows "runs_ok (foldl (\<lambda>runs (s, l). push_run runs s l) acc rs) \<and>
    unit_set (foldl (\<lambda>runs (s, l). push_run runs s l) acc rs) = unit_set acc \<union> unit_set rs"
  using assms
proof (induction rs arbitrary: acc)
  case (Cons p rs)
  obtain s l where p: "p = (s, l)" by (cases p)
  have low: "\<forall>(a, b) \<in> set acc. a \<le> s" using Cons.prems(4) by (auto simp: p)
  have l: "0 < l" "s + l \<le> u64_max" using Cons.prems(2) by (auto simp: p)
  note push = push_run_correct [OF Cons.prems(3) low l]
  have "\<forall>(a, b) \<in> set (push_run acc s l). \<forall>(s', l') \<in> set rs. a \<le> s'"
    using push(3) Cons.prems(1) by (fastforce simp: p)
  then show ?case
    using Cons.IH [OF _ _ push(1)] push(2) Cons.prems(1,2) by (simp add: p Un_assoc)
qed simp

text \<open>Union appends the runs of both sets in the order of their starts.\<close>

fun merge_order :: "unit_runs \<Rightarrow> unit_runs \<Rightarrow> unit_runs" where
  "merge_order [] right = right"
| "merge_order left [] = left"
| "merge_order ((s, l) # left) ((s', l') # right) =
    (if s \<le> s' then (s, l) # merge_order left ((s', l') # right)
     else (s', l') # merge_order ((s, l) # left) right)"

lemma merge_runs_order:
  "merge_runs acc left right = foldl (\<lambda>runs (s, l). push_run runs s l) acc (merge_order left right)"
proof (induction acc left right rule: merge_runs.induct)
  case (2 merged s l left)
  then show ?case by (cases left) auto
qed auto

lemma set_merge_order: "set (merge_order xs ys) = set xs \<union> set ys"
  by (induction xs ys rule: merge_order.induct) auto

lemma sorted_merge_order:
  "sorted_wrt (\<lambda>(s, _) (s', _). s \<le> s') xs \<Longrightarrow> sorted_wrt (\<lambda>(s, _) (s', _). s \<le> s') ys \<Longrightarrow>
   sorted_wrt (\<lambda>(s, _) (s', _). s \<le> (s' :: nat)) (merge_order xs ys)"
proof (induction xs ys rule: merge_order.induct)
  case (3 s l left s' l' right)
  then show ?case by (fastforce simp: set_merge_order)
qed auto

lemma runs_sorted_le: "runs_ok rs \<Longrightarrow> sorted_wrt (\<lambda>(s, _) (s', _). s \<le> s') rs"
  by (rule sorted_wrt_mono_rel [OF _ runs_sorted]) auto

lemma union_runs_correct:
  assumes "runs_ok xs" "runs_ok ys"
  shows "runs_ok (union_runs xs ys) \<and> unit_set (union_runs xs ys) = unit_set xs \<union> unit_set ys"
proof -
  have "sorted_wrt (\<lambda>(s, _) (s', _). s \<le> s') (merge_order xs ys)"
    using assms by (intro sorted_merge_order runs_sorted_le)
  moreover have "\<forall>(s, l) \<in> set (merge_order xs ys). 0 < l \<and> s + l \<le> u64_max"
    using runs_ok_member [OF assms(1)] runs_ok_member [OF assms(2)] by (auto simp: set_merge_order)
  moreover have "unit_set (merge_order xs ys) = unit_set xs \<union> unit_set ys"
    by (auto simp: unit_set_def set_merge_order)
  ultimately show ?thesis
    using push_runs_correct [of "merge_order xs ys" "[]"] assms
    by (auto simp: union_runs_def merge_runs_order)
qed

lemma collect_runs_iff:
  assumes "length acc \<le> m"
  shows "collect_runs m acc rs = Inr c \<longleftrightarrow> c = acc @ rs \<and> length acc + length rs \<le> m \<and>
    (\<forall>(s, l) \<in> set rs. 0 < l \<and> s + l \<le> u64_max)"
  using assms
proof (induction rs arbitrary: acc)
  case (Cons p rs)
  obtain s l where p: "p = (s, l)" by (cases p)
  show ?case
  proof (cases "length acc = m")
    case False
    with Cons.prems Cons.IH [of "acc @ [(s, l)]"] show ?thesis by (auto simp: p)
  qed (simp add: p)
qed auto

lemma from_runs_bounded_iff:
  "(\<exists>runs. from_runs_bounded rs m = Inr runs) \<longleftrightarrow>
    length rs \<le> m \<and> (\<forall>(s, l) \<in> set rs. 0 < l \<and> s + l \<le> u64_max)"
  using collect_runs_iff [of "[]" m rs] by (auto simp: from_runs_bounded_def)

lemma from_runs_bounded_correct:
  assumes "from_runs_bounded rs m = Inr runs"
  shows "runs_ok runs \<and> unit_set runs = unit_set rs"
proof -
  have runs: "runs = foldl (\<lambda>runs (s, l). push_run runs s l) [] (sort rs)"
    and ok: "\<forall>(s, l) \<in> set rs. 0 < l \<and> s + l \<le> u64_max"
    using assms collect_runs_iff [of "[]" m rs] by (auto simp: from_runs_bounded_def)
  have "sorted_wrt (\<lambda>(s, _) (s', _). s \<le> s') (sort rs)"
    by (rule sorted_wrt_mono_rel [OF _ sorted_sort [of rs]]) (auto simp: less_eq_prod_def)
  moreover have "unit_set (sort rs) = unit_set rs" by (simp add: unit_set_def)
  ultimately show ?thesis
    using push_runs_correct [of "sort rs" "[]"] ok by (simp add: runs)
qed

text \<open>What the inner loop of \<open>difference\<close> has done when it stops: everything before the new
  cursor has been decided, nothing from the cursor on is in the other set, and the runs it
  consumed lie before the end of the current run.\<close>

definition difference_post ::
  "nat \<Rightarrow> nat \<Rightarrow> unit_runs \<Rightarrow> unit_runs \<Rightarrow> nat \<times> unit_runs \<times> unit_runs \<Rightarrow> bool" where
  "difference_post cursor stop others runs = (\<lambda>(cursor', others', runs').
    cursor \<le> cursor' \<and> runs_ok runs' \<and> (\<forall>(s, l) \<in> set runs'. s \<le> cursor' \<and> s < stop) \<and>
    unit_set runs' = unit_set runs \<union> ({cursor..<min cursor' stop} - unit_set others) \<and>
    {cursor'..<stop} \<inter> unit_set others = {} \<and>
    runs_ok others' \<and> (\<forall>x \<ge> stop. x \<in> unit_set others' \<longleftrightarrow> x \<in> unit_set others))"

lemma difference_postI:
  assumes "cursor \<le> c'" "runs_ok r'" "\<forall>(s, l) \<in> set r'. s \<le> c' \<and> s < stop"
    "\<And>x. x \<in> unit_set r' \<longleftrightarrow> x \<in> unit_set runs \<or> cursor \<le> x \<and> x < c' \<and> x < stop \<and> x \<notin> unit_set others"
    "\<And>x. c' \<le> x \<Longrightarrow> x < stop \<Longrightarrow> x \<notin> unit_set others"
    "runs_ok o'" "\<And>x. stop \<le> x \<Longrightarrow> x \<in> unit_set o' \<longleftrightarrow> x \<in> unit_set others"
  shows "difference_post cursor stop others runs (c', o', r')"
  using assms by (auto simp: difference_post_def)

lemma difference_postD:
  assumes "difference_post cursor stop others runs (c', o', r')"
  shows "cursor \<le> c'" "runs_ok r'" "\<forall>(s, l) \<in> set r'. s \<le> c' \<and> s < stop"
    "x \<in> unit_set r' \<longleftrightarrow> x \<in> unit_set runs \<or> cursor \<le> x \<and> x < c' \<and> x < stop \<and> x \<notin> unit_set others"
    "c' \<le> x \<Longrightarrow> x < stop \<Longrightarrow> x \<notin> unit_set others"
    "runs_ok o'" "stop \<le> x \<Longrightarrow> x \<in> unit_set o' \<longleftrightarrow> x \<in> unit_set others"
  using assms by (auto simp: difference_post_def)

lemma difference_run_correct:
  assumes "runs_ok others" "runs_ok runs" "\<forall>(s, l) \<in> set runs. s \<le> cursor" "cursor < stop" "stop \<le> u64_max"
  shows "difference_post cursor stop others runs (difference_run cursor stop others runs)"
  using assms
proof (induction others arbitrary: cursor runs)
  case Nil
  then show ?case by (auto simp: difference_post_def)
next
  case (Cons p others)
  obtain os ol where p: "p = (os, ol)" by (cases p)
  have ok: "0 < ol" "os + ol \<le> u64_max" "runs_ok others" and above: "\<And>x. x \<in> unit_set others \<Longrightarrow> os + ol < x"
    using Cons.prems(1) unit_set_above [of others "os + ol"] by (auto simp: p)
  have mem: "x \<in> unit_set (p # others) \<longleftrightarrow> os \<le> x \<and> x < os + ol \<or> x \<in> unit_set others" for x
    by (simp add: p)
  have low: "s \<le> cursor" if "(s, l) \<in> set runs" for s l using Cons.prems(3) that by auto
  consider "os + ol \<le> cursor" | "cursor < os + ol" "stop \<le> os" | "cursor < os + ol" "os < stop" by linarith
  then show ?case
  proof cases
    case 1
    obtain c' o' r' where res: "difference_run cursor stop others runs = (c', o', r')"
      by (cases "difference_run cursor stop others runs") auto
    note d = difference_postD [OF Cons.IH [OF ok(3) Cons.prems(2-5), unfolded res]]
    have "difference_post cursor stop (p # others) runs (c', o', r')"
    proof (rule difference_postI)
      show "x \<in> unit_set r' \<longleftrightarrow> x \<in> unit_set runs \<or> cursor \<le> x \<and> x < c' \<and> x < stop \<and> x \<notin> unit_set (p # others)" for x
        using d(4) [of x] 1 unfolding mem by auto
      show "x \<notin> unit_set (p # others)" if "c' \<le> x" "x < stop" for x
        using d(5) [OF that] d(1) 1 that unfolding mem by auto
      show "x \<in> unit_set o' \<longleftrightarrow> x \<in> unit_set (p # others)" if "stop \<le> x" for x
        using d(7) [OF that] 1 Cons.prems(4) that unfolding mem by auto
    qed (rule d)+
    moreover have "difference_run cursor stop (p # others) runs = (c', o', r')"
      using 1 ok by (simp add: p res)
    ultimately show ?thesis by simp
  next
    case 2
    have "difference_post cursor stop (p # others) runs (cursor, p # others, runs)"
    proof (rule difference_postI)
      show "\<forall>(s, l) \<in> set runs. s \<le> cursor \<and> s < stop"
        using low Cons.prems(4) le_less_trans by blast
      show "x \<notin> unit_set (p # others)" if "cursor \<le> x" "x < stop" for x
        using above [of x] 2 that unfolding mem by auto
    qed (use Cons.prems in auto)
    moreover have "difference_run cursor stop (p # others) runs = (cursor, p # others, runs)"
      using 2 ok by (simp add: p)
    ultimately show ?thesis by simp
  next
    case 3
    define runs1 where "runs1 = (if cursor < os then push_run runs cursor (os - cursor) else runs)"
    have r1: "runs_ok runs1" "unit_set runs1 = unit_set runs \<union> {cursor..<os}" "\<forall>(s, l) \<in> set runs1. s \<le> cursor"
      using push_run_correct [OF Cons.prems(2,3), of "os - cursor"] Cons.prems(2,3) ok
      by (auto simp: runs1_def)
    have step: "difference_run cursor stop (p # others) runs =
        (if stop \<le> os + ol then (os + ol, p # others, runs1) else difference_run (os + ol) stop others runs1)"
      using 3 ok by (simp add: p runs1_def [symmetric] Let_def max_def)
    show ?thesis
    proof (cases "stop \<le> os + ol")
      case True
      have "difference_post cursor stop (p # others) runs (os + ol, p # others, runs1)"
      proof (rule difference_postI)
        show "x \<in> unit_set runs1 \<longleftrightarrow> x \<in> unit_set runs \<or>
            cursor \<le> x \<and> x < os + ol \<and> x < stop \<and> x \<notin> unit_set (p # others)" for x
          using r1(2) above [of x] 3 True unfolding mem by auto
        show "\<forall>(s, l) \<in> set runs1. s \<le> os + ol \<and> s < stop"
          using r1(3) 3(1) Cons.prems(4) by fastforce
      qed (use 3 True r1 Cons.prems in auto)
      then show ?thesis using step True by simp
    next
      case False
      obtain c' o' r' where res: "difference_run (os + ol) stop others runs1 = (c', o', r')"
        by (cases "difference_run (os + ol) stop others runs1") auto
      have "\<forall>(s, l) \<in> set runs1. s \<le> os + ol" using r1(3) 3 by fastforce
      note d = difference_postD [OF Cons.IH [OF ok(3) r1(1) this _ Cons.prems(5), unfolded res]]
      have "difference_post cursor stop (p # others) runs (c', o', r')"
      proof (rule difference_postI)
        show "x \<in> unit_set r' \<longleftrightarrow> x \<in> unit_set runs \<or> cursor \<le> x \<and> x < c' \<and> x < stop \<and> x \<notin> unit_set (p # others)" for x
          using d(4) [of x] d(1) r1(2) above [of x] 3 False unfolding mem by auto
        show "x \<notin> unit_set (p # others)" if "c' \<le> x" "x < stop" for x
          using d(5) [of x] d(1) that False unfolding mem by auto
        show "x \<in> unit_set o' \<longleftrightarrow> x \<in> unit_set (p # others)" if "stop \<le> x" for x
          using d(7) [of x] that False unfolding mem by auto
        show "cursor \<le> c'" using d(1) 3 False by simp
      qed (use d(2,3,6) False in auto)
      then show ?thesis using step False res by simp
    qed
  qed
qed

section \<open>Difference and gaps\<close>

lemma difference_loop_correct:
  assumes "runs_ok xs" "runs_ok others" "runs_ok runs" "\<forall>(s, l) \<in> set runs. \<forall>(s', l') \<in> set xs. s \<le> s'"
  shows "runs_ok (difference_loop xs others runs) \<and>
    unit_set (difference_loop xs others runs) = unit_set runs \<union> (unit_set xs - unit_set others)"
  using assms
proof (induction xs arbitrary: others runs)
  case (Cons p xs)
  obtain s l where p: "p = (s, l)" by (cases p)
  let ?e = "s + l"
  have ok: "0 < l" "?e \<le> u64_max" "runs_ok xs" and after: "\<And>x. x \<in> unit_set xs \<Longrightarrow> ?e < x"
    and starts: "\<forall>(a, b) \<in> set xs. ?e < a"
    using Cons.prems(1) unit_set_above [of xs ?e] by (auto simp: p)
  obtain c o' r where res: "difference_run s ?e others runs = (c, o', r)"
    by (cases "difference_run s ?e others runs") auto
  have "\<forall>(a, b) \<in> set runs. a \<le> s" using Cons.prems(4) by (auto simp: p)
  note d = difference_postD [OF difference_run_correct [OF Cons.prems(2,3) this _ ok(2), unfolded res]]
  define r1 where "r1 = (if c < ?e then push_run r c (?e - c) else r)"
  have d': "s \<le> c" "runs_ok r" "\<forall>(a, b) \<in> set r. a \<le> c \<and> a < ?e" "runs_ok o'"
    using d(1-3,6) ok(1) by auto
  have r1: "runs_ok r1 \<and> unit_set r1 = unit_set r \<union> {c..<?e} \<and> (\<forall>(a, b) \<in> set r1. a \<le> ?e)"
  proof (cases "c < ?e")
    case True
    have "\<forall>(a, b) \<in> set r. a \<le> c" using d'(3) by auto
    from push_run_correct [OF d'(2) this, of "?e - c"] True ok(2) show ?thesis
      by (fastforce simp: r1_def)
  next
    case False
    then show ?thesis using d'(2,3) by (fastforce simp: r1_def)
  qed
  have step: "difference_loop (p # xs) others runs = difference_loop xs o' r1"
    using ok(2) by (simp add: p res r1_def)
  have ih: "runs_ok (difference_loop xs o' r1) \<and>
      unit_set (difference_loop xs o' r1) = unit_set r1 \<union> (unit_set xs - unit_set o')"
    using r1 starts d'(4) ok(3) by (intro Cons.IH) fastforce+
  have "unit_set r1 \<union> (unit_set xs - unit_set o') = unit_set runs \<union> (unit_set (p # xs) - unit_set others)"
  proof (rule set_eqI)
    fix x
    show "x \<in> unit_set r1 \<union> (unit_set xs - unit_set o') \<longleftrightarrow> x \<in> unit_set runs \<union> (unit_set (p # xs) - unit_set others)"
      using d(4) [of x] d(5) [of x] d(7) [of x] r1 after [of x] ok(1) d'(1) by (auto simp: p)
  qed
  with ih show ?case by (simp add: step)
qed simp

lemma difference_correct:
  "runs_ok xs \<Longrightarrow> runs_ok ys \<Longrightarrow>
   runs_ok (difference xs ys) \<and> unit_set (difference xs ys) = unit_set xs - unit_set ys"
  using difference_loop_correct [of xs ys "[]"] by (simp add: difference_def)

text \<open>The gaps between runs from a position on, as half-open intervals.\<close>

fun gaps_from :: "nat \<Rightarrow> unit_runs \<Rightarrow> nat \<Rightarrow> (nat \<times> nat) list" where
  "gaps_from a [] tu = [(a, tu)]"
| "gaps_from a ((s, l) # rs) tu = (a, s) # gaps_from (s + l) rs tu"

lemma gaps_from_parts:
  assumes "runs_ok ((s, l) # rs)"
  shows "gaps_from (s + l) rs tu =
    gaps_between ((s, l) # rs) @ [(saturating_add (fst (last ((s, l) # rs))) (snd (last ((s, l) # rs))), tu)]"
  using assms
proof (induction rs arbitrary: s l)
  case (Cons q rs)
  obtain s' l' where q: "q = (s', l')" by (cases q)
  have "runs_ok ((s', l') # rs)" using Cons.prems by (simp add: q)
  from Cons.IH [OF this] Cons.prems show ?case by (simp add: q)
qed simp

lemma upt_split: "i \<le> j \<Longrightarrow> j \<le> k \<Longrightarrow> [i..<k] = [i..<j] @ [j..<k]"
  using upt_add_eq_append [of i j "k - j"] by simp

lemma gaps_from_units:
  assumes "runs_ok rs" "\<forall>(s, l) \<in> set rs. a \<le> s"
  shows "concat (map (\<lambda>(from, to). [min from t..<min to t]) (gaps_from a rs t)) =
    filter (\<lambda>u. u \<notin> unit_set rs) [min a t..<t]"
  using assms
proof (induction rs arbitrary: a)
  case Nil
  then show ?case by simp
next
  case (Cons p rs)
  obtain s l where p: "p = (s, l)" by (cases p)
  have ok: "runs_ok rs" "\<forall>(s', l') \<in> set rs. s + l < s'" "a \<le> s"
    using Cons.prems by (auto simp: p)
  have above: "s + l < x" if "x \<in> unit_set rs" for x using unit_set_above [OF ok(2) that] .
  let ?out = "\<lambda>u. u \<notin> unit_set (p # rs)"
  have split: "[min a t..<t] = [min a t..<min s t] @ [min s t..<min (s + l) t] @ [min (s + l) t..<t]"
    using ok(3) upt_split [of "min a t" "min s t" t] upt_split [of "min s t" "min (s + l) t" t]
    by (simp add: min.coboundedI1 min_le_iff_disj)
  have "filter ?out [min a t..<min s t] = [min a t..<min s t]"
    by (rule filter_True) (use above in \<open>fastforce simp: p\<close>)
  moreover have "filter ?out [min s t..<min (s + l) t] = []"
    by (rule filter_False) (auto simp: p)
  moreover have "filter ?out [min (s + l) t..<t] = filter (\<lambda>u. u \<notin> unit_set rs) [min (s + l) t..<t]"
    by (rule filter_cong) (auto simp: p)
  ultimately show ?case
    using Cons.IH [OF ok(1), of "s + l"] ok(2) by (simp add: split p less_imp_le case_prod_beta)
qed

lemma missing_eq:
  assumes "runs_ok rs"
  shows "missing rs tu = filter (\<lambda>u. u \<notin> unit_set rs) [0..<tu]"
proof (cases rs)
  case Nil
  then show ?thesis by (simp add: missing_def)
next
  case (Cons p rs')
  obtain s l where p: "p = (s, l)" by (cases p)
  have "missing rs tu = concat (map (\<lambda>(from, to). [min from tu..<min to tu]) (gaps_from 0 rs tu))"
    using gaps_from_parts [of s l rs' tu] assms by (simp add: missing_def Cons p)
  also have "\<dots> = filter (\<lambda>u. u \<notin> unit_set rs) [0..<tu]"
    using gaps_from_units [OF assms, of 0 tu] by simp
  finally show ?thesis .
qed

section \<open>The contract\<close>

text \<open>
  The contract of a set representation, as its clients use it: an abstraction, an invariant,
  and operations that follow the set operations on representable elements.
\<close>

locale set_repr =
  fixes abs :: "'r \<Rightarrow> 'a set"
    and ok :: "'r \<Rightarrow> bool"
    and fits :: "'a \<Rightarrow> bool"
    and empty :: "'r"
    and member :: "'r \<Rightarrow> 'a \<Rightarrow> bool"
    and add :: "'r \<Rightarrow> 'a \<Rightarrow> 'r"
    and join :: "'r \<Rightarrow> 'r \<Rightarrow> 'r"
    and minus :: "'r \<Rightarrow> 'r \<Rightarrow> 'r"
  assumes empty_law: "ok empty \<and> abs empty = {}"
    and member_law: "ok r \<Longrightarrow> member r x \<longleftrightarrow> x \<in> abs r"
    and add_law: "ok r \<Longrightarrow> ok (add r x) \<and> abs (add r x) = (if fits x then insert x (abs r) else abs r)"
    and join_law: "ok r \<Longrightarrow> ok s \<Longrightarrow> ok (join r s) \<and> abs (join r s) = abs r \<union> abs s"
    and minus_law: "ok r \<Longrightarrow> ok s \<Longrightarrow> ok (minus r s) \<and> abs (minus r s) = abs r - abs s"
    and unique_law: "ok r \<Longrightarrow> ok s \<Longrightarrow> abs r = abs s \<Longrightarrow> r = s"
begin

lemma add_all:
  "ok r \<Longrightarrow> ok (foldl add r xs) \<and> abs (foldl add r xs) = abs r \<union> {x \<in> set xs. fits x}"
  by (induction xs arbitrary: r) (auto simp: add_law)

lemma add_all_commute:
  "ok r \<Longrightarrow> set xs = set ys \<Longrightarrow> foldl add r xs = foldl add r ys"
  using add_all [of r xs] add_all [of r ys] unique_law by auto

lemma subset_iff_minus: "ok r \<Longrightarrow> ok s \<Longrightarrow> minus r s = empty \<longleftrightarrow> abs r \<subseteq> abs s"
proof
  assume *: "ok r" "ok s" "minus r s = empty"
  then show "abs r \<subseteq> abs s" using minus_law [of r s] empty_law by auto
next
  assume *: "ok r" "ok s" "abs r \<subseteq> abs s"
  then have "abs (minus r s) = abs empty" using minus_law [of r s] empty_law by auto
  with * show "minus r s = empty" using minus_law [of r s] empty_law unique_law by blast
qed

lemma join_all:
  "ok r \<Longrightarrow> ok (join r (foldl add empty xs)) \<and>
   abs (join r (foldl add empty xs)) = abs r \<union> {x \<in> set xs. fits x}"
  using add_all [of empty xs] empty_law by (simp add: join_law)

end

interpretation ur: set_repr unit_set runs_ok "\<lambda>u. u \<le> MAX_UNIT" "[]" contains insert_unit union_runs difference
  by unfold_locales (simp_all add: contains_iff insert_unit_correct union_runs_correct difference_correct runs_unique)

section \<open>Properties\<close>

text \<open>C28. The run-length representation implements finite sets of unit indices exactly: on runs
  that satisfy the invariant, membership by binary search, insertion with its four ways of
  joining neighbours, the merging union and the single-pass difference compute the set
  operations and keep the invariant; counting saturates nowhere, the maximum is the largest
  member, and the lazily computed missing units are exactly the absent indices below the
  total, in increasing order.\<close>

theorem unit_ranges_implement_sets:
  assumes "runs_ok xs" "runs_ok ys"
  shows "(contains xs u \<longleftrightarrow> u \<in> unit_set xs) \<and>
    runs_ok (insert_unit xs u) \<and>
    unit_set (insert_unit xs u) = (if u \<le> MAX_UNIT then insert u (unit_set xs) else unit_set xs) \<and>
    runs_ok (union_runs xs ys) \<and> unit_set (union_runs xs ys) = unit_set xs \<union> unit_set ys \<and>
    runs_ok (difference xs ys) \<and> unit_set (difference xs ys) = unit_set xs - unit_set ys \<and>
    count xs = card (unit_set xs) \<and>
    max_unit xs = (if unit_set xs = {} then None else Some (Max (unit_set xs))) \<and>
    missing xs n = filter (\<lambda>u. u \<notin> unit_set xs) [0..<n]"
  using contains_iff [OF assms(1)] insert_unit_correct [OF assms(1)] union_runs_correct [OF assms]
    difference_correct [OF assms] count_card [OF assms(1)] max_unit_Max [OF assms(1)] missing_eq [OF assms(1)]
  by simp

theorem unit_ranges_implement_sets_witness:
  "runs_ok [(0, 3), (5, 2)] \<and> runs_ok [(3, 2)] \<and>
   unit_set (union_runs [(0, 3), (5, 2)] [(3, 2)]) = {0..<7} \<and> count [(0, 3), (5, 2)] = 5 \<and>
   missing [(0, 3), (5, 2)] 9 = [3, 4, 7, 8]"
proof -
  have ok: "runs_ok [(0, 3), (5, 2)]" "runs_ok [(3, 2)]" by (simp_all add: u64_max_def)
  have s: "unit_set [(0, 3), (5, 2)] = {0..<3} \<union> {5..<7}" "unit_set [(3, 2)] = {3..<5}" by simp_all
  note t = unit_ranges_implement_sets [OF ok, of 0 9]
  have "{0..<3} \<union> {5..<7} \<union> {3..<5} = {0..<7 :: nat}" by auto
  then have "unit_set (union_runs [(0, 3), (5, 2)] [(3, 2)]) = {0..<7}" using t unfolding s by simp
  moreover have "[0..<9] = [0, 1, 2, 3, 4, 5, 6, 7, 8 :: nat]" by (simp add: upt_rec)
  then have "missing [(0, 3), (5, 2)] 9 = [3, 4, 7, 8]" using t unfolding s by simp
  moreover have "card ({0..<3} \<union> {5..<7 :: nat}) = 5" by (subst card_Un_disjoint) simp_all
  then have "count [(0, 3), (5, 2)] = 5" using t unfolding s by simp
  ultimately show ?thesis using ok by simp
qed

text \<open>The representation is canonical, so comparing runs compares sets: two run lists that
  satisfy the invariant and hold the same units are equal; the order in which units are added
  does not matter; and building from untrusted runs in any order succeeds exactly when every
  run is non-empty, ends within 64 bits and the input is within its bound, and then yields the
  canonical form of the units the runs name.\<close>

theorem unit_ranges_canonical:
  "(runs_ok xs \<and> runs_ok ys \<longrightarrow> (xs = ys \<longleftrightarrow> unit_set xs = unit_set ys)) \<and>
   (set us = set vs \<longrightarrow> extend_units [] us = extend_units [] vs) \<and>
   ((\<exists>zs. from_runs_bounded rs m = Inr zs) \<longleftrightarrow>
     length rs \<le> m \<and> (\<forall>(s, l) \<in> set rs. 0 < l \<and> s + l \<le> u64_max)) \<and>
   (from_runs_bounded rs m = Inr zs \<longrightarrow> runs_ok zs \<and> unit_set zs = unit_set rs)"
  using runs_unique [of xs ys] ur.add_all_commute [of "[]" us vs] from_runs_bounded_iff [of rs m]
    from_runs_bounded_correct [of rs m zs]
  by (simp add: extend_units_def) blast

end
