(* ===== verification/Resume_Tracker.thy ===== *)
theory Resume_Tracker
  imports Unit_Ranges
begin

text \<open>
  Per-object resume accounting (\<open>src/crates/vot-resume-core/src/tracker.rs\<close>): which units
  are durable (checkpointed), which were completed since the last checkpoint, which are in
  flight, and the two-step checkpoint, in which a plan is prepared, persisted by the host and
  then committed if the state has not moved on. A refused operation leaves the state as it
  was, so an error carries no state.
\<close>

datatype tracker_error =
    InvalidConfiguration
  | InvalidUnit
  | UnitAlreadyActive
  | UnitNotActive
  | CheckpointRequired
  | InvalidCheckpoint
  | StaleCheckpointPlan
  | CheckpointGenerationExhausted

record resume_identity =
  discriminator :: nat
  digest :: bytes
  object_length :: nat

record checkpoint_plan =
  plan_identity :: resume_identity
  plan_generation :: nat
  plan_total_units :: nat
  plan_baseline :: unit_runs
  plan_checkpointed :: unit_runs
  plan_pending :: unit_runs

record resume_state =
  rs_identity :: resume_identity
  total_units :: nat
  checkpoint_window :: nat
  checkpointed :: unit_runs
  completed_since_checkpoint :: "nat list"
  active :: "nat list"
  checkpoint_generation :: nat

definition validate_checkpoint_window :: "nat \<Rightarrow> nat \<Rightarrow> tracker_error + unit" where
  "validate_checkpoint_window units_total window =
    (if window = 0 \<or> units_total < window then Inl InvalidConfiguration else Inr ())"

definition validate_durable :: "nat \<Rightarrow> unit_runs \<Rightarrow> tracker_error + unit" where
  "validate_durable units_total runs =
    (if is_some_and (max_unit runs) (\<lambda>unit. units_total \<le> unit) then Inl InvalidCheckpoint else Inr ())"

definition new_resume_state ::
  "resume_identity \<Rightarrow> nat \<Rightarrow> nat \<Rightarrow> unit_runs \<Rightarrow> tracker_error + resume_state" where
  "new_resume_state identity units_total window runs =
    and_then (validate_checkpoint_window units_total window) (\<lambda>_.
    and_then (validate_durable units_total runs) (\<lambda>_.
      Inr \<lparr>rs_identity = identity, total_units = units_total, checkpoint_window = window,
           checkpointed = runs, completed_since_checkpoint = [], active = [],
           checkpoint_generation = 0\<rparr>))"

definition validate_unit :: "resume_state \<Rightarrow> nat \<Rightarrow> tracker_error + unit" where
  "validate_unit s unit = (if total_units s \<le> unit then Inl InvalidUnit else Inr ())"

definition begin_unit :: "resume_state \<Rightarrow> nat \<Rightarrow> tracker_error + resume_state \<times> bool" where
  "begin_unit s unit =
    and_then (validate_unit s unit) (\<lambda>_.
      if contains (checkpointed s) unit \<or> unit \<in> set (completed_since_checkpoint s) then Inr (s, False)
      else
        let (fresh, active') = btree_insert unit (active s) in
        if \<not> fresh then Inl UnitAlreadyActive
        else Inr (s\<lparr>active := active'\<rparr>, True))"

definition complete_unit :: "resume_state \<Rightarrow> nat \<Rightarrow> tracker_error + resume_state \<times> bool" where
  "complete_unit s unit =
    and_then (validate_unit s unit) (\<lambda>_.
      if unit \<notin> set (active s) then Inl UnitNotActive
      else if checkpoint_window s \<le> length (completed_since_checkpoint s) then Inl CheckpointRequired
      else
        let s' = s\<lparr>active := btree_remove unit (active s),
                   completed_since_checkpoint := snd (btree_insert unit (completed_since_checkpoint s))\<rparr> in
        Inr (s', checkpoint_window s' \<le> length (completed_since_checkpoint s')))"

definition prepare_checkpoint :: "resume_state \<Rightarrow> checkpoint_plan" where
  "prepare_checkpoint s =
    (let pending = extend_units [] (completed_since_checkpoint s) in
     \<lparr>plan_identity = rs_identity s, plan_generation = checkpoint_generation s,
      plan_total_units = total_units s, plan_baseline = checkpointed s,
      plan_checkpointed = union_runs (checkpointed s) pending, plan_pending = pending\<rparr>)"

definition commit_checkpoint ::
  "resume_state \<Rightarrow> checkpoint_plan \<Rightarrow> unit_runs \<Rightarrow> tracker_error + resume_state" where
  "commit_checkpoint s plan durable =
    (if plan_identity plan \<noteq> rs_identity s \<or>
        plan_generation plan \<noteq> checkpoint_generation s \<or>
        plan_total_units plan \<noteq> total_units s \<or>
        plan_baseline plan \<noteq> checkpointed s \<or>
        (\<exists>unit \<in> set (units (plan_pending plan)). unit \<notin> set (completed_since_checkpoint s))
     then Inl StaleCheckpointPlan
     else
       and_then (validate_durable (total_units s) durable) (\<lambda>_.
       if difference (plan_checkpointed plan) durable \<noteq> [] then Inl InvalidCheckpoint
       else
         and_then (ok_or (checked_add (checkpoint_generation s) 1) CheckpointGenerationExhausted)
           (\<lambda>next_generation.
             Inr (s\<lparr>completed_since_checkpoint :=
                      filter (\<lambda>unit. \<not> contains durable unit) (completed_since_checkpoint s),
                    active := filter (\<lambda>unit. \<not> contains durable unit) (active s),
                    checkpointed := durable,
                    checkpoint_generation := next_generation\<rparr>))))"

definition retransmission_units_after_crash :: "resume_state \<Rightarrow> nat" where
  "retransmission_units_after_crash s =
    saturating_add (length (completed_since_checkpoint s)) (length (active s))"

definition retransmission_bound :: "resume_state \<Rightarrow> nat" where
  "retransmission_bound s = saturating_add (checkpoint_window s) (length (active s))"

definition is_checkpointed :: "resume_state \<Rightarrow> nat \<Rightarrow> bool" where
  "is_checkpointed s unit = contains (checkpointed s) unit"

definition missing_units :: "resume_state \<Rightarrow> nat list" where
  "missing_units s = missing (checkpointed s) (total_units s)"

section \<open>Sequences of operations\<close>

text \<open>A unit set reaches the tracker only through the unit-set operations, which keep its
  invariant, and a plan only through \<open>prepare_checkpoint\<close>; a commit of anything else is not an
  event of the program.\<close>

definition plan_ok :: "checkpoint_plan \<Rightarrow> bool" where
  "plan_ok plan \<longleftrightarrow> runs_ok (plan_baseline plan) \<and> runs_ok (plan_checkpointed plan) \<and>
     runs_ok (plan_pending plan) \<and>
     unit_set (plan_checkpointed plan) = unit_set (plan_baseline plan) \<union> unit_set (plan_pending plan)"

datatype tracker_op =
    BeginUnit nat
  | CompleteUnit nat
  | CommitCheckpoint checkpoint_plan unit_runs

fun tracker_step :: "resume_state \<Rightarrow> tracker_op \<Rightarrow> resume_state" where
  "tracker_step s (BeginUnit u) = (case begin_unit s u of Inl _ \<Rightarrow> s | Inr (s', _) \<Rightarrow> s')"
| "tracker_step s (CompleteUnit u) = (case complete_unit s u of Inl _ \<Rightarrow> s | Inr (s', _) \<Rightarrow> s')"
| "tracker_step s (CommitCheckpoint plan durable) =
    (if plan_ok plan \<and> runs_ok durable then
       (case commit_checkpoint s plan durable of Inl _ \<Rightarrow> s | Inr s' \<Rightarrow> s')
     else s)"

text \<open>The units that need not be sent again while this process lives.\<close>

definition finished_units :: "resume_state \<Rightarrow> nat set" where
  "finished_units s = unit_set (checkpointed s) \<union> set (completed_since_checkpoint s)"

definition tracker_inv :: "resume_state \<Rightarrow> bool" where
  "tracker_inv s \<longleftrightarrow>
     runs_ok (checkpointed s) \<and> unit_set (checkpointed s) \<subseteq> {..<total_units s} \<and>
     sorted_wrt (<) (completed_since_checkpoint s) \<and> sorted_wrt (<) (active s) \<and>
     set (completed_since_checkpoint s) \<subseteq> {..<total_units s} \<and> set (active s) \<subseteq> {..<total_units s} \<and>
     finished_units s \<inter> set (active s) = {} \<and>
     unit_set (checkpointed s) \<inter> set (completed_since_checkpoint s) = {} \<and>
     length (completed_since_checkpoint s) \<le> checkpoint_window s \<and>
     0 < checkpoint_window s \<and> checkpoint_window s \<le> total_units s \<and> total_units s \<le> u64_max"

lemma validate_durable_iff:
  assumes "runs_ok runs"
  shows "validate_durable n runs = Inr () \<longleftrightarrow> unit_set runs \<subseteq> {..<n}"
proof (cases "unit_set runs = {}")
  case True
  then show ?thesis using max_unit_Max [OF assms] by (simp add: validate_durable_def)
next
  case False
  then have "Max (unit_set runs) < n \<longleftrightarrow> unit_set runs \<subseteq> {..<n}"
    by (subst Max_less_iff) auto
  moreover have "validate_durable n runs = Inr () \<longleftrightarrow> Max (unit_set runs) < n"
    using False max_unit_Max [OF assms] by (simp add: validate_durable_def not_le)
  ultimately show ?thesis by blast
qed

lemma new_resume_state_inv:
  assumes "new_resume_state i n w runs = Inr s" "runs_ok runs" "n \<le> u64_max"
  shows "tracker_inv s"
  using assms validate_durable_iff [OF assms(2), of n]
  by (auto simp: new_resume_state_def validate_checkpoint_window_def tracker_inv_def finished_units_def)

lemma begin_unit_correct:
  assumes "tracker_inv s" "begin_unit s u = Inr (s', b)"
  shows "tracker_inv s' \<and> finished_units s' = finished_units s \<and> u < total_units s \<and>
    (if b then set (active s') = insert u (set (active s)) \<and> u \<notin> finished_units s \<and> u \<notin> set (active s)
     else s' = s \<and> u \<in> finished_units s)"
proof -
  have mem: "contains (checkpointed s) u \<longleftrightarrow> u \<in> unit_set (checkpointed s)"
    using assms(1) by (simp add: tracker_inv_def ur.member_law)
  show ?thesis
  proof (cases "u \<in> finished_units s")
    case True
    with assms mem show ?thesis
      by (auto simp: begin_unit_def validate_unit_def finished_units_def)
  next
    case False
    with assms mem have u: "u < total_units s" "u \<notin> set (active s)" "b"
      and s': "s' = s\<lparr>active := snd (btree_insert u (active s))\<rparr>"
      by (auto simp: begin_unit_def validate_unit_def finished_units_def btree_insert_def split: if_splits)
    show ?thesis
      using assms(1) u False btree_insert_sorted [of "active s" u]
      by (auto simp: tracker_inv_def finished_units_def s')
  qed
qed

lemma complete_unit_correct:
  assumes "tracker_inv s" "complete_unit s u = Inr (s', full)"
  shows "tracker_inv s' \<and> finished_units s' = insert u (finished_units s) \<and>
    u \<in> set (active s) \<and> set (active s') = set (active s) - {u} \<and>
    (full \<longleftrightarrow> length (completed_since_checkpoint s') = checkpoint_window s')"
proof -
  let ?done = "snd (btree_insert u (completed_since_checkpoint s))"
  from assms(2) have u: "u \<in> set (active s)" and room: "length (completed_since_checkpoint s) < checkpoint_window s"
    and s': "s' = s\<lparr>active := btree_remove u (active s), completed_since_checkpoint := ?done\<rparr>"
    and full: "full \<longleftrightarrow> checkpoint_window s' \<le> length (completed_since_checkpoint s')"
    by (auto simp: complete_unit_def Let_def)
  have srt: "sorted_wrt (<) (completed_since_checkpoint s)" "sorted_wrt (<) (active s)"
    and dis: "finished_units s \<inter> set (active s) = {}"
    using assms(1) by (simp_all add: tracker_inv_def)
  have "length ?done \<le> Suc (length (completed_since_checkpoint s))"
    by (simp add: btree_insert_def)
  with room have len: "length ?done \<le> checkpoint_window s" by simp
  have "tracker_inv s'"
    using assms(1) u len btree_insert_sorted [OF srt(1), of u] btree_remove_sorted [OF srt(2), of u] dis
    by (auto simp: tracker_inv_def s' finished_units_def)
  then show ?thesis
    using u full len by (auto simp: s' finished_units_def)
qed

lemma prepare_checkpoint_ok:
  assumes "tracker_inv s"
  shows "plan_ok (prepare_checkpoint s) \<and> unit_set (plan_checkpointed (prepare_checkpoint s)) = finished_units s \<and>
    unit_set (plan_pending (prepare_checkpoint s)) = set (completed_since_checkpoint s)"
proof -
  have fit: "u \<le> MAX_UNIT" if "u \<in> set (completed_since_checkpoint s)" for u
    using assms that unfolding tracker_inv_def MAX_UNIT_iff by auto
  have ok: "runs_ok (checkpointed s)" using assms by (simp add: tracker_inv_def)
  have "{u \<in> set (completed_since_checkpoint s). u \<le> MAX_UNIT} = set (completed_since_checkpoint s)"
    using fit by auto
  then show ?thesis
    using ur.add_all [of "[]" "completed_since_checkpoint s"] ur.join_all [OF ok, of "completed_since_checkpoint s"] ok
    by (simp add: plan_ok_def prepare_checkpoint_def extend_units_def finished_units_def Let_def)
qed

lemma commit_checkpoint_correct:
  assumes "tracker_inv s" "plan_ok plan" "runs_ok durable" "commit_checkpoint s plan durable = Inr s'"
  shows "tracker_inv s' \<and> finished_units s \<subseteq> finished_units s' \<and>
    unit_set (plan_checkpointed plan) \<subseteq> unit_set (checkpointed s') \<and> checkpointed s' = durable \<and>
    set (completed_since_checkpoint s') = set (completed_since_checkpoint s) - unit_set durable \<and>
    set (active s') = set (active s) - unit_set durable \<and>
    checkpoint_generation s' = checkpoint_generation s + 1"
proof -
  have mem: "contains durable u \<longleftrightarrow> u \<in> unit_set durable" for u
    using assms(3) by (rule ur.member_law)
  from assms(4) have base: "plan_baseline plan = checkpointed s"
    and dur: "validate_durable (total_units s) durable = Inr ()"
    and dif: "difference (plan_checkpointed plan) durable = []"
    and s': "s' = s\<lparr>completed_since_checkpoint := filter (\<lambda>u. u \<notin> unit_set durable) (completed_since_checkpoint s),
         active := filter (\<lambda>u. u \<notin> unit_set durable) (active s), checkpointed := durable,
         checkpoint_generation := checkpoint_generation s + 1\<rparr>"
    by (auto simp: commit_checkpoint_def mem split: if_splits)
  have sub: "unit_set (plan_checkpointed plan) \<subseteq> unit_set durable"
    using dif ur.subset_iff_minus [of "plan_checkpointed plan" durable] assms(2,3) by (simp add: plan_ok_def)
  have "unit_set (checkpointed s) \<subseteq> unit_set durable"
    using sub assms(2) base by (simp add: plan_ok_def)
  moreover have "unit_set durable \<subseteq> {..<total_units s}"
    using dur validate_durable_iff [OF assms(3)] by simp
  moreover have "length (filter (\<lambda>u. u \<notin> unit_set durable) (completed_since_checkpoint s)) \<le> checkpoint_window s"
    by (rule le_trans [OF length_filter_le]) (use assms(1) in \<open>simp add: tracker_inv_def\<close>)
  ultimately show ?thesis
    using assms(1,3) sub
    by (auto simp: tracker_inv_def s' finished_units_def sorted_wrt_filter)
qed

lemma tracker_step_correct:
  assumes "tracker_inv s"
  shows "tracker_inv (tracker_step s op) \<and> finished_units s \<subseteq> finished_units (tracker_step s op)"
proof (cases op)
  case (BeginUnit u)
  with assms show ?thesis
    by (auto split: sum.split dest: begin_unit_correct)
next
  case (CompleteUnit u)
  with assms show ?thesis
    by (auto split: sum.split dest: complete_unit_correct)
next
  case (CommitCheckpoint plan durable)
  with assms show ?thesis
    using commit_checkpoint_correct [OF assms, of plan durable] by (auto split: sum.split)
qed

interpretation tracker: monotone_machine tracker_step tracker_inv "\<lambda>s s'. finished_units s \<subseteq> finished_units s'"
  by unfold_locales (use tracker_step_correct in blast)+

section \<open>Properties\<close>

lemma tracker_lengths:
  assumes "tracker_inv s"
  shows "retransmission_units_after_crash s = card (set (completed_since_checkpoint s) \<union> set (active s)) \<and>
    retransmission_units_after_crash s \<le> retransmission_bound s"
proof -
  have len: "length (completed_since_checkpoint s) = card (set (completed_since_checkpoint s))"
    "length (active s) = card (set (active s))"
    using assms by (simp_all add: tracker_inv_def btree_length)
  have dis: "set (completed_since_checkpoint s) \<inter> set (active s) = {}"
    using assms by (auto simp: tracker_inv_def finished_units_def)
  have sum: "length (completed_since_checkpoint s) + length (active s) =
      card (set (completed_since_checkpoint s) \<union> set (active s))"
    using dis by (simp add: len card_Un_disjoint)
  have "card (set (completed_since_checkpoint s) \<union> set (active s)) \<le> card {..<total_units s}"
    using assms by (intro card_mono) (auto simp: tracker_inv_def)
  then have "length (completed_since_checkpoint s) + length (active s) \<le> u64_max"
    using sum assms by (simp add: tracker_inv_def)
  moreover have "length (completed_since_checkpoint s) \<le> checkpoint_window s"
    using assms by (simp add: tracker_inv_def)
  ultimately show ?thesis
    by (simp add: retransmission_units_after_crash_def retransmission_bound_def sum)
      (simp add: saturating_add_def sum [symmetric])
qed

text \<open>C9. From a freshly opened state, whatever units are begun, completed and checkpointed and in
  whatever order, refused operations included: no unit is at once durable, completed and in
  flight; the work a crash would repeat is exactly the completed and in-flight units, never more
  than the advertised bound (so neither saturating sum saturates); the missing units are exactly
  those not durable; and a finished unit is never forgotten by any later sequence.\<close>

theorem resume_accounting:
  assumes "new_resume_state identity n w runs = Inr s0" "runs_ok runs" "n \<le> u64_max"
  shows "let s = foldl tracker_step s0 ops in
    finished_units s \<inter> set (active s) = {} \<and>
    unit_set (checkpointed s) \<inter> set (completed_since_checkpoint s) = {} \<and>
    retransmission_units_after_crash s = card (set (completed_since_checkpoint s) \<union> set (active s)) \<and>
    retransmission_units_after_crash s \<le> retransmission_bound s \<and>
    missing_units s = filter (\<lambda>u. u \<notin> unit_set (checkpointed s)) [0..<total_units s] \<and>
    finished_units s \<subseteq> finished_units (foldl tracker_step s ops')"
proof -
  let ?s = "foldl tracker_step s0 ops"
  have inv: "tracker_inv ?s"
    using new_resume_state_inv [OF assms] by (rule tracker.run_inv)
  then have "runs_ok (checkpointed ?s)" by (simp add: tracker_inv_def)
  then show ?thesis
    using inv tracker_lengths [OF inv] tracker.run_above [OF inv, of ops'] missing_eq
    by (simp add: Let_def tracker_inv_def missing_units_def)
qed

theorem resume_accounting_witness:
  "\<exists>s0. new_resume_state \<lparr>discriminator = 1, digest = [], object_length = 4\<rparr> 4 2 [(0, 1)] = Inr s0 \<and>
     (let s = foldl tracker_step s0 [BeginUnit 1, CompleteUnit 1, BeginUnit 2] in
       retransmission_units_after_crash s \<le> retransmission_bound s)"
proof -
  have ok: "runs_ok [(0, 1)]" "(4 :: nat) \<le> u64_max" by (simp_all add: u64_max_def)
  obtain s0 where "new_resume_state \<lparr>discriminator = 1, digest = [], object_length = 4\<rparr> 4 2 [(0, 1)] = Inr s0"
    using validate_durable_iff [OF ok(1), of 4] by (auto simp: new_resume_state_def validate_checkpoint_window_def)
  with resume_accounting [OF this ok, of "[BeginUnit 1, CompleteUnit 1, BeginUnit 2]" "[]"]
  show ?thesis by (auto simp: Let_def)
qed

lemma quiet_step:
  assumes "\<And>plan durable. op \<noteq> CommitCheckpoint plan durable"
  shows "rs_identity (tracker_step s op) = rs_identity s \<and> total_units (tracker_step s op) = total_units s \<and>
    checkpointed (tracker_step s op) = checkpointed s \<and>
    checkpoint_generation (tracker_step s op) = checkpoint_generation s \<and>
    set (completed_since_checkpoint s) \<subseteq> set (completed_since_checkpoint (tracker_step s op))"
proof (cases op)
  case (BeginUnit u)
  then show ?thesis
    by (auto simp: begin_unit_def Let_def btree_insert_def split: sum.split if_splits)
next
  case (CompleteUnit u)
  then show ?thesis
    by (auto simp: complete_unit_def Let_def split: sum.split if_splits)
qed (use assms in blast)

lemma quiet_run:
  assumes "\<forall>op \<in> set ops. \<forall>plan durable. op \<noteq> CommitCheckpoint plan durable"
  shows "rs_identity (foldl tracker_step s ops) = rs_identity s \<and> total_units (foldl tracker_step s ops) = total_units s \<and>
    checkpointed (foldl tracker_step s ops) = checkpointed s \<and>
    checkpoint_generation (foldl tracker_step s ops) = checkpoint_generation s \<and>
    set (completed_since_checkpoint s) \<subseteq> set (completed_since_checkpoint (foldl tracker_step s ops))"
  using assms
proof (induction ops arbitrary: s)
  case (Cons op ops)
  have "\<And>plan durable. op \<noteq> CommitCheckpoint plan durable" using Cons.prems by simp
  from quiet_step [OF this, of s] Cons.IH [of "tracker_step s op"] Cons.prems show ?case
    by (simp del: tracker_step.simps) blast
qed simp

text \<open>C29. The two-step checkpoint hands over. A plan prepared now can be committed after any number
  of units were begun or completed meanwhile, with any durable set that contains the plan and lies
  within the object, unless the generation counter is exhausted: the commit is accepted, every unit
  finished when the plan was prepared is durable afterwards, work completed since stays pending
  unless it became durable too, and every plan of the old generation is refused from then on.\<close>

theorem checkpoint_handoff:
  assumes "tracker_inv s" "\<forall>op \<in> set ops. \<forall>plan durable. op \<noteq> CommitCheckpoint plan durable"
    and "runs_ok durable" "finished_units s \<subseteq> unit_set durable" "unit_set durable \<subseteq> {..<total_units s}"
    and "checkpoint_generation s < u64_max"
  shows "\<exists>s'. commit_checkpoint (foldl tracker_step s ops) (prepare_checkpoint s) durable = Inr s' \<and>
    (\<forall>u \<in> finished_units s. is_checkpointed s' u) \<and>
    set (completed_since_checkpoint s') =
      set (completed_since_checkpoint (foldl tracker_step s ops)) - unit_set durable \<and>
    (\<forall>plan other. plan_generation plan = checkpoint_generation s \<longrightarrow>
      commit_checkpoint s' plan other = Inl StaleCheckpointPlan)"
proof -
  let ?t = "foldl tracker_step s ops" and ?p = "prepare_checkpoint s"
  have inv: "tracker_inv ?t" using assms(1) by (rule tracker.run_inv)
  note q = quiet_run [OF assms(2), of s]
  note p = prepare_checkpoint_ok [OF assms(1)]
  have "set (units (plan_pending ?p)) \<subseteq> set (completed_since_checkpoint ?t)"
    using units_sorted [of "plan_pending ?p"] p q by (auto simp: plan_ok_def)
  moreover have "validate_durable (total_units ?t) durable = Inr ()"
    using validate_durable_iff [OF assms(3)] assms(5) q by simp
  moreover have "difference (plan_checkpointed ?p) durable = []"
    using ur.subset_iff_minus [of "plan_checkpointed ?p" durable] p assms(3,4) by (simp add: plan_ok_def)
  ultimately obtain s' where s': "commit_checkpoint ?t ?p durable = Inr s'"
    using q assms(6) by (auto simp: commit_checkpoint_def prepare_checkpoint_def Let_def checked_add_def)
  note c = commit_checkpoint_correct [OF inv conjunct1 [OF p] assms(3) s']
  have "is_checkpointed s' u" if "u \<in> finished_units s" for u
    using c that assms(3,4) ur.member_law [of durable u] by (auto simp: is_checkpointed_def)
  moreover have "commit_checkpoint s' plan other = Inl StaleCheckpointPlan"
    if "plan_generation plan = checkpoint_generation s" for plan other
    using c q that by (simp add: commit_checkpoint_def)
  ultimately show ?thesis using s' c by blast
qed

theorem checkpoint_handoff_witness:
  "\<exists>s s'. tracker_inv s \<and>
     commit_checkpoint (foldl tracker_step s [BeginUnit 3]) (prepare_checkpoint s) [(0, 2)] = Inr s' \<and>
     is_checkpointed s' 1"
proof -
  define s where "s = \<lparr>rs_identity = \<lparr>discriminator = 1, digest = [], object_length = 4\<rparr>, total_units = 4,
    checkpoint_window = 2, checkpointed = [(0, 1)], completed_since_checkpoint = [1], active = [],
    checkpoint_generation = 0\<rparr>"
  have inv: "tracker_inv s" by (auto simp: tracker_inv_def s_def finished_units_def u64_max_def)
  have fin: "finished_units s = {0, 1}" by (auto simp: finished_units_def s_def)
  have "unit_set [(0, 2)] = {0, 1}" by auto
  then have d: "runs_ok [(0, 2)]" "finished_units s \<subseteq> unit_set [(0, 2)]" "unit_set [(0, 2)] \<subseteq> {..<total_units s}"
    "checkpoint_generation s < u64_max"
    using fin by (simp_all add: s_def u64_max_def del: unit_set_simps)
  from checkpoint_handoff [OF inv _ d, of "[BeginUnit 3]"] fin inv show ?thesis by auto
qed

end
