(* ===== verification/Merkle_Log.thy ===== *)
theory Merkle_Log
  imports Vot_Prelude
begin

text \<open>
  The transparency log (\<open>src/crates/vot-log/src/\<close>, modules \<open>merkle\<close> and \<open>proof\<close>): the
  RFC 6962 tree head, inclusion and consistency proofs, and the iterative verifiers that
  recompute heads from index bits. SHA-256 is code outside the repository: the hash \<open>H\<close> is an
  argument, and all that is asked of it is its output length. What a forged proof would need is
  stated as a collision between two strings that were actually hashed.
\<close>

unbundle bit_operations_syntax

type_synonym hash_fun = "bytes \<Rightarrow> bytes"

datatype log_error = OutOfRange | ProofInvalid | LogMalformed | Unwitnessed | LogFull

definition LEAF_PREFIX :: byte where "LEAF_PREFIX = 0x00"
definition NODE_PREFIX :: byte where "NODE_PREFIX = 0x01"
definition MAX_ENTRIES :: nat where "MAX_ENTRIES = 2 ^ 32"

definition leaf_hash :: "hash_fun \<Rightarrow> bytes \<Rightarrow> bytes" where
  "leaf_hash H entry = H (LEAF_PREFIX # entry)"

definition node_hash :: "hash_fun \<Rightarrow> bytes \<Rightarrow> bytes \<Rightarrow> bytes" where
  "node_hash H left right = H (NODE_PREFIX # left @ right)"

section \<open>Bits of a usize\<close>

fun bit_length :: "nat \<Rightarrow> nat" where
  "bit_length n = (if n = 0 then 0 else Suc (bit_length (n div 2)))"

declare bit_length.simps [simp del]

definition leading_zeros :: "nat \<Rightarrow> nat" where
  "leading_zeros n = 64 - bit_length n"

fun count_ones :: "nat \<Rightarrow> nat" where
  "count_ones n = (if n = 0 then 0 else n mod 2 + count_ones (n div 2))"

declare count_ones.simps [simp del]

text \<open>The largest power of two strictly less than \<open>n\<close>, for \<open>n > 1\<close>.\<close>

definition split :: "nat \<Rightarrow> nat" where
  "split n = 2 ^ (64 - 1 - leading_zeros (n - 1))"

lemma bit_length_0 [simp]: "bit_length 0 = 0"
  by (simp add: bit_length.simps)

lemma bit_length_half: "0 < n \<Longrightarrow> bit_length n = Suc (bit_length (n div 2))"
  by (subst bit_length.simps) simp

lemma bit_length_less: "n < 2 ^ bit_length n"
proof (induction n rule: bit_length.induct)
  case (1 n)
  show ?case
  proof (cases "n = 0")
    case False
    with 1 have "n div 2 < 2 ^ bit_length (n div 2)" by simp
    then have "n < 2 * 2 ^ bit_length (n div 2)" by linarith
    with False show ?thesis by (simp add: bit_length_half)
  qed simp
qed

lemma bit_length_ge: "0 < n \<Longrightarrow> 2 ^ (bit_length n - 1) \<le> n"
proof (induction n rule: bit_length.induct)
  case (1 n)
  show ?case
  proof (cases "n div 2 = 0")
    case True
    with 1(2) show ?thesis by (simp add: bit_length_half)
  next
    case False
    with 1 have ih: "2 ^ (bit_length (n div 2) - 1) \<le> n div 2" by simp
    have "(2 :: nat) ^ bit_length (n div 2) = 2 * 2 ^ (bit_length (n div 2) - 1)"
      using False bit_length_half [of "n div 2"] by simp
    with ih 1(2) show ?thesis by (simp add: bit_length_half)
  qed
qed

lemma bit_length_pos [simp]: "0 < bit_length n \<longleftrightarrow> 0 < n"
  by (cases "n = 0") (simp_all add: bit_length_half)

lemma bit_length_zero [simp]: "bit_length n = 0 \<longleftrightarrow> n = 0"
  by (cases "n = 0") (simp_all add: bit_length_half)

lemma bit_length_eqI:
  assumes "2 ^ k \<le> n" "n < 2 ^ Suc k"
  shows "bit_length n = Suc k"
proof (rule antisym)
  have n: "0 < n" using assms(1) by (metis less_le_trans zero_less_numeral zero_less_power)
  show "bit_length n \<le> Suc k"
  proof (rule ccontr)
    assume "\<not> bit_length n \<le> Suc k"
    then have "(2 :: nat) ^ Suc k \<le> 2 ^ (bit_length n - 1)" by (intro power_increasing) simp_all
    with bit_length_ge [OF n] assms(2) show False by linarith
  qed
  show "Suc k \<le> bit_length n"
  proof (rule ccontr)
    assume "\<not> Suc k \<le> bit_length n"
    then have "(2 :: nat) ^ bit_length n \<le> 2 ^ k" by (intro power_increasing) simp_all
    with bit_length_less [of n] assms(1) show False by simp
  qed
qed

lemma bit_length_le: "n < 2 ^ k \<Longrightarrow> bit_length n \<le> k"
proof (rule ccontr)
  assume "n < 2 ^ k" "\<not> bit_length n \<le> k"
  then have "0 < n" by (cases "n = 0") simp_all
  from \<open>\<not> bit_length n \<le> k\<close> have "(2 :: nat) ^ k \<le> 2 ^ (bit_length n - 1)"
    by (intro power_increasing) simp_all
  with bit_length_ge [OF \<open>0 < n\<close>] \<open>n < 2 ^ k\<close> show False by linarith
qed

lemma split_pow:
  assumes "1 < n" "n \<le> 2 ^ 64"
  obtains k where "split n = 2 ^ k" "2 ^ k < n" "n \<le> 2 * 2 ^ k"
proof
  let ?b = "bit_length (n - 1)"
  have b: "0 < ?b" "?b \<le> 64" using assms by (auto intro!: bit_length_le)
  show "split n = 2 ^ (?b - 1)"
    using b by (simp add: split_def leading_zeros_def)
  have "(2 :: nat) ^ (?b - 1) \<le> n - 1" using bit_length_ge [of "n - 1"] assms(1) by simp
  then show "2 ^ (?b - 1) < n" using assms(1) by simp
  have "n - 1 < 2 ^ ?b" by (rule bit_length_less)
  also have "(2 :: nat) ^ ?b = 2 * 2 ^ (?b - 1)" using b(1) by (cases ?b) simp_all
  finally show "n \<le> 2 * 2 ^ (?b - 1)" by simp
qed

lemma split_bounds: "1 < n \<Longrightarrow> 0 < split n \<and> split n < n"
proof -
  assume n: "1 < n"
  show ?thesis
  proof (cases "n \<le> 2 ^ 64")
    case True
    from split_pow [OF n this] show ?thesis by (metis zero_less_numeral zero_less_power)
  next
    case False
    have "split n \<le> 2 ^ 63"
      unfolding split_def by (rule power_increasing) auto
    moreover have "0 < split n" by (simp add: split_def)
    ultimately show ?thesis using False by auto
  qed
qed

lemma split_parts:
  "\<not> n \<le> Suc 0 \<Longrightarrow> min n (split n) < n" "\<not> n \<le> Suc 0 \<Longrightarrow> n - split n < n"
  using split_bounds [of n] by auto

lemma split_parts':
  "xs \<noteq> [] \<Longrightarrow> length xs \<noteq> Suc 0 \<Longrightarrow> min (length xs) (split (length xs)) < length xs"
  "xs \<noteq> [] \<Longrightarrow> length xs \<noteq> Suc 0 \<Longrightarrow> length xs - split (length xs) < length xs"
  using split_bounds [of "length xs"] by (cases xs; auto simp: neq_Nil_conv)+

section \<open>The tree head\<close>

function root_of :: "hash_fun \<Rightarrow> bytes list \<Rightarrow> bytes" where
  "root_of H leaves =
    (if length leaves = 0 then H []
     else if length leaves = 1 then leaves ! 0
     else
       let k = split (length leaves) in
       node_hash H (root_of H (take k leaves)) (root_of H (drop k leaves)))"
  by pat_completeness auto

termination
  by (relation "measure (\<lambda>(H, leaves). length leaves)") (auto simp: split_parts split_parts')

declare root_of.simps [simp del]

section \<open>Proofs and their verification\<close>

function path :: "hash_fun \<Rightarrow> nat \<Rightarrow> bytes list \<Rightarrow> bytes list" where
  "path H index leaves =
    (if length leaves \<le> 1 then []
     else
       let k = split (length leaves) in
       if index < k then path H index (take k leaves) @ [root_of H (drop k leaves)]
       else path H (index - k) (drop k leaves) @ [root_of H (take k leaves)])"
  by pat_completeness auto

termination
  by (relation "measure (\<lambda>(H, index, leaves). length leaves)") (auto simp: split_parts split_parts')

declare path.simps [simp del]

text \<open>\<open>subproof\<close> is only called with \<open>0 < old_size \<le> leaves.len()\<close>, and calls itself so; the second
  branch, where the source would index past the tree, is never reached then.\<close>

function subproof :: "hash_fun \<Rightarrow> nat \<Rightarrow> bytes list \<Rightarrow> bool \<Rightarrow> bytes list" where
  "subproof H old_size leaves is_prefix =
    (if old_size = length leaves then (if is_prefix then [] else [root_of H leaves])
     else if length leaves \<le> 1 then []
     else
       let k = split (length leaves) in
       if old_size \<le> k then subproof H old_size (take k leaves) is_prefix @ [root_of H (drop k leaves)]
       else subproof H (old_size - k) (drop k leaves) False @ [root_of H (take k leaves)])"
  by pat_completeness auto

termination
  by (relation "measure (\<lambda>(H, old_size, leaves, is_prefix). length leaves)") (auto simp: split_parts split_parts')

declare subproof.simps [simp del]

definition decompose :: "nat \<Rightarrow> nat \<Rightarrow> nat \<times> nat" where
  "decompose index size' =
    (let inner = 64 - leading_zeros (index XOR (size' - 1));
         border = count_ones (index div 2 ^ inner) in
     (inner, border))"

fun fold_inner :: "hash_fun \<Rightarrow> nat \<Rightarrow> nat \<Rightarrow> bytes \<Rightarrow> bytes list \<Rightarrow> bytes" where
  "fold_inner H index level computed [] = computed"
| "fold_inner H index level computed (sibling # siblings) =
    fold_inner H index (Suc level)
      (if (index div 2 ^ level) mod 2 = 0 then node_hash H computed sibling
       else node_hash H sibling computed) siblings"

definition fold_border :: "hash_fun \<Rightarrow> bytes \<Rightarrow> bytes list \<Rightarrow> bytes" where
  "fold_border H computed siblings = foldl (\<lambda>computed sibling. node_hash H sibling computed) computed siblings"

definition verify_inclusion ::
  "hash_fun \<Rightarrow> bytes \<Rightarrow> nat \<Rightarrow> nat \<Rightarrow> bytes list \<Rightarrow> bytes \<Rightarrow> log_error + unit" where
  "verify_inclusion H leaf index size' proof' root =
    (if size' = 0 \<or> MAX_ENTRIES < size' \<or> size' \<le> index then Inl OutOfRange
     else
       let (inner, border) = decompose index size' in
       if length proof' \<noteq> inner + border then Inl ProofInvalid
       else
         let computed = fold_inner H index 0 leaf (take inner proof');
             computed = fold_border H computed (drop inner proof') in
         if computed = root then Inr () else Inl ProofInvalid)"

text \<open>The three loops of \<open>verify_consistency\<close>, each bounded by the width of a usize as in the
  source: the walk up to the old tree's right edge, the walk to the top of the old tree, and
  the rest of the way to the new head.\<close>

fun strip_ones :: "nat \<Rightarrow> nat \<Rightarrow> nat \<Rightarrow> nat \<times> nat" where
  "strip_ones 0 node last' = (node, last')"
| "strip_ones (Suc fuel) node last' =
    (if node mod 2 = 0 then (node, last') else strip_ones fuel (node div 2) (last' div 2))"

definition split_first :: "bytes list \<Rightarrow> log_error + bytes \<times> bytes list" where
  "split_first rest = (case rest of [] \<Rightarrow> Inl ProofInvalid | first # tail \<Rightarrow> Inr (first, tail))"

fun climb_old ::
  "hash_fun \<Rightarrow> nat \<Rightarrow> nat \<Rightarrow> nat \<Rightarrow> bytes \<Rightarrow> bytes \<Rightarrow> bytes list \<Rightarrow>
   log_error + nat \<times> nat \<times> bytes \<times> bytes \<times> bytes list" where
  "climb_old H 0 node last' from_old from_new rest = Inr (node, last', from_old, from_new, rest)"
| "climb_old H (Suc fuel) node last' from_old from_new rest =
    (if node = 0 then Inr (node, last', from_old, from_new, rest)
     else if node mod 2 = 1 then
       and_then (split_first rest) (\<lambda>(sibling, tail).
         climb_old H fuel (node div 2) (last' div 2)
           (node_hash H sibling from_old) (node_hash H sibling from_new) tail)
     else if node < last' then
       and_then (split_first rest) (\<lambda>(sibling, tail).
         climb_old H fuel (node div 2) (last' div 2) from_old (node_hash H from_new sibling) tail)
     else climb_old H fuel (node div 2) (last' div 2) from_old from_new rest)"

fun climb_new :: "hash_fun \<Rightarrow> nat \<Rightarrow> nat \<Rightarrow> bytes \<Rightarrow> bytes list \<Rightarrow> log_error + bytes \<times> bytes list" where
  "climb_new H 0 last' from_new rest = Inr (from_new, rest)"
| "climb_new H (Suc fuel) last' from_new rest =
    (if last' = 0 then Inr (from_new, rest)
     else and_then (split_first rest) (\<lambda>(sibling, tail).
       climb_new H fuel (last' div 2) (node_hash H from_new sibling) tail))"

definition verify_consistency ::
  "hash_fun \<Rightarrow> nat \<Rightarrow> bytes \<Rightarrow> nat \<Rightarrow> bytes \<Rightarrow> bytes list \<Rightarrow> log_error + unit" where
  "verify_consistency H old_size old_root new_size new_root proof' =
    (if old_size = 0 \<or> new_size < old_size \<or> MAX_ENTRIES < new_size then Inl OutOfRange
     else if old_size = new_size then
       if proof' = [] \<and> old_root = new_root then Inr () else Inl ProofInvalid
     else
       let (node, last') = strip_ones 64 (old_size - 1) (new_size - 1) in
       and_then
         (if 0 < node then
            and_then (split_first proof') (\<lambda>(first, tail). Inr (first, first, tail))
          else Inr (old_root, old_root, proof'))
         (\<lambda>(from_old, from_new, rest).
       and_then (climb_old H 64 node last' from_old from_new rest) (\<lambda>(node, last', from_old, from_new, rest).
       and_then (climb_new H 64 last' from_new rest) (\<lambda>(from_new, rest).
         if from_old = old_root \<and> from_new = new_root \<and> rest = [] then Inr () else Inl ProofInvalid))))"

section \<open>The log\<close>

record merkle_log =
  leaves :: "bytes list"

definition new_log :: merkle_log where
  "new_log = \<lparr>leaves = []\<rparr>"

definition log_append :: "hash_fun \<Rightarrow> merkle_log \<Rightarrow> bytes \<Rightarrow> log_error + merkle_log \<times> nat" where
  "log_append H l entry =
    (if MAX_ENTRIES \<le> length (leaves l) then Inl LogFull
     else let l' = l\<lparr>leaves := leaves l @ [leaf_hash H entry]\<rparr> in Inr (l', length (leaves l') - 1))"

definition root_at :: "hash_fun \<Rightarrow> merkle_log \<Rightarrow> nat \<Rightarrow> log_error + bytes" where
  "root_at H l size' =
    (if length (leaves l) < size' then Inl OutOfRange else Inr (root_of H (take size' (leaves l))))"

definition log_root :: "hash_fun \<Rightarrow> merkle_log \<Rightarrow> log_error + bytes" where
  "log_root H l = root_at H l (length (leaves l))"

definition inclusion_proof :: "hash_fun \<Rightarrow> merkle_log \<Rightarrow> nat \<Rightarrow> nat \<Rightarrow> log_error + bytes list" where
  "inclusion_proof H l index size' =
    (if length (leaves l) < size' \<or> size' \<le> index then Inl OutOfRange
     else Inr (path H index (take size' (leaves l))))"

definition consistency_proof :: "hash_fun \<Rightarrow> merkle_log \<Rightarrow> nat \<Rightarrow> nat \<Rightarrow> log_error + bytes list" where
  "consistency_proof H l old_size new_size =
    (if old_size = 0 \<or> new_size < old_size \<or> length (leaves l) < new_size then Inl OutOfRange
     else Inr (subproof H old_size (take new_size (leaves l)) True))"

section \<open>Trees by levels\<close>

lemma split_eqI:
  assumes "2 ^ k < n" "n \<le> 2 * 2 ^ k" "n \<le> 2 ^ 64"
  shows "split n = 2 ^ k"
proof -
  have "1 < n" using assms(1) by (metis less_trans_Suc less_one not_less_eq zero_less_numeral zero_less_power linorder_neqE_nat)
  then obtain j where j: "split n = 2 ^ j" "2 ^ j < n" "n \<le> 2 * 2 ^ j"
    using split_pow assms(3) by blast
  have "(2::nat) ^ k < 2 ^ Suc j" "(2::nat) ^ j < 2 ^ Suc k" using assms j by simp_all
  then have "k < Suc j" "j < Suc k" using power_strict_increasing_iff [of "2 :: nat"] by fastforce+
  then show ?thesis using j by simp
qed

lemma split_double:
  assumes "2 < n" "n \<le> 2 ^ 64"
  shows "split n = 2 * split ((n + 1) div 2)"
proof -
  have "1 < (n + 1) div 2" "(n + 1) div 2 \<le> 2 ^ 64" using assms by simp_all
  then obtain j where j: "split ((n + 1) div 2) = 2 ^ j" "2 ^ j < (n + 1) div 2" "(n + 1) div 2 \<le> 2 * 2 ^ j"
    using split_pow by blast
  have "split n = 2 ^ Suc j"
    by (rule split_eqI) (use j assms in simp_all)
  then show ?thesis using j(1) by simp
qed

lemma split_2 [simp]: "split 2 = 1" "split (Suc (Suc 0)) = 1"
  using split_eqI [of 0 2] by (simp_all flip: numeral_2_eq_2)

fun pair_up :: "hash_fun \<Rightarrow> bytes list \<Rightarrow> bytes list" where
  "pair_up H (a # b # xs) = node_hash H a b # pair_up H xs"
| "pair_up H [] = []"
| "pair_up H [x] = [x]"

lemma length_pair_up [simp]: "length (pair_up H xs) = (length xs + 1) div 2"
  by (induction H xs rule: pair_up.induct) auto

lemma take_pair_up: "pair_up H (take (2 * j) xs) = take j (pair_up H xs)"
proof (induction H xs arbitrary: j rule: pair_up.induct)
  case (1 H a b xs)
  show ?case by (cases j) (simp_all add: 1)
next
  case (3 H x)
  show ?case by (cases j) simp_all
qed simp

lemma drop_pair_up: "pair_up H (drop (2 * j) xs) = drop j (pair_up H xs)"
proof (induction H xs arbitrary: j rule: pair_up.induct)
  case (1 H a b xs)
  show ?case by (cases j) (simp_all add: 1)
next
  case (3 H x)
  show ?case by (cases j) simp_all
qed simp

lemma nth_pair_up:
  "i < length xs \<Longrightarrow> pair_up H xs ! (i div 2) =
    (if odd i then node_hash H (xs ! (i - 1)) (xs ! i)
     else if i + 1 < length xs then node_hash H (xs ! i) (xs ! (i + 1)) else xs ! i)"
proof (induction H xs arbitrary: i rule: pair_up.induct)
  case (1 H a b xs)
  consider "i = 0" | "i = 1" | i' where "i = Suc (Suc i')" by (metis One_nat_def not0_implies_Suc)
  then show ?case
    by cases (use 1 in \<open>auto simp: nth_Cons'\<close>)
qed auto

lemma root_of_single [simp]: "root_of H [x] = x" by (simp add: root_of.simps)

lemma root_of_split:
  "1 < length xs \<Longrightarrow> root_of H xs =
    node_hash H (root_of H (take (split (length xs)) xs)) (root_of H (drop (split (length xs)) xs))"
  by (subst root_of.simps) (auto simp: Let_def)

lemma pair_up_short: "length xs \<le> 1 \<Longrightarrow> pair_up H xs = xs"
  by (cases xs rule: list.exhaust) (auto simp: length_Suc_conv le_Suc_eq)

lemma list_1_or_2:
  assumes "0 < length xs" "length xs \<le> 2"
  obtains a where "xs = [a]" | a b where "xs = [a, b]"
  using assms by (auto simp: numeral_2_eq_2 le_Suc_eq length_Suc_conv)

text \<open>For more than two leaves the split is even, so both halves pair up level by level.\<close>

lemma even_split:
  assumes "2 < length xs" "length xs \<le> 2 ^ 64"
  obtains j where "split (length xs) = 2 * j" "0 < j" "2 * j < length xs"
    "split (length (pair_up H xs)) = j" "1 < length (pair_up H xs)"
    "pair_up H (take (2 * j) xs) = take j (pair_up H xs)"
    "pair_up H (drop (2 * j) xs) = drop j (pair_up H xs)"
proof (rule that)
  let ?j = "split ((length xs + 1) div 2)"
  show s: "split (length xs) = 2 * ?j" using split_double assms by simp
  show "1 < length (pair_up H xs)" using assms by simp
  show "0 < ?j" "2 * ?j < length xs" using split_bounds [of "length xs"] assms s by auto
qed (simp_all add: take_pair_up drop_pair_up)

lemma root_of_pair_up:
  "length xs \<le> 2 ^ 64 \<Longrightarrow> root_of H (pair_up H xs) = root_of H xs"
proof (induction xs rule: length_induct)
  case (1 xs)
  show ?case
  proof (cases "2 < length xs")
    case True
    then obtain j where j: "split (length xs) = 2 * j" "0 < j" "2 * j < length xs"
      "split (length (pair_up H xs)) = j" "1 < length (pair_up H xs)"
      "pair_up H (take (2 * j) xs) = take j (pair_up H xs)"
      "pair_up H (drop (2 * j) xs) = drop j (pair_up H xs)"
      using even_split 1(2) by metis
    have "root_of H (take j (pair_up H xs)) = root_of H (take (2 * j) xs)"
      "root_of H (drop j (pair_up H xs)) = root_of H (drop (2 * j) xs)"
      using 1 j by (simp_all flip: j(6,7))
    then show ?thesis using True j by (simp add: root_of_split)
  next
    case False
    then consider "length xs \<le> 1" | a b where "xs = [a, b]"
      using list_1_or_2 [of xs] by (metis One_nat_def le_numeral_extra(4) length_greater_0_conv less_one list.size(3) list.size(4) add_0 not_less zero_le_one)
    then show ?thesis by cases (simp_all add: pair_up_short root_of_split)
  qed
qed


lemma path_short: "length xs \<le> 1 \<Longrightarrow> path H i xs = []"
  by (simp add: path.simps)

lemma path_left: "1 < length xs \<Longrightarrow> i < split (length xs) \<Longrightarrow>
  path H i xs = path H i (take (split (length xs)) xs) @ [root_of H (drop (split (length xs)) xs)]"
  by (subst path.simps) (simp add: Let_def)

lemma path_right: "1 < length xs \<Longrightarrow> split (length xs) \<le> i \<Longrightarrow>
  path H i xs = path H (i - split (length xs)) (drop (split (length xs)) xs) @ [root_of H (take (split (length xs)) xs)]"
  by (subst path.simps) (simp add: Let_def)

definition sibling_of :: "nat \<Rightarrow> bytes list \<Rightarrow> bytes list" where
  "sibling_of i xs =
    (if odd i then [xs ! (i - 1)] else if i + 1 < length xs then [xs ! (i + 1)] else [])"

lemma path_pair_up:
  "\<lbrakk>1 < length xs; length xs \<le> 2 ^ 64; i < length xs\<rbrakk> \<Longrightarrow>
    path H i xs = sibling_of i xs @ path H (i div 2) (pair_up H xs)"
proof (induction xs arbitrary: i rule: length_induct)
  case (1 xs)
  show ?case
  proof (cases "2 < length xs")
    case True
    then obtain j where j: "split (length xs) = 2 * j" "0 < j" "2 * j < length xs"
      "split (length (pair_up H xs)) = j" "1 < length (pair_up H xs)"
      "pair_up H (take (2 * j) xs) = take j (pair_up H xs)"
      "pair_up H (drop (2 * j) xs) = drop j (pair_up H xs)"
      using even_split 1(3) by metis
    have r: "root_of H (take j (pair_up H xs)) = root_of H (take (2 * j) xs)"
      "root_of H (drop j (pair_up H xs)) = root_of H (drop (2 * j) xs)"
      using root_of_pair_up [of "take (2 * j) xs" H] root_of_pair_up [of "drop (2 * j) xs" H] j 1(3)
      by simp_all
    show ?thesis
    proof (cases "i < 2 * j")
      case left: True
      have "path H i (take (2 * j) xs) = sibling_of i (take (2 * j) xs) @ path H (i div 2) (take j (pair_up H xs))"
        using 1(1) [rule_format, of "take (2 * j) xs" i] 1(3) left j(2,3) by (simp flip: j(6))
      moreover have "sibling_of i (take (2 * j) xs) = sibling_of i xs"
        using left j(3) by (auto simp: sibling_of_def elim!: evenE)
      moreover have "i div 2 < j" using left by linarith
      ultimately show ?thesis using left j r True by (simp add: path_left)
    next
      case right: False
      have d: "(i - 2 * j) div 2 = i div 2 - j" "j \<le> i div 2" using right by linarith+
      have "path H (i - 2 * j) (drop (2 * j) xs) =
        sibling_of (i - 2 * j) (drop (2 * j) xs) @ path H (i div 2 - j) (drop j (pair_up H xs))"
      proof (cases "1 < length (drop (2 * j) xs)")
        case True
        then show ?thesis
          using 1(1) [rule_format, of "drop (2 * j) xs" "i - 2 * j"] 1(3,4) right j(2) d by (simp flip: j(7))
      next
        case False
        then have "i = 2 * j" using 1(4) right by simp
        then show ?thesis using False by (simp add: path_short sibling_of_def)
      qed
      moreover have "sibling_of (i - 2 * j) (drop (2 * j) xs) = sibling_of i xs"
      proof -
        have "2 * j + (i - Suc (2 * j)) = i - Suc 0" if "odd i"
          using that right by (auto elim!: oddE)
        then show ?thesis using right 1(4) by (auto simp: sibling_of_def)
      qed
      ultimately show ?thesis using right j r True d by (simp add: path_right)
    qed
  next
    case False
    with 1(2) have "length xs = Suc (Suc 0)" by simp
    then obtain a b where "xs = [a, b]" by (auto simp: length_Suc_conv)
    then show ?thesis
      using 1(4) by (cases "i = 0") (auto simp: path_left path_right path_short sibling_of_def)
  qed
qed


lemma subproof_base: "subproof H (length xs) xs b = (if b then [] else [root_of H xs])"
  by (simp add: subproof.simps)

lemma subproof_left:
  "\<lbrakk>1 < length xs; m \<noteq> length xs; m \<le> split (length xs)\<rbrakk> \<Longrightarrow>
    subproof H m xs b = subproof H m (take (split (length xs)) xs) b @ [root_of H (drop (split (length xs)) xs)]"
  by (subst subproof.simps) (simp add: Let_def)

lemma subproof_right:
  "\<lbrakk>1 < length xs; m \<noteq> length xs; split (length xs) < m\<rbrakk> \<Longrightarrow>
    subproof H m xs b = subproof H (m - split (length xs)) (drop (split (length xs)) xs) False
      @ [root_of H (take (split (length xs)) xs)]"
  by (subst subproof.simps) (simp add: Let_def)

lemma subproof_even:
  "\<lbrakk>0 < m; even m; m \<le> length xs; length xs \<le> 2 ^ 64\<rbrakk> \<Longrightarrow>
    subproof H (m div 2) (pair_up H xs) b = subproof H m xs b"
proof (induction xs arbitrary: m b rule: length_induct)
  case (1 xs)
  show ?case
  proof (cases "m = length xs")
    case True
    then have "m div 2 = length (pair_up H xs)" using 1(3) by auto
    then show ?thesis using True 1(5) by (simp add: subproof_base root_of_pair_up del: length_pair_up)
  next
    case False
    then have n: "2 < length xs" using 1(2-4) by (auto elim!: evenE)
    then obtain j where j: "split (length xs) = 2 * j" "0 < j" "2 * j < length xs"
      "split (length (pair_up H xs)) = j" "1 < length (pair_up H xs)"
      "pair_up H (take (2 * j) xs) = take j (pair_up H xs)"
      "pair_up H (drop (2 * j) xs) = drop j (pair_up H xs)"
      using even_split 1(5) by metis
    have r: "root_of H (take j (pair_up H xs)) = root_of H (take (2 * j) xs)"
      "root_of H (drop j (pair_up H xs)) = root_of H (drop (2 * j) xs)"
      using root_of_pair_up [of "take (2 * j) xs" H] root_of_pair_up [of "drop (2 * j) xs" H] j 1(5)
      by simp_all
    have m: "m div 2 \<noteq> length (pair_up H xs)" using False 1(3,4) by (auto elim!: evenE)
    show ?thesis
    proof (cases "m \<le> 2 * j")
      case True
      moreover have "m div 2 \<le> j" using True by linarith
      moreover have "subproof H (m div 2) (take j (pair_up H xs)) b = subproof H m (take (2 * j) xs) b"
        using 1(1) [rule_format, of "take (2 * j) xs" m b] 1(2-5) True j(2,3) by (simp flip: j(6))
      ultimately show ?thesis using n j(1-5) m r False
        by (simp add: subproof_left del: length_pair_up)
    next
      case right: False
      have d: "(m - 2 * j) div 2 = m div 2 - j" "j < m div 2" using right 1(3) by (auto elim!: evenE)
      have "subproof H (m div 2 - j) (drop j (pair_up H xs)) False = subproof H (m - 2 * j) (drop (2 * j) xs) False"
        using 1(1) [rule_format, of "drop (2 * j) xs" "m - 2 * j" False] 1(2-5) right j(2,3) d
        by (simp flip: j(7))
      then show ?thesis using n j(1-5) m r False right d
        by (simp add: subproof_right del: length_pair_up)
    qed
  qed
qed

lemma subproof_odd:
  "\<lbrakk>odd m; m < length xs \<or> length xs = 1 \<and> m = 1; length xs \<le> 2 ^ 64\<rbrakk> \<Longrightarrow>
    subproof H m xs b = (if m = 1 \<and> b then [] else [xs ! (m - 1)]) @ path H (m - 1) xs"
proof (induction xs arbitrary: m b rule: length_induct)
  case (1 xs)
  show ?case
  proof (cases "length xs = 1")
    case True
    then obtain a where "xs = [a]" by (auto simp: length_Suc_conv)
    then show ?thesis using 1(2,3) subproof_base [of H "[a]" b] by (auto simp: path_short)
  next
    case False
    then have m: "m < length xs" "1 < length xs" "0 < m" using 1(2,3) by (auto elim: oddE)
    obtain k where k: "split (length xs) = 2 ^ k" "2 ^ k < length xs" "length xs \<le> 2 * 2 ^ k"
      using split_pow m(2) 1(4) by blast
    show ?thesis
    proof (cases "m \<le> 2 ^ k")
      case True
      have "m < 2 ^ k \<or> 2 ^ k = (1 :: nat) \<and> m = 1" using True 1(2) m(3) by (cases k) (auto simp: le_less)
      then have "subproof H m (take (2 ^ k) xs) b =
        (if m = 1 \<and> b then [] else [take (2 ^ k) xs ! (m - 1)]) @ path H (m - 1) (take (2 ^ k) xs)"
        using 1(1) [rule_format, of "take (2 ^ k) xs" m b] 1(2,4) k(2) by auto
      then show ?thesis using True m k(1) by (simp add: subproof_left path_left)
    next
      case right: False
      have "k \<noteq> 0" using right m(1) k(3) by (cases k) auto
      have "length xs - 2 ^ k < length xs" "m - 2 ^ k < length xs - 2 ^ k"
        using right m(1) k(2) by (auto intro: diff_less_mono diff_less)
      with \<open>k \<noteq> 0\<close> have "subproof H (m - 2 ^ k) (drop (2 ^ k) xs) False =
        [drop (2 ^ k) xs ! (m - 2 ^ k - 1)] @ path H (m - 2 ^ k - 1) (drop (2 ^ k) xs)"
        using 1(1) [rule_format, of "drop (2 ^ k) xs" "m - 2 ^ k" False] 1(2,4) k(2) right m(1) by auto
      moreover have "m - 2 ^ k - 1 = m - 1 - 2 ^ k" "2 ^ k \<le> m - 1" "m \<noteq> 1" using right by auto
      ultimately show ?thesis using right m k(1,2) by (simp add: subproof_right path_right)
    qed
  qed
qed


section \<open>What is hashed\<close>

function tree_inputs :: "hash_fun \<Rightarrow> bytes list \<Rightarrow> bytes set" where
  "tree_inputs H xs =
    (if length xs \<le> 1 then {}
     else
       let k = split (length xs) in
       insert (NODE_PREFIX # root_of H (take k xs) @ root_of H (drop k xs))
         (tree_inputs H (take k xs) \<union> tree_inputs H (drop k xs)))"
  by pat_completeness auto

termination
  by (relation "measure (\<lambda>(H, leaves). length leaves)") (auto simp: split_parts split_parts')

declare tree_inputs.simps [simp del]

lemma tree_inputs_short: "length xs \<le> 1 \<Longrightarrow> tree_inputs H xs = {}"
  by (simp add: tree_inputs.simps)

lemma tree_inputs_split: "1 < length xs \<Longrightarrow> tree_inputs H xs =
   insert (NODE_PREFIX # root_of H (take (split (length xs)) xs) @ root_of H (drop (split (length xs)) xs))
     (tree_inputs H (take (split (length xs)) xs) \<union> tree_inputs H (drop (split (length xs)) xs))"
  by (subst tree_inputs.simps) (simp add: Let_def)

lemma tree_inputs_pair_up_le: "length xs \<le> 2 ^ 64 \<Longrightarrow> tree_inputs H (pair_up H xs) \<subseteq> tree_inputs H xs"
proof (induction xs rule: length_induct)
  case (1 xs)
  show ?case
  proof (cases "2 < length xs")
    case True
    then obtain j where j: "split (length xs) = 2 * j" "0 < j" "2 * j < length xs"
      "split (length (pair_up H xs)) = j" "1 < length (pair_up H xs)"
      "pair_up H (take (2 * j) xs) = take j (pair_up H xs)"
      "pair_up H (drop (2 * j) xs) = drop j (pair_up H xs)"
      using even_split 1(2) by metis
    have r: "root_of H (take j (pair_up H xs)) = root_of H (take (2 * j) xs)"
      "root_of H (drop j (pair_up H xs)) = root_of H (drop (2 * j) xs)"
      using root_of_pair_up [of "take (2 * j) xs" H] root_of_pair_up [of "drop (2 * j) xs" H] j 1(2)
      by simp_all
    have "tree_inputs H (take j (pair_up H xs)) \<subseteq> tree_inputs H (take (2 * j) xs)"
      "tree_inputs H (drop j (pair_up H xs)) \<subseteq> tree_inputs H (drop (2 * j) xs)"
      using 1 j by (simp_all flip: j(6,7))
    then show ?thesis
      using True j r tree_inputs_split [of xs H] tree_inputs_split [of "pair_up H xs" H]
      by (auto simp del: length_pair_up)
  next
    case False
    then show ?thesis by (simp add: tree_inputs_short)
  qed
qed

lemma tree_inputs_pair:
  "\<lbrakk>length xs \<le> 2 ^ 64; odd i; i < length xs\<rbrakk> \<Longrightarrow>
    NODE_PREFIX # xs ! (i - 1) @ xs ! i \<in> tree_inputs H xs"
proof (induction xs arbitrary: i rule: length_induct)
  case (1 xs)
  show ?case
  proof (cases "2 < length xs")
    case True
    then obtain j where j: "split (length xs) = 2 * j" "0 < j" "2 * j < length xs"
      using even_split 1(2) by metis
    show ?thesis
    proof (cases "i < 2 * j")
      case left: True
      then have "NODE_PREFIX # xs ! (i - 1) @ xs ! i \<in> tree_inputs H (take (2 * j) xs)"
        using 1(1) [rule_format, of "take (2 * j) xs" i] 1(2,3) j by simp
      then show ?thesis using True j tree_inputs_split [of xs H] by simp
    next
      case right: False
      then have i: "2 * j < i" using 1(3) by (auto simp: not_less le_less)
      then have "2 * j + (i - 2 * j - 1) = i - 1" by linarith
      then have "NODE_PREFIX # xs ! (i - 1) @ xs ! i \<in> tree_inputs H (drop (2 * j) xs)"
        using 1(1) [rule_format, of "drop (2 * j) xs" "i - 2 * j"] 1(2-4) j i by simp
      then show ?thesis using True j tree_inputs_split [of xs H] by simp
    qed
  next
    case False
    with 1(3,4) have "length xs = Suc (Suc 0)" "i = 1" by (auto elim!: oddE)
    then show ?thesis using tree_inputs_split [of xs H] by (auto simp: length_Suc_conv)
  qed
qed

section \<open>One level at a time\<close>

text \<open>The walk both verifiers perform, one tree level per step, on the head of the old tree and of
  the new one at once, with the strings it hashes for the new head.\<close>

fun walk :: "hash_fun \<Rightarrow> nat \<Rightarrow> nat \<Rightarrow> bytes \<Rightarrow> bytes \<Rightarrow> bytes list \<Rightarrow> (bytes \<times> bytes) option" where
  "walk H i l fo fn proof' =
    (if l = 0 then if proof' = [] then Some (fo, fn) else None
     else if odd i then (case proof' of [] \<Rightarrow> None
       | s # tail \<Rightarrow> walk H (i div 2) (l div 2) (node_hash H s fo) (node_hash H s fn) tail)
     else if i < l then (case proof' of [] \<Rightarrow> None
       | s # tail \<Rightarrow> walk H (i div 2) (l div 2) fo (node_hash H fn s) tail)
     else walk H (i div 2) (l div 2) fo fn proof')"

declare walk.simps [simp del]

lemma walk_simps:
  "walk H i 0 fo fn proof' = (if proof' = [] then Some (fo, fn) else None)"
  "odd i \<Longrightarrow> 0 < l \<Longrightarrow> walk H i l fo fn (s # tail) = walk H (i div 2) (l div 2) (node_hash H s fo) (node_hash H s fn) tail"
  "even i \<Longrightarrow> i < l \<Longrightarrow> walk H i l fo fn (s # tail) = walk H (i div 2) (l div 2) fo (node_hash H fn s) tail"
  "odd i \<Longrightarrow> 0 < l \<Longrightarrow> walk H i l fo fn [] = None"
  "even i \<Longrightarrow> i < l \<Longrightarrow> walk H i l fo fn [] = None"
  "even i \<Longrightarrow> l \<le> i \<Longrightarrow> 0 < l \<Longrightarrow> walk H i l fo fn proof' = walk H (i div 2) (l div 2) fo fn proof'"
  by (simp_all add: walk.simps [of H i])

fun walk_inputs :: "nat \<Rightarrow> nat \<Rightarrow> hash_fun \<Rightarrow> bytes \<Rightarrow> bytes list \<Rightarrow> bytes set" where
  "walk_inputs i l H fn proof' =
    (if l = 0 then {}
     else if odd i then (case proof' of [] \<Rightarrow> {}
       | s # tail \<Rightarrow> insert (NODE_PREFIX # s @ fn) (walk_inputs (i div 2) (l div 2) H (node_hash H s fn) tail))
     else if i < l then (case proof' of [] \<Rightarrow> {}
       | s # tail \<Rightarrow> insert (NODE_PREFIX # fn @ s) (walk_inputs (i div 2) (l div 2) H (node_hash H fn s) tail))
     else walk_inputs (i div 2) (l div 2) H fn proof')"

declare walk_inputs.simps [simp del]

lemma walk_inputs_simps:
  "odd i \<Longrightarrow> 0 < l \<Longrightarrow> walk_inputs i l H fn (s # tail) =
    insert (NODE_PREFIX # s @ fn) (walk_inputs (i div 2) (l div 2) H (node_hash H s fn) tail)"
  "even i \<Longrightarrow> i < l \<Longrightarrow> walk_inputs i l H fn (s # tail) =
    insert (NODE_PREFIX # fn @ s) (walk_inputs (i div 2) (l div 2) H (node_hash H fn s) tail)"
  "even i \<Longrightarrow> l \<le> i \<Longrightarrow> 0 < l \<Longrightarrow> walk_inputs i l H fn proof' = walk_inputs (i div 2) (l div 2) H fn proof'"
  by (simp_all add: walk_inputs.simps [of i])

lemma walk_complete:
  "\<lbrakk>i < length xs; length xs \<le> 2 ^ 64; length ys = Suc i; take i ys = take i xs\<rbrakk> \<Longrightarrow>
    walk H i (length xs - 1) (ys ! i) (xs ! i) (path H i xs) = Some (root_of H ys, root_of H xs)"
proof (induction xs arbitrary: i ys rule: length_induct)
  case (1 xs)
  show ?case
  proof (cases "length xs = 1")
    case True
    with 1(2,4) have "i = 0" "length ys = Suc 0" by auto
    then show ?thesis using True by (auto simp: length_Suc_conv path_short walk.simps)
  next
    case False
    then have n: "1 < length xs" using 1(2) by linarith
    let ?ys = "pair_up H ys" and ?xs = "pair_up H xs"
    have d: "i div 2 < length ?xs" "length ?ys = Suc (i div 2)" "(length xs - 1) div 2 = length ?xs - 1"
      using n 1(2,4) by auto
    have "take (i div 2) ?ys = take (i div 2) ?xs"
      by (simp flip: take_pair_up) (use 1(5) in \<open>metis min.absorb1 mult.commute div_times_less_eq_dividend take_take\<close>)
    then have IH: "walk H (i div 2) (length ?xs - 1) (?ys ! (i div 2)) (?xs ! (i div 2)) (path H (i div 2) ?xs) =
      Some (root_of H ys, root_of H xs)"
      using 1(1) [rule_format, of ?xs "i div 2" ?ys] d 1(2-4) n by (simp add: root_of_pair_up)
    have ys: "?ys ! (i div 2) = (if odd i then node_hash H (ys ! (i - 1)) (ys ! i) else ys ! i)"
      using nth_pair_up [of i ys H] 1(4) by simp
    have "ys ! (i - 1) = xs ! (i - 1)" if "odd i"
      using arg_cong [OF 1(5), of "\<lambda>zs. zs ! (i - 1)"] that by (auto elim!: oddE)
    note eqs = this [unfolded One_nat_def] ys nth_pair_up [of i xs H, OF 1(2)] path_pair_up [OF n 1(3,2)] sibling_of_def
    consider "odd i" | "even i" "Suc i < length xs" "i < length xs - 1"
      | "even i" "\<not> Suc i < length xs" "length xs - 1 \<le> i"
      using 1(2) by linarith
    then show ?thesis
      using IH n d(3) by cases (simp_all add: eqs walk_simps(2-) del: length_pair_up)
  qed
qed


definition collision :: "hash_fun \<Rightarrow> bytes set \<Rightarrow> bytes set \<Rightarrow> bool" where
  "collision H A B \<longleftrightarrow> (\<exists>a \<in> A. \<exists>b \<in> B. a \<noteq> b \<and> H a = H b)"

lemma collision_mono: "collision H A B \<Longrightarrow> A \<subseteq> A' \<Longrightarrow> B \<subseteq> B' \<Longrightarrow> collision H A' B'"
  by (auto simp: collision_def)

lemma node_hash_match:
  assumes "node_hash H a b = node_hash H c d" "length a = length c"
    "NODE_PREFIX # a @ b \<in> A" "NODE_PREFIX # c @ d \<in> B"
  shows "a = c \<and> b = d \<or> collision H A B"
  using assms unfolding collision_def node_hash_def by (metis append_eq_append_conv list.inject)

lemma pair_up_lengths: "\<forall>x. length (H x) = n \<Longrightarrow> \<forall>x \<in> set xs. length x = n \<Longrightarrow>
  \<forall>x \<in> set (pair_up H xs). length x = n"
  by (induction H xs rule: pair_up.induct) (auto simp: node_hash_def)

lemma pair_up_take_snoc:
  "i < length xs \<Longrightarrow> pair_up H (take i xs @ [y]) =
    take (i div 2) (pair_up H xs) @ [if odd i then node_hash H (xs ! (i - 1)) y else y]"
proof (induction H xs arbitrary: i rule: pair_up.induct)
  case (1 H a b xs)
  consider "i = 0" | "i = 1" | i' where "i = Suc (Suc i')" by (metis One_nat_def not0_implies_Suc)
  then show ?case
    by cases (use 1 in \<open>auto simp: nth_Cons'\<close>)
qed auto

lemma walk_sound:
  assumes H: "\<forall>x. length (H x) = 32"
  shows "\<lbrakk>i < length xs; length xs \<le> 2 ^ 64; \<forall>x \<in> set xs. length x = 32;
    length fn = 32; \<forall>x \<in> set proof'. length x = 32;
    walk H i (length xs - 1) fo fn proof' = Some (r, root_of H xs)\<rbrakk> \<Longrightarrow>
    fn = xs ! i \<and> proof' = path H i xs \<and> r = root_of H (take i xs @ [fo]) \<or>
    collision H (walk_inputs i (length xs - 1) H fn proof') (tree_inputs H xs)"
proof (induction xs arbitrary: i fo fn proof' rule: length_induct)
  case (1 xs)
  show ?case
  proof (cases "length xs = 1")
    case True
    with 1(2,7) show ?thesis by (auto simp: length_Suc_conv path_short walk_simps split: if_splits)
  next
    case False
    then have n: "1 < length xs" using 1(2) by linarith
    let ?xs = "pair_up H xs"
    have d: "i div 2 < length ?xs" "(length xs - 1) div 2 = length ?xs - 1" "length ?xs < length xs"
      using n 1(2) by auto
    have IH: "f = ?xs ! (i div 2) \<and> t = path H (i div 2) ?xs \<and> r = root_of H (take (i div 2) ?xs @ [g]) \<or>
        collision H (walk_inputs (i div 2) (length ?xs - 1) H f t) (tree_inputs H xs)"
      if "walk H (i div 2) (length ?xs - 1) g f t = Some (r, root_of H xs)"
        "length f = 32" "\<forall>x \<in> set t. length x = 32" for f g t
      using 1(1) [rule_format, of ?xs "i div 2" f t g] that d 1(3,4) pair_up_lengths [OF H 1(4)]
        collision_mono [OF _ subset_refl tree_inputs_pair_up_le [OF 1(3)]]
      by (auto simp: root_of_pair_up simp del: length_pair_up)
    note eqs = nth_pair_up [of i xs H, OF 1(2)] path_pair_up [OF n 1(3,2)] sibling_of_def
    have ru: "root_of H (take i xs @ [fo]) =
        root_of H (take (i div 2) ?xs @ [if odd i then node_hash H (xs ! (i - 1)) fo else fo])"
      using root_of_pair_up [of "take i xs @ [fo]" H] 1(2,3) by (simp add: pair_up_take_snoc)
    note w = 1(7) and l = 1(5,6) and len = 1(2,3,4)
    consider "odd i" | "even i" "Suc i < length xs" "i < length xs - 1"
      | "even i" "\<not> Suc i < length xs" "length xs - 1 \<le> i"
      using 1(2) by linarith
    then show ?thesis
    proof cases
      case 1
      then obtain s t where p: "proof' = s # t" using w n by (cases proof') (simp_all add: walk_simps(2-))
      from IH [of "node_hash H s fo" "node_hash H s fn" t] w 1 n l d(2) H
      have "node_hash H s fn = node_hash H (xs ! (i - 1)) (xs ! i) \<and> t = path H (i div 2) ?xs \<and>
          r = root_of H (take (i div 2) ?xs @ [node_hash H s fo]) \<or>
        collision H (walk_inputs i (length xs - 1) H fn proof') (tree_inputs H xs)"
        by (auto simp: p walk_simps(2-) walk_inputs_simps eqs node_hash_def simp del: length_pair_up
            intro: collision_mono)
      then show ?thesis
        using node_hash_match [of H s fn "xs ! (i - 1)" "xs ! i" "walk_inputs i (length xs - 1) H fn proof'" "tree_inputs H xs"]
          tree_inputs_pair [OF len(2) 1 len(1)] ru 1 n l len
        by (auto simp: p walk_inputs_simps eqs)
    next
      case 2
      then obtain s t where p: "proof' = s # t" using w n by (cases proof') (simp_all add: walk_simps(2-))
      from IH [of fo "node_hash H fn s" t] w 2 n l d(2) H
      have "node_hash H fn s = node_hash H (xs ! i) (xs ! Suc i) \<and> t = path H (i div 2) ?xs \<and>
          r = root_of H (take (i div 2) ?xs @ [fo]) \<or>
        collision H (walk_inputs i (length xs - 1) H fn proof') (tree_inputs H xs)"
        by (auto simp: p walk_simps(2-) walk_inputs_simps eqs node_hash_def simp del: length_pair_up
            intro: collision_mono)
      then show ?thesis
        using node_hash_match [of H fn s "xs ! i" "xs ! Suc i" "walk_inputs i (length xs - 1) H fn proof'" "tree_inputs H xs"]
          tree_inputs_pair [OF len(2), of "Suc i"] ru 2 n l len
        by (auto simp: p walk_inputs_simps eqs)
    next
      case 3
      with IH [of fo fn proof'] w n l d(2) show ?thesis
        by (auto simp: walk_simps(2-) walk_inputs_simps eqs ru simp del: length_pair_up)
    qed
  qed
qed

section \<open>The verifiers walk the levels\<close>

lemma xor_half: "((a :: nat) XOR b) div 2 = (a div 2) XOR (b div 2)"
  by (rule bit_eqI) (simp add: bit_xor_iff flip: bit_Suc)

lemma bit_length_xor: "a < 2 ^ k \<Longrightarrow> b < 2 ^ k \<Longrightarrow> bit_length (a XOR b) \<le> k"
proof (induction k arbitrary: a b)
  case (Suc k)
  then have "bit_length (a div 2 XOR b div 2) \<le> k" by (intro Suc.IH) auto
  then show ?case by (cases "a XOR b = 0") (simp_all add: bit_length_half xor_half)
qed simp

lemma decompose_eq:
  "i < 2 ^ 64 \<Longrightarrow> n \<le> 2 ^ 64 \<Longrightarrow> 0 < n \<Longrightarrow>
   decompose i n = (bit_length (i XOR (n - 1)), count_ones (i div 2 ^ bit_length (i XOR (n - 1))))"
  using bit_length_xor [of i 64 "n - 1"] by (simp add: decompose_def leading_zeros_def Let_def)

lemma fold_inner_half: "fold_inner H i (Suc level) computed siblings = fold_inner H (i div 2) level computed siblings"
  by (induction siblings arbitrary: level computed) (simp_all add: div_mult2_eq)

lemma count_ones_0 [simp]: "count_ones 0 = 0" by (simp add: count_ones.simps)

lemma count_ones_half: "count_ones i = i mod 2 + count_ones (i div 2)"
  by (cases "i = 0") (simp_all add: count_ones.simps [of i])

lemma walk_border:
  "map_option snd (walk H i i fo fn proof') =
    (if length proof' = count_ones i then Some (fold_border H fn proof') else None)"
proof (induction i arbitrary: fo fn proof' rule: less_induct)
  case (less i)
  consider "i = 0" | "odd i" "0 < i" | "even i" "0 < i" by (cases "i = 0") auto
  then show ?case
  proof cases
    case 1
    then show ?thesis by (simp add: walk_simps fold_border_def)
  next
    case 2
    then show ?thesis
      using less.IH [of "i div 2"]
      by (cases proof') (auto simp: walk_simps(2-) count_ones_half [of i] fold_border_def odd_iff_mod_2_eq_one)
  next
    case 3
    then show ?thesis using less.IH [of "i div 2"]
      by (auto simp: walk_simps(2-) count_ones_half [of i])
  qed
qed

lemma walk_iter:
  "i \<le> l \<Longrightarrow> map_option snd (walk H i l fo fn proof') =
    (let inner = bit_length (i XOR l) in
     if length proof' = inner + count_ones (i div 2 ^ inner)
     then Some (fold_border H (fold_inner H i 0 fn (take inner proof')) (drop inner proof')) else None)"
proof (induction l arbitrary: i fo fn proof' rule: less_induct)
  case (less l)
  show ?case
  proof (cases "i = l")
    case True
    then show ?thesis by (simp add: walk_border)
  next
    case False
    then have l: "i < l" "0 < l" "i div 2 \<le> l div 2" using less.prems by auto
    have "i XOR l \<noteq> 0"
    proof
      assume "i XOR l = 0"
      then have "bit i n = bit l n" for n using bit_xor_iff [of i l n] by auto
      then show False using False by (auto intro: bit_eqI)
    qed
    then have b: "bit_length (i XOR l) = Suc (bit_length (i div 2 XOR l div 2))"
      by (simp add: bit_length_half xor_half)
    have c: "i div 2 div 2 ^ k = i div 2 ^ Suc k" for k by (simp add: div_mult2_eq)
    show ?thesis
    proof (cases proof')
      case Nil
      then show ?thesis using l by (cases "odd i") (simp_all add: walk_simps(2-) b)
    next
      case (Cons s t)
      then show ?thesis using less.IH [of "l div 2" "i div 2"] l
        by (cases "odd i") (simp_all add: walk_simps(2-) b fold_inner_half c Let_def odd_iff_mod_2_eq_one even_iff_mod_2_eq_zero)
    qed
  qed
qed

lemma verify_inclusion_walk:
  "\<lbrakk>index < size'; size' \<le> MAX_ENTRIES\<rbrakk> \<Longrightarrow>
    verify_inclusion H leaf index size' proof' root' = Inr () \<longleftrightarrow>
    map_option snd (walk H index (size' - 1) fo leaf proof') = Some root'"
  using walk_iter [of index "size' - 1" H fo leaf proof'] decompose_eq [of index size']
  by (auto simp: verify_inclusion_def MAX_ENTRIES_def Let_def split: if_splits)


lemma and_then_split_first:
  "and_then (split_first rest) f = (case rest of [] \<Rightarrow> Inl ProofInvalid | s # t \<Rightarrow> f (s, t))"
  by (simp add: split_first_def split: list.split)

lemma climb_new_walk:
  "last' < 2 ^ f \<Longrightarrow>
    and_then (climb_new H f last' fn rest) (\<lambda>(fn', rest').
      if fo = old_root \<and> fn' = new_root \<and> rest' = [] then Inr () else Inl ProofInvalid) =
    (if walk H 0 last' fo fn rest = Some (old_root, new_root) then Inr () else Inl ProofInvalid)"
proof (induction f arbitrary: last' fn rest)
  case 0
  then show ?case by (simp add: walk_simps)
next
  case (Suc f)
  then have "last' div 2 < 2 ^ f" by auto
  from Suc.IH [OF this] show ?case
    by (cases "last' = 0"; cases rest) (simp_all add: walk_simps and_then_split_first)
qed

lemma climb_old_walk:
  "\<lbrakk>node \<le> last'; last' < 2 ^ f; f \<le> 64\<rbrakk> \<Longrightarrow>
    and_then (climb_old H f node last' fo fn rest) (\<lambda>(node, last', fo, fn, rest).
      and_then (climb_new H 64 last' fn rest) (\<lambda>(fn, rest).
        if fo = old_root \<and> fn = new_root \<and> rest = [] then Inr () else Inl ProofInvalid)) =
    (if walk H node last' fo fn rest = Some (old_root, new_root) then Inr () else Inl ProofInvalid)"
proof (induction f arbitrary: node last' fo fn rest)
  case 0
  then show ?case using climb_new_walk [of last' 64] by simp
next
  case (Suc f)
  have l64: "last' < 2 ^ 64" using Suc.prems(2) power_increasing [OF Suc.prems(3), of "2 :: nat"] by simp
  have l: "node div 2 \<le> last' div 2" "last' div 2 < 2 ^ f" "f \<le> 64" using Suc.prems by auto
  consider "node = 0" | "odd node" | "even node" "0 < node" "node < last'" | "even node" "0 < node" "last' \<le> node"
    by fastforce
  then show ?case
  proof cases
    case 1
    then show ?thesis using climb_new_walk [OF l64] by simp
  next
    case 2
    then have "node \<noteq> 0" "node mod 2 = 1" "0 < last'" using Suc.prems(1) by (auto elim: oddE simp: odd_iff_mod_2_eq_one)
    then show ?thesis using Suc.IH [OF l] 2
      by (cases rest) (simp_all add: walk_simps(2-) and_then_split_first)
  next
    case 3
    then have "node mod 2 = 0" by auto
    then show ?thesis using Suc.IH [OF l] 3
      by (cases rest) (simp_all add: walk_simps(2-) and_then_split_first)
  next
    case 4
    then have "node mod 2 = 0" "0 < last'" using Suc.prems(1) by auto
    then show ?thesis using Suc.IH [OF l] 4
      by (simp add: walk_simps(2-))
  qed
qed

text \<open>The right edge of the old tree, after the loop that strips the levels at which the old
  tree is even: some level of the new tree where the old one ends at an even node, with the same heads
  and the same proof.\<close>

lemma strip_ones_level:
  assumes H: "\<forall>x. length (H x) = 32"
  shows "\<lbrakk>m < length xs; 0 < m; length xs \<le> 2 ^ 64; m \<le> 2 ^ f; \<forall>x \<in> set xs. length x = 32\<rbrakk> \<Longrightarrow>
    \<exists>ys node. strip_ones f (m - 1) (length xs - 1) = (node, length ys - 1) \<and> even node \<and> Suc node < length ys \<and>
      length ys \<le> length xs \<and> (\<forall>x \<in> set ys. length x = 32) \<and> root_of H ys = root_of H xs \<and>
      root_of H (take (Suc node) ys) = root_of H (take m xs) \<and>
      subproof H (Suc node) ys True = subproof H m xs True \<and> tree_inputs H ys \<subseteq> tree_inputs H xs"
proof (induction f arbitrary: m xs)
  case 0
  then have "m = 1" by simp
  then show ?case using 0 by (intro exI [of _ xs] exI [of _ 0]) auto
next
  case (Suc f)
  show ?case
  proof (cases "odd m")
    case True
    then show ?thesis using Suc.prems by (intro exI [of _ xs] exI [of _ "m - 1"]) auto
  next
    case False
    let ?xs = "pair_up H xs"
    have m: "m div 2 < length ?xs" "0 < m div 2" "length ?xs \<le> 2 ^ 64" "m div 2 \<le> 2 ^ f"
      "(m - 1) div 2 = m div 2 - 1" "(length xs - 1) div 2 = length ?xs - 1" "(m - 1) mod 2 \<noteq> 0"
      using False Suc.prems by (auto elim!: evenE) presburger+
    have t: "root_of H (take (m div 2) ?xs) = root_of H (take m xs)"
      using root_of_pair_up [of "take m xs" H] take_pair_up [of H "m div 2" xs] False Suc.prems(1,3) by simp
    have half: "Suc (length xs) div 2 \<le> length xs" using Suc.prems(1) by linarith
    from Suc.IH [OF m(1-4) pair_up_lengths [OF H Suc.prems(5)]] obtain ys node where
      "strip_ones f (m div 2 - 1) (length ?xs - 1) = (node, length ys - 1)" "even node" "Suc node < length ys"
      "length ys \<le> length ?xs" "\<forall>x \<in> set ys. length x = 32" "root_of H ys = root_of H ?xs"
      "root_of H (take (Suc node) ys) = root_of H (take (m div 2) ?xs)"
      "subproof H (Suc node) ys True = subproof H (m div 2) ?xs True" "tree_inputs H ys \<subseteq> tree_inputs H ?xs"
      by blast
    then show ?thesis
      using m(5-7) t half False Suc.prems tree_inputs_pair_up_le [OF Suc.prems(3), of H]
      by (intro exI [of _ ys] exI [of _ node]) (auto simp: root_of_pair_up subproof_even)
  qed
qed


lemma verify_consistency_walk:
  assumes "0 < m" "m < n" "n \<le> MAX_ENTRIES"
    and strip: "strip_ones 64 (m - 1) (n - 1) = (node, last')" "node \<le> last'" "last' < 2 ^ 64"
  shows "verify_consistency H m old_root n new_root proof' = Inr () \<longleftrightarrow>
    (if node = 0 then walk H 0 last' old_root old_root proof' = Some (old_root, new_root)
     else \<exists>s t. proof' = s # t \<and> walk H node last' s s t = Some (old_root, new_root))"
proof -
  have "verify_consistency H m old_root n new_root proof' =
    and_then
      (if 0 < node then and_then (split_first proof') (\<lambda>(first, tail). Inr (first, first, tail))
       else Inr (old_root, old_root, proof'))
      (\<lambda>(fo, fn, rest). if walk H node last' fo fn rest = Some (old_root, new_root) then Inr () else Inl ProofInvalid)"
    using assms climb_old_walk [OF strip(2,3)]
    by (simp add: verify_consistency_def)
  then show ?thesis
    by (auto simp: and_then_split_first split: list.splits if_splits)
qed

definition consistency_inputs :: "hash_fun \<Rightarrow> nat \<Rightarrow> bytes \<Rightarrow> nat \<Rightarrow> bytes list \<Rightarrow> bytes set" where
  "consistency_inputs H old_size old_root new_size proof' =
    (let (node, last') = strip_ones 64 (old_size - 1) (new_size - 1) in
     if node = 0 then walk_inputs 0 last' H old_root proof'
     else case proof' of [] \<Rightarrow> {} | s # t \<Rightarrow> walk_inputs node last' H s t)"

lemma consistency_complete_leaves:
  assumes H: "\<forall>x. length (H x) = 32"
    and m: "0 < m" "m \<le> length xs" "length xs \<le> MAX_ENTRIES" and x: "\<forall>x \<in> set xs. length x = 32"
  shows "verify_consistency H m (root_of H (take m xs)) (length xs) (root_of H xs) (subproof H m xs True) = Inr ()"
proof (cases "m = length xs")
  case True
  then show ?thesis using m by (simp add: verify_consistency_def subproof_base)
next
  case False
  then have lt: "m < length xs" using m by simp
  have le: "length xs \<le> 2 ^ 64" "m \<le> 2 ^ 64" using m by (simp_all add: MAX_ENTRIES_def)
  from strip_ones_level [OF H lt m(1) le x] obtain ys node where
    y: "strip_ones 64 (m - 1) (length xs - 1) = (node, length ys - 1)" "even node" "Suc node < length ys"
      "length ys \<le> length xs" "\<forall>x \<in> set ys. length x = 32" "root_of H ys = root_of H xs"
      "root_of H (take (Suc node) ys) = root_of H (take m xs)"
      "subproof H (Suc node) ys True = subproof H m xs True"
    by blast
  have l: "node \<le> length ys - 1" "length ys - 1 < 2 ^ 64" "node < length ys" "length ys \<le> 2 ^ 64"
    using y(3,4) le by auto
  have "walk H node (length ys - 1) (ys ! node) (ys ! node) (path H node ys) =
      Some (root_of H (take m xs), root_of H xs)"
    using walk_complete [OF l(3,4), of "take (Suc node) ys" H] y(3,6,7) by simp
  moreover have "subproof H m xs True = (if node = 0 then [] else [ys ! node]) @ path H node ys"
    using subproof_odd [of "Suc node" ys H True] y(2,3,8) l(4) by simp
  moreover have "root_of H (take m xs) = ys ! 0" if "node = 0"
    using y(3,7) that by (cases ys) auto
  ultimately show ?thesis
    by (subst verify_consistency_walk [OF m(1) lt m(3) y(1) l(1,2)]) auto
qed

lemma consistency_sound_leaves:
  assumes H: "\<forall>x. length (H x) = 32" and x: "\<forall>x \<in> set xs. length x = 32"
    and p: "length old_root = 32" "\<forall>x \<in> set proof'. length x = 32"
    and v: "verify_consistency H m old_root (length xs) (root_of H xs) proof' = Inr ()"
  shows "old_root = root_of H (take m xs) \<and> proof' = subproof H m xs True \<or>
    collision H (consistency_inputs H m old_root (length xs) proof') (tree_inputs H xs)"
proof (cases "m = length xs")
  case True
  then show ?thesis using v by (auto simp: verify_consistency_def subproof_base split: if_splits)
next
  case False
  then have m: "0 < m" "m < length xs" "length xs \<le> MAX_ENTRIES"
    using v by (auto simp: verify_consistency_def split: if_splits)
  have le: "length xs \<le> 2 ^ 64" "m \<le> 2 ^ 64" using m by (simp_all add: MAX_ENTRIES_def)
  from strip_ones_level [OF H m(2,1) le x] obtain ys node where
    y: "strip_ones 64 (m - 1) (length xs - 1) = (node, length ys - 1)" "even node" "Suc node < length ys"
      "length ys \<le> length xs" "\<forall>x \<in> set ys. length x = 32" "root_of H ys = root_of H xs"
      "root_of H (take (Suc node) ys) = root_of H (take m xs)"
      "subproof H (Suc node) ys True = subproof H m xs True" "tree_inputs H ys \<subseteq> tree_inputs H xs"
    by blast
  have l: "node \<le> length ys - 1" "length ys - 1 < 2 ^ 64" "node < length ys" "length ys \<le> 2 ^ 64"
    using y(3,4) le by auto
  define s t where "s = (if node = 0 then old_root else hd proof')"
    and "t = (if node = 0 then proof' else tl proof')"
  note w = v [unfolded verify_consistency_walk [OF m y(1) l(1,2)]]
  have wk: "walk H node (length ys - 1) s s t = Some (old_root, root_of H ys)"
    "length s = 32" "\<forall>x \<in> set t. length x = 32" "node \<noteq> 0 \<longrightarrow> proof' = s # t"
    using w p y(6) by (auto simp: s_def t_def split: if_splits)
  have "subproof H m xs True = (if node = 0 then [] else [ys ! node]) @ path H node ys"
    using subproof_odd [of "Suc node" ys H True] y(2,3,8) l(4) by simp
  moreover have "take node ys @ [ys ! node] = take (Suc node) ys" using y(3) by (simp add: take_Suc_conv_app_nth)
  moreover have "consistency_inputs H m old_root (length xs) proof' = walk_inputs node (length ys - 1) H s t"
    using wk(4) y(1) by (cases "node = 0"; cases proof') (simp_all add: consistency_inputs_def s_def t_def)
  moreover have "ys ! 0 = root_of H (take m xs)" if "node = 0"
    using y(3,7) that by (cases ys) auto
  ultimately show ?thesis
    using walk_sound [OF H l(3,4) y(5) wk(2,3,1)] wk(4) y(7,9)
    by (auto simp: s_def t_def split: if_splits intro: collision_mono)
qed


lemma root_of_length: "\<forall>x. length (H x) = 32 \<Longrightarrow> \<forall>x \<in> set xs. length x = 32 \<Longrightarrow> length (root_of H xs) = 32"
  by (cases "length xs \<le> 1")
    (auto simp: root_of.simps [of H xs] Let_def node_hash_def length_Suc_conv le_Suc_eq)

lemma root_of_inj:
  assumes H: "\<forall>x. length (H x) = 32"
  shows "\<lbrakk>length xs = length ys; \<forall>x \<in> set xs. length x = 32; \<forall>y \<in> set ys. length y = 32;
    root_of H xs = root_of H ys\<rbrakk> \<Longrightarrow> xs = ys \<or> collision H (tree_inputs H xs) (tree_inputs H ys)"
proof (induction xs arbitrary: ys rule: length_induct)
  case (1 xs)
  show ?case
  proof (cases "1 < length xs")
    case True
    let ?k = "split (length xs)"
    have k: "0 < ?k" "?k < length xs" using split_bounds True by auto
    have sub: "\<forall>x \<in> set (take ?k zs). length x = 32" "\<forall>x \<in> set (drop ?k zs). length x = 32"
      if "\<forall>x \<in> set zs. length x = 32" for zs :: "bytes list"
      using that by (auto dest: in_set_takeD in_set_dropD)
    have inp: "tree_inputs H (take ?k zs) \<subseteq> tree_inputs H zs" "tree_inputs H (drop ?k zs) \<subseteq> tree_inputs H zs"
      "NODE_PREFIX # root_of H (take ?k zs) @ root_of H (drop ?k zs) \<in> tree_inputs H zs"
      if "length zs = length xs" for zs
      using tree_inputs_split [of zs H] True that by auto
    have "root_of H (take ?k xs) = root_of H (take ?k ys) \<and> root_of H (drop ?k xs) = root_of H (drop ?k ys) \<or>
      collision H (tree_inputs H xs) (tree_inputs H ys)"
    proof (rule node_hash_match [OF _ _ inp(3) inp(3)])
      show "node_hash H (root_of H (take ?k xs)) (root_of H (drop ?k xs)) =
          node_hash H (root_of H (take ?k ys)) (root_of H (drop ?k ys))"
        using 1(2,5) root_of_split [of xs H] root_of_split [of ys H] True by simp
      show "length (root_of H (take ?k xs)) = length (root_of H (take ?k ys))"
        using root_of_length [OF H sub(1) [OF 1(3)]] root_of_length [OF H sub(1) [OF 1(4)]] by simp
    qed (use 1(2) in simp_all)
    moreover have "take ?k xs = take ?k ys \<or> collision H (tree_inputs H xs) (tree_inputs H ys)"
      if "root_of H (take ?k xs) = root_of H (take ?k ys)"
    proof -
      have "take ?k xs = take ?k ys \<or> collision H (tree_inputs H (take ?k xs)) (tree_inputs H (take ?k ys))"
        using 1(1) [rule_format, of "take ?k xs" "take ?k ys"] 1(2) k sub(1) [OF 1(3)] sub(1) [OF 1(4)] that by simp
      then show ?thesis using inp(1) [of xs] inp(1) [of ys] 1(2) collision_mono by metis
    qed
    moreover have "drop ?k xs = drop ?k ys \<or> collision H (tree_inputs H xs) (tree_inputs H ys)"
      if "root_of H (drop ?k xs) = root_of H (drop ?k ys)"
    proof -
      have "drop ?k xs = drop ?k ys \<or> collision H (tree_inputs H (drop ?k xs)) (tree_inputs H (drop ?k ys))"
        using 1(1) [rule_format, of "drop ?k xs" "drop ?k ys"] 1(2) k sub(2) [OF 1(3)] sub(2) [OF 1(4)] that by simp
      then show ?thesis using inp(2) [of xs] inp(2) [of ys] 1(2) collision_mono by metis
    qed
    ultimately show ?thesis by (metis append_take_drop_id)
  next
    case False
    then show ?thesis using 1(2,5) by (cases xs; cases ys) auto
  qed
qed

lemma path_length: "\<lbrakk>i < length xs; length xs \<le> 2 ^ k; k \<le> 64\<rbrakk> \<Longrightarrow> length (path H i xs) \<le> k"
proof (induction k arbitrary: i xs)
  case 0
  then show ?case by (simp add: path_short)
next
  case (Suc k)
  show ?case
  proof (cases "1 < length xs")
    case True
    have "length xs \<le> 2 ^ 64" using Suc.prems(2) power_increasing [OF Suc.prems(3), of "2 :: nat"] by simp
    moreover have "length (path H (i div 2) (pair_up H xs)) \<le> k"
      using Suc.IH [of "i div 2" "pair_up H xs"] Suc.prems by auto
    ultimately show ?thesis using path_pair_up [of xs i H] True Suc.prems(1) by (simp add: sibling_of_def)
  qed (simp add: path_short)
qed

section \<open>Completeness and soundness of the proofs\<close>

fun append_entries :: "hash_fun \<Rightarrow> merkle_log \<Rightarrow> bytes list \<Rightarrow> log_error + merkle_log" where
  "append_entries H l [] = Inr l"
| "append_entries H l (e # es) = and_then (log_append H l e) (\<lambda>(l', index). append_entries H l' es)"

lemma append_entries_leaves:
  "append_entries H l es = Inr l' \<Longrightarrow> length (leaves l) \<le> MAX_ENTRIES \<Longrightarrow>
    leaves l' = leaves l @ map (leaf_hash H) es \<and> length (leaves l') \<le> MAX_ENTRIES"
proof (induction es arbitrary: l)
  case (Cons e es)
  then obtain "length (leaves l) < MAX_ENTRIES" "append_entries H (l\<lparr>leaves := leaves l @ [leaf_hash H e]\<rparr>) es = Inr l'"
    by (auto simp: log_append_def Let_def split: if_splits)
  then show ?case using Cons.IH [of "l\<lparr>leaves := leaves l @ [leaf_hash H e]\<rparr>"] by auto
qed simp

lemma appended_leaves:
  assumes "append_entries H new_log es = Inr l"
  shows "leaves l = map (leaf_hash H) es" "length es \<le> MAX_ENTRIES"
  using append_entries_leaves [OF assms] by (auto simp: new_log_def)

lemma leaf_hash_match:
  "leaf_hash H e = leaf_hash H e' \<Longrightarrow> LEAF_PREFIX # e \<in> A \<Longrightarrow> LEAF_PREFIX # e' \<in> B \<Longrightarrow> e = e' \<or> collision H A B"
  unfolding collision_def leaf_hash_def by (metis list.inject)

lemma map_leaf_hash_match:
  "map (leaf_hash H) es = map (leaf_hash H) es' \<Longrightarrow> Cons LEAF_PREFIX ` set es \<subseteq> A \<Longrightarrow>
    Cons LEAF_PREFIX ` set es' \<subseteq> B \<Longrightarrow> es = es' \<or> collision H A B"
proof (induction es es' rule: list_induct2')
  case (4 e es e' es')
  then show ?case using leaf_hash_match [of H e e' A B] by auto
qed auto

definition log_inputs :: "hash_fun \<Rightarrow> bytes list \<Rightarrow> bytes set" where
  "log_inputs H es = Cons LEAF_PREFIX ` set es \<union> tree_inputs H (map (leaf_hash H) es)"

text \<open>C30. Every inclusion proof the log issues verifies, whatever the hash: after any sequence of
  appends, for every size up to the number of entries and every index below it, the log
  produces a proof and a head, the iterative verifier accepts them for the entry at that
  index, and the proof has at most 32 hashes.\<close>

theorem inclusion_complete:
  assumes l: "append_entries H new_log es = Inr l" and i: "i < n" "n \<le> length es"
  shows "\<exists>p r. inclusion_proof H l i n = Inr p \<and> root_at H l n = Inr r \<and>
    verify_inclusion H (leaf_hash H (es ! i)) i n p r = Inr () \<and> length p \<le> 32"
proof -
  let ?xs = "take n (leaves l)"
  note al = appended_leaves [OF l]
  have len: "length ?xs = n" "n \<le> 2 ^ 32" using al i by (simp_all add: MAX_ENTRIES_def)
  have "walk H i (n - 1) (take (Suc i) ?xs ! i) (?xs ! i) (path H i ?xs) =
      Some (root_of H (take (Suc i) ?xs), root_of H ?xs)"
    using walk_complete [of i ?xs "take (Suc i) ?xs" H] len i by (simp add: min_absorb2)
  then have "verify_inclusion H (leaf_hash H (es ! i)) i n (path H i ?xs) (root_of H ?xs) = Inr ()"
    using verify_inclusion_walk [of i n H "?xs ! i" _ _ "?xs ! i"] i al by simp
  moreover have "length (path H i ?xs) \<le> 32" using path_length [of i ?xs 32 H] len i by simp
  ultimately show ?thesis using al i by (simp add: inclusion_proof_def root_at_def)
qed

definition pad_hash :: hash_fun where
  "pad_hash x = take 32 (x @ replicate 32 0)"

lemma length_pad_hash: "length (pad_hash x) = 32"
  by (simp add: pad_hash_def)

lemmas append_simps = new_log_def log_append_def MAX_ENTRIES_def

theorem inclusion_complete_witness:
  "append_entries pad_hash new_log [[1], [2], [3]] = Inr \<lparr>leaves = map (leaf_hash pad_hash) [[1], [2], [3]]\<rparr> \<and>
   (\<exists>p r. inclusion_proof pad_hash \<lparr>leaves = map (leaf_hash pad_hash) [[1], [2], [3]]\<rparr> 2 3 = Inr p \<and>
    root_at pad_hash \<lparr>leaves = map (leaf_hash pad_hash) [[1], [2], [3]]\<rparr> 3 = Inr r \<and>
    verify_inclusion pad_hash (leaf_hash pad_hash [3]) 2 3 p r = Inr () \<and> length p \<le> 32)"
  using inclusion_complete [of pad_hash "[[1], [2], [3]]" "\<lparr>leaves = map (leaf_hash pad_hash) [[1], [2], [3]]\<rparr>" 2 3]
  by (simp add: append_simps)

text \<open>C7. An accepted inclusion proof is genuine: against the head of a log of known entries, a
  proof accepted for some entry at an index shows that it is the entry at that index, and is
  the proof the log issues, unless two different strings with the same hash are in plain
  sight, one hashed by the verifier and one hashed by the log.\<close>

theorem inclusion_sound:
  assumes H: "\<forall>x. length (H x) = 32" and l: "append_entries H new_log es = Inr l"
    and r: "root_at H l n = Inr r" and p: "\<forall>x \<in> set p. length x = 32"
    and v: "verify_inclusion H (leaf_hash H e) i n p r = Inr ()"
  shows "i < length es \<and> e = es ! i \<and> inclusion_proof H l i n = Inr p \<or>
    collision H (insert (LEAF_PREFIX # e) (walk_inputs i (n - 1) H (leaf_hash H e) p)) (log_inputs H (take n es))"
proof -
  note al = appended_leaves [OF l]
  have n: "i < n" "n \<le> MAX_ENTRIES" using v by (auto simp: verify_inclusion_def split: if_splits)
  have n': "n \<le> length es" and r': "r = root_of H (take n (leaves l))"
    using r al by (auto simp: root_at_def split: if_splits)
  let ?xs = "take n (leaves l)"
  have x: "length ?xs = n" "\<forall>x \<in> set ?xs. length x = 32" "?xs = map (leaf_hash H) (take n es)"
    using al n' H by (auto simp: leaf_hash_def take_map dest!: in_set_takeD)
  obtain fo where w: "walk H i (length ?xs - 1) (leaf_hash H e) (leaf_hash H e) p = Some (fo, root_of H ?xs)"
    using v [unfolded verify_inclusion_walk [OF n, of H _ _ _ "leaf_hash H e"]] r' x(1) by auto
  have lh: "length (leaf_hash H e) = 32" using H by (simp add: leaf_hash_def)
  have i: "i < length ?xs" "length ?xs \<le> 2 ^ 64" using n x(1) by (simp_all add: MAX_ENTRIES_def)
  from walk_sound [OF H i x(2) lh p w]
  have "leaf_hash H e = leaf_hash H (es ! i) \<and> p = path H i ?xs \<or>
      collision H (insert (LEAF_PREFIX # e) (walk_inputs i (n - 1) H (leaf_hash H e) p)) (log_inputs H (take n es))"
    using n n' al x(1,3) by (auto simp: log_inputs_def intro: collision_mono)
  moreover have "LEAF_PREFIX # es ! i \<in> log_inputs H (take n es)"
    using n n' nth_mem [of i "take n es"] by (simp add: log_inputs_def)
  moreover have "inclusion_proof H l i n = Inr (path H i ?xs)" "i < length es"
    using n n' al by (simp_all add: inclusion_proof_def)
  ultimately show ?thesis using leaf_hash_match insertI1 by metis
qed

theorem inclusion_sound_witness:
  "verify_inclusion pad_hash (leaf_hash pad_hash [1]) 0 2 [leaf_hash pad_hash [2]]
      (node_hash pad_hash (leaf_hash pad_hash [1]) (leaf_hash pad_hash [2])) = Inr () \<and>
   ([1] = [[1], [2]] ! 0 \<or>
    collision pad_hash (insert (LEAF_PREFIX # [1]) (walk_inputs 0 1 pad_hash (leaf_hash pad_hash [1]) [leaf_hash pad_hash [2]]))
      (log_inputs pad_hash [[1], [2]]))"
proof
  let ?l = "\<lparr>leaves = [leaf_hash pad_hash [1], leaf_hash pad_hash [2]]\<rparr>"
  let ?r = "node_hash pad_hash (leaf_hash pad_hash [1]) (leaf_hash pad_hash [2])"
  show v: "verify_inclusion pad_hash (leaf_hash pad_hash [1]) 0 2 [leaf_hash pad_hash [2]] ?r = Inr ()"
    by (simp add: verify_inclusion_def decompose_def leading_zeros_def bit_length.simps MAX_ENTRIES_def fold_border_def)
  have "append_entries pad_hash new_log [[1], [2]] = Inr ?l" by (simp add: append_simps)
  moreover have "root_at pad_hash ?l 2 = Inr ?r" by (simp add: root_at_def root_of_split)
  ultimately show "[1] = [[1], [2]] ! 0 \<or>
    collision pad_hash (insert (LEAF_PREFIX # [1]) (walk_inputs 0 1 pad_hash (leaf_hash pad_hash [1]) [leaf_hash pad_hash [2]]))
      (log_inputs pad_hash [[1], [2]])"
    using inclusion_sound [of pad_hash "[[1], [2]]" ?l 2 ?r "[leaf_hash pad_hash [2]]" "[1]" 0] v
    by (simp add: length_pad_hash leaf_hash_def)
qed

text \<open>C31. Every consistency proof the log issues verifies: for any two non-empty sizes of the
  same log, the older no larger, the log produces a proof that reconciles the two heads.\<close>

theorem consistency_complete:
  assumes H: "\<forall>x. length (H x) = 32" and l: "append_entries H new_log es = Inr l"
    and m: "0 < m" "m \<le> n" "n \<le> length es"
  shows "\<exists>p old_root new_root. consistency_proof H l m n = Inr p \<and>
    root_at H l m = Inr old_root \<and> root_at H l n = Inr new_root \<and>
    verify_consistency H m old_root n new_root p = Inr ()"
proof -
  note al = appended_leaves [OF l]
  let ?xs = "take n (leaves l)"
  have x: "length ?xs = n" "\<forall>x \<in> set ?xs. length x = 32" "n \<le> MAX_ENTRIES"
    using al m H by (auto simp: leaf_hash_def take_map dest!: in_set_takeD)
  have "verify_consistency H m (root_of H (take m ?xs)) n (root_of H ?xs) (subproof H m ?xs True) = Inr ()"
    using consistency_complete_leaves [OF H m(1) _ _ x(2)] m x by simp
  then show ?thesis using al m by (simp add: consistency_proof_def root_at_def min_absorb1)
qed

theorem consistency_complete_witness:
  "append_entries pad_hash new_log [[1], [2], [3]] = Inr \<lparr>leaves = map (leaf_hash pad_hash) [[1], [2], [3]]\<rparr> \<and>
   (\<exists>p old_root new_root. consistency_proof pad_hash \<lparr>leaves = map (leaf_hash pad_hash) [[1], [2], [3]]\<rparr> 2 3 = Inr p \<and>
    root_at pad_hash \<lparr>leaves = map (leaf_hash pad_hash) [[1], [2], [3]]\<rparr> 2 = Inr old_root \<and>
    root_at pad_hash \<lparr>leaves = map (leaf_hash pad_hash) [[1], [2], [3]]\<rparr> 3 = Inr new_root \<and>
    verify_consistency pad_hash 2 old_root 3 new_root p = Inr ())"
  using consistency_complete [of pad_hash "[[1], [2], [3]]" "\<lparr>leaves = map (leaf_hash pad_hash) [[1], [2], [3]]\<rparr>" 2 3]
  by (simp add: append_simps length_pad_hash)

text \<open>C3. The log is append-only to a reader: if a reader who holds the head of a log accepts a
  consistency proof to the head of another, then the first log's entries are the first entries
  of the second, unless two different strings with the same hash are in plain sight, one
  hashed by the reader or the first log and one hashed by the second at one of the two sizes.\<close>

theorem append_only:
  assumes H: "\<forall>x. length (H x) = 32"
    and old: "append_entries H new_log old_es = Inr l" "log_root H l = Inr old_root"
    and new: "append_entries H new_log new_es = Inr l'" "log_root H l' = Inr new_root"
    and p: "\<forall>x \<in> set p. length x = 32"
    and v: "verify_consistency H (length old_es) old_root (length new_es) new_root p = Inr ()"
  shows "old_es = take (length old_es) new_es \<or>
    collision H (log_inputs H old_es \<union> consistency_inputs H (length old_es) old_root (length new_es) p)
      (log_inputs H new_es \<union> log_inputs H (take (length old_es) new_es))"
    (is "_ \<or> collision H ?A ?B")
proof -
  note ol = appended_leaves [OF old(1)] and nl = appended_leaves [OF new(1)]
  let ?xs = "map (leaf_hash H) old_es" and ?ys = "map (leaf_hash H) new_es" and ?m = "length old_es"
  have lens: "\<forall>x \<in> set ?xs. length x = 32" "\<forall>x \<in> set ?ys. length x = 32" "\<forall>x \<in> set (take ?m ?ys). length x = 32"
    using H by (auto simp: leaf_hash_def dest!: in_set_takeD)
  have r: "old_root = root_of H ?xs" "new_root = root_of H ?ys"
    using old(2) new(2) ol nl by (simp_all add: log_root_def root_at_def)
  have m: "?m \<le> length new_es" using v by (auto simp: verify_consistency_def split: if_splits)
  have "length old_root = 32" using root_of_length [OF H lens(1)] r by simp
  from consistency_sound_leaves [OF H lens(2) this p, of ?m] v r
  have "root_of H ?xs = root_of H (take ?m ?ys) \<or> collision H ?A ?B"
    by (auto simp: log_inputs_def intro: collision_mono)
  moreover have "?xs = take ?m ?ys \<or> collision H ?A ?B" if "root_of H ?xs = root_of H (take ?m ?ys)"
    using root_of_inj [OF H _ lens(1,3) that] m
    by (auto simp: log_inputs_def take_map intro: collision_mono)
  moreover have "old_es = take ?m new_es \<or> collision H ?A ?B" if "?xs = take ?m ?ys"
    by (rule map_leaf_hash_match) (use that in \<open>auto simp: log_inputs_def take_map\<close>)
  ultimately show ?thesis by blast
qed

theorem append_only_witness:
  "verify_consistency pad_hash 1 (leaf_hash pad_hash [1]) 2
      (node_hash pad_hash (leaf_hash pad_hash [1]) (leaf_hash pad_hash [2])) [leaf_hash pad_hash [2]] = Inr () \<and>
   ([[1]] = take 1 [[1], [2]] \<or>
    collision pad_hash (log_inputs pad_hash [[1]] \<union>
        consistency_inputs pad_hash 1 (leaf_hash pad_hash [1]) 2 [leaf_hash pad_hash [2]])
      (log_inputs pad_hash [[1], [2]] \<union> log_inputs pad_hash [[1]]))"
proof
  let ?l = "\<lparr>leaves = [leaf_hash pad_hash [1]]\<rparr>"
  let ?l' = "\<lparr>leaves = [leaf_hash pad_hash [1], leaf_hash pad_hash [2]]\<rparr>"
  let ?r = "node_hash pad_hash (leaf_hash pad_hash [1]) (leaf_hash pad_hash [2])"
  show v: "verify_consistency pad_hash 1 (leaf_hash pad_hash [1]) 2 ?r [leaf_hash pad_hash [2]] = Inr ()"
    by (simp add: verify_consistency_def MAX_ENTRIES_def split_first_def strip_ones.simps(2) [of 63, simplified]
        climb_old.simps(2) [of _ 63, simplified] climb_new.simps(2) [of _ 63, simplified]
        climb_new.simps(2) [of _ 62, simplified])
  have "append_entries pad_hash new_log [[1]] = Inr ?l" "append_entries pad_hash new_log [[1], [2]] = Inr ?l'"
    by (simp_all add: append_simps)
  moreover have "log_root pad_hash ?l = Inr (leaf_hash pad_hash [1])" "log_root pad_hash ?l' = Inr ?r"
    by (simp_all add: log_root_def root_at_def root_of_split)
  ultimately show "[[1]] = take 1 [[1], [2]] \<or>
    collision pad_hash (log_inputs pad_hash [[1]] \<union>
        consistency_inputs pad_hash 1 (leaf_hash pad_hash [1]) 2 [leaf_hash pad_hash [2]])
      (log_inputs pad_hash [[1], [2]] \<union> log_inputs pad_hash [[1]])"
    using append_only [of pad_hash "[[1]]" ?l "leaf_hash pad_hash [1]" "[[1], [2]]" ?l' ?r "[leaf_hash pad_hash [2]]"] v
    by (simp add: length_pad_hash leaf_hash_def)
qed

end
