(* ===== verification/Rust_Text.thy ===== *)
theory Rust_Text
  imports Vot_Prelude
begin

text \<open>
  What the components use of Rust's strings: a string is the list of its Unicode scalar values,
  with its length and bytes in UTF-8, the decimal rendering and parsing of a \<open>usize\<close>, splitting at
  a character or at the first occurrence of a pattern, and lines.
\<close>

type_synonym rtext = "nat list"

definition utf8_char :: "nat \<Rightarrow> bytes" where
  "utf8_char c =
    (if c < 0x80 then [of_nat c]
     else if c < 0x800 then [of_nat (0xC0 + c div 64), of_nat (0x80 + c mod 64)]
     else if c < 0x10000 then
       [of_nat (0xE0 + c div 4096), of_nat (0x80 + c div 64 mod 64), of_nat (0x80 + c mod 64)]
     else
       [of_nat (0xF0 + c div 262144), of_nat (0x80 + c div 4096 mod 64),
        of_nat (0x80 + c div 64 mod 64), of_nat (0x80 + c mod 64)])"

definition utf8 :: "rtext \<Rightarrow> bytes" where
  "utf8 s = concat (map utf8_char s)"

definition is_whitespace :: "nat \<Rightarrow> bool" where
  "is_whitespace c \<longleftrightarrow> 9 \<le> c \<and> c \<le> 13 \<or> c = 0x20 \<or> c = 0x85 \<or> c = 0xA0 \<or> c = 0x1680 \<or>
    0x2000 \<le> c \<and> c \<le> 0x200A \<or> c = 0x2028 \<or> c = 0x2029 \<or> c = 0x202F \<or> c = 0x205F \<or> c = 0x3000"

section \<open>Decimal numbers\<close>

fun decimal :: "nat \<Rightarrow> rtext" where
  "decimal n = (if n < 10 then [48 + n] else decimal (n div 10) @ [48 + n mod 10])"

declare decimal.simps [simp del]

fun parse_digits :: "nat \<Rightarrow> rtext \<Rightarrow> nat option" where
  "parse_digits acc [] = Some acc"
| "parse_digits acc (c # cs) =
    (if 48 \<le> c \<and> c \<le> 57 \<and> acc * 10 + (c - 48) \<le> u64_max then parse_digits (acc * 10 + (c - 48)) cs
     else None)"

definition parse_usize :: "rtext \<Rightarrow> nat option" where
  "parse_usize s =
    (case s of [] \<Rightarrow> None
     | c # cs \<Rightarrow> if c = 43 then (if cs = [] then None else parse_digits 0 cs) else parse_digits 0 s)"

lemma decimal_digits: "\<forall>c \<in> set (decimal n). 48 \<le> c \<and> c \<le> 57"
  by (induction n rule: decimal.induct) (subst decimal.simps, auto)

lemma decimal_nonempty [simp]: "decimal n \<noteq> []"
  by (subst decimal.simps) simp

lemma parse_digits_snoc:
  "parse_digits acc (xs @ [c]) = Option.bind (parse_digits acc xs) (\<lambda>v. parse_digits v [c])"
proof (induction xs arbitrary: acc)
  case (Cons a xs)
  show ?case by (cases "48 \<le> a \<and> a \<le> 57 \<and> acc * 10 + (a - 48) \<le> u64_max") (simp_all only: append_Cons parse_digits.simps(2) Cons if_True if_False simp_thms bind.bind_lzero)
qed simp

lemma parse_digits_decimal: "n \<le> u64_max \<Longrightarrow> parse_digits 0 (decimal n) = Some n"
proof (induction n rule: decimal.induct)
  case (1 n)
  show ?case
  proof (cases "n < 10")
    case True
    then show ?thesis using 1(2) by (simp add: decimal.simps)
  next
    case False
    then have "parse_digits 0 (decimal (n div 10)) = Some (n div 10)" using 1 by auto
    moreover have "n div 10 * 10 + n mod 10 = n" by simp
    moreover have "n mod 10 < 10" by simp
    ultimately show ?thesis using False 1(2) by (subst decimal.simps) (simp add: parse_digits_snoc)
  qed
qed

lemma parse_usize_decimal [simp]: "n \<le> u64_max \<Longrightarrow> parse_usize (decimal n) = Some n"
  using parse_digits_decimal [of n] decimal_digits [of n]
  by (cases "decimal n") (auto simp: parse_usize_def)

section \<open>Splitting\<close>

fun split_once :: "rtext \<Rightarrow> rtext \<Rightarrow> (rtext \<times> rtext) option" where
  "split_once pat [] = (if pat = [] then Some ([], []) else None)"
| "split_once pat (c # s) =
    (if take (length pat) (c # s) = pat then Some ([], drop (length pat) (c # s))
     else map_option (\<lambda>(before, after). (c # before, after)) (split_once pat s))"

fun split_on :: "nat \<Rightarrow> rtext \<Rightarrow> rtext list" where
  "split_on c [] = [[]]"
| "split_on c (x # xs) =
    (if x = c then [] # split_on c xs
     else case split_on c xs of [] \<Rightarrow> [[x]] | piece # pieces \<Rightarrow> (x # piece) # pieces)"

definition strip_cr :: "rtext \<Rightarrow> rtext" where
  "strip_cr line = (if line \<noteq> [] \<and> last line = 0x0d then butlast line else line)"

definition lines :: "rtext \<Rightarrow> rtext list" where
  "lines s =
    (let pieces = split_on 0x0a s in
     map strip_cr (butlast pieces) @ (if last pieces = [] then [] else [last pieces]))"

definition strip_prefix :: "rtext \<Rightarrow> rtext \<Rightarrow> rtext option" where
  "strip_prefix pat s = (if take (length pat) s = pat then Some (drop (length pat) s) else None)"

lemma split_on_nonempty [simp]: "split_on c s \<noteq> []"
  by (induction s) (auto split: list.splits)

lemma split_on_free [simp]: "c \<notin> set s \<Longrightarrow> split_on c s = [s]"
  by (induction s) auto

lemma split_on_append [simp]: "c \<notin> set s \<Longrightarrow> split_on c (s @ c # t) = s # split_on c t"
  by (induction s) auto

lemma split_once_char [simp]: "c \<notin> set s \<Longrightarrow> split_once [c] (s @ c # t) = Some (s, t)"
  by (induction s) auto

lemma strip_prefix_append [simp]: "strip_prefix pat (pat @ s) = Some s"
  by (simp add: strip_prefix_def)

lemma strip_cr_id [simp]: "0x0d \<notin> set line \<Longrightarrow> strip_cr line = line"
  by (cases line rule: rev_cases) (simp_all add: strip_cr_def)

lemma lines_nil [simp]: "lines [] = []"
  by (simp add: lines_def)

lemma lines_cons [simp]:
  "0x0a \<notin> set line \<Longrightarrow> lines (line @ 0x0a # s) = strip_cr line # lines s"
  by (simp add: lines_def Let_def)

text \<open>A blank line is found right where the text before it, which has none, ends.\<close>

fun no_blank :: "rtext \<Rightarrow> bool" where
  "no_blank (a # b # s) \<longleftrightarrow> \<not> (a = 0x0a \<and> b = 0x0a) \<and> no_blank (b # s)"
| "no_blank [] \<longleftrightarrow> True"
| "no_blank [a] \<longleftrightarrow> True"

lemma no_blank_free: "0x0a \<notin> set s \<Longrightarrow> no_blank s"
  by (induction s rule: no_blank.induct) auto

lemma no_blank_line:
  "0x0a \<notin> set s \<Longrightarrow> t \<noteq> [] \<Longrightarrow> hd t \<noteq> 0x0a \<Longrightarrow> no_blank t \<Longrightarrow> no_blank (s @ 0x0a # t)"
proof (induction s rule: no_blank.induct)
  case 2
  then show ?case by (cases t) auto
next
  case (3 a)
  then show ?case by (cases t) auto
qed auto

lemma split_once_blank:
  "no_blank s \<Longrightarrow> s \<noteq> [] \<Longrightarrow> last s \<noteq> 0x0a \<Longrightarrow> split_once [0x0a, 0x0a] (s @ 0x0a # 0x0a # t) = Some (s, t)"
  by (induction s rule: no_blank.induct) auto

end
