(* ===== verification/Signed_Note.thy ===== *)
theory Signed_Note
  imports Merkle_Log Rust_Text
begin

text \<open>
  Checkpoints of the log (\<open>src/crates/vot-log/src/\<close>, modules \<open>checkpoint\<close>, \<open>note\<close> and
  \<open>witness\<close>): the signed body, the note format with its parser, and the witness threshold.
  Base64 (\<open>b64enc\<close>, \<open>b64dec\<close>), SHA-256 (\<open>H\<close>) and ed25519 (\<open>public_of\<close>, \<open>sign\<close>,
  \<open>verify_strict\<close>) are code outside the repository, and arguments here.
\<close>

record checkpoint =
  origin :: rtext
  cp_size :: nat
  cp_root :: bytes

record note_signature =
  sig_name :: rtext
  key_hash :: bytes
  signature :: bytes

record signed_checkpoint =
  checkpoint :: checkpoint
  signatures :: "note_signature list"

record witness_key =
  wit_name :: rtext
  wit_key :: bytes

definition ED25519_NOTE_ALGORITHM :: byte where "ED25519_NOTE_ALGORITHM = 0x01"
definition MAX_NOTE_BYTES :: nat where "MAX_NOTE_BYTES = 65536"
definition MAX_NAME_BYTES :: nat where "MAX_NAME_BYTES = 256"

section \<open>The body and the note\<close>

definition body :: "(bytes \<Rightarrow> rtext) \<Rightarrow> checkpoint \<Rightarrow> log_error + rtext" where
  "body b64enc c =
    (if origin c = [] \<or> MAX_NAME_BYTES < length (utf8 (origin c)) then Inl LogMalformed
     else if 0x0a \<in> set (origin c) then Inl LogMalformed
     else Inr (origin c @ [0x0a] @ decimal (cp_size c) @ [0x0a] @ b64enc (cp_root c) @ [0x0a]))"

definition valid_note_name :: "rtext \<Rightarrow> bool" where
  "valid_note_name name \<longleftrightarrow> name \<noteq> [] \<and> length (utf8 name) \<le> MAX_NAME_BYTES \<and> 0x2b \<notin> set name \<and>
    \<not> (\<exists>c \<in> set name. is_whitespace c)"

definition note_key_hash :: "hash_fun \<Rightarrow> rtext \<Rightarrow> bytes \<Rightarrow> bytes" where
  "note_key_hash H name public_key =
    take 4 (H (utf8 name @ [0x0a] @ [ED25519_NOTE_ALGORITHM] @ public_key))"

definition unbase64 :: "(rtext \<Rightarrow> bytes option) \<Rightarrow> rtext \<Rightarrow> log_error + bytes" where
  "unbase64 b64dec s = ok_or (b64dec s) LogMalformed"

fun note_lines :: "(bytes \<Rightarrow> rtext) \<Rightarrow> note_signature list \<Rightarrow> rtext \<Rightarrow> log_error + rtext" where
  "note_lines b64enc [] note = Inr note"
| "note_lines b64enc (s # rest) note =
    (if \<not> valid_note_name (sig_name s) then Inl LogMalformed
     else note_lines b64enc rest
       (note @ [0x2014, 0x20] @ sig_name s @ [0x20] @ b64enc (key_hash s @ signature s) @ [0x0a]))"

definition to_note :: "(bytes \<Rightarrow> rtext) \<Rightarrow> signed_checkpoint \<Rightarrow> log_error + rtext" where
  "to_note b64enc s =
    and_then (body b64enc (checkpoint s)) (\<lambda>note. note_lines b64enc (signatures s) (note @ [0x0a]))"

fun parse_signatures ::
  "(rtext \<Rightarrow> bytes option) \<Rightarrow> rtext list \<Rightarrow> note_signature list \<Rightarrow> log_error + note_signature list" where
  "parse_signatures b64dec [] parsed = Inr parsed"
| "parse_signatures b64dec (line # rest) parsed =
    and_then (ok_or (strip_prefix [0x2014, 0x20] line) LogMalformed) (\<lambda>tail.
    and_then (ok_or (split_once [0x20] tail) LogMalformed) (\<lambda>(name, blob).
    and_then (unbase64 b64dec blob) (\<lambda>blob.
      if length blob < 4 then Inl LogMalformed
      else parse_signatures b64dec rest
        (parsed @ [\<lparr>sig_name = name, key_hash = take 4 blob, signature = drop 4 blob\<rparr>]))))"

definition parse_note ::
  "(bytes \<Rightarrow> rtext) \<Rightarrow> (rtext \<Rightarrow> bytes option) \<Rightarrow> rtext \<Rightarrow> log_error + signed_checkpoint" where
  "parse_note b64enc b64dec note =
    (if MAX_NOTE_BYTES < length (utf8 note) then Inl LogMalformed
     else
       and_then (ok_or (split_once [0x0a, 0x0a] note) LogMalformed) (\<lambda>(body', sigs).
       case split_on 0x0a body' of
         [origin', size', root'] \<Rightarrow>
           and_then (ok_or (parse_usize size') LogMalformed) (\<lambda>size'.
           and_then (unbase64 b64dec root') (\<lambda>root'.
           if length root' \<noteq> 32 then Inl LogMalformed
           else
             and_then (parse_signatures b64dec (lines sigs) []) (\<lambda>parsed.
             let rebuilt = \<lparr>checkpoint = \<lparr>origin = origin', cp_size = size', cp_root = root'\<rparr>,
                            signatures = parsed\<rparr> in
             and_then (to_note b64enc rebuilt) (\<lambda>again.
               if again \<noteq> note then Inl LogMalformed else Inr rebuilt))))
       | _ \<Rightarrow> Inl LogMalformed))"

section \<open>Witnesses\<close>

definition sign_checkpoint ::
  "(bytes \<Rightarrow> rtext) \<Rightarrow> hash_fun \<Rightarrow> (bytes \<Rightarrow> bytes) \<Rightarrow> (bytes \<Rightarrow> bytes \<Rightarrow> bytes) \<Rightarrow> signed_checkpoint \<Rightarrow>
   rtext \<Rightarrow> bytes \<Rightarrow> log_error + signed_checkpoint" where
  "sign_checkpoint b64enc H public_of sign scp name key =
    (if \<not> valid_note_name name then Inl LogMalformed
     else and_then (body b64enc (checkpoint scp)) (\<lambda>body'.
       Inr (scp\<lparr>signatures := signatures scp @
         [\<lparr>sig_name = name, key_hash = note_key_hash H name (public_of key),
           signature = sign key (utf8 body')\<rparr>]\<rparr>)))"

fun accept_witnesses ::
  "hash_fun \<Rightarrow> (bytes \<Rightarrow> bytes \<Rightarrow> bytes \<Rightarrow> bool) \<Rightarrow> bytes \<Rightarrow> note_signature \<Rightarrow> witness_key list \<Rightarrow>
   (rtext \<times> bytes) list \<Rightarrow> (rtext \<times> bytes) list" where
  "accept_witnesses H verify_strict body' s [] accepted = accepted"
| "accept_witnesses H verify_strict body' s (witness # witnesses) accepted =
    accept_witnesses H verify_strict body' s witnesses
      (if wit_name witness \<noteq> sig_name s then accepted
       else if note_key_hash H (wit_name witness) (wit_key witness) \<noteq> key_hash s then accepted
       else if verify_strict (wit_key witness) body' (signature s) \<and>
         \<not> (\<exists>(name, seen) \<in> set accepted. seen = wit_key witness \<or> name = wit_name witness)
       then accepted @ [(wit_name witness, wit_key witness)]
       else accepted)"

fun accept_signatures ::
  "hash_fun \<Rightarrow> (bytes \<Rightarrow> bytes \<Rightarrow> bytes \<Rightarrow> bool) \<Rightarrow> bytes \<Rightarrow> witness_key list \<Rightarrow> note_signature list \<Rightarrow>
   (rtext \<times> bytes) list \<Rightarrow> (rtext \<times> bytes) list" where
  "accept_signatures H verify_strict body' witnesses [] accepted = accepted"
| "accept_signatures H verify_strict body' witnesses (s # rest) accepted =
    accept_signatures H verify_strict body' witnesses rest
      (if length (signature s) \<noteq> 64 then accepted
       else accept_witnesses H verify_strict body' s witnesses accepted)"

definition verify_checkpoint ::
  "(bytes \<Rightarrow> rtext) \<Rightarrow> hash_fun \<Rightarrow> (bytes \<Rightarrow> bytes \<Rightarrow> bytes \<Rightarrow> bool) \<Rightarrow> signed_checkpoint \<Rightarrow>
   witness_key list \<Rightarrow> nat \<Rightarrow> log_error + rtext list" where
  "verify_checkpoint b64enc H verify_strict scp witnesses required =
    and_then (body b64enc (checkpoint scp)) (\<lambda>body'.
      let accepted = accept_signatures H verify_strict (utf8 body') witnesses (signatures scp) [] in
      if length accepted < required then Inl Unwitnessed else Inr (map fst accepted))"

section \<open>The note format is exact\<close>

lemma case_list3_eq_Inr:
  "(case xs of [a, b, c] \<Rightarrow> f a b c | _ \<Rightarrow> Inl e) = Inr y \<longleftrightarrow> (\<exists>a b c. xs = [a, b, c] \<and> f a b c = Inr y)"
  by (auto split: list.splits)

text \<open>What the note format relies on of base64: decoding inverts encoding, only the empty string
  encodes to nothing, and no character of an encoding is white space.\<close>

definition base64_law :: "(bytes \<Rightarrow> rtext) \<Rightarrow> (rtext \<Rightarrow> bytes option) \<Rightarrow> bool" where
  "base64_law b64enc b64dec \<longleftrightarrow>
    (\<forall>x. b64dec (b64enc x) = Some x \<and> (b64enc x = [] \<longrightarrow> x = []) \<and> (\<forall>c \<in> set (b64enc x). \<not> is_whitespace c))"

definition wf_signed :: "signed_checkpoint \<Rightarrow> bool" where
  "wf_signed s \<longleftrightarrow> cp_size (checkpoint s) \<le> u64_max \<and> length (cp_root (checkpoint s)) = 32 \<and>
    (\<forall>g \<in> set (signatures s). length (key_hash g) = 4)"

lemma base64_lawD:
  assumes "base64_law b64enc b64dec"
  shows "b64dec (b64enc x) = Some x" "x \<noteq> [] \<Longrightarrow> b64enc x \<noteq> []"
    "0x0a \<notin> set (b64enc x)" "0x0d \<notin> set (b64enc x)" "0x20 \<notin> set (b64enc x)"
  using assms unfolding base64_law_def is_whitespace_def by fastforce+

lemma valid_note_nameD:
  assumes "valid_note_name name"
  shows "name \<noteq> []" "0x0a \<notin> set name" "0x0d \<notin> set name" "0x20 \<notin> set name"
  using assms unfolding valid_note_name_def is_whitespace_def by fastforce+

definition note_line :: "(bytes \<Rightarrow> rtext) \<Rightarrow> note_signature \<Rightarrow> rtext" where
  "note_line b64enc s = [0x2014, 0x20] @ sig_name s @ [0x20] @ b64enc (key_hash s @ signature s)"

lemma note_lines_eq:
  "note_lines b64enc sigs nt =
    (if \<forall>s \<in> set sigs. valid_note_name (sig_name s)
     then Inr (nt @ concat (map (\<lambda>s. note_line b64enc s @ [0x0a]) sigs)) else Inl LogMalformed)"
  by (induction sigs arbitrary: nt) (auto simp: note_line_def)

lemma parse_signatures_note:
  assumes "base64_law b64enc b64dec"
  shows "\<lbrakk>\<forall>s \<in> set sigs. valid_note_name (sig_name s) \<and> length (key_hash s) = 4\<rbrakk> \<Longrightarrow>
    parse_signatures b64dec (lines (concat (map (\<lambda>s. note_line b64enc s @ [0x0a]) sigs))) parsed = Inr (parsed @ sigs)"
proof (induction sigs arbitrary: parsed)
  case (Cons s sigs)
  note b = base64_lawD [OF assms] and n = valid_note_nameD [of "sig_name s"]
  have l: "0x0a \<notin> set (note_line b64enc s)" "0x0d \<notin> set (note_line b64enc s)"
    using b n Cons.prems by (auto simp: note_line_def)
  have "strip_prefix [0x2014, 0x20] (note_line b64enc s) = Some (sig_name s @ 0x20 # b64enc (key_hash s @ signature s))"
    by (simp add: note_line_def strip_prefix_def)
  moreover have "split_once [0x20] (sig_name s @ 0x20 # b64enc (key_hash s @ signature s)) =
      Some (sig_name s, b64enc (key_hash s @ signature s))"
    using n Cons.prems by simp
  ultimately show ?case
    using Cons l b(1) [of "key_hash s @ signature s"] by (simp add: unbase64_def)
qed simp

lemma parse_signatures_key_hash:
  "parse_signatures b64dec ls parsed = Inr sigs \<Longrightarrow> \<forall>g \<in> set parsed. length (key_hash g) = 4 \<Longrightarrow>
    \<forall>g \<in> set sigs. length (key_hash g) = 4"
proof (induction ls arbitrary: parsed)
  case (Cons line ls)
  from Cons.prems(1) obtain name blob where b: "\<not> length blob < 4" and p: "parse_signatures b64dec ls
      (parsed @ [\<lparr>sig_name = name, key_hash = take 4 blob, signature = drop 4 blob\<rparr>]) = Inr sigs"
    by (auto split: if_splits prod.splits)
  show ?case by (rule Cons.IH [OF p]) (use Cons.prems(2) b in auto)
qed simp

lemma parse_digits_le: "parse_digits acc s = Some n \<Longrightarrow> acc \<le> u64_max \<Longrightarrow> n \<le> u64_max"
  by (induction s arbitrary: acc) (auto split: if_splits)

lemma parse_usize_le: "parse_usize s = Some n \<Longrightarrow> n \<le> u64_max"
  by (auto simp: parse_usize_def parse_digits_le split: list.splits if_splits simp del: parse_digits.simps)

lemma parse_to_note:
  assumes b: "base64_law b64enc b64dec" and s: "wf_signed s" and n: "to_note b64enc s = Inr note"
    and m: "length (utf8 note) \<le> MAX_NOTE_BYTES"
  shows "parse_note b64enc b64dec note = Inr s"
proof -
  let ?c = "checkpoint s"
  define pre where "pre = origin ?c @ 0x0a # decimal (cp_size ?c) @ 0x0a # b64enc (cp_root ?c)"
  let ?sigs = "concat (map (\<lambda>g. note_line b64enc g @ [0x0a]) (signatures s))"
  note bl = base64_lawD [OF b]
  from n have o: "origin ?c \<noteq> []" "0x0a \<notin> set (origin ?c)"
    and v: "\<forall>g \<in> set (signatures s). valid_note_name (sig_name g)" and nt: "note = pre @ 0x0a # 0x0a # ?sigs"
    by (auto simp: to_note_def body_def note_lines_eq pre_def split: if_splits)
  have d: "0x0a \<notin> set (decimal (cp_size ?c))" "hd (decimal (cp_size ?c)) \<noteq> 0x0a"
    using decimal_digits [of "cp_size ?c"] hd_in_set [of "decimal (cp_size ?c)"] by fastforce+
  have r: "b64enc (cp_root ?c) \<noteq> []" using s bl(2) [of "cp_root ?c"] by (cases "cp_root ?c") (auto simp: wf_signed_def)
  have e: "hd (b64enc (cp_root ?c)) \<noteq> 0x0a" "last (b64enc (cp_root ?c)) \<noteq> 0x0a"
    using bl(3) [of "cp_root ?c"] hd_in_set [OF r] last_in_set [OF r] by metis+
  have nd: "no_blank (decimal (cp_size ?c) @ 0x0a # b64enc (cp_root ?c))"
    by (rule no_blank_line [OF d(1) r e(1) no_blank_free [OF bl(3)]])
  have nb: "no_blank pre"
    unfolding pre_def by (rule no_blank_line [OF o(2) _ _ nd]) (use d(2) in simp_all)
  have "pre \<noteq> []" "last pre \<noteq> 0x0a" using r e(2) by (simp_all add: pre_def)
  from split_once_blank [OF nb this] have "split_once [0x0a, 0x0a] note = Some (pre, ?sigs)"
    by (simp add: nt)
  moreover have "split_on 0x0a pre = [origin ?c, decimal (cp_size ?c), b64enc (cp_root ?c)]"
    using o d bl(3) by (simp add: pre_def)
  moreover have "parse_signatures b64dec (lines ?sigs) [] = Inr (signatures s)"
    using parse_signatures_note [OF b, of "signatures s" "[]"] v s by (auto simp: wf_signed_def)
  moreover have "to_note b64enc \<lparr>checkpoint = \<lparr>origin = origin ?c, cp_size = cp_size ?c, cp_root = cp_root ?c\<rparr>,
      signatures = signatures s\<rparr> = Inr note"
    using n by (cases s; cases ?c) simp
  ultimately show ?thesis
    using s m bl(1) by (simp add: parse_note_def unbase64_def wf_signed_def Let_def)
qed

lemma parse_note_accepts:
  assumes "parse_note b64enc b64dec note = Inr s"
  shows "to_note b64enc s = Inr note \<and> length (utf8 note) \<le> MAX_NOTE_BYTES \<and> wf_signed s"
proof -
  from assms obtain sigs size' root' origin' sz parsed where
    "length (utf8 note) \<le> MAX_NOTE_BYTES" "parse_usize sz = Some size'" "length root' = 32"
    "parse_signatures b64dec (lines sigs) [] = Inr parsed"
    "s = \<lparr>checkpoint = \<lparr>origin = origin', cp_size = size', cp_root = root'\<rparr>, signatures = parsed\<rparr>"
    "to_note b64enc s = Inr note"
    unfolding parse_note_def guard_eq_Inr and_then_eq_Inr case_list3_eq_Inr Let_def case_prod_unfold not_less not_not ok_or_eq_Inr sum.inject by blast
  then show ?thesis using parse_usize_le parse_signatures_key_hash by (auto simp: wf_signed_def)
qed

text \<open>C32. The note format is exact: parsing accepts a text as a checkpoint if and only if it is
  the rendering of that checkpoint, within the size limit, and the checkpoint is one the types can
  hold. So every note round-trips, and no two texts are read as one checkpoint.\<close>

theorem note_roundtrip:
  assumes "base64_law b64enc b64dec"
  shows "parse_note b64enc b64dec note = Inr s \<longleftrightarrow>
    to_note b64enc s = Inr note \<and> length (utf8 note) \<le> MAX_NOTE_BYTES \<and> wf_signed s"
  using parse_note_accepts [of b64enc b64dec "note" s] parse_to_note [OF assms, of s "note"] by metis

definition demo_enc :: "bytes \<Rightarrow> rtext" where
  "demo_enc x = map (\<lambda>b. 256 + unat b) x"

definition demo_dec :: "rtext \<Rightarrow> bytes option" where
  "demo_dec s = Some (map (\<lambda>c. of_nat (c - 256)) s)"

lemma demo_base64_law: "base64_law demo_enc demo_dec"
proof -
  have "n < 256 \<Longrightarrow> \<not> is_whitespace (256 + n)" for n by (auto simp: is_whitespace_def)
  then have "\<not> is_whitespace (256 + unat b)" for b :: byte
    using unsigned_less [of b, where 'a = nat] by simp
  then show ?thesis by (auto simp: base64_law_def demo_enc_def demo_dec_def comp_def)
qed

definition demo_checkpoint :: signed_checkpoint where
  "demo_checkpoint = \<lparr>checkpoint = \<lparr>origin = [97], cp_size = 0, cp_root = replicate 32 0\<rparr>,
    signatures = [\<lparr>sig_name = [98], key_hash = [1, 2, 3, 4], signature = [5]\<rparr>]\<rparr>"

definition demo_note :: rtext where
  "demo_note = [97, 10, 48, 10] @ replicate 32 256 @ [10, 10, 0x2014, 32, 98, 32, 257, 258, 259, 260, 261, 10]"

theorem note_roundtrip_witness: "parse_note demo_enc demo_dec demo_note = Inr demo_checkpoint"
proof -
  have "to_note demo_enc demo_checkpoint = Inr demo_note"
    by (simp add: to_note_def body_def demo_checkpoint_def demo_note_def demo_enc_def decimal.simps utf8_def utf8_char_def
        MAX_NAME_BYTES_def valid_note_name_def is_whitespace_def)
  moreover have "length (utf8 demo_note) \<le> MAX_NOTE_BYTES"
    by (simp add: demo_note_def utf8_def utf8_char_def MAX_NOTE_BYTES_def length_concat sum_list_replicate)
  moreover have "wf_signed demo_checkpoint"
    by (simp add: wf_signed_def demo_checkpoint_def u64_max_def)
  ultimately show ?thesis using note_roundtrip [OF demo_base64_law] by blast
qed

section \<open>The witness threshold\<close>

text \<open>A signature line supports a policy key when the name matches, the key hash binds the name to
  the key, and the signature over the body verifies under the key.\<close>

definition supports :: "hash_fun \<Rightarrow> (bytes \<Rightarrow> bytes \<Rightarrow> bytes \<Rightarrow> bool) \<Rightarrow> bytes \<Rightarrow> note_signature \<Rightarrow> witness_key \<Rightarrow> bool" where
  "supports H verify_strict msg s w \<longleftrightarrow> length (signature s) = 64 \<and> wit_name w = sig_name s \<and>
    note_key_hash H (wit_name w) (wit_key w) = key_hash s \<and> verify_strict (wit_key w) msg (signature s)"

definition sound_acceptance where
  "sound_acceptance H verify_strict msg ws ss accepted \<longleftrightarrow>
    distinct (map fst accepted) \<and> distinct (map snd accepted) \<and>
    (\<forall>(name, key) \<in> set accepted. \<exists>s \<in> set ss. \<exists>w \<in> set ws.
      wit_name w = name \<and> wit_key w = key \<and> supports H verify_strict msg s w)"

lemma accept_witnesses_extends:
  "set accepted \<subseteq> set (accept_witnesses H verify_strict msg s ws accepted)"
proof (induction ws arbitrary: accepted)
  case (Cons w ws)
  then show ?case by (simp, metis (no_types, lifting) Un_subset_iff set_append)
qed simp

lemma accept_signatures_extends:
  "set accepted \<subseteq> set (accept_signatures H verify_strict msg ws ss accepted)"
proof (induction ss arbitrary: accepted)
  case (Cons s ss)
  then show ?case using accept_witnesses_extends by (simp, metis subset_trans)
qed simp

lemma accept_witnesses_sound:
  "\<lbrakk>length (signature s) = 64; s \<in> set ss; set ws \<subseteq> set ws0; sound_acceptance H verify_strict msg ws0 ss accepted\<rbrakk> \<Longrightarrow>
    sound_acceptance H verify_strict msg ws0 ss (accept_witnesses H verify_strict msg s ws accepted)"
proof (induction ws arbitrary: accepted)
  case (Cons w ws)
  have "sound_acceptance H verify_strict msg ws0 ss (accepted @ [(wit_name w, wit_key w)])"
    if "supports H verify_strict msg s w" "\<not> (\<exists>(name, seen) \<in> set accepted. seen = wit_key w \<or> name = wit_name w)"
    using that Cons.prems by (auto simp: sound_acceptance_def)
  then show ?case using Cons by (auto simp: supports_def)
qed simp

lemma accept_signatures_sound:
  "\<lbrakk>set ss \<subseteq> set ss0; sound_acceptance H verify_strict msg ws ss0 accepted\<rbrakk> \<Longrightarrow>
    sound_acceptance H verify_strict msg ws ss0 (accept_signatures H verify_strict msg ws ss accepted)"
proof (induction ss arbitrary: accepted)
  case (Cons s ss)
  then show ?case using accept_witnesses_sound [of s ss0 ws ws H verify_strict msg accepted] by auto
qed simp

definition counted :: "(rtext \<times> bytes) list \<Rightarrow> witness_key \<Rightarrow> bool" where
  "counted accepted w \<longleftrightarrow> (\<exists>(name, key) \<in> set accepted. key = wit_key w \<or> name = wit_name w)"

lemma counted_mono: "counted A w \<Longrightarrow> set A \<subseteq> set B \<Longrightarrow> counted B w"
  by (auto simp: counted_def)

lemma accept_witnesses_complete:
  "w \<in> set ws \<Longrightarrow> supports H verify_strict msg s w \<Longrightarrow> counted (accept_witnesses H verify_strict msg s ws accepted) w"
proof (induction ws arbitrary: accepted)
  case (Cons v ws)
  show ?case
  proof (cases "v = w")
    case True
    let ?next = "if counted accepted w then accepted else accepted @ [(wit_name w, wit_key w)]"
    have "counted ?next w" by (auto simp: counted_def)
    moreover have "accept_witnesses H verify_strict msg s (v # ws) accepted = accept_witnesses H verify_strict msg s ws ?next"
      using True Cons.prems(2) by (auto simp: supports_def counted_def)
    ultimately show ?thesis using counted_mono [OF _ accept_witnesses_extends] by metis
  qed (use Cons in auto)
qed simp

lemma accept_signatures_complete:
  "s \<in> set ss \<Longrightarrow> w \<in> set ws \<Longrightarrow> supports H verify_strict msg s w \<Longrightarrow>
    counted (accept_signatures H verify_strict msg ws ss accepted) w"
proof (induction ss arbitrary: accepted)
  case (Cons t ss)
  show ?case
  proof (cases "t = s")
    case True
    then show ?thesis
      using Cons.prems counted_mono [OF accept_witnesses_complete accept_signatures_extends] by (auto simp: supports_def)
  qed (use Cons in auto)
qed simp

text \<open>C8. A witnessed head has the witnesses it claims: a checkpoint passes only if at least the
  required number of names are returned, pairwise distinct and held by pairwise distinct keys,
  each of a policy key that a signature line of the checkpoint supports over its body; and every
  policy key so supported is counted, under its own name or its own key.\<close>

theorem witness_threshold:
  assumes "verify_checkpoint b64enc H verify_strict cp ws required = Inr names"
  shows "\<exists>msg keys. body b64enc (checkpoint cp) = Inr msg \<and> required \<le> length names \<and>
    distinct names \<and> distinct keys \<and> length keys = length names \<and>
    (\<forall>(name, key) \<in> set (zip names keys). \<exists>s \<in> set (signatures cp). \<exists>w \<in> set ws.
      wit_name w = name \<and> wit_key w = key \<and> supports H verify_strict (utf8 msg) s w) \<and>
    (\<forall>s \<in> set (signatures cp). \<forall>w \<in> set ws. supports H verify_strict (utf8 msg) s w \<longrightarrow>
      wit_name w \<in> set names \<or> wit_key w \<in> set keys)"
proof -
  from assms obtain msg where msg: "body b64enc (checkpoint cp) = Inr msg"
    and acc: "names = map fst (accept_signatures H verify_strict (utf8 msg) ws (signatures cp) [])" "required \<le> length names"
    by (auto simp: verify_checkpoint_def Let_def)
  let ?acc = "accept_signatures H verify_strict (utf8 msg) ws (signatures cp) []"
  have snd: "sound_acceptance H verify_strict (utf8 msg) ws (signatures cp) ?acc"
    by (rule accept_signatures_sound) (simp_all add: sound_acceptance_def)
  have cmp: "wit_name w \<in> set names \<or> wit_key w \<in> set (map snd ?acc)"
    if "s \<in> set (signatures cp)" "w \<in> set ws" "supports H verify_strict (utf8 msg) s w" for s w
    using accept_signatures_complete [OF that, of "[]"] acc(1) by (force simp: counted_def)
  show ?thesis
    by (rule exI [of _ msg], rule exI [of _ "map snd ?acc"])
      (use msg acc snd cmp in \<open>auto simp: sound_acceptance_def zip_map_fst_snd\<close>)
qed

definition any_signature :: "bytes \<Rightarrow> bytes \<Rightarrow> bytes \<Rightarrow> bool" where
  "any_signature key msg sig \<longleftrightarrow> True"

definition witnessed_checkpoint :: signed_checkpoint where
  "witnessed_checkpoint = \<lparr>checkpoint = \<lparr>origin = [97], cp_size = 0, cp_root = replicate 32 0\<rparr>,
    signatures = [\<lparr>sig_name = [98], key_hash = note_key_hash pad_hash [98] [7], signature = replicate 64 0\<rparr>]\<rparr>"

theorem witness_threshold_witness:
  "verify_checkpoint demo_enc pad_hash any_signature witnessed_checkpoint [\<lparr>wit_name = [98], wit_key = [7]\<rparr>] 1 = Inr [[98]] \<and>
   (\<exists>msg. body demo_enc (checkpoint witnessed_checkpoint) = Inr msg \<and> 1 \<le> length [[98 :: nat]])"
proof
  show v: "verify_checkpoint demo_enc pad_hash any_signature witnessed_checkpoint [\<lparr>wit_name = [98], wit_key = [7]\<rparr>] 1 = Inr [[98]]"
    by (simp add: verify_checkpoint_def body_def witnessed_checkpoint_def utf8_def utf8_char_def MAX_NAME_BYTES_def
        any_signature_def)
  show "\<exists>msg. body demo_enc (checkpoint witnessed_checkpoint) = Inr msg \<and> 1 \<le> length [[98 :: nat]]"
    using witness_threshold [OF v] by blast
qed

text \<open>A signature made here counts there: whenever signing a checkpoint under a name succeeds,
  whatever it was signed with before, the result meets a policy of that one witness.\<close>

theorem signed_checkpoint_verifies:
  assumes ed: "\<forall>key msg. verify_strict (public_of key) msg (sign key msg) \<and> length (sign key msg) = 64"
    and s: "sign_checkpoint b64enc H public_of sign cp name key = Inr cp'"
  shows "verify_checkpoint b64enc H verify_strict cp' [\<lparr>wit_name = name, wit_key = public_of key\<rparr>] 1 = Inr [name]"
proof -
  let ?w = "\<lparr>wit_name = name, wit_key = public_of key\<rparr>"
  from s obtain msg where msg: "body b64enc (checkpoint cp') = Inr msg" and
    g: "\<lparr>sig_name = name, key_hash = note_key_hash H name (public_of key), signature = sign key (utf8 msg)\<rparr> \<in> set (signatures cp')"
    (is "?g \<in> _")
    by (auto simp: sign_checkpoint_def)
  have sup: "supports H verify_strict (utf8 msg) ?g ?w" using ed by (simp add: supports_def)
  let ?acc = "accept_signatures H verify_strict (utf8 msg) [?w] (signatures cp') []"
  have "sound_acceptance H verify_strict (utf8 msg) [?w] (signatures cp') ?acc"
    by (rule accept_signatures_sound) (simp_all add: sound_acceptance_def)
  then have "set ?acc \<subseteq> {(name, public_of key)}" "distinct (map fst ?acc)" by (auto simp: sound_acceptance_def)
  moreover have "?acc \<noteq> []"
    using accept_signatures_complete [OF g _ sup, of "[?w]" "[]"] by (auto simp: counted_def)
  ultimately have "?acc = [(name, public_of key)]"
    by (cases ?acc; cases "tl ?acc") auto
  then show ?thesis using msg by (simp add: verify_checkpoint_def)
qed

end
