(* ===== verification/Crc32c.thy ===== *)
theory Crc32c
  imports Vot_Prelude
begin

text \<open>
  CRC-32C (\<open>src/crates/vot-journal/src/crc32c.rs\<close>): the bitwise checksum on 32-bit words, its
  incremental form, and the combination of two checksums by repeated squaring of a matrix over
  GF(2). The combination is shown to give the checksum of the concatenated bytes.
\<close>

unbundle bit_operations_syntax

type_synonym u32 = "32 word"

definition CRC32C_EMPTY :: u32 where "CRC32C_EMPTY = 0"

definition crc_bit :: "u32 \<Rightarrow> u32" where
  "crc_bit running = drop_bit 1 running XOR (0x82f63b78 AND (0 - (running AND 1)))"

definition crc_byte :: "u32 \<Rightarrow> byte \<Rightarrow> u32" where
  "crc_byte running b = (crc_bit ^^ 8) (running XOR ucast b)"

definition crc32c_update :: "u32 \<Rightarrow> bytes \<Rightarrow> u32" where
  "crc32c_update crc bs = NOT (foldl crc_byte (NOT crc) bs)"

definition crc32c :: "bytes \<Rightarrow> u32" where
  "crc32c bs = crc32c_update CRC32C_EMPTY bs"

text \<open>A matrix is the list of its 32 columns.\<close>

definition apply_matrix :: "u32 list \<Rightarrow> u32 \<Rightarrow> u32" where
  "apply_matrix matrix vector =
    foldl (\<lambda>sum (index, column). if drop_bit index vector AND 1 \<noteq> 0 then sum XOR column else sum) 0
      (enumerate 0 matrix)"

definition square :: "u32 list \<Rightarrow> u32 list" where
  "square matrix = map (apply_matrix matrix) matrix"

definition one_bit :: "u32 list" where
  "one_bit = 0x82f63b78 # map (\<lambda>i. push_bit i 1) [0..<31]"

fun combine_loop :: "nat \<Rightarrow> u32 list \<Rightarrow> u32 \<Rightarrow> nat \<Rightarrow> u32" where
  "combine_loop 0 odd' advanced remaining = advanced"
| "combine_loop (Suc fuel) odd' advanced remaining =
    (if remaining = 0 then advanced
     else
       let even' = square odd' in
       combine_loop fuel even' (if remaining mod 2 \<noteq> 0 then apply_matrix even' advanced else advanced)
         (remaining div 2))"

definition crc32c_combine :: "u32 \<Rightarrow> u32 \<Rightarrow> nat \<Rightarrow> u32" where
  "crc32c_combine a b len_b =
    (if len_b = 0 then a
     else
       let even' = square one_bit;
           odd' = square even' in
       combine_loop 64 odd' a len_b XOR b)"

section \<open>Linearity\<close>

definition linear :: "(u32 \<Rightarrow> u32) \<Rightarrow> bool" where
  "linear f \<longleftrightarrow> (\<forall>a b. f (a XOR b) = f a XOR f b)"

lemma linear_comp: "linear f \<Longrightarrow> linear g \<Longrightarrow> linear (f \<circ> g)"
  by (simp add: linear_def)

lemma linear_funpow: "linear f \<Longrightarrow> linear (f ^^ n)"
  by (induction n) (simp_all add: linear_def)

lemma linear_0: "linear f \<Longrightarrow> f 0 = 0"
  unfolding linear_def by (metis xor_self_eq)

lemma crc_bit_eq: "crc_bit r = drop_bit 1 r XOR (if odd r then 0x82f63b78 else 0)"
  by (auto simp: crc_bit_def and_one_eq mod2_eq_if)

lemma linear_crc_bit: "linear crc_bit"
proof -
  have "odd (a XOR b) \<longleftrightarrow> odd a \<noteq> odd b" for a b :: u32
    by (simp add: even_xor_iff)
  then show ?thesis
    by (auto simp: linear_def crc_bit_eq drop_bit_xor ac_simps)
qed

section \<open>Combining checksums\<close>

lemma foldl_crc_byte_xor:
  "foldl crc_byte (s XOR t) bs = foldl crc_byte s bs XOR (crc_bit ^^ (8 * length bs)) t"
proof (induction bs arbitrary: s t)
  case (Cons b bs)
  have "crc_byte (s XOR t) b = crc_byte s b XOR (crc_bit ^^ 8) t"
    using linear_funpow [OF linear_crc_bit, of 8] by (simp add: crc_byte_def linear_def ac_simps)
  then have "foldl crc_byte (s XOR t) (b # bs) =
      foldl crc_byte (crc_byte s b) bs XOR (crc_bit ^^ (8 * length bs)) ((crc_bit ^^ 8) t)"
    by (simp add: Cons)
  also have "(crc_bit ^^ (8 * length bs)) ((crc_bit ^^ 8) t) = (crc_bit ^^ (8 * length (b # bs))) t"
    by (simp add: funpow_add [symmetric, THEN fun_cong, simplified] add.commute)
  finally show ?case by simp
qed simp

lemma crc32c_append: "crc32c (a @ b) = (crc_bit ^^ (8 * length b)) (crc32c a) XOR crc32c b"
proof -
  let ?s = "foldl crc_byte (NOT 0) a"
  have "?s = NOT 0 XOR crc32c a"
    by (simp add: crc32c_def crc32c_update_def CRC32C_EMPTY_def)
  then have "foldl crc_byte (NOT 0) (a @ b) = foldl crc_byte (NOT 0) b XOR (crc_bit ^^ (8 * length b)) (crc32c a)"
    using foldl_crc_byte_xor [of "NOT 0" "crc32c a" b] by simp
  then show ?thesis
    by (simp add: crc32c_def crc32c_update_def CRC32C_EMPTY_def ac_simps)
qed

lemma crc32c_update_append: "crc32c_update (crc32c_update c a) b = crc32c_update c (a @ b)"
  by (simp add: crc32c_update_def)

fun xor_columns :: "nat \<Rightarrow> u32 list \<Rightarrow> u32 \<Rightarrow> u32" where
  "xor_columns k [] v = 0"
| "xor_columns k (c # cs) v = (if bit v k then c else 0) XOR xor_columns (Suc k) cs v"

lemma and_one_bit: "drop_bit k (v :: u32) AND 1 \<noteq> 0 \<longleftrightarrow> bit v k"
  by (simp add: and_one_eq bit_iff_odd_drop_bit mod2_eq_if)

lemma apply_matrix_xor: "apply_matrix m v = xor_columns 0 m v"
proof -
  have "foldl (\<lambda>sum (index, column). if drop_bit index v AND 1 \<noteq> 0 then sum XOR column else sum) s (enumerate k m) =
      s XOR xor_columns k m v" for s k
    by (induction m arbitrary: s k) (simp_all add: and_one_bit xor.assoc)
  then show ?thesis by (simp add: apply_matrix_def)
qed

definition matrix_of :: "(u32 \<Rightarrow> u32) \<Rightarrow> u32 list" where
  "matrix_of f = map (\<lambda>i. f (push_bit i 1)) [0..<32]"

lemma take_bit_Suc_xor: "take_bit (Suc k) (v :: u32) = take_bit k v XOR (if bit v k then push_bit k 1 else 0)"
  by (rule bit_eqI) (auto simp: bit_take_bit_iff bit_xor_iff bit_exp_iff less_Suc_eq)

lemma xor_columns_snoc:
  "xor_columns k (cs @ [c]) v = xor_columns k cs v XOR (if bit v (k + length cs) then c else 0)"
  by (induction cs arbitrary: k) (simp_all add: ac_simps)

lemma xor_columns_linear:
  assumes "linear f"
  shows "xor_columns 0 (map (\<lambda>i. f (push_bit i 1)) [0..<k]) v = f (take_bit k v)"
proof (induction k)
  case 0
  then show ?case by (simp add: linear_0 [OF assms])
next
  case (Suc k)
  have "f (take_bit (Suc k) v) = f (take_bit k v) XOR (if bit v k then f (push_bit k 1) else 0)"
    using assms linear_0 [OF assms] by (simp add: take_bit_Suc_xor linear_def)
  then show ?case using Suc by (simp add: xor_columns_snoc)
qed

lemma apply_matrix_of: "linear f \<Longrightarrow> apply_matrix (matrix_of f) v = f v"
  using xor_columns_linear [of f 32 v] by (simp add: apply_matrix_xor matrix_of_def take_bit_word_eq_self)

lemma square_matrix_of: "linear f \<Longrightarrow> square (matrix_of f) = matrix_of (f \<circ> f)"
proof -
  assume "linear f"
  then have "square (matrix_of f) = map f (matrix_of f)" by (simp add: square_def apply_matrix_of)
  then show ?thesis by (simp add: matrix_of_def)
qed

lemma one_bit_matrix: "one_bit = matrix_of crc_bit"
proof (rule nth_equalityI)
  fix i assume "i < length one_bit"
  then have i: "i < 32" by (simp add: one_bit_def)
  show "one_bit ! i = matrix_of crc_bit ! i"
  proof (cases i)
    case 0
    then show ?thesis by (simp add: one_bit_def matrix_of_def crc_bit_eq drop_bit_Suc)
  next
    case (Suc j)
    have "drop_bit 1 (push_bit (Suc j) 1 :: u32) = push_bit j 1"
      using i Suc by (auto intro!: bit_eqI simp: bit_drop_bit_eq bit_exp_iff simp flip: power_Suc)
    then show ?thesis using i Suc by (simp add: one_bit_def matrix_of_def crc_bit_eq push_bit_Suc)
  qed
qed (simp add: one_bit_def matrix_of_def)

lemma combine_loop_correct:
  "linear f \<Longrightarrow> n < 2 ^ fuel \<Longrightarrow> combine_loop fuel (matrix_of f) a n = (f ^^ (2 * n)) a"
proof (induction fuel arbitrary: f a n)
  case (Suc fuel)
  let ?g = "f \<circ> f"
  have g: "linear ?g" using Suc.prems(1) by (simp add: linear_comp)
  have pow: "?g ^^ m = f ^^ (2 * m)" for m 
  proof -
    have "?g = f ^^ 2" by (simp add: numeral_2_eq_2)
    then show ?thesis by (simp only: funpow_mult)
  qed
  have "combine_loop fuel (matrix_of ?g) a' (n div 2) = (f ^^ (4 * (n div 2))) a'" for a'
  proof -
    have n: "n div 2 < 2 ^ fuel" using Suc.prems(2) by auto
    have q: "2 * (2 * (n div 2)) = 4 * (n div 2)" by simp
    show ?thesis using Suc.IH [OF g n, of a'] unfolding pow q .
  qed
  moreover have "(f ^^ (4 * (n div 2))) (f (f a)) = (f ^^ (2 * n)) a" if "n mod 2 = 1"
  proof -
    have "2 * n = 4 * (n div 2) + 2" using that by presburger
    then show ?thesis by (simp only: funpow_add) (simp add: numeral_2_eq_2)
  qed
  moreover have "(f ^^ (4 * (n div 2))) a = (f ^^ (2 * n)) a" if "n mod 2 = 0"
  proof -
    have "4 * (n div 2) = 2 * n" using that by presburger
    then show ?thesis by (simp only:)
  qed
  ultimately show ?case
    using Suc.prems(1) g by (simp add: square_matrix_of apply_matrix_of Let_def) 
qed simp

text \<open>C34. Combining is concatenating: the checksum computed from two checksums and the length of
  the second part, by at most 64 matrix squarings, is the checksum of the two parts in a row;
  the running checksum agrees as well.\<close>

theorem crc32c_combine_correct:
  assumes "length b \<le> u64_max"
  shows "crc32c_combine (crc32c a) (crc32c b) (length b) = crc32c (a @ b) \<and>
    crc32c_update (crc32c a) b = crc32c (a @ b)"
proof
  have l: "linear (crc_bit \<circ> crc_bit)" "linear ((crc_bit \<circ> crc_bit) \<circ> (crc_bit \<circ> crc_bit))"
    by (simp_all add: linear_comp linear_crc_bit)
  have e: "((crc_bit \<circ> crc_bit) \<circ> (crc_bit \<circ> crc_bit)) ^^ (2 * n) = crc_bit ^^ (8 * n)" for n
  proof -
    have "(crc_bit \<circ> crc_bit) \<circ> (crc_bit \<circ> crc_bit) = crc_bit ^^ 4" by (simp add: eval_nat_numeral fun_eq_iff)
    then show ?thesis by (simp add: funpow_mult)
  qed
  have "combine_loop 64 (square (square one_bit)) v (length b) = (crc_bit ^^ (8 * length b)) v" for v
    using combine_loop_correct [OF l(2), of "length b" 64 v] assms
    by (simp add: one_bit_matrix square_matrix_of linear_crc_bit l(1) e u64_max_def)
  then show "crc32c_combine (crc32c a) (crc32c b) (length b) = crc32c (a @ b)"
    by (simp add: crc32c_combine_def crc32c_append Let_def) (simp add: crc32c_def crc32c_update_def CRC32C_EMPTY_def)
  show "crc32c_update (crc32c a) b = crc32c (a @ b)"
    by (simp add: crc32c_def crc32c_update_append)
qed

theorem crc32c_combine_correct_witness:
  "crc32c_combine (crc32c [1, 2]) (crc32c [3]) 1 = crc32c [1, 2, 3] \<and> crc32c_update (crc32c [1, 2]) [3] = crc32c [1, 2, 3]"
  using crc32c_combine_correct [of "[3]" "[1, 2]"] by (simp add: u64_max_def)

end
