(* ===== verification/Journal.thy ===== *)
theory Journal
  imports Crc32c
begin

text \<open>
  The commit journal (\<open>src/crates/vot-journal/src/format.rs\<close>, \<open>io_impl.rs\<close>): the record
  format, the replay that recovers a journal, and the writer with its poisoning, repair and
  compaction.

  A file is what the device holds for certain (\<open>stable\<close>) followed by what was written and not
  yet synced (\<open>pending\<close>); a power loss keeps the former and some prefix of the latter, and may undo a
  truncation that was not synced. It may also undo a rename until the directory is synced, which
  neither opening nor appending does: only a compaction does, and the caller in
  \<open>src/crates/vot-sdk-file/src/capture.rs\<close> after opening. The device keeps the writes and truncations
  of one file in order. Each write, sync and rename takes its outcome as an argument, so every error
  path of the source is a branch. Claiming the lock, creating files and removing them are not modelled.
\<close>

unbundle bit_operations_syntax

datatype journal_error =
  JIo | JPoisoned | JPayloadTooLarge | JInvalidHeader | JChecksum | JSequenceGap
| JSequenceConflict | JStaleIncarnation | JInvalidState | JEmpty | JLocked | JTooLarge | JFull

section \<open>The record format\<close>

definition MAGIC :: bytes where "MAGIC = [0x56, 0x4f, 0x54, 0x4a]"
definition VERSION :: byte where "VERSION = 0"
definition HEADER_LEN :: nat where "HEADER_LEN = 4 + 1 + 16 + 8 + 1 + 4"
definition MAX_PAYLOAD :: nat where "MAX_PAYLOAD = 1048576"
definition CHECKPOINT_FLAG :: byte where "CHECKPOINT_FLAG = 0x80"
definition MAX_JOURNAL_BYTES :: nat where "MAX_JOURNAL_BYTES = 67108864"

record jrecord =
  incarnation :: bytes
  sequence :: nat
  rec_state :: byte
  payload :: bytes
  is_checkpoint :: bool

record jheader =
  h_incarnation :: bytes
  h_sequence :: nat
  h_state :: byte
  h_checkpoint :: bool
  h_payload_length :: nat

definition header_decode :: "bytes \<Rightarrow> journal_error + jheader" where
  "header_decode bs =
    (if take 4 bs \<noteq> MAGIC \<or> bs ! 4 \<noteq> VERSION then Inl JInvalidHeader
     else
       let encoded_state = bs ! 29 in
       Inr \<lparr>h_incarnation = take 16 (drop 5 bs),
            h_sequence = le_value (take 8 (drop 21 bs)),
            h_state = encoded_state AND NOT CHECKPOINT_FLAG,
            h_checkpoint = (encoded_state AND CHECKPOINT_FLAG \<noteq> 0),
            h_payload_length = le_value (take 4 (drop 30 bs))\<rparr>)"

definition header_encode :: "jheader \<Rightarrow> bytes" where
  "header_encode h =
    MAGIC @ [VERSION] @ h_incarnation h @ le_bytes 8 (h_sequence h) @
    [if h_checkpoint h then h_state h + CHECKPOINT_FLAG else h_state h] @
    le_bytes 4 (h_payload_length h mod 2 ^ 32)"

definition encode_record :: "jrecord \<Rightarrow> journal_error + bytes" where
  "encode_record r =
    (if MAX_PAYLOAD < length (payload r) then Inl JPayloadTooLarge
     else if rec_state r AND CHECKPOINT_FLAG \<noteq> 0 then Inl JInvalidState
     else
       let header = \<lparr>h_incarnation = incarnation r, h_sequence = sequence r, h_state = rec_state r,
                     h_checkpoint = is_checkpoint r, h_payload_length = length (payload r)\<rparr>;
           bs = header_encode header @ payload r in
       Inr (bs @ le_bytes 4 (unat (crc32c bs))))"

section \<open>Replay\<close>

record replay =
  records :: "jrecord list"
  torn_tail :: bool
  valid_bytes :: nat

definition successor :: "nat \<Rightarrow> journal_error + nat" where
  "successor s = ok_or (checked_add s 1) JSequenceGap"

definition next_sequence_after :: "jrecord option \<Rightarrow> journal_error + nat" where
  "next_sequence_after r = (case r of None \<Rightarrow> Inr 0 | Some r \<Rightarrow> successor (sequence r))"

definition last_record :: "jrecord list \<Rightarrow> jrecord option" where
  "last_record rs = (if rs = [] then None else Some (last rs))"

text \<open>What replay does with a record that reads back: keep it, skip it as a repeat of the last
  one, or refuse the journal.\<close>

definition admit :: "jrecord list \<Rightarrow> jrecord \<Rightarrow> journal_error + jrecord list" where
  "admit rs r =
    (case last_record rs of
       Some previous \<Rightarrow>
         if sequence r = sequence previous then (if r \<noteq> previous then Inl JSequenceConflict else Inr rs)
         else if successor (sequence previous) \<noteq> Inr (sequence r) then Inl JSequenceGap
         else Inr (rs @ [r])
     | None \<Rightarrow> if sequence r = 0 \<or> is_checkpoint r then Inr (rs @ [r]) else Inl JSequenceGap)"

function replay_loop ::
  "bytes \<Rightarrow> bytes \<Rightarrow> nat \<Rightarrow> jrecord list \<Rightarrow> journal_error + replay" where
  "replay_loop bs current offset rs =
    (if offset < length bs then
       if length bs - offset < HEADER_LEN + 4 then
         Inr \<lparr>records = rs, torn_tail = True, valid_bytes = offset\<rparr>
       else
         and_then (header_decode (take HEADER_LEN (drop offset bs))) (\<lambda>header.
         if h_incarnation header \<noteq> current then Inl JStaleIncarnation
         else if MAX_PAYLOAD < h_payload_length header then Inl JPayloadTooLarge
         else
           let record_end = offset + (HEADER_LEN + h_payload_length header + 4) in
           if u64_max < record_end then Inl JPayloadTooLarge
           else if length bs < record_end then
             Inr \<lparr>records = rs, torn_tail = True, valid_bytes = offset\<rparr>
           else
             let checksum_at = record_end - 4;
                 expected = le_value (take 4 (drop checksum_at bs)) in
             if unat (crc32c (take (checksum_at - offset) (drop offset bs))) \<noteq> expected then Inl JChecksum
             else
               let r = \<lparr>incarnation = h_incarnation header, sequence = h_sequence header,
                        rec_state = h_state header,
                        payload = take (checksum_at - (offset + HEADER_LEN)) (drop (offset + HEADER_LEN) bs),
                        is_checkpoint = h_checkpoint header\<rparr> in
               and_then (admit rs r) (\<lambda>rs'. replay_loop bs current record_end rs'))
     else Inr \<lparr>records = rs, torn_tail = False, valid_bytes = offset\<rparr>)"
  by pat_completeness auto

termination
  by (relation "measure (\<lambda>(bs, current, offset, rs). length bs - offset)")
    (auto simp: HEADER_LEN_def)

declare replay_loop.simps [simp del]

definition replay_reader :: "bytes \<Rightarrow> bytes \<Rightarrow> journal_error + replay" where
  "replay_reader content current =
    (let bs = take (MAX_JOURNAL_BYTES + 1) content in
     if MAX_JOURNAL_BYTES < length bs then Inl JTooLarge
     else replay_loop bs current 0 [])"

section \<open>The writer\<close>

text \<open>What the device does with a file: \<open>set_len\<close> cuts it to at most its length. A cut that is not synced
  may be undone by a power loss, together with everything written after it.\<close>

record disk =
  stable :: bytes
  pending :: bytes
  undone :: "bytes list"

definition new_file :: "bytes \<Rightarrow> disk" where
  "new_file bs = \<lparr>stable = bs, pending = [], undone = []\<rparr>"

definition contents :: "disk \<Rightarrow> bytes" where
  "contents d = stable d @ pending d"

definition write_all :: "bytes \<Rightarrow> disk \<Rightarrow> disk" where
  "write_all bs d = d\<lparr>pending := pending d @ bs\<rparr>"

definition sync_data :: "disk \<Rightarrow> disk" where
  "sync_data d = new_file (contents d)"

definition set_len :: "nat \<Rightarrow> disk \<Rightarrow> disk" where
  "set_len n d =
    (let left = take n (stable d) in
     \<lparr>stable = left, pending = drop (length (stable d)) (take n (contents d)),
      undone = map (\<lambda>tail. drop (length left) (stable d @ tail)) (pending d # undone d)\<rparr>)"

text \<open>\<open>displaced\<close> is the file now found under the journal's name, where that is no longer the file
  this handle holds. \<open>reverts\<close> are the files the name had before renames that were not followed by a
  sync of the directory: a power loss may bring any of them back.\<close>

record journal =
  jfile :: disk
  jbytes :: nat
  displaced :: "disk option"
  reverts :: "disk list"
  j_incarnation :: bytes
  next_sequence :: nat
  poisoned :: bool

definition create :: "bytes \<Rightarrow> journal" where
  "create inc = \<lparr>jfile = new_file [], jbytes = 0, displaced = None, reverts = [],
    j_incarnation = inc, next_sequence = 0, poisoned = False\<rparr>"

definition grown_within_ceiling :: "nat \<Rightarrow> nat \<Rightarrow> journal_error + nat" where
  "grown_within_ceiling bs added =
    and_then (ok_or (checked_add bs added) JFull) (\<lambda>grown.
      if MAX_JOURNAL_BYTES < grown then Inl JFull else Inr grown)"

text \<open>Opening the file \<open>d\<close> of a directory whose unsynced renames left \<open>olds\<close> behind: replay, then cut a
  torn tail off and sync the cut. The directory is not synced. The file is returned too, because a
  sync that fails leaves it cut.\<close>

definition open_current :: "bool \<Rightarrow> disk \<Rightarrow> disk list \<Rightarrow> bytes \<Rightarrow> disk \<times> (journal_error + journal \<times> replay)" where
  "open_current synced d olds inc =
    (case replay_reader (contents d) inc of Inl e \<Rightarrow> (d, Inl e) | Inr r \<Rightarrow>
     case next_sequence_after (last_record (records r)) of Inl e \<Rightarrow> (d, Inl e) | Inr n \<Rightarrow>
     if torn_tail r \<and> \<not> synced then (set_len (valid_bytes r) d, Inl JIo)
     else
       let d' = (if torn_tail r then sync_data (set_len (valid_bytes r) d) else d) in
       (d', Inr (\<lparr>jfile = d', jbytes = length (contents d'), displaced = None, reverts = olds, j_incarnation = inc,
                  next_sequence = n, poisoned = False\<rparr>, r)))"

text \<open>A write followed by a sync either completes, or fails after some bytes have landed.\<close>

datatype write_io = Landed | Torn nat

definition append_durable :: "write_io \<Rightarrow> journal \<Rightarrow> byte \<Rightarrow> bytes \<Rightarrow> journal \<times> (journal_error + nat)" where
  "append_durable io j s p =
    (if poisoned j then (j, Inl JPoisoned)
     else if MAX_PAYLOAD < length p then (j, Inl JPayloadTooLarge)
     else if s AND CHECKPOINT_FLAG \<noteq> 0 then (j, Inl JInvalidState)
     else
       case successor (next_sequence j) of Inl e \<Rightarrow> (j, Inl e) | Inr following \<Rightarrow>
       case encode_record \<lparr>incarnation = j_incarnation j, sequence = next_sequence j, rec_state = s,
                           payload = p, is_checkpoint = False\<rparr> of
         Inl e \<Rightarrow> (j, Inl e)
       | Inr encoded \<Rightarrow>
           case grown_within_ceiling (jbytes j) (length encoded) of Inl e \<Rightarrow> (j, Inl e) | Inr grown \<Rightarrow>
           case io of
             Torn n \<Rightarrow> (j\<lparr>jfile := write_all (take n encoded) (jfile j), poisoned := True\<rparr>, Inl JIo)
           | Landed \<Rightarrow>
               (j\<lparr>jfile := sync_data (write_all encoded (jfile j)), jbytes := grown, next_sequence := following\<rparr>,
                Inr (next_sequence j)))"

definition sync_replay :: "bool \<Rightarrow> journal \<Rightarrow> journal \<times> (journal_error + unit)" where
  "sync_replay synced j =
    (if poisoned j then (j, Inl JPoisoned)
     else if synced then (j\<lparr>jfile := sync_data (jfile j)\<rparr>, Inr ())
     else (j, Inl JIo))"

text \<open>What disk capture does after opening its journal: the file, then the directory.\<close>

definition sync_recovery_journal :: "bool \<Rightarrow> bool \<Rightarrow> journal \<Rightarrow> journal \<times> (journal_error + unit)" where
  "sync_recovery_journal synced parent_synced j =
    (case sync_replay synced j of
      (j', Inl e) \<Rightarrow> (j', Inl e)
    | (j', Inr u) \<Rightarrow> if parent_synced then (j'\<lparr>reverts := []\<rparr>, Inr ()) else (j', Inl JIo))"

definition repair_poisoned :: "bool \<Rightarrow> journal \<Rightarrow> journal \<times> (journal_error + replay)" where
  "repair_poisoned synced j =
    (if \<not> poisoned j then (j, Inl JInvalidState)
     else if displaced j \<noteq> None then (j, Inl JInvalidState)
     else
       case replay_reader (contents (jfile j)) (j_incarnation j) of Inl e \<Rightarrow> (j, Inl e) | Inr r \<Rightarrow>
       let cut = (if torn_tail r then set_len (valid_bytes r) (jfile j) else jfile j) in
       if \<not> synced then (j\<lparr>jfile := cut\<rparr>, Inl JIo)
       else
         let d = sync_data cut in
         case next_sequence_after (last_record (records r)) of
           Inl e \<Rightarrow> (j\<lparr>jfile := d\<rparr>, Inl e)
         | Inr n \<Rightarrow>
             (j\<lparr>jfile := d, jbytes := length (contents d), next_sequence := n, poisoned := False\<rparr>, Inr r))"

text \<open>A compaction fails before its rename, or in the rename, which may still have landed, or in the
  sync of the directory, or in reading the replacement back, or not at all.\<close>

datatype compact_io = Early | Rename bool | SyncParent | Reread | Finished

definition finish_compaction :: "compact_io \<Rightarrow> journal \<Rightarrow> disk \<Rightarrow> nat \<Rightarrow> journal \<times> (journal_error + unit)" where
  "finish_compaction io j replacement n =
    (if io = SyncParent then (j, Inl JIo)
     else
       let j = j\<lparr>reverts := []\<rparr> in
       if io = Reread then (j, Inl JIo)
       else
         case replay_reader (contents replacement) (j_incarnation j) of Inl e \<Rightarrow> (j, Inl e) | Inr replayed \<Rightarrow>
         if torn_tail replayed \<or> length (records replayed) \<noteq> 1 then (j, Inl JInvalidHeader)
         else
           (j\<lparr>jfile := replacement, jbytes := length (contents replacement), displaced := None,
              next_sequence := n, poisoned := False\<rparr>, Inr ()))"

definition compact_checkpoint ::
  "compact_io \<Rightarrow> journal \<Rightarrow> byte \<Rightarrow> bytes \<Rightarrow> journal \<times> (journal_error + unit)" where
  "compact_checkpoint io j s p =
    (if poisoned j then (j, Inl JPoisoned)
     else if s AND CHECKPOINT_FLAG \<noteq> 0 then (j, Inl JInvalidState)
     else if MAX_PAYLOAD < length p then (j, Inl JPayloadTooLarge)
     else
       case checked_sub (next_sequence j) 1 of None \<Rightarrow> (j, Inl JEmpty) | Some sequence' \<Rightarrow>
       case encode_record \<lparr>incarnation = j_incarnation j, sequence = sequence', rec_state = s,
                           payload = p, is_checkpoint = True\<rparr> of
         Inl e \<Rightarrow> (j, Inl e)
       | Inr encoded \<Rightarrow>
           let replacement = new_file encoded;
               moved = j\<lparr>displaced := Some replacement, reverts := jfile j # reverts j\<rparr> in
           case io of
             Early \<Rightarrow> (j, Inl JIo)
           | Rename landed \<Rightarrow> ((if landed then moved else j)\<lparr>poisoned := True\<rparr>, Inl JIo)
           | _ \<Rightarrow>
               case finish_compaction io moved replacement (next_sequence j) of
                 (j', Inl e) \<Rightarrow> (j'\<lparr>poisoned := True\<rparr>, Inl e)
               | (j', Inr u) \<Rightarrow> (j', Inr ()))"

section \<open>Reading back what was written\<close>

definition wf_record :: "bytes \<Rightarrow> jrecord \<Rightarrow> bool" where
  "wf_record inc r \<longleftrightarrow> incarnation r = inc \<and> length inc = 16 \<and> sequence r < u64_max \<and>
    rec_state r AND CHECKPOINT_FLAG = 0 \<and> length (payload r) \<le> MAX_PAYLOAD"

definition header_of :: "jrecord \<Rightarrow> jheader" where
  "header_of r = \<lparr>h_incarnation = incarnation r, h_sequence = sequence r, h_state = rec_state r,
    h_checkpoint = is_checkpoint r, h_payload_length = length (payload r)\<rparr>"

definition rec_body :: "jrecord \<Rightarrow> bytes" where
  "rec_body r = header_encode (header_of r) @ payload r"

definition rec_bytes :: "jrecord \<Rightarrow> bytes" where
  "rec_bytes r = rec_body r @ le_bytes 4 (unat (crc32c (rec_body r)))"

lemma encode_record_iff:
  "encode_record r = Inr bs \<longleftrightarrow>
    length (payload r) \<le> MAX_PAYLOAD \<and> rec_state r AND CHECKPOINT_FLAG = 0 \<and> bs = rec_bytes r"
  by (auto simp: encode_record_def rec_bytes_def rec_body_def header_of_def Let_def)

lemma length_header_encode: "length (h_incarnation h) = 16 \<Longrightarrow> length (header_encode h) = HEADER_LEN"
  by (simp add: header_encode_def MAGIC_def HEADER_LEN_def)

lemma flag_bit: "bit (CHECKPOINT_FLAG) n \<longleftrightarrow> n = 7"
proof -
  have f: "CHECKPOINT_FLAG = 2 ^ 7" by (simp add: CHECKPOINT_FLAG_def)
  show ?thesis unfolding f bit_exp_iff by auto
qed

lemma flag_set:
  assumes "s AND CHECKPOINT_FLAG = 0"
  shows "(s + CHECKPOINT_FLAG) AND NOT CHECKPOINT_FLAG = s" "(s + CHECKPOINT_FLAG) AND CHECKPOINT_FLAG \<noteq> 0"
    "s AND NOT CHECKPOINT_FLAG = s"
proof -
  have s: "\<not> bit s 7" using arg_cong [OF assms, of "\<lambda>w. bit w 7"] by (simp add: bit_and_iff flag_bit)
  have or: "s + CHECKPOINT_FLAG = s OR CHECKPOINT_FLAG"
    by (rule disjunctive_add) (use s in \<open>auto simp: flag_bit\<close>)
  show "(s + CHECKPOINT_FLAG) AND NOT CHECKPOINT_FLAG = s" "s AND NOT CHECKPOINT_FLAG = s"
    unfolding or by (rule bit_eqI; use s in \<open>auto simp: bit_simps flag_bit\<close>)+
  have "bit ((s + CHECKPOINT_FLAG) AND CHECKPOINT_FLAG) 7" unfolding or by (simp add: bit_simps flag_bit)
  then show "(s + CHECKPOINT_FLAG) AND CHECKPOINT_FLAG \<noteq> 0" by auto
qed

lemma header_roundtrip:
  assumes "wf_record inc r"
  shows "header_decode (header_encode (header_of r)) = Inr (header_of r)"
proof -
  have w: "length (incarnation r) = 16" "sequence r < 2 ^ 64" "rec_state r AND CHECKPOINT_FLAG = 0"
    "length (payload r) < 2 ^ 32"
    using assms by (auto simp: wf_record_def u64_max_def MAX_PAYLOAD_def)
  then show ?thesis
    using flag_set [OF w(3)]
    by (auto simp: header_decode_def header_encode_def header_of_def MAGIC_def Let_def nth_append
        le_value_le_bytes_exact)
qed


lemma length_rec_bytes: "wf_record inc r \<Longrightarrow> length (rec_bytes r) = HEADER_LEN + length (payload r) + 4"
  by (simp add: rec_bytes_def rec_body_def length_header_encode header_of_def wf_record_def)

lemma crc_fits: "unat (c :: u32) < 256 ^ 4"
  using unsigned_less [of c, where 'a = nat] by simp

lemma rec_bytes_header:
  "wf_record inc r \<Longrightarrow> HEADER_LEN \<le> n \<Longrightarrow> take HEADER_LEN (take n (rec_bytes r) @ rest) = header_encode (header_of r)"
  using length_rec_bytes [of inc r] length_header_encode [of "header_of r"]
  by (simp add: rec_bytes_def rec_body_def wf_record_def header_of_def min_absorb1)

lemma replay_step:
  assumes r: "wf_record inc r" and fits: "length bs \<le> MAX_JOURNAL_BYTES"
    and bs: "bs = pre @ rec_bytes r @ rest"
  shows "replay_loop bs inc (length pre) rs =
    and_then (admit rs r) (\<lambda>rs'. replay_loop bs inc (length (pre @ rec_bytes r)) rs')"
proof -
  let ?fin = "length pre + (HEADER_LEN + length (payload r) + 4)"
  have len: "length (rec_bytes r) = HEADER_LEN + length (payload r) + 4" by (rule length_rec_bytes [OF r])
  have body: "length (rec_body r) = HEADER_LEN + length (payload r)" "length (header_encode (header_of r)) = HEADER_LEN"
    using r by (simp_all add: rec_body_def length_header_encode header_of_def wf_record_def)
  have h: "header_decode (take HEADER_LEN (drop (length pre) bs)) = Inr (header_of r)"
    using header_roundtrip [OF r] rec_bytes_header [OF r, of "length (rec_bytes r)" rest] len bs by simp
  have crc: "take (?fin - 4 - length pre) (drop (length pre) bs) = rec_body r"
    "take 4 (drop (?fin - 4) bs) = le_bytes 4 (unat (crc32c (rec_body r)))"
    using body bs by (simp_all add: rec_bytes_def)
  have pay: "take (?fin - 4 - (length pre + HEADER_LEN)) (drop (length pre + HEADER_LEN) bs) = payload r"
    using body bs by (simp add: rec_bytes_def rec_body_def)
  have ends: "?fin \<le> u64_max" "?fin \<le> length bs" "length pre < length bs" "\<not> length bs - length pre < HEADER_LEN + 4"
    using bs len fits by (auto simp: u64_max_def MAX_JOURNAL_BYTES_def HEADER_LEN_def)
  have rec: "\<lparr>incarnation = inc, sequence = sequence r, rec_state = rec_state r, payload = payload r,
      is_checkpoint = is_checkpoint r\<rparr> = r" using r by (simp add: wf_record_def)
  show ?thesis
    using h crc pay ends r len
    by (subst replay_loop.simps)
      (simp add: rec header_of_def wf_record_def Let_def le_value_le_bytes_exact [OF crc_fits])
qed

definition partial :: "bytes \<Rightarrow> bytes \<Rightarrow> bool" where
  "partial inc part \<longleftrightarrow> part = [] \<or> (\<exists>r n. wf_record inc r \<and> n < length (rec_bytes r) \<and> part = take n (rec_bytes r))"

lemma replay_stop:
  assumes "partial inc part" and fits: "length (pre @ part) \<le> MAX_JOURNAL_BYTES"
  shows "replay_loop (pre @ part) inc (length pre) rs =
    Inr \<lparr>records = rs, torn_tail = (part \<noteq> []), valid_bytes = length pre\<rparr>"
proof (cases "length part < HEADER_LEN + 4")
  case True
  then show ?thesis by (subst replay_loop.simps) simp
next
  case False
  then have "part \<noteq> []" by (auto simp: HEADER_LEN_def)
  with assms(1) obtain r n where r: "wf_record inc r" "n < length (rec_bytes r)" "part = take n (rec_bytes r)"
    by (auto simp: partial_def)
  have n: "length part = n" "HEADER_LEN \<le> n" using r False by auto
  have h: "header_decode (take HEADER_LEN (drop (length pre) (pre @ part))) = Inr (header_of r)"
    using header_roundtrip [OF r(1)] rec_bytes_header [OF r(1) n(2), of "[]"] r(3) by simp
  have e: "\<not> u64_max < length pre + (HEADER_LEN + length (payload r) + 4)"
    using r(1) fits by (simp add: wf_record_def u64_max_def MAX_JOURNAL_BYTES_def HEADER_LEN_def MAX_PAYLOAD_def)
  show ?thesis
    using h r(1) e n False \<open>part \<noteq> []\<close> r(2) length_rec_bytes [OF r(1)]
    by (subst replay_loop.simps) (simp add: header_of_def wf_record_def Let_def)
qed


section \<open>Replaying a journal and its prefixes\<close>

definition encs :: "jrecord list \<Rightarrow> bytes" where
  "encs rs = concat (map rec_bytes rs)"

lemma encs_simps [simp]:
  "encs [] = []" "encs (r # rs) = rec_bytes r @ encs rs" "encs (rs @ rs') = encs rs @ encs rs'"
  by (simp_all add: encs_def)

text \<open>A journal opens at sequence zero or at a checkpoint, and counts up from there.\<close>

definition chain :: "bytes \<Rightarrow> jrecord list \<Rightarrow> bool" where
  "chain inc rs \<longleftrightarrow> (\<forall>r \<in> set rs. wf_record inc r) \<and>
    (rs = [] \<or> sequence (hd rs) = 0 \<or> is_checkpoint (hd rs)) \<and>
    successively (\<lambda>a b. sequence b = Suc (sequence a)) rs"

lemma chain_prefix: "chain inc (rs @ rs') \<Longrightarrow> chain inc rs"
  by (cases "rs = []") (auto simp: chain_def successively_append_iff)

lemma chain_snoc:
  "chain inc (rs @ [r]) \<longleftrightarrow> chain inc rs \<and> wf_record inc r \<and>
    (if rs = [] then sequence r = 0 \<or> is_checkpoint r else sequence r = Suc (sequence (last rs)))"
  by (cases "rs = []") (auto simp: chain_def successively_append_iff)

lemma admit_chain: "chain inc (rs @ [r]) \<Longrightarrow> admit rs r = Inr (rs @ [r])"
  by (auto simp: chain_snoc admit_def last_record_def successor_def wf_record_def split: if_splits)

lemma replay_loop_chain:
  "\<lbrakk>chain inc (done @ rs); partial inc part; length (encs (done @ rs) @ part) \<le> MAX_JOURNAL_BYTES\<rbrakk> \<Longrightarrow>
    replay_loop (encs (done @ rs) @ part) inc (length (encs done)) done =
    Inr \<lparr>records = done @ rs, torn_tail = (part \<noteq> []), valid_bytes = length (encs (done @ rs))\<rparr>"
proof (induction rs arbitrary: \<open>done\<close>)
  case Nil
  then show ?case using replay_stop [of inc part "encs done"] by simp
next
  case (Cons r rs)
  have c: "chain inc ((done @ [r]) @ rs)" using Cons.prems(1) by simp
  have w: "wf_record inc r" using Cons.prems(1) by (simp add: chain_def)
  have "replay_loop (encs (done @ r # rs) @ part) inc (length (encs done)) done =
      replay_loop (encs (done @ r # rs) @ part) inc (length (encs (done @ [r]))) (done @ [r])"
    using replay_step [OF w Cons.prems(3), of "encs done" "encs rs @ part" "done"] admit_chain [OF chain_prefix [OF c]] by simp
  then show ?case using Cons.IH [OF c Cons.prems(2)] Cons.prems(3) by simp
qed

lemma replay_chain:
  assumes "chain inc rs" "partial inc part" "length (encs rs @ part) \<le> MAX_JOURNAL_BYTES"
  shows "replay_reader (encs rs @ part) inc =
    Inr \<lparr>records = rs, torn_tail = (part \<noteq> []), valid_bytes = length (encs rs)\<rparr>"
  using replay_loop_chain [of inc "[]" rs part] assms by (simp add: replay_reader_def)

lemma partial_take: "wf_record inc r \<Longrightarrow> n < length (rec_bytes r) \<Longrightarrow> partial inc (take n (rec_bytes r))"
  by (auto simp: partial_def)

lemma partial_shorter: "partial inc part \<Longrightarrow> partial inc (take n part)"
proof -
  assume "partial inc part"
  then consider "part = []" | r k where "wf_record inc r" "k < length (rec_bytes r)" "part = take k (rec_bytes r)"
    by (auto simp: partial_def)
  then show ?thesis
  proof cases
    case 2
    then have "take n part = take (min n k) (rec_bytes r)" "min n k < length (rec_bytes r)" by simp_all
    then show ?thesis using partial_take [OF 2(1)] by metis
  qed (simp add: partial_def)
qed

lemma take_encs:
  assumes "\<forall>r \<in> set rs. wf_record inc r" "partial inc part"
  obtains k part' where "take n (encs rs @ part) = encs (take k rs) @ part'" "partial inc part'"
  using assms
proof (induction rs arbitrary: n thesis)
  case Nil
  then show ?case using partial_shorter [of inc part n] Nil.prems(1) [of 0 "take n part"] by simp
next
  case (Cons r rs)
  show ?case
  proof (cases "n < length (rec_bytes r)")
    case True
    then show ?thesis using Cons.prems(1) [of 0 "take n (rec_bytes r)"] Cons.prems(2) partial_take by simp
  next
    case False
    obtain k part' where "take (n - length (rec_bytes r)) (encs rs @ part) = encs (take k rs) @ part'" "partial inc part'"
      using Cons.IH [of "n - length (rec_bytes r)"] Cons.prems(2,3) by auto
    then show ?thesis using Cons.prems(1) [of "Suc k" part'] False by simp
  qed
qed

section \<open>Runs of a journal\<close>

text \<open>A run tracks, beside the journal, the records its callers were told are durable (\<open>told\<close>), those
  they had been told when the directory was last in sync (\<open>facts\<close>), and those they asked for
  (\<open>asked\<close>).\<close>

definition next_record :: "journal \<Rightarrow> byte \<Rightarrow> bytes \<Rightarrow> jrecord" where
  "next_record j s p = \<lparr>incarnation = j_incarnation j, sequence = next_sequence j, rec_state = s,
    payload = p, is_checkpoint = False\<rparr>"

definition checkpoint_record :: "journal \<Rightarrow> byte \<Rightarrow> bytes \<Rightarrow> jrecord" where
  "checkpoint_record j s p = \<lparr>incarnation = j_incarnation j, sequence = next_sequence j - 1, rec_state = s,
    payload = p, is_checkpoint = True\<rparr>"

definition readable :: "journal \<Rightarrow> jrecord set" where
  "readable j = (case replay_reader (contents (jfile j)) (j_incarnation j) of Inl e \<Rightarrow> {} | Inr r \<Rightarrow> set (records r))"

definition named :: "journal \<Rightarrow> disk" where
  "named j = (case displaced j of None \<Rightarrow> jfile j | Some d \<Rightarrow> d)"

definition after_crash :: "disk \<Rightarrow> bytes \<Rightarrow> nat \<Rightarrow> disk" where
  "after_crash d tail n = new_file (stable d @ take n tail)"

text \<open>What the next opening finds under the journal's name, and the files that unsynced renames left
  behind. The process may have died, openings may have failed and, which the flag tells, power may
  have been lost. A power loss keeps what was synced, any part of what was written after it or cut
  since, and any name the directory had since it was synced.\<close>

inductive found :: "bytes \<Rightarrow> journal \<Rightarrow> bool \<Rightarrow> disk \<Rightarrow> disk list \<Rightarrow> bool" where
  found_restart: "found inc j False (named j) (reverts j)"
| found_failed_open: "found inc j lost d olds \<Longrightarrow> open_current False d olds inc = (d', Inl e) \<Longrightarrow> found inc j lost d' olds"
| found_power_loss: "found inc j lost d olds \<Longrightarrow> d' \<in> set (d # olds) \<Longrightarrow> tail \<in> set (pending d' # undone d') \<Longrightarrow>
    found inc j True (after_crash d' tail n) []"

definition durable :: "journal \<Rightarrow> jrecord set \<Rightarrow> jrecord set \<Rightarrow> jrecord set" where
  "durable j told facts = (if reverts j = [] then told else facts)"

inductive journal_run :: "bytes \<Rightarrow> journal \<Rightarrow> jrecord set \<Rightarrow> jrecord set \<Rightarrow> jrecord set \<Rightarrow> bool" where
  run_create: "length inc = 16 \<Longrightarrow> journal_run inc (create inc) {} {} {}"
| run_append: "journal_run inc j told facts asked \<Longrightarrow> append_durable io j s p = (j', res) \<Longrightarrow>
    told' = (if res = Inr (next_sequence j) then insert (next_record j s p) told else told) \<Longrightarrow>
    journal_run inc j' told' (durable j' told' facts) (insert (next_record j s p) asked)"
| run_compact: "journal_run inc j told facts asked \<Longrightarrow> compact_checkpoint cio j s p = (j', cres) \<Longrightarrow>
    told' = (if cres = Inr () then insert (checkpoint_record j s p) told else told) \<Longrightarrow>
    journal_run inc j' told' (durable j' told' facts) (insert (checkpoint_record j s p) asked)"
| run_sync: "journal_run inc j told facts asked \<Longrightarrow> sync_replay synced j = (j', sres) \<Longrightarrow>
    told' = (if sres = Inr () then told \<union> readable j else told) \<Longrightarrow>
    journal_run inc j' told' (durable j' told' facts) asked"
| run_recover: "journal_run inc j told facts asked \<Longrightarrow> sync_recovery_journal synced parent_synced j = (j', sres) \<Longrightarrow>
    told' = (if sres = Inr () then told \<union> readable j else told) \<Longrightarrow>
    journal_run inc j' told' (durable j' told' facts) asked"
| run_repair: "journal_run inc j told facts asked \<Longrightarrow> repair_poisoned synced j = (j', rres) \<Longrightarrow>
    told' = (case rres of Inl e \<Rightarrow> told | Inr r \<Rightarrow> told \<union> set (records r)) \<Longrightarrow>
    journal_run inc j' told' (durable j' told' facts) asked"
| run_open: "journal_run inc j told facts asked \<Longrightarrow> found inc j lost d olds \<Longrightarrow>
    open_current synced d olds inc = (d', Inr (j', r)) \<Longrightarrow>
    journal_run inc j' (if lost then facts else told) facts asked"

text \<open>A fact is kept by a journal that still holds it, or that has folded it into a checkpoint.\<close>

definition kept :: "jrecord set \<Rightarrow> jrecord list \<Rightarrow> bool" where
  "kept facts rs \<longleftrightarrow> (\<forall>f \<in> facts. f \<in> set rs \<or> (\<exists>c \<in> set rs. is_checkpoint c \<and> sequence f \<le> sequence c))"

lemma kept_append: "kept facts rs \<Longrightarrow> kept facts (rs @ rs')"
  by (auto simp: kept_def)

lemma kept_mono: "kept facts rs \<Longrightarrow> facts' \<subseteq> facts \<Longrightarrow> kept facts' rs"
  by (auto simp: kept_def)

text \<open>An image of a file is a chain of records and at most part of another. A file that is well keeps
  its facts in records that are synced, and whatever it may be after a power loss is an image that
  goes on from these.\<close>

definition image_ok :: "bytes \<Rightarrow> jrecord set \<Rightarrow> bytes \<Rightarrow> jrecord list \<Rightarrow> bytes \<Rightarrow> bool" where
  "image_ok inc asked bs rs part \<longleftrightarrow> bs = encs rs @ part \<and> chain inc rs \<and> partial inc part \<and>
    length bs \<le> MAX_JOURNAL_BYTES \<and> set rs \<subseteq> asked"

definition disk_ok :: "bytes \<Rightarrow> jrecord set \<Rightarrow> jrecord set \<Rightarrow> disk \<Rightarrow> jrecord list \<Rightarrow> jrecord list \<Rightarrow> bytes \<Rightarrow> bool" where
  "disk_ok inc facts asked d rs rs' part \<longleftrightarrow> image_ok inc asked (contents d) (rs @ rs') part \<and>
    length (encs rs) \<le> length (stable d) \<and> kept facts rs \<and>
    (\<forall>tail \<in> set (undone d). \<exists>extra rest. image_ok inc asked (stable d @ tail) (rs @ extra) rest)"

definition well :: "bytes \<Rightarrow> jrecord set \<Rightarrow> jrecord set \<Rightarrow> disk \<Rightarrow> bool" where
  "well inc facts asked d \<longleftrightarrow> (\<exists>rs rs' part. disk_ok inc facts asked d rs rs' part)"

definition next_after :: "jrecord list \<Rightarrow> nat" where
  "next_after rs = (if rs = [] then 0 else Suc (sequence (last rs)))"

definition live_ok where
  "live_ok inc told asked j rs rs' \<longleftrightarrow> disk_ok inc told asked (jfile j) rs rs' [] \<and> displaced j = None \<and>
    next_sequence j = next_after (rs @ rs') \<and> jbytes j = length (contents (jfile j))"

definition journal_inv where
  "journal_inv inc j told facts asked \<longleftrightarrow> length inc = 16 \<and> j_incarnation j = inc \<and>
    facts \<subseteq> told \<and> (reverts j = [] \<longrightarrow> facts = told) \<and>
    well inc told asked (named j) \<and> (\<forall>d \<in> set (reverts j). well inc facts asked d) \<and>
    (\<not> poisoned j \<longrightarrow> (\<exists>rs rs'. live_ok inc told asked j rs rs'))"

lemma contents_simps [simp]:
  "contents (sync_data d) = contents d" "stable (sync_data d) = contents d" "undone (sync_data d) = []"
  "contents (new_file bs) = bs" "stable (new_file bs) = bs" "undone (new_file bs) = []"
  "contents (write_all bs d) = contents d @ bs" "stable (write_all bs d) = stable d" "undone (write_all bs d) = undone d"
  by (simp_all add: sync_data_def contents_def new_file_def write_all_def)

lemma stable_le_contents: "length (stable d) \<le> length (contents d)"
  by (simp add: contents_def)

lemma disk_ok_mono:
  assumes "disk_ok inc facts asked d rs rs' part" "facts' \<subseteq> facts" "asked \<subseteq> asked'"
  shows "disk_ok inc facts' asked' d rs rs' part"
  using assms kept_mono [of facts rs facts'] unfolding disk_ok_def image_ok_def by (meson order_trans)

lemma well_mono: "well inc facts asked d \<Longrightarrow> facts' \<subseteq> facts \<Longrightarrow> asked \<subseteq> asked' \<Longrightarrow> well inc facts' asked' d"
  unfolding well_def using disk_ok_mono by meson

lemma next_sequence_after_chain:
  "chain inc rs \<Longrightarrow> next_sequence_after (last_record rs) = Inr (next_after rs)"
  by (cases rs rule: rev_cases)
    (auto simp: next_sequence_after_def last_record_def next_after_def successor_def chain_snoc wf_record_def)

lemma image_replay:
  "image_ok inc asked bs rs part \<Longrightarrow> replay_reader bs inc =
    Inr \<lparr>records = rs, torn_tail = (part \<noteq> []), valid_bytes = length (encs rs)\<rparr>"
  using replay_chain [of inc rs part] unfolding image_ok_def by metis

lemma disk_ok_replay:
  "disk_ok inc facts asked d rs rs' part \<Longrightarrow> replay_reader (contents d) inc =
    Inr \<lparr>records = rs @ rs', torn_tail = (part \<noteq> []), valid_bytes = length (encs (rs @ rs'))\<rparr>"
  using image_replay unfolding disk_ok_def by blast

lemma image_take:
  assumes "image_ok inc asked bs (rs @ extra) part" "length (encs rs) \<le> m"
  obtains k part' where "image_ok inc asked (take m bs) (rs @ take k extra) part'"
proof -
  have i: "bs = encs rs @ encs extra @ part" "chain inc (rs @ extra)" "partial inc part" "length bs \<le> MAX_JOURNAL_BYTES"
      "set (rs @ extra) \<subseteq> asked" "\<forall>r \<in> set extra. wf_record inc r"
    using assms(1) by (auto simp: image_ok_def chain_def)
  obtain k part' where k: "take (m - length (encs rs)) (encs extra @ part) = encs (take k extra) @ part'" "partial inc part'"
    using take_encs [OF i(6,3)] by blast
  have "take m bs = encs (rs @ take k extra) @ part'" using i(1) assms(2) k(1) by simp
  moreover have "chain inc (rs @ take k extra)" using i(2) chain_prefix [of inc "rs @ take k extra" "drop k extra"] by simp
  moreover have "length (take m bs) \<le> MAX_JOURNAL_BYTES" using i(4) by (simp add: min.coboundedI1)
  ultimately have "image_ok inc asked (take m bs) (rs @ take k extra) part'"
    using i(5) k(2) by (auto simp: image_ok_def dest!: in_set_takeD)
  then show thesis by (rule that)
qed

lemma crash_well:
  assumes "well inc facts asked d" "tail \<in> set (pending d # undone d)"
  shows "well inc facts asked (after_crash d tail n)"
proof -
  obtain rs rs' part where ok: "disk_ok inc facts asked d rs rs' part" using assms(1) by (auto simp: well_def)
  obtain extra rest where i: "image_ok inc asked (stable d @ tail) (rs @ extra) rest"
    using ok assms(2) unfolding disk_ok_def contents_def by auto
  have le: "length (encs rs) \<le> length (stable d) + n" using ok by (simp add: disk_ok_def)
  obtain k part' where "image_ok inc asked (take (length (stable d) + n) (stable d @ tail)) (rs @ take k extra) part'"
    using image_take [OF i le] .
  then have img: "image_ok inc asked (stable d @ take n tail) (rs @ take k extra) part'" by simp
  then have "length (encs (rs @ take k extra)) \<le> length (stable d @ take n tail)" by (simp add: image_ok_def)
  then have "disk_ok inc facts asked (after_crash d tail n) (rs @ take k extra) [] part'"
    using img ok kept_append by (auto simp: disk_ok_def after_crash_def)
  then show ?thesis unfolding well_def by blast
qed

lemma set_len_ok:
  assumes "disk_ok inc facts asked d rs rs' part"
  shows "disk_ok inc facts asked (set_len (length (encs (rs @ rs'))) d) rs rs' []"
proof -
  let ?v = "length (encs (rs @ rs'))" and ?d = "set_len (length (encs (rs @ rs'))) d"
  let ?left = "take ?v (stable d)"
  have i: "image_ok inc asked (contents d) (rs @ rs') part" and le: "length (encs rs) \<le> length (stable d)"
    and u: "\<forall>tail \<in> set (undone d). \<exists>extra rest. image_ok inc asked (stable d @ tail) (rs @ extra) rest"
    using assms by (simp_all add: disk_ok_def)
  have "take n s @ drop (length s) (take n (s @ t)) = take n (s @ t)" for n and s t :: bytes
    by (cases "n \<le> length s") (simp_all add: drop_take)
  then have "contents ?d = take ?v (contents d)" by (simp add: set_len_def contents_def Let_def)
  then have c: "contents ?d = encs (rs @ rs')" using i by (simp add: image_ok_def)
  have old: "?left @ drop (length ?left) (stable d @ tail) = stable d @ tail" for tail
    using append_take_drop_id [of "length ?left" "stable d @ tail"] by (simp add: min_def split: if_splits)
  have "\<exists>extra rest. image_ok inc asked (stable ?d @ tail) (rs @ extra) rest" if t: "tail \<in> set (undone ?d)" for tail
  proof -
    obtain t where t: "t \<in> set (pending d # undone d)" "tail = drop (length ?left) (stable d @ t)"
      using t by (auto simp: set_len_def Let_def)
    have "stable ?d @ tail = stable d @ t" using old [of t] t(2) by (simp add: set_len_def Let_def del: drop_append)
    moreover have "\<exists>extra rest. image_ok inc asked (stable d @ t) (rs @ extra) rest" using i u t(1) unfolding contents_def by auto
    ultimately show ?thesis by simp
  qed
  moreover have "image_ok inc asked (contents ?d) (rs @ rs') []"
    using i c by (auto simp: image_ok_def partial_def)
  moreover have "length (encs rs) \<le> length (stable ?d)" using le by (simp add: set_len_def Let_def)
  ultimately show ?thesis using assms by (simp add: disk_ok_def)
qed

lemma sync_ok:
  "disk_ok inc facts asked d rs rs' part \<Longrightarrow> disk_ok inc (facts \<union> set (rs @ rs')) asked (sync_data d) (rs @ rs') [] part"
  by (auto simp: disk_ok_def image_ok_def kept_def)

section \<open>What every operation keeps\<close>

lemma live_well: "live_ok inc told asked j rs rs' \<Longrightarrow> well inc told asked (named j)"
  unfolding live_ok_def named_def well_def by auto

lemma journal_inv_intro:
  assumes "length inc = 16" "j_incarnation j = inc" "facts \<subseteq> told" "well inc told asked (named j)"
    and "\<forall>d \<in> set (reverts j). well inc facts asked d" "\<not> poisoned j \<Longrightarrow> \<exists>rs rs'. live_ok inc told asked j rs rs'"
  shows "journal_inv inc j told (durable j told facts) asked"
  using assms by (simp add: journal_inv_def durable_def)

lemma journal_inv_live:
  assumes "length inc = 16" "j_incarnation j = inc" "facts \<subseteq> told" "live_ok inc told asked j rs rs'"
    and "\<forall>d \<in> set (reverts j). well inc facts asked d"
  shows "journal_inv inc j told (durable j told facts) asked"
  using assms live_well by (intro journal_inv_intro) blast+

lemma journal_inv_parts:
  assumes "journal_inv inc j told facts asked" "asked \<subseteq> asked'"
  shows "length inc = 16" "j_incarnation j = inc" "facts \<subseteq> told" "well inc told asked' (named j)"
    "\<forall>d \<in> set (reverts j). well inc facts asked' d"
  using assms well_mono [of inc _ asked _ _ asked'] unfolding journal_inv_def by blast+

lemma journal_inv_same:
  assumes "journal_inv inc j told facts asked" "asked \<subseteq> asked'"
  shows "journal_inv inc j told (durable j told facts) asked'"
proof (rule journal_inv_intro [OF journal_inv_parts [OF assms]])
  assume "\<not> poisoned j"
  then obtain rs rs' where "live_ok inc told asked j rs rs'" using assms(1) by (auto simp: journal_inv_def)
  then show "\<exists>rs rs'. live_ok inc told asked' j rs rs'"
    using disk_ok_mono [OF _ order_refl assms(2)] unfolding live_ok_def by blast
qed

lemma open_disk_ok:
  assumes ok: "disk_ok inc facts asked d rs rs' part" and torn: "part = [] \<or> synced"
  obtains d' j where "open_current synced d olds inc =
      (d', Inr (j, \<lparr>records = rs @ rs', torn_tail = (part \<noteq> []), valid_bytes = length (encs (rs @ rs'))\<rparr>))"
    "j_incarnation j = inc" "reverts j = olds" "\<exists>rs rs'. live_ok inc facts asked j rs rs'" "next_sequence j = next_after (rs @ rs')" "\<not> poisoned j"
proof -
  let ?r = "\<lparr>records = rs @ rs', torn_tail = (part \<noteq> []), valid_bytes = length (encs (rs @ rs'))\<rparr>"
  let ?d = "if part \<noteq> [] then sync_data (set_len (length (encs (rs @ rs'))) d) else d"
  let ?j = "\<lparr>jfile = ?d, jbytes = length (contents ?d), displaced = None, reverts = olds, j_incarnation = inc,
    next_sequence = next_after (rs @ rs'), poisoned = False\<rparr>"
  have "chain inc (rs @ rs')" using ok by (simp add: disk_ok_def image_ok_def)
  then have o: "open_current synced d olds inc = (?d, Inr (?j, ?r))"
    using disk_ok_replay [OF ok] next_sequence_after_chain torn by (auto simp: open_current_def Let_def)
  have "\<exists>qs qs'. qs @ qs' = rs @ rs' \<and> disk_ok inc facts asked ?d qs qs' []"
  proof (cases "part = []")
    case True
    then show ?thesis using ok by auto
  next
    case False
    then show ?thesis
      using disk_ok_mono [OF sync_ok [OF set_len_ok [OF ok]], of facts asked] by (intro exI [of _ "rs @ rs'"] exI [of _ "[]"]) simp
  qed
  then have "\<exists>rs rs'. live_ok inc facts asked ?j rs rs'" unfolding live_ok_def by (metis journal.select_convs(1-3,6))
  with o show thesis by (intro that [of ?d ?j]) simp_all
qed

lemma sync_live:
  assumes "live_ok inc told asked j rs rs'"
  shows "live_ok inc (told \<union> set (rs @ rs')) asked (j\<lparr>jfile := sync_data (jfile j)\<rparr>) (rs @ rs') []"
  using assms sync_ok [of inc told asked "jfile j" rs rs' "[]"] by (simp add: live_ok_def)

lemma successor_eq: "successor n = (if n < u64_max then Inr (Suc n) else Inl JSequenceGap)"
  by (simp add: successor_def checked_add_def)

lemma grown_eq: "grown_within_ceiling b n = (if b + n \<le> MAX_JOURNAL_BYTES then Inr (b + n) else Inl JFull)"
  by (simp add: grown_within_ceiling_def checked_add_def u64_max_def MAX_JOURNAL_BYTES_def)

lemma encode_record_eq:
  "encode_record r = (if MAX_PAYLOAD < length (payload r) then Inl JPayloadTooLarge
    else if rec_state r AND CHECKPOINT_FLAG \<noteq> 0 then Inl JInvalidState else Inr (rec_bytes r))"
  by (simp add: encode_record_def rec_bytes_def rec_body_def header_of_def Let_def)

definition can_append :: "journal \<Rightarrow> byte \<Rightarrow> bytes \<Rightarrow> bool" where
  "can_append j s p \<longleftrightarrow> \<not> poisoned j \<and> length p \<le> MAX_PAYLOAD \<and> s AND CHECKPOINT_FLAG = 0 \<and>
    next_sequence j < u64_max \<and> jbytes j + length (rec_bytes (next_record j s p)) \<le> MAX_JOURNAL_BYTES"

lemma append_refused:
  assumes "\<not> can_append j s p"
  shows "\<exists>e. append_durable io j s p = (j, Inl e)"
proof -
  consider "poisoned j" | "\<not> poisoned j" "MAX_PAYLOAD < length p"
    | "\<not> poisoned j" "\<not> MAX_PAYLOAD < length p" "s AND CHECKPOINT_FLAG \<noteq> 0"
    | "\<not> poisoned j" "\<not> MAX_PAYLOAD < length p" "s AND CHECKPOINT_FLAG = 0" "\<not> next_sequence j < u64_max"
    | "\<not> poisoned j" "\<not> MAX_PAYLOAD < length p" "s AND CHECKPOINT_FLAG = 0" "next_sequence j < u64_max"
      "\<not> jbytes j + length (rec_bytes (next_record j s p)) \<le> MAX_JOURNAL_BYTES"
    using assms unfolding can_append_def by linarith
  then show ?thesis
    by cases (simp_all add: append_durable_def successor_eq grown_eq encode_record_eq next_record_def)
qed

lemma append_allowed:
  assumes "can_append j s p"
  shows "append_durable Landed j s p =
      (j\<lparr>jfile := sync_data (write_all (rec_bytes (next_record j s p)) (jfile j)),
        jbytes := jbytes j + length (rec_bytes (next_record j s p)), next_sequence := Suc (next_sequence j)\<rparr>, Inr (next_sequence j))"
    "append_durable (Torn n) j s p =
      (j\<lparr>jfile := write_all (take n (rec_bytes (next_record j s p))) (jfile j), poisoned := True\<rparr>, Inl JIo)"
  using assms by (simp_all add: can_append_def append_durable_def successor_eq grown_eq encode_record_eq next_record_def)

lemma append_chain:
  assumes "live_ok inc told asked j rs rs'" "can_append j s p" "length inc = 16" "j_incarnation j = inc"
  shows "chain inc (rs @ rs' @ [next_record j s p])" "wf_record inc (next_record j s p)"
proof -
  show w: "wf_record inc (next_record j s p)"
    using assms by (simp add: wf_record_def next_record_def can_append_def)
  have "chain inc ((rs @ rs') @ [next_record j s p])"
    using assms(1) w unfolding chain_snoc by (simp add: live_ok_def disk_ok_def image_ok_def next_after_def next_record_def)
  then show "chain inc (rs @ rs' @ [next_record j s p])" by simp
qed

text \<open>Writing a record, or part of it, behind a live file.\<close>

lemma written_ok:
  assumes l: "live_ok inc told asked j rs rs'" and c: "can_append j s p" and inc: "length inc = 16" "j_incarnation j = inc"
  shows "\<exists>rs'' part. disk_ok inc told (insert (next_record j s p) asked) (write_all (take n (rec_bytes (next_record j s p))) (jfile j)) rs rs'' part \<and>
    (length (rec_bytes (next_record j s p)) \<le> n \<longrightarrow> rs'' = rs' @ [next_record j s p] \<and> part = [])"
proof -
  let ?r = "next_record j s p"
  let ?d = "write_all (take n (rec_bytes ?r)) (jfile j)"
  note chain = append_chain [OF l c inc]
  have ok: "disk_ok inc told (insert ?r asked) (jfile j) rs rs' []"
    using l disk_ok_mono [of inc told asked "jfile j" rs rs' "[]" told "insert ?r asked"] by (auto simp: live_ok_def)
  have size: "length (contents (jfile j)) + length (rec_bytes ?r) \<le> MAX_JOURNAL_BYTES"
    using l c by (simp add: live_ok_def can_append_def)
  show ?thesis
  proof (cases "n < length (rec_bytes ?r)")
    case True
    have "image_ok inc (insert ?r asked) (contents ?d) (rs @ rs') (take n (rec_bytes ?r))"
      using ok partial_take [OF chain(2) True] size by (simp add: disk_ok_def image_ok_def)
    then have "disk_ok inc told (insert ?r asked) ?d rs rs' (take n (rec_bytes ?r))" using ok by (simp add: disk_ok_def)
    then show ?thesis using True by auto
  next
    case False
    have "image_ok inc (insert ?r asked) (contents ?d) (rs @ rs' @ [?r]) []"
      using ok chain size False by (simp add: disk_ok_def image_ok_def)
    then have "disk_ok inc told (insert ?r asked) ?d rs (rs' @ [?r]) []" using ok by (simp add: disk_ok_def)
    then show ?thesis by auto
  qed
qed

lemma append_landed:
  assumes l: "live_ok inc told asked j rs rs'" and c: "can_append j s p" and inc: "length inc = 16" "j_incarnation j = inc"
  shows "live_ok inc (insert (next_record j s p) told) (insert (next_record j s p) asked)
    (fst (append_durable Landed j s p)) (rs @ rs' @ [next_record j s p]) []"
proof -
  let ?r = "next_record j s p"
  have "disk_ok inc told (insert ?r asked) (write_all (rec_bytes ?r) (jfile j)) rs (rs' @ [?r]) []"
    using written_ok [OF l c inc, of "length (rec_bytes ?r)"] by auto
  from sync_ok [OF this]
  have "disk_ok inc (insert ?r told) (insert ?r asked) (sync_data (write_all (rec_bytes ?r) (jfile j))) (rs @ rs' @ [?r]) [] []"
    by (rule disk_ok_mono) auto
  then show ?thesis using l by (simp add: append_allowed [OF c] live_ok_def next_after_def next_record_def)
qed

lemma append_inv:
  assumes inv: "journal_inv inc j told facts asked" and a: "append_durable io j s p = (j', res)"
    and told': "told' = (if res = Inr (next_sequence j) then insert (next_record j s p) told else told)"
  shows "journal_inv inc j' told' (durable j' told' facts) (insert (next_record j s p) asked)"
proof (cases "can_append j s p")
  case False
  then show ?thesis using append_refused [OF False, of io] a told' journal_inv_same [OF inv subset_insertI] by auto
next
  case True
  note parts = journal_inv_parts [OF inv subset_insertI [of asked "next_record j s p"]]
  obtain rs rs' where l: "live_ok inc told asked j rs rs'" using inv True by (auto simp: journal_inv_def can_append_def)
  show ?thesis
  proof (cases io)
    case Landed
    then have j': "j' = fst (append_durable Landed j s p)" "told' = insert (next_record j s p) told"
        "j_incarnation j' = inc" "reverts j' = reverts j"
      using a append_allowed(1) [OF True] parts(2) told' by auto
    then show ?thesis
      using append_landed [OF l True parts(1,2)] parts by (intro journal_inv_live [of inc j' facts told']) auto
  next
    case (Torn n)
    then have j': "j' = j\<lparr>jfile := write_all (take n (rec_bytes (next_record j s p))) (jfile j), poisoned := True\<rparr>" "told' = told"
      using a append_allowed(2) [OF True, of n] told' by auto
    have "named j' = jfile j'" using j' l by (simp add: named_def live_ok_def)
    moreover have "well inc told (insert (next_record j s p) asked) (jfile j')"
      using written_ok [OF l True parts(1,2), of n] unfolding well_def j' by auto
    ultimately show ?thesis using parts j' by (intro journal_inv_intro) auto
  qed
qed

lemma readable_live: "live_ok inc told asked j rs rs' \<Longrightarrow> j_incarnation j = inc \<Longrightarrow> readable j = set (rs @ rs')"
  using disk_ok_replay [of inc told asked "jfile j" rs rs' "[]"] by (simp add: readable_def live_ok_def)

lemma synced_inv:
  assumes inv: "journal_inv inc j told facts asked" and "\<not> poisoned j" and "olds = reverts j \<or> olds = []"
  shows "journal_inv inc (j\<lparr>jfile := sync_data (jfile j), reverts := olds\<rparr>) (told \<union> readable j)
    (durable (j\<lparr>jfile := sync_data (jfile j), reverts := olds\<rparr>) (told \<union> readable j) facts) asked"
proof -
  note parts = journal_inv_parts [OF inv order_refl]
  obtain rs rs' where l: "live_ok inc told asked j rs rs'" using inv assms(2) by (auto simp: journal_inv_def)
  have "live_ok inc (told \<union> readable j) asked (j\<lparr>jfile := sync_data (jfile j), reverts := olds\<rparr>) (rs @ rs') []"
    using sync_live [OF l] readable_live [OF l parts(2)] by (simp add: live_ok_def)
  then show ?thesis using parts assms(3) by (intro journal_inv_live) auto
qed

lemma sync_inv:
  assumes inv: "journal_inv inc j told facts asked" and s: "sync_replay synced j = (j', res)"
    and told': "told' = (if res = Inr () then told \<union> readable j else told)"
  shows "journal_inv inc j' told' (durable j' told' facts) asked"
proof (cases "poisoned j \<or> \<not> synced")
  case True
  then show ?thesis using journal_inv_same [OF inv order_refl] s told' by (cases "poisoned j") (auto simp: sync_replay_def)
next
  case False
  then show ?thesis using synced_inv [OF inv, of "reverts j"] s told' by (auto simp: sync_replay_def)
qed

lemma recover_inv:
  assumes inv: "journal_inv inc j told facts asked" and s: "sync_recovery_journal synced parent_synced j = (j', res)"
    and told': "told' = (if res = Inr () then told \<union> readable j else told)"
  shows "journal_inv inc j' told' (durable j' told' facts) asked"
proof (cases "poisoned j \<or> \<not> synced")
  case True
  then show ?thesis
    using journal_inv_same [OF inv order_refl] s told'
    by (cases "poisoned j") (auto simp: sync_recovery_journal_def sync_replay_def)
next
  case synced: False
  show ?thesis
  proof (cases parent_synced)
    case True
    then show ?thesis
      using synced synced_inv [OF inv, of "[]"] s told' by (auto simp: sync_recovery_journal_def sync_replay_def)
  next
    case False
    note parts = journal_inv_parts [OF inv order_refl]
    obtain rs rs' where l: "live_ok inc told asked j rs rs'" using inv synced by (auto simp: journal_inv_def)
    have j': "j' = j\<lparr>jfile := sync_data (jfile j)\<rparr>" "told' = told"
      using False synced s told' by (auto simp: sync_recovery_journal_def sync_replay_def)
    have "live_ok inc told asked j' (rs @ rs') []"
      using sync_live [OF l] disk_ok_mono [where facts' = told] unfolding j' live_ok_def by blast
    then show ?thesis using parts j' by (intro journal_inv_live) auto
  qed
qed

lemma chain_last: "chain inc rs \<Longrightarrow> r \<in> set rs \<Longrightarrow> sequence r \<le> sequence (last rs)"
proof (induction rs rule: rev_induct)
  case (snoc x rs)
  then show ?case by (cases "r \<in> set rs") (auto simp: chain_snoc split: if_splits)
qed simp

lemma kept_below: "kept facts rs \<Longrightarrow> chain inc rs \<Longrightarrow> f \<in> facts \<Longrightarrow> rs \<noteq> [] \<and> sequence f \<le> sequence (last rs)"
  using chain_last unfolding kept_def by (metis empty_iff empty_set le_trans)

definition can_compact :: "journal \<Rightarrow> byte \<Rightarrow> bytes \<Rightarrow> bool" where
  "can_compact j s p \<longleftrightarrow> \<not> poisoned j \<and> s AND CHECKPOINT_FLAG = 0 \<and> length p \<le> MAX_PAYLOAD \<and> 0 < next_sequence j"

lemma compact_refused:
  assumes "\<not> can_compact j s p"
  shows "\<exists>e. compact_checkpoint io j s p = (j, Inl e)"
proof -
  consider "poisoned j" | "\<not> poisoned j" "s AND CHECKPOINT_FLAG \<noteq> 0"
    | "\<not> poisoned j" "s AND CHECKPOINT_FLAG = 0" "MAX_PAYLOAD < length p"
    | "\<not> poisoned j" "s AND CHECKPOINT_FLAG = 0" "\<not> MAX_PAYLOAD < length p" "next_sequence j = 0"
    using assms unfolding can_compact_def by linarith
  then show ?thesis
    by cases (simp_all add: compact_checkpoint_def checked_sub_def)
qed

definition replacement_disk :: "journal \<Rightarrow> byte \<Rightarrow> bytes \<Rightarrow> disk" where
  "replacement_disk j s p = new_file (rec_bytes (checkpoint_record j s p))"

lemma replacement_ok:
  assumes l: "live_ok inc told asked j rs rs'" and c: "can_compact j s p" and inc: "length inc = 16" "j_incarnation j = inc"
  shows "disk_ok inc (insert (checkpoint_record j s p) told) (insert (checkpoint_record j s p) asked)
      (replacement_disk j s p) [checkpoint_record j s p] [] []"
proof -
  have ne: "rs @ rs' \<noteq> []" "next_sequence j = Suc (sequence (last (rs @ rs')))"
    using l c by (auto simp: live_ok_def can_compact_def next_after_def split: if_splits)
  have ch: "chain inc (rs @ rs')" "kept told (rs @ rs')"
    using l by (auto simp: live_ok_def disk_ok_def image_ok_def kept_append)
  then have "wf_record inc (last (rs @ rs'))" using last_in_set [OF ne(1)] unfolding chain_def by blast
  then have w: "wf_record inc (checkpoint_record j s p)"
    using ne c inc by (simp add: wf_record_def checkpoint_record_def can_compact_def)
  moreover have "kept (insert (checkpoint_record j s p) told) [checkpoint_record j s p]"
    using kept_below [OF ch(2,1)] ne by (auto simp: kept_def checkpoint_record_def)
  moreover have "length (rec_bytes (checkpoint_record j s p)) \<le> MAX_JOURNAL_BYTES"
    using length_rec_bytes [OF w] c
    by (simp add: checkpoint_record_def can_compact_def HEADER_LEN_def MAX_PAYLOAD_def MAX_JOURNAL_BYTES_def)
  ultimately show ?thesis
    by (simp add: disk_ok_def image_ok_def replacement_disk_def chain_def partial_def checkpoint_record_def)
qed

lemma compact_allowed:
  assumes "can_compact j s p"
  shows "compact_checkpoint io j s p =
    (let moved = j\<lparr>displaced := Some (replacement_disk j s p), reverts := jfile j # reverts j\<rparr> in
     case io of
       Early \<Rightarrow> (j, Inl JIo)
     | Rename landed \<Rightarrow> ((if landed then moved else j)\<lparr>poisoned := True\<rparr>, Inl JIo)
     | _ \<Rightarrow>
         case finish_compaction io moved (replacement_disk j s p) (next_sequence j) of
           (j', Inl e) \<Rightarrow> (j'\<lparr>poisoned := True\<rparr>, Inl e)
         | (j', Inr u) \<Rightarrow> (j', Inr ()))"
proof -
  have "encode_record (checkpoint_record j s p) = Inr (rec_bytes (checkpoint_record j s p))"
    using assms by (simp add: can_compact_def encode_record_eq checkpoint_record_def)
  then show ?thesis
    using assms
    by (cases io)
      (simp_all add: compact_checkpoint_def checked_sub_def can_compact_def checkpoint_record_def replacement_disk_def Let_def)
qed

lemma finish_compaction_ok:
  assumes ok: "disk_ok inc facts asked d [r] [] []" and "j_incarnation j = inc"
  shows "finish_compaction Finished j d n =
    (j\<lparr>reverts := [], jfile := d, jbytes := length (contents d), displaced := None, next_sequence := n, poisoned := False\<rparr>, Inr ())"
  using disk_ok_replay [OF ok] assms(2) by (simp add: finish_compaction_def Let_def)

text \<open>A compaction that fails leaves a poisoned handle and, under the journal's name, the old file or the
  checkpoint.\<close>

lemma compact_outcomes:
  assumes l: "live_ok inc told asked j rs rs'" and c: "can_compact j s p" and inc: "length inc = 16" "j_incarnation j = inc"
    and a: "compact_checkpoint io j s p = (j', res)"
  shows "j' = j \<and> res = Inl JIo \<or>
    j' = j\<lparr>poisoned := True\<rparr> \<and> res = Inl JIo \<or>
    (\<exists>olds. olds \<in> {[], jfile j # reverts j} \<and> res = Inl JIo \<and>
      j' = j\<lparr>displaced := Some (replacement_disk j s p), reverts := olds, poisoned := True\<rparr>) \<or>
    j' = j\<lparr>reverts := [], jfile := replacement_disk j s p, jbytes := length (contents (replacement_disk j s p))\<rparr> \<and> res = Inr ()"
proof (cases io)
  case Finished
  let ?moved = "j\<lparr>displaced := Some (replacement_disk j s p), reverts := jfile j # reverts j\<rparr>"
  have "finish_compaction Finished ?moved (replacement_disk j s p) (next_sequence j) =
      (j\<lparr>reverts := [], jfile := replacement_disk j s p, jbytes := length (contents (replacement_disk j s p))\<rparr>, Inr ())"
    using finish_compaction_ok [OF replacement_ok [OF l c inc], of ?moved "next_sequence j"] l c inc
    by (simp add: live_ok_def can_compact_def)
  then show ?thesis using a Finished compact_allowed [OF c, of io] by (simp add: Let_def)
qed (use a compact_allowed [OF c, of io] in \<open>auto simp: Let_def finish_compaction_def split: if_splits\<close>)

lemma compact_inv:
  assumes inv: "journal_inv inc j told facts asked" and a: "compact_checkpoint io j s p = (j', res)"
    and told': "told' = (if res = Inr () then insert (checkpoint_record j s p) told else told)"
  shows "journal_inv inc j' told' (durable j' told' facts) (insert (checkpoint_record j s p) asked)"
proof (cases "can_compact j s p")
  case False
  then show ?thesis using compact_refused [OF False, of io] a told' journal_inv_same [OF inv subset_insertI] by auto
next
  case True
  let ?c = "checkpoint_record j s p" and ?d = "replacement_disk j s p"
  note parts = journal_inv_parts [OF inv subset_insertI [of asked ?c]]
  obtain rs rs' where l: "live_ok inc told asked j rs rs'" using inv True by (auto simp: journal_inv_def can_compact_def)
  note new = replacement_ok [OF l True parts(1,2)]
  have old: "displaced j = None" "well inc facts (insert ?c asked) (jfile j)" "named j = jfile j"
    using l well_mono [OF parts(4,3)] by (auto simp: live_ok_def named_def)
  have d: "well inc told (insert ?c asked) ?d" using disk_ok_mono [OF new] unfolding well_def by blast
  from compact_outcomes [OF l True parts(1,2) a] show ?thesis
  proof (elim disjE conjE exE)
    assume "j' = j" "res = Inl JIo"
    then show ?thesis using told' journal_inv_same [OF inv subset_insertI] by simp
  next
    assume j': "j' = j\<lparr>poisoned := True\<rparr>" "res = Inl JIo"
    then show ?thesis using told' parts old by (intro journal_inv_intro) (auto simp: named_def)
  next
    fix olds assume j': "olds \<in> {[], jfile j # reverts j}" "res = Inl JIo"
      "j' = j\<lparr>displaced := Some ?d, reverts := olds, poisoned := True\<rparr>"
    then show ?thesis using told' parts old d by (intro journal_inv_intro) (auto simp: named_def)
  next
    assume j': "j' = j\<lparr>reverts := [], jfile := ?d, jbytes := length (contents ?d)\<rparr>" "res = Inr ()"
    have "live_ok inc told' (insert ?c asked) j' [?c] []"
      using new True old j' told' by (simp add: live_ok_def next_after_def checkpoint_record_def can_compact_def)
    then show ?thesis using j' told' parts by (intro journal_inv_live) auto
  qed
qed

lemma repair_inv:
  assumes inv: "journal_inv inc j told facts asked" and a: "repair_poisoned synced j = (j', res)"
    and told': "told' = (case res of Inl e \<Rightarrow> told | Inr r \<Rightarrow> told \<union> set (records r))"
  shows "journal_inv inc j' told' (durable j' told' facts) asked"
proof (cases "poisoned j \<and> displaced j = None")
  case False
  then show ?thesis
    using journal_inv_same [OF inv order_refl] a told' by (cases "poisoned j") (auto simp: repair_poisoned_def)
next
  case True
  note parts = journal_inv_parts [OF inv order_refl]
  obtain rs rs' part where d: "disk_ok inc told asked (jfile j) rs rs' part"
    using parts(4) True by (auto simp: well_def named_def)
  define cut where "cut = (if part \<noteq> [] then set_len (length (encs (rs @ rs'))) (jfile j) else jfile j)"
  have c: "disk_ok inc told asked cut rs rs' []" using d set_len_ok [OF d] by (auto simp: cut_def)
  have "chain inc (rs @ rs')" using d by (simp add: disk_ok_def image_ok_def)
  then have r: "repair_poisoned synced j =
    (if \<not> synced then (j\<lparr>jfile := cut\<rparr>, Inl JIo)
     else (j\<lparr>jfile := sync_data cut, jbytes := length (contents cut), next_sequence := next_after (rs @ rs'), poisoned := False\<rparr>,
       Inr \<lparr>records = rs @ rs', torn_tail = (part \<noteq> []), valid_bytes = length (encs (rs @ rs'))\<rparr>))"
    using True disk_ok_replay [OF d] next_sequence_after_chain [of inc "rs @ rs'"] parts(2)
    by (simp add: repair_poisoned_def Let_def cut_def)
  show ?thesis
  proof (cases synced)
    case False
    then have j': "j' = j\<lparr>jfile := cut\<rparr>" "told' = told" using r a told' by auto
    have "well inc told asked (named j')" using c True j' by (auto simp: well_def named_def)
    then show ?thesis using parts j' True by (intro journal_inv_intro) auto
  next
    case synced: True
    then have j': "j' = j\<lparr>jfile := sync_data cut, jbytes := length (contents cut), next_sequence := next_after (rs @ rs'), poisoned := False\<rparr>"
        "told' = told \<union> set (rs @ rs')"
      using r a told' by auto
    have "live_ok inc told' asked j' (rs @ rs') []" using sync_ok [OF c] True j' by (simp add: live_ok_def)
    then show ?thesis using parts j' by (intro journal_inv_live) auto
  qed
qed

section \<open>What the next opening finds\<close>

lemma failed_open_well:
  assumes "well inc facts asked d" "open_current False d olds inc = (d', Inl e)"
  shows "well inc facts asked d'"
proof -
  obtain rs rs' part where ok: "disk_ok inc facts asked d rs rs' part" using assms(1) by (auto simp: well_def)
  have "chain inc (rs @ rs')" using ok by (simp add: disk_ok_def image_ok_def)
  then have "d' = d \<or> d' = set_len (length (encs (rs @ rs'))) d"
    using assms(2) disk_ok_replay [OF ok] next_sequence_after_chain [of inc "rs @ rs'"]
    by (auto simp: open_current_def Let_def split: if_splits)
  then show ?thesis using assms(1) set_len_ok [OF ok] unfolding well_def by auto
qed

lemma found_well:
  assumes "found inc j lost d olds" "journal_inv inc j told facts asked"
  shows "well inc (if lost then facts else told) asked d \<and> (\<forall>old \<in> set olds. well inc facts asked old) \<and>
    olds = (if lost then [] else reverts j)"
  using assms
proof (induction rule: found.induct)
  case (found_restart inc j)
  then show ?case by (simp add: journal_inv_def)
next
  case (found_failed_open inc j lost d olds d' e)
  note IH = found_failed_open.IH [OF found_failed_open.prems]
  have "well inc (if lost then facts else told) asked d'"
    by (rule failed_open_well [OF conjunct1 [OF IH] found_failed_open.hyps(2)])
  then show ?case using conjunct2 [OF IH] by (rule conjI)
next
  case (found_power_loss inc j lost d olds d' tail n)
  note IH = found_power_loss.IH [OF found_power_loss.prems]
  have sub: "facts \<subseteq> told" using found_power_loss.prems by (simp add: journal_inv_def)
  have "well inc facts asked d"
    by (rule well_mono [OF conjunct1 [OF IH]]) (use sub in auto)
  then have "well inc facts asked d'" using IH found_power_loss.hyps(2) by auto
  then show ?case using crash_well [OF _ found_power_loss.hyps(3)] by simp
qed

lemma open_inv:
  assumes inv: "journal_inv inc j told facts asked" and f: "found inc j lost d olds"
    and o: "open_current synced d olds inc = (d', Inr (j', r))"
  shows "journal_inv inc j' (if lost then facts else told) facts asked"
proof -
  note parts = journal_inv_parts [OF inv order_refl] and found = found_well [OF f inv]
  obtain rs rs' part where ok: "disk_ok inc (if lost then facts else told) asked d rs rs' part" using found by (auto simp: well_def)
  have "part = [] \<or> synced" using o disk_ok_replay [OF ok] by (auto simp: open_current_def split: sum.splits if_splits)
  from open_disk_ok [OF ok this, of olds] obtain d1 j1 r1 where "open_current synced d olds inc = (d1, Inr (j1, r1))"
      "j_incarnation j1 = inc" "reverts j1 = olds" "\<exists>rs rs'. live_ok inc (if lost then facts else told) asked j1 rs rs'" .
  then have "j_incarnation j' = inc" "reverts j' = olds" "\<exists>rs rs'. live_ok inc (if lost then facts else told) asked j' rs rs'"
    using o by simp_all
  then show ?thesis using inv found live_well unfolding journal_inv_def by (cases lost) auto
qed

lemma create_inv: "length inc = 16 \<Longrightarrow> journal_inv inc (create inc) {} {} {}"
  using journal_inv_live [of inc "create inc" "{}" "{}" "{}" "[]" "[]"]
  by (simp add: create_def live_ok_def disk_ok_def image_ok_def chain_def partial_def kept_def next_after_def durable_def)

lemma journal_run_inv: "journal_run inc j told facts asked \<Longrightarrow> journal_inv inc j told facts asked"
proof (induction rule: journal_run.induct)
  case (run_append inc j told facts asked io s p j' res told')
  then show ?case using append_inv by blast
next
  case (run_compact inc j told facts asked cio s p j' cres told')
  then show ?case using compact_inv by blast
next
  case (run_sync inc j told facts asked synced j' sres told')
  then show ?case using sync_inv by blast
next
  case (run_recover inc j told facts asked synced parent_synced j' sres told')
  then show ?case using recover_inv by blast
next
  case (run_repair inc j told facts asked synced j' rres told')
  then show ?case using repair_inv by blast
next
  case (run_open inc j told facts asked lost d olds synced d' j' r)
  then show ?case using open_inv by blast
qed (rule create_inv)

section \<open>A rename that was not synced\<close>

definition demo_inc :: bytes where
  "demo_inc = replicate 16 7"

abbreviation demo_first :: jrecord where "demo_first \<equiv> next_record (create demo_inc) 1 [9]"

definition demo_written :: journal where
  "demo_written = fst (append_durable Landed (create demo_inc) 1 [9])"

definition demo_moved :: journal where
  "demo_moved = fst (compact_checkpoint SyncParent demo_written 2 [])"

lemma demo_writes:
  "append_durable Landed (create demo_inc) 1 [9] = (demo_written, Inr 0)"
  "live_ok demo_inc {demo_first} {demo_first} demo_written [demo_first] []"
  "reverts demo_written = []" "j_incarnation demo_written = demo_inc" "next_sequence demo_written = 1" "\<not> poisoned demo_written"
proof -
  have w: "wf_record demo_inc demo_first"
    by (simp add: wf_record_def next_record_def create_def demo_inc_def u64_max_def CHECKPOINT_FLAG_def MAX_PAYLOAD_def)
  then have can: "can_append (create demo_inc) 1 [9]"
    using length_rec_bytes [OF w] by (simp add: can_append_def create_def next_record_def HEADER_LEN_def MAX_PAYLOAD_def
        CHECKPOINT_FLAG_def u64_max_def MAX_JOURNAL_BYTES_def)
  have l: "live_ok demo_inc {} {} (create demo_inc) [] []"
    by (simp add: create_def live_ok_def disk_ok_def image_ok_def chain_def partial_def kept_def next_after_def)
  show "live_ok demo_inc {demo_first} {demo_first} demo_written [demo_first] []"
    using append_landed [OF l can] by (simp add: demo_written_def demo_inc_def create_def)
  show "append_durable Landed (create demo_inc) 1 [9] = (demo_written, Inr 0)"
    using append_allowed(1) [OF can] by (simp add: demo_written_def create_def)
  show "reverts demo_written = []" "j_incarnation demo_written = demo_inc" "next_sequence demo_written = 1" "\<not> poisoned demo_written"
    using append_allowed(1) [OF can] by (simp_all add: demo_written_def create_def)
qed

lemma demo_moves:
  "compact_checkpoint SyncParent demo_written 2 [] = (demo_moved, Inl JIo)"
  "named demo_moved = replacement_disk demo_written 2 []" "reverts demo_moved = [jfile demo_written]"
proof -
  have "can_compact demo_written 2 []" using demo_writes(5,6) by (simp add: can_compact_def CHECKPOINT_FLAG_def MAX_PAYLOAD_def)
  then show "compact_checkpoint SyncParent demo_written 2 [] = (demo_moved, Inl JIo)"
    "named demo_moved = replacement_disk demo_written 2 []" "reverts demo_moved = [jfile demo_written]"
    using compact_allowed [of demo_written 2 "[]" SyncParent] demo_writes(3)
    by (simp_all add: demo_moved_def finish_compaction_def Let_def named_def)
qed

lemma demo_runs:
  "journal_run demo_inc demo_moved {demo_first} {demo_first} {checkpoint_record demo_written 2 [], demo_first}"
proof -
  have "journal_run demo_inc (create demo_inc) {} {} {}" by (rule run_create) (simp add: demo_inc_def)
  from run_append [OF this demo_writes(1) refl]
  have "journal_run demo_inc demo_written {demo_first} {demo_first} {demo_first}"
    by (simp add: create_def durable_def demo_writes(3))
  from run_compact [OF this demo_moves(1) refl] show ?thesis by (simp add: durable_def)
qed

text \<open>The restart finds the checkpoint, and the journal it opens takes another record and reports it
  durable. Power is lost, and the old file has its name back.\<close>

lemma demo_opens:
  obtains j d r where "open_current True (replacement_disk demo_written 2 []) [jfile demo_written] demo_inc = (d, Inr (j, r))"
    "j_incarnation j = demo_inc" "reverts j = [jfile demo_written]" "next_sequence j = 1" "can_append j 3 []"
proof -
  let ?c = "checkpoint_record demo_written 2 []" and ?d = "replacement_disk demo_written 2 []"
  have can: "can_compact demo_written 2 []" using demo_writes(5,6) by (simp add: can_compact_def CHECKPOINT_FLAG_def MAX_PAYLOAD_def)
  have inc: "length demo_inc = 16" by (simp add: demo_inc_def)
  have ok: "disk_ok demo_inc (insert ?c {demo_first}) (insert ?c {demo_first}) ?d [?c] [] []"
    using replacement_ok [OF demo_writes(2) can inc demo_writes(4)] .
  have c: "wf_record demo_inc ?c" "payload ?c = []" "sequence ?c = 0"
    using ok demo_writes(5) by (simp_all add: disk_ok_def image_ok_def chain_def checkpoint_record_def)
  obtain d j where o: "open_current True ?d [jfile demo_written] demo_inc =
      (d, Inr (j, \<lparr>records = [?c] @ [], torn_tail = ([] \<noteq> ([] :: bytes)), valid_bytes = length (encs ([?c] @ []))\<rparr>))"
      "j_incarnation j = demo_inc" "reverts j = [jfile demo_written]" "next_sequence j = next_after ([?c] @ [])" "\<not> poisoned j"
    by (rule open_disk_ok [OF ok disjI2 [OF TrueI], of "[jfile demo_written]"])
  have "d = ?d" "jbytes j = length (contents d)"
    using o(1) disk_ok_replay [OF ok] by (auto simp: open_current_def Let_def split: sum.splits)
  then have "jbytes j = 38" using length_rec_bytes [OF c(1)] c(2) by (simp add: replacement_disk_def HEADER_LEN_def)
  moreover have next1: "next_sequence j = 1" using o(4) c(3) by (simp add: next_after_def)
  moreover from this have "wf_record demo_inc (next_record j 3 [])"
    using o(2) inc by (simp add: wf_record_def next_record_def u64_max_def CHECKPOINT_FLAG_def MAX_PAYLOAD_def)
  then have "length (rec_bytes (next_record j 3 [])) = 38" by (simp add: length_rec_bytes HEADER_LEN_def) (simp add: next_record_def)
  ultimately have "can_append j 3 []"
    using o(5) by (simp add: can_append_def MAX_PAYLOAD_def CHECKPOINT_FLAG_def u64_max_def MAX_JOURNAL_BYTES_def)
  with o(1-3) next1 show thesis by (rule that)
qed

lemma demo_lost:
  "\<exists>j new asked. journal_run demo_inc j {new, demo_first} {demo_first} asked \<and> sequence new = 1 \<and>
    found demo_inc j True (new_file (rec_bytes demo_first)) []"
proof -
  obtain j d r where o: "open_current True (replacement_disk demo_written 2 []) [jfile demo_written] demo_inc = (d, Inr (j, r))"
      "j_incarnation j = demo_inc" "reverts j = [jfile demo_written]" "next_sequence j = 1" "can_append j 3 []"
    by (rule demo_opens)
  let ?j = "fst (append_durable Landed j 3 [])" and ?new = "next_record j 3 []"
  have "found demo_inc demo_moved False (replacement_disk demo_written 2 []) [jfile demo_written]"
    using found_restart [of demo_inc demo_moved] by (simp add: demo_moves)
  from run_open [OF demo_runs this o(1)]
  have run: "journal_run demo_inc j {demo_first} {demo_first} {checkpoint_record demo_written 2 [], demo_first}" by simp
  have app: "append_durable Landed j 3 [] = (?j, Inr (next_sequence j))" "reverts ?j = [jfile demo_written]"
    using append_allowed(1) [OF o(5)] o(3) by simp_all
  from run_append [OF run app(1) refl]
  have run': "journal_run demo_inc ?j {?new, demo_first} {demo_first} (insert ?new {checkpoint_record demo_written 2 [], demo_first})"
    by (simp add: durable_def app(2))
  have c: "contents (jfile demo_written) = rec_bytes demo_first" and le: "length (rec_bytes demo_first) \<le> length (stable (jfile demo_written))"
    using demo_writes(2) by (simp_all add: live_ok_def disk_ok_def image_ok_def)
  have "length (pending (jfile demo_written)) = 0" using arg_cong [OF c, of length] le unfolding contents_def length_append by linarith
  then have "stable (jfile demo_written) = rec_bytes demo_first" using c by (simp add: contents_def)
  then have "after_crash (jfile demo_written) (pending (jfile demo_written)) 0 = new_file (rec_bytes demo_first)"
    by (simp add: after_crash_def)
  then have "found demo_inc ?j True (new_file (rec_bytes demo_first)) []"
    using found_power_loss [OF found_restart, of "jfile demo_written" ?j "pending (jfile demo_written)" demo_inc 0] app(2) by simp
  moreover have "sequence ?new = 1" using o(4) by (simp add: next_record_def)
  ultimately show ?thesis using run' by blast
qed

lemma demo_replays: "replay_reader (rec_bytes demo_first) demo_inc =
    Inr \<lparr>records = [demo_first], torn_tail = False, valid_bytes = length (rec_bytes demo_first)\<rparr>"
proof -
  have i: "image_ok demo_inc {demo_first} (contents (jfile demo_written)) [demo_first] []"
    using demo_writes(2) by (simp add: live_ok_def disk_ok_def)
  then have "contents (jfile demo_written) = rec_bytes demo_first" by (simp add: image_ok_def)
  then show ?thesis using image_replay [OF i] by simp
qed

text \<open>So a record that \<open>append_durable\<close> reported can be gone: an acknowledgement is a durable fact only
  when the directory is in sync, which opening a journal does not see to.\<close>

lemma acknowledgement_lost:
  "\<exists>j told facts asked d j' r. journal_run demo_inc j told facts asked \<and> found demo_inc j True d [] \<and>
    open_current True d [] demo_inc = (d, Inr (j', r)) \<and> \<not> kept told (records r)"
proof -
  obtain j new asked where j: "journal_run demo_inc j {new, demo_first} {demo_first} asked" "sequence new = 1"
      "found demo_inc j True (new_file (rec_bytes demo_first)) []"
    using demo_lost by blast
  let ?d = "new_file (rec_bytes demo_first)"
  have first: "sequence demo_first = 0" "\<not> is_checkpoint demo_first" by (simp_all add: next_record_def create_def)
  have "\<exists>j'. open_current True ?d [] demo_inc =
      (?d, Inr (j', \<lparr>records = [demo_first], torn_tail = False, valid_bytes = length (rec_bytes demo_first)\<rparr>))"
    using first(1) by (simp add: open_current_def demo_replays next_sequence_after_def last_record_def successor_eq u64_max_def Let_def)
  moreover have "\<not> kept {new, demo_first} [demo_first]" using j(2) first by (auto simp: kept_def)
  ultimately show ?thesis using j(1,3) by (metis replay.select_convs(1))
qed

section \<open>Properties\<close>

text \<open>C1. Nothing durable is lost and nothing is invented: however a journal was used, through failed
  writes, failed syncs, repairs, compactions that lost their rename or its sync, failed openings,
  restarts and power losses, opening whatever is found next succeeds. Without a power loss every
  record a caller was told is durable is still there or folded into a checkpoint that covers it;
  after one, every record told when the directory was last in sync is, which is every record told
  unless a rename is still unsynced. Every record there was asked for, and their sequence numbers run
  without a gap from zero or a checkpoint.\<close>

theorem journal_crash_safe:
  assumes run: "journal_run inc j told facts asked" and f: "found inc j lost d olds"
  shows "(\<exists>d' j' r. open_current True d olds inc = (d', Inr (j', r)) \<and> kept (if lost then facts else told) (records r) \<and>
      set (records r) \<subseteq> asked \<and> chain inc (records r) \<and> next_sequence j' = next_after (records r)) \<and>
    (reverts j = [] \<longrightarrow> facts = told)"
proof -
  note inv = journal_run_inv [OF run]
  obtain rs rs' part where ok: "disk_ok inc (if lost then facts else told) asked d rs rs' part"
    using found_well [OF f inv] by (auto simp: well_def)
  obtain d' j' where "open_current True d olds inc =
      (d', Inr (j', \<lparr>records = rs @ rs', torn_tail = (part \<noteq> []), valid_bytes = length (encs (rs @ rs'))\<rparr>))"
      "next_sequence j' = next_after (rs @ rs')"
    using open_disk_ok [OF ok, of True olds] by blast
  moreover have "kept (if lost then facts else told) (rs @ rs')" "set (rs @ rs') \<subseteq> asked" "chain inc (rs @ rs')"
    using ok kept_append by (auto simp: disk_ok_def image_ok_def)
  moreover have "reverts j = [] \<longrightarrow> facts = told" using inv by (simp add: journal_inv_def)
  ultimately show ?thesis by (metis replay.select_convs(1))
qed

theorem journal_crash_safe_witness:
  "\<exists>j new asked. journal_run demo_inc j {new, demo_first} {demo_first} asked \<and>
    found demo_inc j True (new_file (rec_bytes demo_first)) [] \<and>
    (\<exists>d' j' r. open_current True (new_file (rec_bytes demo_first)) [] demo_inc = (d', Inr (j', r)) \<and>
      kept {demo_first} (records r) \<and> set (records r) \<subseteq> asked)"
proof -
  obtain j new asked where j: "journal_run demo_inc j {new, demo_first} {demo_first} asked"
      "found demo_inc j True (new_file (rec_bytes demo_first)) []"
    using demo_lost by blast
  from journal_crash_safe [OF j] j show ?thesis by (metis (full_types))
qed

lemma take_encs_max:
  "\<forall>r \<in> set rs. wf_record inc r \<Longrightarrow> n \<le> length (encs rs) \<Longrightarrow>
    \<exists>k part. take n (encs rs) = encs (take k rs) @ part \<and> partial inc part \<and>
      (\<forall>i \<le> length rs. length (encs (take i rs)) \<le> n \<longrightarrow> i \<le> k)"
proof (induction rs arbitrary: n)
  case Nil
  then show ?case by (simp add: partial_def)
next
  case (Cons r rs)
  show ?case
  proof (cases "n < length (rec_bytes r)")
    case True
    have "i \<le> 0" if "length (encs (take i (r # rs))) \<le> n" for i
      using that True by (cases i) auto
    then show ?thesis
      using True partial_take [of inc r n] Cons.prems(1)
      by (intro exI [of _ 0] exI [of _ "take n (rec_bytes r)"]) auto
  next
    case False
    have n: "n - length (rec_bytes r) \<le> length (encs rs)" using Cons.prems(2) by simp
    obtain k part where k: "take (n - length (rec_bytes r)) (encs rs) = encs (take k rs) @ part" "partial inc part"
      "\<forall>i \<le> length rs. length (encs (take i rs)) \<le> n - length (rec_bytes r) \<longrightarrow> i \<le> k"
      using Cons.IH [OF _ n] Cons.prems(1) by auto
    have "i \<le> Suc k" if "i \<le> Suc (length rs)" "length (encs (take i (r # rs))) \<le> n" for i
      using that k(3) by (cases i) auto
    then show ?thesis
      using k(1,2) False by (intro exI [of _ "Suc k"] exI [of _ part]) auto
  qed
qed

text \<open>C33. A torn tail never invents a transition: cutting a well-formed journal at any byte leaves
  exactly the records that end before the cut, in order, and reports a torn tail exactly when the
  cut falls inside a record.\<close>

theorem torn_tail_exact:
  assumes c: "chain inc rs" and len: "length (encs rs) \<le> MAX_JOURNAL_BYTES" and n: "n \<le> length (encs rs)"
  shows "\<exists>k. replay_reader (take n (encs rs)) inc =
      Inr \<lparr>records = take k rs, torn_tail = (length (encs (take k rs)) \<noteq> n), valid_bytes = length (encs (take k rs))\<rparr> \<and>
    length (encs (take k rs)) \<le> n \<and> (\<forall>i \<le> length rs. length (encs (take i rs)) \<le> n \<longrightarrow> i \<le> k)"
proof -
  have "\<forall>r \<in> set rs. wf_record inc r" using c by (simp add: chain_def)
  from take_encs_max [OF this n] obtain k part where
    k: "take n (encs rs) = encs (take k rs) @ part" "partial inc part"
      "\<forall>i \<le> length rs. length (encs (take i rs)) \<le> n \<longrightarrow> i \<le> k"
    by blast
  have ch: "chain inc (take k rs)" using c chain_prefix [of inc "take k rs" "drop k rs"] by simp
  have l: "length (encs (take k rs) @ part) = n" using arg_cong [OF k(1), of length] n by simp
  have r: "replay_reader (take n (encs rs)) inc =
      Inr \<lparr>records = take k rs, torn_tail = (part \<noteq> []), valid_bytes = length (encs (take k rs))\<rparr>"
    using replay_chain [OF ch k(2)] l n len by (simp add: k(1))
  have "part \<noteq> [] \<longleftrightarrow> length (encs (take k rs)) \<noteq> n" using l by auto
  then show ?thesis using r k(3) l by (intro exI [of _ k]) auto
qed

theorem torn_tail_exact_witness:
  "\<exists>k. replay_reader (take 5 (encs [next_record (create demo_inc) 1 [9]])) demo_inc =
      Inr \<lparr>records = take k [next_record (create demo_inc) 1 [9]],
        torn_tail = (length (encs (take k [next_record (create demo_inc) 1 [9]])) \<noteq> 5),
        valid_bytes = length (encs (take k [next_record (create demo_inc) 1 [9]]))\<rparr>"
proof -
  let ?r = "next_record (create demo_inc) 1 [9]"
  have w: "wf_record demo_inc ?r"
    by (simp add: wf_record_def next_record_def create_def demo_inc_def u64_max_def CHECKPOINT_FLAG_def MAX_PAYLOAD_def)
  have "chain demo_inc [?r]" using w by (simp add: chain_def) (simp add: next_record_def create_def)
  moreover have "length (encs [?r]) = 39"
    using length_rec_bytes [OF w] by (simp add: HEADER_LEN_def next_record_def)
  ultimately show ?thesis
    using torn_tail_exact [of demo_inc "[?r]" 5] by (simp add: MAX_JOURNAL_BYTES_def) blast
qed

end

