(* ===== verification/Gf256.thy ===== *)
theory Gf256
  imports Vot_Prelude
begin

text \<open>
  The field the erasure code computes in (\<open>src/crates/vot-fec/src/gf.rs\<close>): bytes with XOR as
  addition and a product read off tables of exponents and logarithms to base 2 modulo the
  polynomial 0x11D. The tables are built here as the source builds them; the type \<open>gf\<close> is the
  bytes with these operations, and is shown to be a field.
\<close>

unbundle bit_operations_syntax

section \<open>The tables\<close>

definition POLYNOMIAL :: nat where "POLYNOMIAL = 0x11D"

definition double_value :: "nat \<Rightarrow> nat" where
  "double_value value =
    (let v = push_bit 1 value in if v AND 0x100 \<noteq> 0 then v XOR POLYNOMIAL else v)"

fun table_loop :: "nat \<Rightarrow> nat \<Rightarrow> nat \<Rightarrow> bytes \<Rightarrow> bytes \<Rightarrow> nat \<times> bytes \<times> bytes" where
  "table_loop 0 pw value ex lg = (value, ex, lg)"
| "table_loop (Suc n) pw value ex lg =
    table_loop n (Suc pw) (double_value value)
      (ex[pw := of_nat (value AND 0xFF)]) (lg[value := of_nat (pw AND 0xFF)])"

fun extend_loop :: "nat \<Rightarrow> nat \<Rightarrow> bytes \<Rightarrow> bytes" where
  "extend_loop 0 pw ex = ex"
| "extend_loop (Suc n) pw ex = extend_loop n (Suc pw) (ex[pw := ex ! (pw - 255)])"

definition tables :: "bytes \<times> bytes" where
  "tables =
    (let (value, ex, lg) = table_loop 255 0 1 (replicate 512 0) (replicate 256 0) in
     (extend_loop 257 255 ex, lg))"

definition EXP :: bytes where "EXP = fst tables"
definition LOG :: bytes where "LOG = snd tables"

definition gf_mul :: "byte \<Rightarrow> byte \<Rightarrow> byte" where
  "gf_mul a b = (if a = 0 \<or> b = 0 then 0 else EXP ! (unat (LOG ! unat a) + unat (LOG ! unat b)))"

text \<open>The inverse of zero is an assertion failure in the source. Its two callers pass a non-zero byte:
  a pivot that was just found, and \<open>x XOR j\<close> with \<open>j < k \<le> x\<close>.\<close>

definition gf_inv :: "byte \<Rightarrow> byte" where
  "gf_inv a = EXP ! (255 - unat (LOG ! unat a))"

definition product_tables :: "bytes list" where
  "product_tables =
    map (\<lambda>coefficient. map (\<lambda>value.
      if coefficient = 0 \<or> value = 0 then 0
      else EXP ! (unat (LOG ! coefficient) + unat (LOG ! value))) [0..<256]) [0..<256]"

definition products_of :: "byte \<Rightarrow> bytes" where
  "products_of coefficient = product_tables ! unat coefficient"

text \<open>The encode kernel: the scalar loop, unrolled eight bytes at a time in the source, and the
  vector loop, which looks each byte up by its two nibbles \<open>lanes\<close> bytes at a time and leaves the
  remainder to the scalar one. Both compute the same bytes (\<open>mul_add_simd_eq\<close> below), so the choice the
  dispatch makes is not a parameter of \<open>mul_add\<close>.\<close>

definition nibble_tables :: "(bytes \<times> bytes) list" where
  "nibble_tables =
    map (\<lambda>coefficient.
      (map (\<lambda>nibble. product_tables ! coefficient ! nibble) [0..<16],
       map (\<lambda>nibble. product_tables ! coefficient ! push_bit 4 nibble) [0..<16])) [0..<256]"

definition mul_add_scalar :: "bytes \<Rightarrow> byte \<Rightarrow> bytes \<Rightarrow> bytes" where
  "mul_add_scalar out coefficient symbol =
    map2 (\<lambda>o' s. o' XOR products_of coefficient ! unat s) out symbol"

definition mul_add_simd :: "nat \<Rightarrow> bytes \<Rightarrow> byte \<Rightarrow> bytes \<Rightarrow> bytes" where
  "mul_add_simd lanes out coefficient symbol =
    (let (low_table, high_table) = nibble_tables ! unat coefficient;
         whole = length out div lanes * lanes in
     map2 (\<lambda>o' s. o' XOR (low_table ! unat (s AND 0x0f) XOR high_table ! unat (drop_bit 4 s)))
       (take whole out) (take whole symbol) @
     mul_add_scalar (drop whole out) coefficient (drop whole symbol))"

definition mul_add :: "bytes \<Rightarrow> byte \<Rightarrow> bytes \<Rightarrow> bytes" where
  "mul_add out coefficient symbol =
    (if coefficient = 0 then out
     else if coefficient = 1 then map2 (XOR) out symbol
     else mul_add_scalar out coefficient symbol)"

section \<open>Doubling\<close>

lemma double_value_eq: "double_value v = push_bit 1 v XOR (if bit v 7 then POLYNOMIAL else 0)"
proof -
  have "push_bit 1 v AND 0x100 = 0 \<longleftrightarrow> \<not> bit v 7"
    using and_exp_eq_0_iff_not_bit [of "push_bit 1 v" 8] bit_push_bit_iff_nat [of 1 v 8] by simp
  then show ?thesis by (auto simp: double_value_def Let_def)
qed

lemma double_value_xor: "double_value (a XOR b) = double_value a XOR double_value b"
  by (auto simp: double_value_eq push_bit_xor bit_xor_iff ac_simps)

lemma double_value_less: "v < 256 \<Longrightarrow> double_value v < 256"
proof -
  assume v: "v < 256"
  have "drop_bit 7 v < 2" using v by (simp add: drop_bit_eq_div)
  then have d: "drop_bit 7 v = (if bit v 7 then 1 else 0)"
    by (auto simp: bit_iff_odd_drop_bit less_2_cases_iff)
  have "drop_bit 8 (push_bit 1 v) = drop_bit 7 v"
    by (rule bit_eqI) (simp add: bit_drop_bit_eq bit_push_bit_iff_nat del: push_bit_of_nat One_nat_def add: numeral_eq_Suc)
  then have "drop_bit 8 (double_value v) = 0"
    by (simp add: double_value_eq drop_bit_xor d POLYNOMIAL_def)
  then show ?thesis by (simp add: drop_bit_eq_div)
qed

definition xt :: "byte \<Rightarrow> byte" where
  "xt b = of_nat (double_value (unat b))"

lemma unat_xt: "unat (xt b) = double_value (unat b)"
  using double_value_less [of "unat b"] unat_byte_less [of b] by (simp add: xt_def unat_of_nat_byte)

lemma unat_xor_byte: "unat (a XOR b :: byte) = unat a XOR unat b"
  by (rule unsigned_xor_eq)

lemma xt_xor: "xt (a XOR b) = xt a XOR xt b"
  by (rule word_unat_eq_iff [THEN iffD2]) (simp add: unat_xt unat_xor_byte double_value_xor)

lemma xt_pow_xor: "(xt ^^ n) (a XOR b) = (xt ^^ n) a XOR (xt ^^ n) b"
  by (induction n) (simp_all add: xt_xor)

lemma xt_pow_0 [simp]: "(xt ^^ n) 0 = 0"
  by (induction n) (simp_all add: xt_def double_value_def)

lemma unat_xt_pow: "unat ((xt ^^ n) b) = (double_value ^^ n) (unat b)"
  by (induction n) (simp_all add: unat_xt)

lemma double_15: "(double_value ^^ 15) v = double_value (double_value (double_value (double_value (double_value
  (double_value (double_value (double_value (double_value (double_value (double_value (double_value (double_value
  (double_value (double_value v))))))))))))))"
  by (simp add: eval_nat_numeral)

lemma double_steps:
  "(double_value ^^ 15) 1 = 38"
  "(double_value ^^ 15) 38 = 96"
  "(double_value ^^ 15) 96 = 193"
  "(double_value ^^ 15) 193 = 185"
  "(double_value ^^ 15) 185 = 15"
  "(double_value ^^ 15) 15 = 223"
  "(double_value ^^ 15) 223 = 26"
  "(double_value ^^ 15) 26 = 59"
  "(double_value ^^ 15) 59 = 169"
  "(double_value ^^ 15) 169 = 85"
  "(double_value ^^ 15) 85 = 145"
  "(double_value ^^ 15) 145 = 150"
  "(double_value ^^ 15) 150 = 100"
  "(double_value ^^ 15) 100 = 89"
  "(double_value ^^ 15) 89 = 36"
  "(double_value ^^ 15) 36 = 44"
  "(double_value ^^ 15) 44 = 1"
  by (simp_all add: double_15 double_value_def POLYNOMIAL_def)

lemma double_times_15: "(double_value ^^ (15 * n)) v = ((double_value ^^ 15) ^^ n) v"
  by (simp add: funpow_mult mult.commute)

lemma iter_17: "(f ^^ 17) x = f (f (f (f (f (f (f (f (f (f (f (f (f (f (f (f (f x))))))))))))))))"
  by (simp add: eval_nat_numeral)

lemma double_255: "(double_value ^^ 255) 1 = 1"
  using double_times_15 [of 17 1] by (simp add: iter_17 double_steps [unfolded One_nat_def])

lemma iter_3_5: "(f ^^ 3) x = f (f (f x))" "(f ^^ 5) x = f (f (f (f (f x))))"
  by (simp_all add: eval_nat_numeral)

lemma iter_6_10: "(f ^^ 6) x = f (f (f (f (f (f x)))))" "(f ^^ 10) x = f (f (f (f (f (f (f (f (f (f x)))))))))"
  by (simp_all add: eval_nat_numeral)

lemma double_orders: "(double_value ^^ 15) 1 \<noteq> 1" "(double_value ^^ 51) 1 \<noteq> 1" "(double_value ^^ 85) 1 \<noteq> 1"
proof -
  have 45: "(double_value ^^ 45) 1 = 193" "(double_value ^^ 75) 1 = 15"
    using double_times_15 [of 3 1] double_times_15 [of 5 1] by (simp_all add: iter_3_5 double_steps [unfolded One_nat_def])
  have "(double_value ^^ 51) 1 = (double_value ^^ 6) ((double_value ^^ 45) 1)"
    "(double_value ^^ 85) 1 = (double_value ^^ 10) ((double_value ^^ 75) 1)"
    using funpow_add [of 6 45 double_value] funpow_add [of 10 75 double_value] by simp_all
  then show "(double_value ^^ 51) 1 \<noteq> 1" "(double_value ^^ 85) 1 \<noteq> 1"
    unfolding 45 by (simp_all add: iter_6_10 double_value_def POLYNOMIAL_def)
qed (simp add: double_steps [unfolded One_nat_def])


definition pow2 :: "nat \<Rightarrow> nat" where
  "pow2 i = (double_value ^^ i) 1"

lemma pow2_0 [simp]: "pow2 0 = 1" by (simp add: pow2_def)

lemma pow2_Suc: "pow2 (Suc i) = double_value (pow2 i)" by (simp add: pow2_def)

lemma pow2_less: "pow2 i < 256"
  by (induction i) (simp_all add: pow2_Suc double_value_less)

lemma pow2_add: "pow2 (i + j) = (double_value ^^ i) (pow2 j)"
  by (simp add: pow2_def funpow_add)

lemma pow2_period: "pow2 d = 1 \<Longrightarrow> pow2 (i + d * k) = pow2 i"
proof (induction k)
  case (Suc k)
  have "pow2 (i + d * k + d) = (double_value ^^ (i + d * k)) 1" using Suc.prems by (simp add: pow2_add)
  then show ?case using Suc by (simp add: pow2_def add.assoc [symmetric] add.commute)
qed simp

lemma pow2_255: "pow2 255 = 1" using double_255 by (simp add: pow2_def)

lemma pow2_mod: "pow2 (i mod 255) = pow2 i"
  using pow2_period [OF pow2_255, of "i mod 255" "i div 255"] by (simp add: mod_mult_div_eq)

lemma small_factor: "255 = g * k \<Longrightarrow> 1 < k \<Longrightarrow> k \<le> 15 \<Longrightarrow> g = 85 \<and> k = 3 \<or> g = 51 \<and> k = 5 \<or> g = 17 \<and> k = (15 :: nat)"
proof -
  assume g: "255 = g * k" and k: "1 < k" "k \<le> 15"
  have "k = 2 \<or> k = 3 \<or> k = 4 \<or> k = 5 \<or> k = 6 \<or> k = 7 \<or> k = 8 \<or> k = 9 \<or> k = 10 \<or> k = 11 \<or> k = 12 \<or> k = 13 \<or> k = 14 \<or> k = 15"
    using k by presburger
  then show ?thesis using g by (elim disjE; simp; presburger)
qed

lemma divisor_255:
  assumes "g dvd 255" "g < (255 :: nat)"
  shows "g dvd 15 \<or> g dvd 51 \<or> g dvd 85"
proof -
  obtain k where k: "255 = g * k" using assms(1) by (elim dvdE)
  have "g \<noteq> 0" "k \<noteq> 0" using k by (metis mult_zero_left zero_neq_numeral, metis mult_zero_right zero_neq_numeral)
  have "k \<noteq> 1" using k assms(2) by auto
  show ?thesis
  proof (cases "k \<le> 15")
    case True
    then have "g = 85 \<or> g = 51 \<or> g = 17" using small_factor [OF k] \<open>k \<noteq> 0\<close> \<open>k \<noteq> 1\<close> by linarith
    then show ?thesis by auto
  next
    case False
    then have "g \<le> 15"
    proof (rule_tac ccontr)
      assume "\<not> g \<le> 15"
      then have "16 * 16 \<le> g * k" using False by (intro mult_le_mono) auto
      with k show False by simp
    qed
    then have "g = 1 \<or> g = 3 \<or> g = 5 \<or> g = 15"
      using small_factor [of k g] k \<open>g \<noteq> 0\<close> by (cases "g = 1") (auto simp: mult.commute)
    then show ?thesis by auto
  qed
qed

lemma pow2_order:
  assumes "pow2 d = 1" "0 < d" "d < 255"
  shows False
proof -
  let ?g = "gcd d 255"
  obtain x y where xy: "d * x = 255 * y + ?g" using bezout_nat [of d 255] assms(2) by auto
  have "pow2 (0 + d * x) = 1" using pow2_period [OF assms(1), of 0 x] by simp
  then have g: "pow2 ?g = 1" using pow2_period [OF pow2_255, of ?g y] xy by (simp add: add.commute)
  have "?g dvd 15 \<or> ?g dvd 51 \<or> ?g dvd 85"
  proof (rule divisor_255)
    show "?g dvd 255" by simp
    show "?g < 255" using assms(2,3) gcd_le1_nat [of d 255] by linarith
  qed
  then consider j where "15 = ?g * j" | j where "51 = ?g * j" | j where "85 = ?g * j"
    by (auto elim!: dvdE)
  then show False
    by cases (use pow2_period [OF g, of 0] double_orders in \<open>metis add_0 pow2_0 pow2_def\<close>)+
qed


lemma pow2_inj: "i < 255 \<Longrightarrow> j < 255 \<Longrightarrow> pow2 i = pow2 j \<Longrightarrow> i = j"
proof (induction i j rule: linorder_wlog)
  case (le i j)
  have "pow2 (255 - i + i) = pow2 (255 - i + j)" by (simp only: pow2_add le)
  then have "1 = pow2 (255 + (j - i))" using le pow2_255 by simp
  also have "\<dots> = pow2 (j - i)" using pow2_period [OF pow2_255, of "j - i" 1] by (simp add: add.commute)
  finally have "pow2 (j - i) = 1" by simp
  then have "j - i = 0" using pow2_order [of "j - i"] le by (metis gr0I less_imp_diff_less)
  then show ?case using le by simp
qed metis

lemma pow2_pos: "0 < pow2 i"
proof (rule ccontr)
  assume "\<not> 0 < pow2 i"
  then have "pow2 (255 - i mod 255 + i mod 255) = (double_value ^^ (255 - i mod 255)) 0"
    by (simp only: pow2_add) (simp add: pow2_mod)
  moreover have "(double_value ^^ n) 0 = 0" for n by (induction n) (simp_all add: double_value_def)
  moreover have "255 - i mod 255 + i mod 255 = 255" using mod_less_divisor [of 255 i] by linarith
  ultimately show False using pow2_255 by simp
qed

lemma pow2_surj: "0 < v \<Longrightarrow> v < 256 \<Longrightarrow> \<exists>i < 255. pow2 i = v"
proof -
  assume v: "0 < v" "v < 256"
  have "pow2 ` {..<255} \<subseteq> {1..<256}" using pow2_pos pow2_less by (auto simp: Suc_le_eq)
  moreover have "card (pow2 ` {..<255}) = card {1..<256::nat}"
    by (subst card_image) (auto intro: inj_onI pow2_inj)
  ultimately have "pow2 ` {..<255} = {1..<256}" by (intro card_subset_eq) auto
  then have "v \<in> pow2 ` {..<255}" using v by auto
  then show ?thesis by auto
qed

section \<open>What the tables hold\<close>

lemma and_255: "v < 256 \<Longrightarrow> v AND 255 = (v :: nat)"
  using take_bit_eq_mask [of 8 v] by (simp add: take_bit_nat_eq_self mask_eq_exp_minus_1)

lemma table_loop_correct:
  "\<lbrakk>p + n \<le> 255; length ex = 512; length lg = 256; \<forall>i < p. ex ! i = of_nat (pow2 i) \<and> lg ! pow2 i = of_nat i\<rbrakk> \<Longrightarrow>
    \<exists>ex' lg'. table_loop n p (pow2 p) ex lg = (pow2 (p + n), ex', lg') \<and> length ex' = 512 \<and> length lg' = 256 \<and>
      (\<forall>i < p + n. ex' ! i = of_nat (pow2 i) \<and> lg' ! pow2 i = of_nat i)"
proof (induction n arbitrary: p ex lg)
  case (Suc n)
  let ?ex = "ex[p := of_nat (pow2 p)]" and ?lg = "lg[pow2 p := of_nat p]"
  have "\<forall>i < Suc p. ?ex ! i = of_nat (pow2 i) \<and> ?lg ! pow2 i = of_nat i"
  proof (intro allI impI)
    fix i assume i: "i < Suc p"
    show "?ex ! i = of_nat (pow2 i) \<and> ?lg ! pow2 i = of_nat i"
    proof (cases "i = p")
      case False
      then have "pow2 p \<noteq> pow2 i" using i Suc.prems(1) pow2_inj [of p i] by auto
      then show ?thesis using False i Suc.prems by auto
    qed (use Suc.prems pow2_less in auto)
  qed
  then show ?case
    using Suc.IH [of "Suc p" ?ex ?lg] Suc.prems pow2_less [of p]
    by (simp add: and_255 pow2_Suc)
qed auto

lemma extend_loop_correct:
  "\<lbrakk>255 \<le> p; p + n \<le> length ex; \<forall>i < p. ex ! i = of_nat (pow2 i)\<rbrakk> \<Longrightarrow>
    \<forall>i < p + n. extend_loop n p ex ! i = of_nat (pow2 i)"
proof (induction n arbitrary: p ex)
  case (Suc n)
  have "ex ! (p - 255) = of_nat (pow2 p)"
    using Suc.prems pow2_period [OF pow2_255, of "p - 255" 1] by simp
  then have "\<forall>i < Suc p. ex[p := ex ! (p - 255)] ! i = of_nat (pow2 i)"
    using Suc.prems by (auto simp: less_Suc_eq nth_list_update)
  then show ?case using Suc.IH [of "Suc p" "ex[p := ex ! (p - 255)]"] Suc.prems by simp
qed simp

lemma tables_correct:
  "i < 512 \<Longrightarrow> EXP ! i = of_nat (pow2 i)" "i < 255 \<Longrightarrow> LOG ! pow2 i = of_nat i"
proof -
  obtain ex lg where t: "table_loop 255 0 1 (replicate 512 0) (replicate 256 0) = (pow2 255, ex, lg)"
    "length ex = 512" "\<forall>i < 255. ex ! i = of_nat (pow2 i) \<and> lg ! pow2 i = of_nat i"
    using table_loop_correct [of 0 255 "replicate 512 0" "replicate 256 0"] by auto
  then show "i < 512 \<Longrightarrow> EXP ! i = of_nat (pow2 i)" "i < 255 \<Longrightarrow> LOG ! pow2 i = of_nat i"
    using extend_loop_correct [of 255 257 ex] by (simp_all add: EXP_def LOG_def tables_def)
qed


section \<open>The field laws\<close>

lemma byte_power:
  assumes "(a :: byte) \<noteq> 0"
  obtains i where "i < 255" "unat a = pow2 i" "unat (LOG ! unat a) = i"
proof -
  have "0 < unat a" using assms by (simp add: unat_gt_0)
  then obtain i where i: "i < 255" "unat a = pow2 i" using pow2_surj [of "unat a"] unat_byte_less [of a] by metis
  then have "unat (LOG ! unat a) = i" using tables_correct(2) [of i] by (simp add: unat_of_nat_byte)
  with i show thesis by (rule that)
qed

lemma unat_pow2: "unat (of_nat (pow2 i) :: byte) = pow2 i"
  using pow2_less [of i] by (simp add: unat_of_nat_byte)

lemma gf_mul_power:
  assumes a: "unat a = pow2 i" "i < 255"
  shows "gf_mul a b = (xt ^^ i) b"
proof (cases "b = 0")
  case True
  then show ?thesis by (simp add: gf_mul_def)
next
  case False
  have "a \<noteq> 0" using a pow2_pos [of i] by auto
  moreover have "unat (LOG ! unat a) = i" using tables_correct(2) [OF a(2)] a by (simp add: unat_of_nat_byte)
  moreover obtain j where j: "j < 255" "unat b = pow2 j" "unat (LOG ! unat b) = j" using byte_power [OF False] .
  ultimately have "gf_mul a b = of_nat (pow2 (i + j))"
    using False a tables_correct(1) [of "i + j"] by (simp add: gf_mul_def)
  then have "unat (gf_mul a b) = unat ((xt ^^ i) b)"
    using unat_pow2 [of "i + j"] by (simp add: unat_xt_pow j flip: pow2_add)
  then show ?thesis by (simp add: word_unat_eq_iff)
qed

lemma gf_mul_0 [simp]: "gf_mul 0 b = 0" "gf_mul a 0 = 0"
  by (simp_all add: gf_mul_def)

lemma gf_mul_commute: "gf_mul a b = gf_mul b a"
  by (simp add: gf_mul_def add.commute)

lemma gf_mul_xor: "gf_mul a (b XOR c) = gf_mul a b XOR gf_mul a c"
proof (cases "a = 0")
  case False
  then obtain i where "i < 255" "unat a = pow2 i" using byte_power by metis
  then show ?thesis by (simp add: gf_mul_power xt_pow_xor)
qed simp

lemma unat_gf_mul: "unat a = pow2 i \<Longrightarrow> i < 255 \<Longrightarrow> unat b = pow2 j \<Longrightarrow> unat (gf_mul a b) = pow2 (i + j)"
  by (simp add: gf_mul_power unat_xt_pow pow2_add)

lemma gf_mul_assoc: "gf_mul (gf_mul a b) c = gf_mul a (gf_mul b c)"
proof (cases "a = 0 \<or> b = 0 \<or> c = 0")
  case True
  then show ?thesis by auto
next
  case False
  then have nz: "a \<noteq> 0" "b \<noteq> 0" "c \<noteq> 0" by simp_all
  obtain i where a: "i < 255" "unat a = pow2 i" using byte_power [OF nz(1)] .
  obtain j where b: "j < 255" "unat b = pow2 j" using byte_power [OF nz(2)] .
  obtain k where c: "k < 255" "unat c = pow2 k" using byte_power [OF nz(3)] .
  have "unat (gf_mul a b) = pow2 ((i + j) mod 255)" using unat_gf_mul a b by (simp add: pow2_mod)
  then have "unat (gf_mul (gf_mul a b) c) = pow2 ((i + j) mod 255 + k)" using unat_gf_mul c by simp
  also have "\<dots> = pow2 (i + j + k)"
    using pow2_mod [of "(i + j) mod 255 + k"] pow2_mod [of "i + j + k"] by (simp only: mod_add_left_eq)
  also have "\<dots> = unat (gf_mul a (gf_mul b c))" using unat_gf_mul a b c by (simp add: add.assoc)
  finally show ?thesis by (simp add: word_unat_eq_iff)
qed

lemma gf_mul_1 [simp]: "gf_mul 1 b = b" "gf_mul b 1 = b"
  using gf_mul_power [of 1 0 b] by (simp_all add: gf_mul_commute)

lemma gf_mul_inv: "a \<noteq> 0 \<Longrightarrow> gf_mul a (gf_inv a) = 1"
proof -
  assume "a \<noteq> 0"
  then obtain i where i: "i < 255" "unat a = pow2 i" "unat (LOG ! unat a) = i" using byte_power by metis
  have "unat (gf_inv a) = pow2 (255 - i)" using i tables_correct(1) [of "255 - i"] by (simp add: gf_inv_def unat_pow2)
  then have "unat (gf_mul a (gf_inv a)) = 1" using unat_gf_mul [OF i(2,1)] i(1) pow2_255 by simp
  then show ?thesis by (simp add: word_unat_eq_iff)
qed

typedef gf = "UNIV :: byte set"
  morphisms byte_of Gf ..

setup_lifting type_definition_gf

instantiation gf :: field
begin

lift_definition zero_gf :: gf is 0 .
lift_definition one_gf :: gf is 1 .
lift_definition plus_gf :: "gf \<Rightarrow> gf \<Rightarrow> gf" is "(XOR)" .
lift_definition minus_gf :: "gf \<Rightarrow> gf \<Rightarrow> gf" is "(XOR)" .
lift_definition uminus_gf :: "gf \<Rightarrow> gf" is "\<lambda>a. a" .
lift_definition times_gf :: "gf \<Rightarrow> gf \<Rightarrow> gf" is gf_mul .
lift_definition inverse_gf :: "gf \<Rightarrow> gf" is "\<lambda>a. if a = 0 then 0 else gf_inv a" .
lift_definition divide_gf :: "gf \<Rightarrow> gf \<Rightarrow> gf" is "\<lambda>a b. gf_mul a (if b = 0 then 0 else gf_inv b)" .

instance
proof
  fix a b c :: gf
  show "a * b * c = a * (b * c)" by transfer (rule gf_mul_assoc)
  show "a * b = b * a" by transfer (rule gf_mul_commute)
  show "1 * a = a" by transfer simp
  show "a + b + c = a + (b + c)" by transfer (rule xor.assoc)
  show "a + b = b + a" by transfer (rule xor.commute)
  show "0 + a = a" by transfer simp
  show "- a + a = 0" by transfer simp
  show "a - b = a + - b" by transfer simp
  show "(a + b) * c = a * c + b * c" by transfer (metis gf_mul_commute gf_mul_xor)
  show "(0 :: gf) \<noteq> 1" by transfer simp
  show "a \<noteq> 0 \<Longrightarrow> inverse a * a = 1" by transfer (simp add: gf_mul_commute [of _ "_ :: byte"] gf_mul_inv)
  show "a div b = a * inverse b" by transfer simp
  show "inverse (0 :: gf) = 0" by transfer simp
qed

end

section \<open>The kernels\<close>

lemma product_tables_nth: "i < 256 \<Longrightarrow> j < 256 \<Longrightarrow> product_tables ! i ! j = gf_mul (of_nat i) (of_nat j)"
  by (auto simp: product_tables_def gf_mul_def unat_of_nat_byte word_of_nat_eq_0_iff dest: dvd_imp_le)

lemma products_of_nth: "products_of c ! unat v = gf_mul c v"
  using unat_byte_less [of c] unat_byte_less [of v] by (simp add: products_of_def product_tables_nth del: unat_byte_less)

lemma mul_add_scalar_eq: "mul_add_scalar out c symbol = map2 (\<lambda>o' s. o' XOR gf_mul c s) out symbol"
  by (simp add: mul_add_scalar_def products_of_nth)

lemma mul_add_eq:
  "length out = length symbol \<Longrightarrow> mul_add out c symbol = map2 (\<lambda>o' s. o' XOR gf_mul c s) out symbol"
proof -
  assume "length out = length symbol"
  then have "map2 (\<lambda>o' s. o') out symbol = out" by (simp add: list_eq_iff_nth_eq)
  then show ?thesis by (auto simp: mul_add_def mul_add_scalar_eq)
qed

lemma nibbles: "(s :: byte) = (s AND 0x0f) XOR push_bit 4 (drop_bit 4 s)"
proof -
  have "s AND 0x0f = take_bit 4 s" using take_bit_eq_mask [of 4 s] by (simp add: mask_eq_exp_minus_1)
  moreover have "take_bit 4 s XOR push_bit 4 (drop_bit 4 s) = s"
    by (rule bit_eqI) (auto simp: bit_xor_iff bit_take_bit_iff bit_push_bit_iff bit_drop_bit_eq)
  ultimately show ?thesis by simp
qed


lemma nibble_bounds: "unat (s AND 0x0f :: byte) < 16" "unat (drop_bit 4 (s :: byte)) < 16"
proof -
  have "unat (s AND 0x0f) = unat s mod 16"
    using take_bit_eq_mask [of 4 s] unsigned_take_bit_eq [of 4 s] by (simp add: mask_eq_exp_minus_1 take_bit_eq_mod)
  then show "unat (s AND 0x0f :: byte) < 16" by simp
  have "unat (drop_bit 4 s) = unat s div 16" 
    using unsigned_drop_bit_eq [of 4 s, where 'a = nat] unat_byte_less [of s]
    by (simp add: drop_bit_eq_div take_bit_eq_mod less_imp_le del: unat_byte_less)
  then show "unat (drop_bit 4 s) < 16" using unat_byte_less [of s] by (simp add: less_mult_imp_div_less)
qed

lemma nibble_product:
  assumes "(low, high) = nibble_tables ! unat c"
  shows "low ! unat (s AND 0x0f) XOR high ! unat (drop_bit 4 s) = gf_mul c s"
proof -
  note b = nibble_bounds [of s]
  have "low ! unat (s AND 0x0f) = gf_mul c (s AND 0x0f)"
    using assms b(1) product_tables_nth [of "unat c" "unat (s AND 0x0f)"] by (simp add: nibble_tables_def)
  moreover have "high ! unat (drop_bit 4 s) = gf_mul c (push_bit 4 (drop_bit 4 s))"
  proof -
    have "push_bit 4 (unat (drop_bit 4 s)) < 256" using b(2) by (simp add: push_bit_eq_mult)
    then have "high ! unat (drop_bit 4 s) = gf_mul c (of_nat (push_bit 4 (unat (drop_bit 4 s))))"
      using assms b(2) product_tables_nth [of "unat c"] by (simp add: nibble_tables_def)
    then show ?thesis by (simp add: push_bit_eq_mult)
  qed
  ultimately have "low ! unat (s AND 0x0f) XOR high ! unat (drop_bit 4 s) =
      gf_mul c ((s AND 0x0f) XOR push_bit 4 (drop_bit 4 s))"
    by (simp only: gf_mul_xor)
  then show ?thesis by (simp only: nibbles [symmetric])
qed

lemma mul_add_simd_eq:
  assumes "length out = length symbol"
  shows "mul_add_simd lanes out c symbol = map2 (\<lambda>o' s. o' XOR gf_mul c s) out symbol"
proof -
  obtain low high where lh: "(low, high) = nibble_tables ! unat c" by (metis surj_pair)
  let ?n = "length out div lanes * lanes"
  have "mul_add_simd lanes out c symbol =
      map2 (\<lambda>o' s. o' XOR gf_mul c s) (take ?n out) (take ?n symbol) @ map2 (\<lambda>o' s. o' XOR gf_mul c s) (drop ?n out) (drop ?n symbol)"
    using nibble_product [OF lh] lh [symmetric] by (simp add: mul_add_simd_def mul_add_scalar_eq Let_def)
  also have "\<dots> = map2 (\<lambda>o' s. o' XOR gf_mul c s) (take ?n out @ drop ?n out) (take ?n symbol @ drop ?n symbol)"
    using assms by (subst zip_append) simp_all
  finally show ?thesis by simp
qed

end
