(* ===== verification/Fec_Code.thy ===== *)
theory Fec_Code
  imports Gf256
begin

text \<open>
  The systematic Cauchy Reed-Solomon code (\<open>src/crates/vot-fec/src/lib.rs\<close>): geometry, encoding,
  and decoding by Gauss-Jordan elimination on the missing sources. A panic of the source (the
  \<open>expect\<close> on a pivot) is the outcome \<open>None\<close>; it is shown never to happen.
\<close>

unbundle bit_operations_syntax

definition MAX_SOURCE_SYMBOLS :: nat where "MAX_SOURCE_SYMBOLS = 64"
definition MAX_REPAIR_SYMBOLS :: nat where "MAX_REPAIR_SYMBOLS = 16"
definition MAX_SYMBOL_LENGTH :: nat where "MAX_SYMBOL_LENGTH = 65535"
definition MAX_SYMBOLS :: nat where "MAX_SYMBOLS = MAX_SOURCE_SYMBOLS + MAX_REPAIR_SYMBOLS"

datatype fec_error = InvalidGeometry | InvalidSymbol | InsufficientSymbols

record geometry =
  source_count :: nat
  repair_count :: nat
  symbol_length :: nat

definition geometry_new :: "nat \<Rightarrow> nat \<Rightarrow> nat \<Rightarrow> fec_error + geometry" where
  "geometry_new sources repairs len =
    (if sources = 0 \<or> MAX_SOURCE_SYMBOLS < sources \<or> MAX_REPAIR_SYMBOLS < repairs \<or> len = 0 \<or>
        MAX_SYMBOL_LENGTH < len
     then Inl InvalidGeometry
     else Inr \<lparr>source_count = sources, repair_count = repairs, symbol_length = len\<rparr>)"

definition symbol_count :: "geometry \<Rightarrow> nat" where
  "symbol_count g = source_count g + repair_count g"

definition generator_row :: "geometry \<Rightarrow> nat \<Rightarrow> bytes" where
  "generator_row g repair_index =
    (let x = source_count g + repair_index in
     map (\<lambda>j. gf_inv (of_nat (x XOR j))) [0..<source_count g])"

definition check_symbol :: "geometry \<Rightarrow> bytes \<Rightarrow> fec_error + unit" where
  "check_symbol g symbol = (if length symbol = symbol_length g then Inr () else Inl InvalidSymbol)"

fun check_symbols :: "geometry \<Rightarrow> bytes list \<Rightarrow> fec_error + unit" where
  "check_symbols g [] = Inr ()"
| "check_symbols g (symbol # rest) = and_then (check_symbol g symbol) (\<lambda>u. check_symbols g rest)"

definition encode_row :: "geometry \<Rightarrow> bytes list \<Rightarrow> nat \<Rightarrow> bytes" where
  "encode_row g source i =
    foldl (\<lambda>out (coefficient, symbol). mul_add out coefficient symbol)
      (replicate (symbol_length g) 0) (zip (generator_row g i) source)"

definition encode :: "geometry \<Rightarrow> bytes list \<Rightarrow> fec_error + bytes list" where
  "encode g source =
    (if length source \<noteq> source_count g then Inl InvalidSymbol
     else and_then (check_symbols g source) (\<lambda>u. Inr (map (encode_row g source) [0..<repair_count g])))"

section \<open>Decoding\<close>

fun collect_symbols ::
  "geometry \<Rightarrow> (nat \<times> bytes) list \<Rightarrow> bytes option list \<Rightarrow> fec_error + bytes option list" where
  "collect_symbols g [] symbols = Inr symbols"
| "collect_symbols g ((esi, symbol) # rest) symbols =
    (if symbol_count g \<le> esi \<or> symbols ! esi \<noteq> None then Inl InvalidSymbol
     else and_then (check_symbol g symbol) (\<lambda>u. collect_symbols g rest (symbols[esi := Some symbol])))"

definition gj_step :: "bytes list \<Rightarrow> nat \<Rightarrow> nat \<Rightarrow> bytes list" where
  "gj_step rows col pivot =
    (let rows = rows[col := rows ! pivot, pivot := rows ! col];
         inv = gf_inv (rows ! col ! col);
         pivot_row = map (gf_mul inv) (rows ! col) in
     map (\<lambda>i. if i = col then pivot_row else mul_add (rows ! i) (rows ! i ! col) pivot_row) [0..<length rows])"

fun gj_loop :: "nat \<Rightarrow> nat list \<Rightarrow> bytes list \<Rightarrow> bytes list option" where
  "gj_loop k [] rows = Some rows"
| "gj_loop k (col # cols) rows =
    (case find (\<lambda>r. rows ! r ! col \<noteq> 0) [col..<k] of
       None \<Rightarrow> None
     | Some pivot \<Rightarrow> gj_loop k cols (gj_step rows col pivot))"

definition gauss_jordan :: "bytes list \<Rightarrow> nat \<Rightarrow> bytes list option" where
  "gauss_jordan rows k = gj_loop k [0..<k] rows"

definition missing_sources :: "geometry \<Rightarrow> bytes option list \<Rightarrow> nat list" where
  "missing_sources g symbols = filter (\<lambda>esi. symbols ! esi = None) [0..<source_count g]"

definition repair_row :: "geometry \<Rightarrow> bytes option list \<Rightarrow> nat \<Rightarrow> bytes" where
  "repair_row g symbols esi =
    (let k = source_count g;
         coefficients = generator_row g (esi - k) in
     map (\<lambda>source_esi. coefficients ! source_esi) (missing_sources g symbols) @
     foldl (\<lambda>row source_esi. mul_add row (coefficients ! source_esi) (the (symbols ! source_esi)))
       (the (symbols ! esi)) (filter (\<lambda>source_esi. symbols ! source_esi \<noteq> None) [0..<k]))"

definition solve_missing ::
  "geometry \<Rightarrow> (nat \<times> bytes) list \<Rightarrow>
   (fec_error + bytes option list \<times> (nat \<times> bytes) list) option" where
  "solve_missing g received =
    (case collect_symbols g received (replicate MAX_SYMBOLS None) of
       Inl e \<Rightarrow> Some (Inl e)
     | Inr symbols \<Rightarrow>
         if length received < source_count g then Some (Inl InsufficientSymbols)
         else
           let missing = missing_sources g symbols in
           if missing = [] then Some (Inr (symbols, []))
           else
             let m = length missing;
                 rows = map (repair_row g symbols)
                   (take m (filter (\<lambda>esi. symbols ! esi \<noteq> None) [source_count g..<symbol_count g])) in
             case gauss_jordan rows m of
               None \<Rightarrow> None
             | Some rows \<Rightarrow>
                 Some (Inr (symbols, zip missing (map (\<lambda>row. take (symbol_length g) (drop m row)) rows))))"

definition recover_missing ::
  "geometry \<Rightarrow> (nat \<times> bytes) list \<Rightarrow> (fec_error + (nat \<times> bytes) list) option" where
  "recover_missing g received =
    (case solve_missing g received of
       None \<Rightarrow> None
     | Some (Inl e) \<Rightarrow> Some (Inl e)
     | Some (Inr (symbols, recovered)) \<Rightarrow> Some (Inr recovered))"

text \<open>The decoded sources in order, taking the next recovered symbol wherever one is missing.\<close>

fun merge_recovered :: "bytes option list \<Rightarrow> (nat \<times> bytes) list \<Rightarrow> nat list \<Rightarrow> bytes list option" where
  "merge_recovered symbols recovered [] = Some []"
| "merge_recovered symbols recovered (esi # esis) =
    (case symbols ! esi of
       Some symbol \<Rightarrow> map_option ((#) symbol) (merge_recovered symbols recovered esis)
     | None \<Rightarrow>
         (case recovered of
            [] \<Rightarrow> None
          | (missing, symbol) # rest \<Rightarrow> map_option ((#) symbol) (merge_recovered symbols rest esis)))"

definition decode :: "geometry \<Rightarrow> (nat \<times> bytes) list \<Rightarrow> (fec_error + bytes list) option" where
  "decode g received =
    (case solve_missing g received of
       None \<Rightarrow> None
     | Some (Inl e) \<Rightarrow> Some (Inl e)
     | Some (Inr (symbols, recovered)) \<Rightarrow>
         map_option Inr (merge_recovered symbols recovered [0..<source_count g]))"

section \<open>Cauchy systems have one solution\<close>

lemma cauchy_step:
  fixes a b c d :: "'a :: field"
  assumes "a + d \<noteq> 0" "b + d \<noteq> 0"
  shows "(a + c) / (a + d) - (b + c) / (b + d) = (a - b) * (d - c) / ((a + d) * (b + d))"
  using assms by (simp add: divide_simps) (simp add: algebra_simps)

lemma cauchy_kernel:
  fixes x y v :: "nat \<Rightarrow> 'a :: field"
  shows "\<lbrakk>\<forall>i < n. (\<Sum>j < n. v j / (x i + y j)) = 0; inj_on x {..<n}; inj_on y {..<n};
    \<forall>i < n. \<forall>j < n. x i + y j \<noteq> 0\<rbrakk> \<Longrightarrow> \<forall>j < n. v j = 0"
proof (induction n arbitrary: v)
  case (Suc n)
  let ?v = "\<lambda>j. v j * (y j - y n) / (x n + y j)"
  have nz: "x i + y j \<noteq> 0" if "i < Suc n" "j < Suc n" for i j using Suc.prems(4) that by blast
  have "\<forall>i < n. (\<Sum>j < n. ?v j / (x i + y j)) = 0"
  proof (intro allI impI)
    fix i assume i: "i < n"
    have xi: "x i - x n \<noteq> 0" using Suc.prems(2) i by (auto simp: inj_on_def)
    have "0 = (x i + y n) * (\<Sum>j < Suc n. v j / (x i + y j)) - (x n + y n) * (\<Sum>j < Suc n. v j / (x n + y j))"
      using Suc.prems(1) i by simp
    also have "\<dots> = (\<Sum>j < Suc n. v j * ((x i + y n) / (x i + y j) - (x n + y n) / (x n + y j)))"
      by (simp only: sum_distrib_left flip: sum_subtractf) (simp add: algebra_simps)
    also have "\<dots> = (\<Sum>j < Suc n. v j * ((x i - x n) * (y j - y n) / ((x i + y j) * (x n + y j))))"
      using nz i by (intro sum.cong refl) (simp add: cauchy_step)
    also have "\<dots> = (x i - x n) * (\<Sum>j < n. ?v j / (x i + y j))"
      by (simp add: sum_distrib_left mult.commute mult.left_commute mult.assoc)
    finally show "(\<Sum>j < n. ?v j / (x i + y j)) = 0" using xi by simp
  qed
  then have "\<forall>j < n. ?v j = 0"
    using Suc.IH [of ?v] Suc.prems(2-4) by (auto simp: inj_on_def)
  moreover have "y j \<noteq> y n" if "j < n" for j using inj_onD [OF Suc.prems(3), of j n] that by auto
  ultimately have low: "v j = 0" if "j < n" for j using that nz [of n j] by auto
  have "(\<Sum>j < Suc n. v j / (x n + y j)) = 0" using Suc.prems(1) by blast
  then have "v n = 0" using low nz [of n n] by simp
  with low show ?case by (auto simp: less_Suc_eq)
qed simp

section \<open>Rows over the field\<close>

lemma Gf_simps [simp]:
  "Gf 0 = 0" "Gf 1 = 1" "Gf (a XOR b) = Gf a + Gf b" "Gf (gf_mul a b) = Gf a * Gf b"
  by (simp_all add: zero_gf_def one_gf_def plus_gf.abs_eq times_gf.abs_eq)

lemma Gf_eq_iff [simp]: "Gf a = Gf b \<longleftrightarrow> a = b"
  by (simp add: Gf_inject)

lemma Gf_eq_0_iff [simp]: "Gf a = 0 \<longleftrightarrow> a = 0"
  using Gf_eq_iff [of a 0] by simp

lemma Gf_inv: "a \<noteq> 0 \<Longrightarrow> Gf (gf_inv a) = 1 / Gf a"
proof -
  assume "a \<noteq> 0"
  then have "Gf a * Gf (gf_inv a) = 1" by (simp flip: Gf_simps(4) add: gf_mul_inv)
  with \<open>a \<noteq> 0\<close> show ?thesis by (simp add: field_simps)
qed

lemma gf_char2: "(a :: gf) + a = 0"
  by transfer simp

lemma gf_minus: "(a :: gf) - b = a + b"
  by transfer simp

definition row_sum :: "(nat \<Rightarrow> gf) \<Rightarrow> bytes \<Rightarrow> gf" where
  "row_sum w row = (\<Sum>j < length row. Gf (row ! j) * w j)"

lemma row_sum_scale: "row_sum w (map (gf_mul c) row) = Gf c * row_sum w row"
  by (simp add: row_sum_def sum_distrib_left mult.assoc)

lemma row_sum_mul_add:
  assumes "length row = length p"
  shows "row_sum w (mul_add row c p) = row_sum w row + Gf c * row_sum w p"
  using assms by (simp add: row_sum_def mul_add_eq sum.distrib sum_distrib_left algebra_simps)

lemma length_mul_add [simp]: "length row = length p \<Longrightarrow> length (mul_add row c p) = length p"
  by (simp add: mul_add_eq)


section \<open>Elimination\<close>

definition shaped :: "nat \<Rightarrow> nat \<Rightarrow> bytes list \<Rightarrow> bool" where
  "shaped k width rows \<longleftrightarrow> length rows = k \<and> k \<le> width \<and> (\<forall>i < k. length (rows ! i) = width)"

definition annihilates :: "(nat \<Rightarrow> gf) \<Rightarrow> bytes list \<Rightarrow> bool" where
  "annihilates w rows \<longleftrightarrow> (\<forall>i < length rows. row_sum w (rows ! i) = 0)"

definition nonsingular :: "nat \<Rightarrow> bytes list \<Rightarrow> bool" where
  "nonsingular k rows \<longleftrightarrow> (\<forall>w. annihilates w rows \<longrightarrow> (\<forall>j \<ge> k. w j = 0) \<longrightarrow> (\<forall>j < k. w j = 0))"

definition unit_columns :: "nat \<Rightarrow> nat \<Rightarrow> bytes list \<Rightarrow> bool" where
  "unit_columns k c rows \<longleftrightarrow> (\<forall>i < k. \<forall>j < c. rows ! i ! j = (if i = j then 1 else 0))"

lemma gj_step_rows:
  assumes sh: "shaped k width rows" and c: "c < k" "p < k" "rows ! p ! c \<noteq> 0"
  defines "prow \<equiv> map (gf_mul (gf_inv (rows ! p ! c))) (rows ! p)"
  defines "rest \<equiv> \<lambda>i. if i = p then rows ! c else rows ! i"
  shows "length (gj_step rows c p) = k" "gj_step rows c p ! c = prow" "length prow = width"
    "\<And>i. i < k \<Longrightarrow> i \<noteq> c \<Longrightarrow> gj_step rows c p ! i = mul_add (rest i) (rest i ! c) prow"
    "\<And>i. i < k \<Longrightarrow> length (rest i) = width"
  using sh c by (auto simp: gj_step_def Let_def shaped_def prow_def rest_def nth_list_update)

lemma gj_step_shaped:
  assumes sh: "shaped k width rows" and c: "c < k" "p < k" "rows ! p ! c \<noteq> 0"
  shows "shaped k width (gj_step rows c p)"
  unfolding shaped_def
proof (intro conjI allI impI)
  note r = gj_step_rows [OF sh c]
  show "length (gj_step rows c p) = k" by (rule r)
  show "k \<le> width" using sh by (simp add: shaped_def)
  fix i assume "i < k"
  then show "length (gj_step rows c p ! i) = width" using r(2-5) by (cases "i = c") auto
qed

lemma gj_step_annihilates:
  assumes sh: "shaped k width rows" and c: "c < k" "p < k" "rows ! p ! c \<noteq> 0"
  shows "annihilates w (gj_step rows c p) \<longleftrightarrow> annihilates w rows"
proof -
  note r = gj_step_rows [OF sh c]
  let ?prow = "map (gf_mul (gf_inv (rows ! p ! c))) (rows ! p)"
  let ?rest = "\<lambda>i. if i = p then rows ! c else rows ! i"
  have piv: "row_sum w ?prow = row_sum w (rows ! p) / Gf (rows ! p ! c)"
    using c(3) by (simp add: row_sum_scale Gf_inv)
  have other: "row_sum w (gj_step rows c p ! i) = row_sum w (?rest i) + Gf (?rest i ! c) * row_sum w ?prow"
    if "i < k" "i \<noteq> c" for i
    using r(4) [OF that] r(3) r(5) [OF that(1)] row_sum_mul_add [of "?rest i" ?prow w] by simp
  have l: "length rows = k" using sh by (simp add: shaped_def)
  have "annihilates w (gj_step rows c p) \<longleftrightarrow> row_sum w (rows ! p) = 0 \<and> (\<forall>i < k. i \<noteq> c \<longrightarrow> row_sum w (?rest i) = 0)"
    unfolding annihilates_def r(1) using r(2) piv other c by (metis (no_types, lifting) add.right_neutral div_0 divide_eq_0_iff Gf_eq_0_iff mult_zero_right)
  also have "\<dots> \<longleftrightarrow> (\<forall>i < k. row_sum w (rows ! i) = 0)"
    using c by (auto split: if_splits)
  finally show ?thesis using l by (simp add: annihilates_def)
qed


lemma nth_mul_add: "length row = length p \<Longrightarrow> j < length p \<Longrightarrow> mul_add row c p ! j = row ! j XOR gf_mul c (p ! j)"
  by (simp add: mul_add_eq)

lemma gj_step_unit:
  assumes sh: "shaped k width rows" and c: "c < k" "p < k" "rows ! p ! c \<noteq> 0" and "c \<le> p"
    and u: "unit_columns k c rows"
  shows "unit_columns k (Suc c) (gj_step rows c p)"
  unfolding unit_columns_def
proof (intro allI impI)
  fix i j assume i: "i < k" and j: "j < Suc c"
  note r = gj_step_rows [OF sh c]
  let ?prow = "map (gf_mul (gf_inv (rows ! p ! c))) (rows ! p)"
  let ?rest = "\<lambda>i. if i = p then rows ! c else rows ! i"
  have w: "width > j" "width > c" using sh c j by (auto simp: shaped_def)
  have lp: "length (rows ! p) = width" using sh c by (auto simp: shaped_def)
  have prow: "?prow ! j = (if j = c then 1 else 0)"
    using u c w lp j \<open>c \<le> p\<close> gf_mul_inv [of "rows ! p ! c"] by (auto simp: unit_columns_def gf_mul_commute less_Suc_eq)
  show "gj_step rows c p ! i ! j = (if i = j then 1 else 0)"
  proof (cases "i = c")
    case True
    then show ?thesis using r(2) prow by simp
  next
    case False
    have "gj_step rows c p ! i ! j = ?rest i ! j XOR gf_mul (?rest i ! c) (?prow ! j)"
      unfolding r(4) [OF i False] using r(3) r(5) [OF i] w by (intro nth_mul_add) auto
    also have "\<dots> = (if i = j then 1 else 0)"
      unfolding prow using u c i j False \<open>c \<le> p\<close> by (auto simp: unit_columns_def less_Suc_eq)
    finally show ?thesis .
  qed
qed

lemma pivot_exists:
  assumes sh: "shaped k width rows" and u: "unit_columns k c rows" and ns: "nonsingular k rows" and c: "c < k"
  shows "\<exists>r. find (\<lambda>r. rows ! r ! c \<noteq> 0) [c..<k] = Some r \<and> c \<le> r \<and> r < k \<and> rows ! r ! c \<noteq> 0"
proof (cases "find (\<lambda>r. rows ! r ! c \<noteq> 0) [c..<k]")
  case None
  then have z: "rows ! r ! c = 0" if "c \<le> r" "r < k" for r using that by (auto simp: find_None_iff)
  define w where "w j = (if j < c then Gf (rows ! j ! c) else if j = c then 1 else 0)" for j
  have "row_sum w (rows ! i) = 0" if i: "i < k" for i
  proof -
    have len: "length (rows ! i) = width" "c < width" using sh i c by (auto simp: shaped_def)
    have "row_sum w (rows ! i) = (\<Sum>j < Suc c. Gf (rows ! i ! j) * w j)"
      unfolding row_sum_def len(1) by (rule sum.mono_neutral_right) (use len in \<open>auto simp: w_def\<close>)
    also have "\<dots> = (\<Sum>j < c. Gf (rows ! i ! j) * Gf (rows ! j ! c)) + Gf (rows ! i ! c)"
      by (simp add: w_def)
    also have "(\<Sum>j < c. Gf (rows ! i ! j) * Gf (rows ! j ! c)) = (\<Sum>j < c. if i = j then Gf (rows ! i ! c) else 0)"
      using u i by (intro sum.cong refl) (auto simp: unit_columns_def)
    also have "\<dots> = (if i < c then Gf (rows ! i ! c) else 0)" by simp
    finally show ?thesis using z [of i] i by (auto simp: gf_char2 split: if_splits)
  qed
  then have "annihilates w rows" using sh by (simp add: annihilates_def shaped_def)
  moreover have "\<forall>j \<ge> k. w j = 0" using c by (simp add: w_def)
  ultimately have "w c = 0" using ns c unfolding nonsingular_def by blast
  then show ?thesis by (simp add: w_def)
next
  case (Some r)
  then show ?thesis by (auto simp: find_Some_iff)
qed

lemma gj_loop_correct:
  "\<lbrakk>shaped k width rows; unit_columns k c rows; nonsingular k rows; c \<le> k\<rbrakk> \<Longrightarrow>
    \<exists>rows'. gj_loop k [c..<k] rows = Some rows' \<and> shaped k width rows' \<and> unit_columns k k rows' \<and>
      (\<forall>w. annihilates w rows' \<longleftrightarrow> annihilates w rows)"
proof (induction "k - c" arbitrary: c rows)
  case 0
  then show ?case by auto
next
  case (Suc n)
  then have c: "c < k" by simp
  obtain r where r: "find (\<lambda>r. rows ! r ! c \<noteq> 0) [c..<k] = Some r" "c \<le> r" "r < k" "rows ! r ! c \<noteq> 0"
    using pivot_exists [OF Suc.prems(1-3) c] by blast
  note st = gj_step_shaped [OF Suc.prems(1) c r(3,4)] gj_step_annihilates [OF Suc.prems(1) c r(3,4)]
    gj_step_unit [OF Suc.prems(1) c r(3,4,2) Suc.prems(2)]
  have "nonsingular k (gj_step rows c r)" using Suc.prems(3) st(2) by (simp add: nonsingular_def)
  moreover have "n = k - Suc c" "Suc c \<le> k" using Suc.hyps(2) c by simp_all
  ultimately obtain rows' where "gj_loop k [Suc c..<k] (gj_step rows c r) = Some rows'" "shaped k width rows'"
    "unit_columns k k rows'" "\<forall>w. annihilates w rows' \<longleftrightarrow> annihilates w rows"
    using Suc.hyps(1) [OF _ st(1,3)] st(2) by auto
  moreover have "gj_loop k (c # [Suc c..<k]) rows = gj_loop k [Suc c..<k] (gj_step rows c r)"
    using r(1) by (simp only: gj_loop.simps option.case)
  ultimately show ?case by (simp only: upt_conv_Cons [OF c]) blast
qed


lemma gauss_jordan_solves:
  assumes sh: "shaped k width rows" and ns: "nonsingular k rows"
    and sol: "\<forall>i < k. \<forall>t < width - k. (\<Sum>j < k. Gf (rows ! i ! j) * Gf (s j t)) = Gf (rows ! i ! (k + t))"
  shows "\<exists>rows'. gauss_jordan rows k = Some rows' \<and> length rows' = k \<and>
    (\<forall>i < k. length (rows' ! i) = width \<and> (\<forall>t < width - k. rows' ! i ! (k + t) = s i t))"
proof -
  obtain rows' where r: "gauss_jordan rows k = Some rows'" "shaped k width rows'" "unit_columns k k rows'"
    "\<And>w. annihilates w rows' \<longleftrightarrow> annihilates w rows"
    using gj_loop_correct [OF sh _ ns, of 0] by (auto simp: unit_columns_def gauss_jordan_def)
  have k: "k \<le> width" using sh by (simp add: shaped_def)
  have "rows' ! i ! (k + t) = s i t" if i: "i < k" and t: "t < width - k" for i t
  proof -
    define w where "w j = (if j < k then Gf (s j t) else if j = k + t then 1 else 0)" for j
    have split: "row_sum w row = (\<Sum>j < k. Gf (row ! j) * Gf (s j t)) + Gf (row ! (k + t))" if "length row = width" for row
    proof -
      have "row_sum w row = (\<Sum>j < k. Gf (row ! j) * w j) + (\<Sum>j \<in> {k..<width}. Gf (row ! j) * w j)"
        using k that by (simp add: row_sum_def lessThan_atLeast0 sum.atLeastLessThan_concat)
      also have "(\<Sum>j \<in> {k..<width}. Gf (row ! j) * w j) = (\<Sum>j \<in> {k..<width}. if j = k + t then Gf (row ! (k + t)) else 0)"
        by (intro sum.cong) (auto simp: w_def)
      also have "(\<Sum>j < k. Gf (row ! j) * w j) = (\<Sum>j < k. Gf (row ! j) * Gf (s j t))" by (simp add: w_def)
      finally show ?thesis using t by auto
    qed
    have "annihilates w rows"
      using sh sol t split by (auto simp: annihilates_def shaped_def gf_char2)
    then have "row_sum w (rows' ! i) = 0" using r(2,4) i by (auto simp: annihilates_def shaped_def)
    moreover have "(\<Sum>j < k. Gf (rows' ! i ! j) * Gf (s j t)) = (\<Sum>j < k. if i = j then Gf (s i t) else 0)"
      using r(3) i by (intro sum.cong refl) (auto simp: unit_columns_def)
    ultimately have "Gf (s i t) + Gf (rows' ! i ! (k + t)) = 0" using split r(2) i by (simp add: shaped_def)
    then show ?thesis by (metis Gf_eq_iff gf_minus eq_iff_diff_eq_0)
  qed
  then show ?thesis using r by (auto simp: shaped_def)
qed

section \<open>Codewords\<close>

definition geometry_ok :: "geometry \<Rightarrow> bool" where
  "geometry_ok g \<longleftrightarrow> 0 < source_count g \<and> source_count g \<le> MAX_SOURCE_SYMBOLS \<and> repair_count g \<le> MAX_REPAIR_SYMBOLS \<and>
    0 < symbol_length g \<and> symbol_length g \<le> MAX_SYMBOL_LENGTH"

lemma geometry_new_iff:
  "geometry_new sources repairs len = Inr g \<longleftrightarrow>
    geometry_ok g \<and> g = \<lparr>source_count = sources, repair_count = repairs, symbol_length = len\<rparr>"
  by (auto simp: geometry_new_def geometry_ok_def)

definition sources_ok :: "geometry \<Rightarrow> bytes list \<Rightarrow> bool" where
  "sources_ok g source \<longleftrightarrow> length source = source_count g \<and> (\<forall>s \<in> set source. length s = symbol_length g)"

definition code_symbol :: "geometry \<Rightarrow> bytes list \<Rightarrow> nat \<Rightarrow> bytes" where
  "code_symbol g source esi =
    (if esi < source_count g then source ! esi else encode_row g source (esi - source_count g))"

lemma check_symbols_iff: "check_symbols g source = Inr () \<longleftrightarrow> (\<forall>s \<in> set source. length s = symbol_length g)"
  by (induction source) (auto simp: check_symbol_def)

lemma encode_iff: "encode g source = Inr out \<longleftrightarrow> sources_ok g source \<and> out = map (encode_row g source) [0..<repair_count g]"
  by (auto simp: encode_def sources_ok_def check_symbols_iff)

lemma foldl_mul_add:
  "\<lbrakk>length acc = n; \<forall>i \<in> set is. length (h i) = n\<rbrakk> \<Longrightarrow>
    length (foldl (\<lambda>row i. mul_add row (f i) (h i)) acc is) = n \<and>
    (\<forall>t < n. Gf (foldl (\<lambda>row i. mul_add row (f i) (h i)) acc is ! t) =
      Gf (acc ! t) + (\<Sum>i \<leftarrow> is. Gf (f i) * Gf (h i ! t)))"
proof (induction "is" arbitrary: acc)
  case (Cons i "is")
  have "length (mul_add acc (f i) (h i)) = n" using Cons.prems by simp
  from Cons.IH [OF this] Cons.prems show ?case by (auto simp: nth_mul_add add.assoc)
qed simp

lemma encode_row_nth:
  assumes "sources_ok g source"
  shows "length (encode_row g source i) = symbol_length g"
    "t < symbol_length g \<Longrightarrow> Gf (encode_row g source i ! t) =
      (\<Sum>j \<leftarrow> [0..<source_count g]. Gf (generator_row g i ! j) * Gf (source ! j ! t))"
proof -
  have z: "zip (generator_row g i) source = map (\<lambda>j. (generator_row g i ! j, source ! j)) [0..<source_count g]"
    using assms by (intro nth_equalityI) (auto simp: sources_ok_def generator_row_def Let_def)
  have "encode_row g source i = foldl (\<lambda>row j. mul_add row (generator_row g i ! j) (source ! j))
      (replicate (symbol_length g) 0) [0..<source_count g]"
    unfolding encode_row_def z by (simp add: foldl_map)
  with foldl_mul_add [of "replicate (symbol_length g) 0" "symbol_length g" "[0..<source_count g]" "(!) source" "(!) (generator_row g i)"]
  show "length (encode_row g source i) = symbol_length g"
    "t < symbol_length g \<Longrightarrow> Gf (encode_row g source i ! t) =
      (\<Sum>j \<leftarrow> [0..<source_count g]. Gf (generator_row g i ! j) * Gf (source ! j ! t))"
    using assms by (auto simp: sources_ok_def)
qed

lemma length_code_symbol: "sources_ok g source \<Longrightarrow> esi < symbol_count g \<Longrightarrow> length (code_symbol g source esi) = symbol_length g"
  by (auto simp: code_symbol_def encode_row_nth sources_ok_def)

section \<open>Collecting\<close>

lemma collect_symbols_iff:
  "length symbols = MAX_SYMBOLS \<Longrightarrow> symbol_count g \<le> MAX_SYMBOLS \<Longrightarrow>
   collect_symbols g received symbols = Inr symbols' \<longleftrightarrow>
    distinct (map fst received) \<and>
    (\<forall>(esi, symbol) \<in> set received. esi < symbol_count g \<and> symbols ! esi = None \<and> length symbol = symbol_length g) \<and>
    symbols' = map (\<lambda>esi. case map_of received esi of None \<Rightarrow> symbols ! esi | Some s \<Rightarrow> Some s) [0..<MAX_SYMBOLS]"
proof (induction received arbitrary: symbols)
  case Nil
  then show ?case by (auto intro!: nth_equalityI simp: list_eq_iff_nth_eq)
next
  case (Cons r received)
  obtain esi symbol where r: "r = (esi, symbol)" by (cases r)
  show ?case
  proof (cases "esi < symbol_count g \<and> symbols ! esi = None \<and> length symbol = symbol_length g")
    case False
    then show ?thesis by (auto simp: r check_symbol_def)
  next
    case True
    have len: "length (symbols[esi := Some symbol]) = MAX_SYMBOLS" "esi < length symbols" using Cons.prems True by simp_all
    have eq: "map (\<lambda>e. case map_of received e of None \<Rightarrow> symbols[esi := Some symbol] ! e | Some s \<Rightarrow> Some s) [0..<MAX_SYMBOLS] =
        map (\<lambda>e. case map_of (r # received) e of None \<Rightarrow> symbols ! e | Some s \<Rightarrow> Some s) [0..<MAX_SYMBOLS]"
      if "map_of received esi = None"
      using that len(2) by (auto simp: r nth_list_update split: option.split)
    have d: "(\<forall>(e, s) \<in> set received. e < symbol_count g \<and> symbols[esi := Some symbol] ! e = None \<and> length s = symbol_length g) \<longleftrightarrow>
      esi \<notin> fst ` set received \<and> (\<forall>(e, s) \<in> set received. e < symbol_count g \<and> symbols ! e = None \<and> length s = symbol_length g)"
      using len(2) by (force simp: nth_list_update split: if_splits)
    show ?thesis
      using True Cons.IH [OF len(1) Cons.prems(2)] eq d by (auto simp: r check_symbol_def map_of_eq_None_iff)
  qed
qed

section \<open>The system a receiver solves\<close>

definition holds_symbols :: "geometry \<Rightarrow> bytes list \<Rightarrow> bytes option list \<Rightarrow> bool" where
  "holds_symbols g source symbols \<longleftrightarrow>
    (\<forall>esi < symbol_count g. symbols ! esi = None \<or> symbols ! esi = Some (code_symbol g source esi))"

lemma sum_list_filter_split:
  fixes f :: "'a \<Rightarrow> gf"
  shows "(\<Sum>x \<leftarrow> xs. f x) + (\<Sum>x \<leftarrow> filter P xs. f x) = (\<Sum>x \<leftarrow> filter (\<lambda>x. \<not> P x) xs. f x)"
proof (induction xs)
  case (Cons x xs)
  have "f x + a + (f x + b) = a + b" for a b :: gf
    by (metis add.assoc add.commute add.left_commute gf_char2 add_0)
  with Cons show ?case by (auto simp: add.assoc)
qed simp

lemma of_nat_xor_eq: "(of_nat (a XOR b) :: byte) = of_nat a XOR of_nat b"
  by (rule bit_word_eqI) (simp add: bit_simps)

lemma xor_byte_eq_0: "(a :: byte) XOR b = 0 \<longleftrightarrow> a = b"
proof
  assume "a XOR b = 0"
  then have "(a XOR b) XOR b = b" by simp
  then show "a = b" by (simp add: xor.assoc)
qed simp

lemma generator_row_nth:
  "j < source_count g \<Longrightarrow> source_count g \<le> esi \<Longrightarrow> generator_row g (esi - source_count g) ! j = gf_inv (of_nat esi XOR of_nat j)"
  by (simp add: generator_row_def Let_def of_nat_xor_eq)

lemma of_nat_byte_inj: "\<lbrakk>(of_nat a :: byte) = of_nat b; a < 256; b < 256\<rbrakk> \<Longrightarrow> a = b"
  by (metis unat_of_nat_byte mod_less)

definition well_sized :: "geometry \<Rightarrow> bytes option list \<Rightarrow> bool" where
  "well_sized g symbols \<longleftrightarrow>
    (\<forall>esi < symbol_count g. \<forall>symbol. symbols ! esi = Some symbol \<longrightarrow> length symbol = symbol_length g)"

lemma holds_well_sized: "sources_ok g source \<Longrightarrow> holds_symbols g source symbols \<Longrightarrow> well_sized g symbols"
  unfolding holds_symbols_def well_sized_def by (metis length_code_symbol option.distinct(1) option.inject)

lemma missing_less: "j < length (missing_sources g symbols) \<Longrightarrow> missing_sources g symbols ! j < source_count g"
  using nth_mem [of j "missing_sources g symbols"] by (auto simp: missing_sources_def)

lemma repair_row_split:
  assumes w: "well_sized g symbols" and esi: "source_count g \<le> esi" "esi < symbol_count g" "symbols ! esi \<noteq> None"
  defines "missing \<equiv> missing_sources g symbols"
    and "known \<equiv> filter (\<lambda>j. symbols ! j \<noteq> None) [0..<source_count g]"
  shows "length (repair_row g symbols esi) = length missing + symbol_length g"
    "j < length missing \<Longrightarrow> repair_row g symbols esi ! j = gf_inv (of_nat esi XOR of_nat (missing ! j))"
    "t < symbol_length g \<Longrightarrow> Gf (repair_row g symbols esi ! (length missing + t)) =
      Gf (the (symbols ! esi) ! t) +
      (\<Sum>j \<leftarrow> known. Gf (generator_row g (esi - source_count g) ! j) * Gf (the (symbols ! j) ! t))"
proof -
  let ?c = "generator_row g (esi - source_count g)"
  let ?rhs = "foldl (\<lambda>row j. mul_add row (?c ! j) (the (symbols ! j))) (the (symbols ! esi)) known"
  have row: "repair_row g symbols esi = map ((!) ?c) missing @ ?rhs"
    by (simp add: repair_row_def Let_def missing_def known_def)
  have "length (the (symbols ! j)) = symbol_length g" if "j < symbol_count g" "symbols ! j \<noteq> None" for j
    using w that by (auto simp: well_sized_def)
  then have rhs: "length ?rhs = symbol_length g \<and> (\<forall>t < symbol_length g. Gf (?rhs ! t) =
      Gf (the (symbols ! esi) ! t) + (\<Sum>j \<leftarrow> known. Gf (?c ! j) * Gf (the (symbols ! j) ! t)))"
    using esi by (intro foldl_mul_add) (simp_all add: known_def symbol_count_def)
  show "length (repair_row g symbols esi) = length missing + symbol_length g"
    using rhs by (simp add: row)
  show "repair_row g symbols esi ! j = gf_inv (of_nat esi XOR of_nat (missing ! j))" if "j < length missing"
    using that esi(1) missing_less [of j g symbols] by (simp add: row nth_append generator_row_nth missing_def)
  show "t < symbol_length g \<Longrightarrow> Gf (repair_row g symbols esi ! (length missing + t)) =
      Gf (the (symbols ! esi) ! t) + (\<Sum>j \<leftarrow> known. Gf (?c ! j) * Gf (the (symbols ! j) ! t))"
    using rhs by (simp add: row nth_append)
qed

lemma repair_row_codeword:
  assumes ok: "sources_ok g source" and h: "holds_symbols g source symbols"
    and esi: "source_count g \<le> esi" "esi < symbol_count g" "symbols ! esi \<noteq> None" and t: "t < symbol_length g"
  shows "Gf (repair_row g symbols esi ! (length (missing_sources g symbols) + t)) =
      (\<Sum>j \<leftarrow> missing_sources g symbols. Gf (generator_row g (esi - source_count g) ! j) * Gf (source ! j ! t))"
proof -
  let ?c = "generator_row g (esi - source_count g)"
  let ?known = "filter (\<lambda>j. symbols ! j \<noteq> None) [0..<source_count g]"
  have the: "the (symbols ! esi) = encode_row g source (esi - source_count g)"
    using h esi by (auto simp: holds_symbols_def code_symbol_def)
  have known: "the (symbols ! j) = source ! j" if "j \<in> set ?known" for j
    using h [unfolded holds_symbols_def, rule_format, of j] that by (auto simp: code_symbol_def symbol_count_def)
  have "(\<Sum>j \<leftarrow> ?known. Gf (?c ! j) * Gf (the (symbols ! j) ! t)) = (\<Sum>j \<leftarrow> ?known. Gf (?c ! j) * Gf (source ! j ! t))"
    using known by (intro arg_cong [of _ _ sum_list] map_cong refl) simp
  then have "Gf (repair_row g symbols esi ! (length (missing_sources g symbols) + t)) =
      (\<Sum>j \<leftarrow> [0..<source_count g]. Gf (?c ! j) * Gf (source ! j ! t)) + (\<Sum>j \<leftarrow> ?known. Gf (?c ! j) * Gf (source ! j ! t))"
    using repair_row_split(3) [OF holds_well_sized [OF ok h] esi t] t by (simp add: the encode_row_nth(2) [OF ok])
  then show ?thesis unfolding sum_list_filter_split by (simp add: missing_sources_def)
qed

lemma cauchy_rows_nonsingular:
  assumes sh: "shaped m width rows" and x: "length xs = m" "distinct xs" and y: "length ys = m" "distinct ys"
    and disj: "\<forall>x \<in> set xs. \<forall>y \<in> set ys. x \<noteq> y" and bound: "\<forall>x \<in> set xs \<union> set ys. x < 256"
    and rows: "\<And>i j. i < m \<Longrightarrow> j < m \<Longrightarrow> rows ! i ! j = gf_inv (of_nat (xs ! i) XOR of_nat (ys ! j))"
  shows "nonsingular m rows"
  unfolding nonsingular_def
proof (intro allI impI)
  fix w j assume a: "annihilates w rows" "\<forall>j \<ge> m. w j = 0" "j < m"
  let ?x = "\<lambda>i. Gf (of_nat (xs ! i))" and ?y = "\<lambda>j. Gf (of_nat (ys ! j))"
  have ne: "(of_nat (xs ! i) :: byte) XOR of_nat (ys ! j) \<noteq> 0" if "i < m" "j < m" for i j
  proof -
    have "(of_nat (xs ! i) :: byte) \<noteq> of_nat (ys ! j)" using x(1) y(1) disj bound that
      by (metis of_nat_byte_inj UnCI nth_mem)
    then show ?thesis by (simp add: xor_byte_eq_0)
  qed
  have entry: "Gf (rows ! i ! j) = 1 / (?x i + ?y j)" if "i < m" "j < m" for i j
    using rows [OF that] by (simp add: Gf_inv ne that)
  have "(\<Sum>j < m. w j / (?x i + ?y j)) = 0" if i: "i < m" for i
  proof -
    have "row_sum w (rows ! i) = 0" using a(1) sh i by (simp add: annihilates_def shaped_def)
    moreover have "row_sum w (rows ! i) = (\<Sum>j < m. Gf (rows ! i ! j) * w j)"
      unfolding row_sum_def using sh i a(2) by (intro sum.mono_neutral_right) (auto simp: shaped_def)
    ultimately show ?thesis using entry [OF i] by simp
  qed
  moreover have "inj_on ?x {..<m}" "inj_on ?y {..<m}"
    using x y bound by (auto intro!: inj_onI simp: Gf_eq_iff dest!: of_nat_byte_inj simp: nth_eq_iff_index_eq)
  moreover have "?x i + ?y j \<noteq> 0" if "i < m" "j < m" for i j
    using ne [OF that] by (simp flip: Gf_simps(3) add: Gf_eq_0_iff)
  ultimately show "w j = 0" using cauchy_kernel [of m w ?x ?y] a(3) by blast
qed

lemma sum_list_lessThan:
  fixes f :: "nat \<Rightarrow> gf"
  shows "(\<Sum>x \<leftarrow> xs. f x) = (\<Sum>j < length xs. f (xs ! j))"
  by (simp add: sum_list_sum_nth atLeast0LessThan)

text \<open>The repair symbols a receiver solves with: as many as there are missing sources.\<close>

definition chosen_repairs :: "geometry \<Rightarrow> bytes option list \<Rightarrow> nat list" where
  "chosen_repairs g symbols = take (length (missing_sources g symbols))
    (filter (\<lambda>esi. symbols ! esi \<noteq> None) [source_count g..<symbol_count g])"

lemma chosen_repairs_props:
  "distinct (chosen_repairs g symbols)"
  "esi \<in> set (chosen_repairs g symbols) \<Longrightarrow> source_count g \<le> esi \<and> esi < symbol_count g \<and> symbols ! esi \<noteq> None"
  by (auto simp: chosen_repairs_def distinct_take dest!: in_set_takeD)

lemma repair_rows_shape:
  assumes g: "geometry_ok g" and w: "well_sized g symbols"
    and len: "length (chosen_repairs g symbols) = length (missing_sources g symbols)"
  defines "m \<equiv> length (missing_sources g symbols)" and "rows \<equiv> map (repair_row g symbols) (chosen_repairs g symbols)"
  shows "shaped m (m + symbol_length g) rows" "nonsingular m rows"
proof -
  have chosen: "source_count g \<le> chosen_repairs g symbols ! i" "chosen_repairs g symbols ! i < symbol_count g"
      "symbols ! (chosen_repairs g symbols ! i) \<noteq> None" if "i < m" for i
    using chosen_repairs_props(2) [of "chosen_repairs g symbols ! i" g symbols] len that by (simp_all add: m_def)
  note row = repair_row_split [OF w chosen, folded m_def]
  show sh: "shaped m (m + symbol_length g) rows" using len row(1) by (auto simp: shaped_def rows_def m_def)
  show "nonsingular m rows"
  proof (rule cauchy_rows_nonsingular [OF sh, of "chosen_repairs g symbols" "missing_sources g symbols"])
    show "\<forall>x \<in> set (chosen_repairs g symbols) \<union> set (missing_sources g symbols). x < 256"
      using g chosen_repairs_props(2) [of _ g symbols]
      by (fastforce simp: missing_sources_def geometry_ok_def symbol_count_def MAX_SOURCE_SYMBOLS_def MAX_REPAIR_SYMBOLS_def)
    show "\<forall>x \<in> set (chosen_repairs g symbols). \<forall>y \<in> set (missing_sources g symbols). x \<noteq> y"
      using chosen_repairs_props(2) [of _ g symbols] by (fastforce simp: missing_sources_def)
  qed (use len row(2) in \<open>simp_all add: m_def rows_def chosen_repairs_props missing_sources_def\<close>)
qed

lemma repair_rows_solved:
  assumes g: "geometry_ok g" and ok: "sources_ok g source" and h: "holds_symbols g source symbols"
    and m: "missing = missing_sources g symbols" and len: "length (chosen_repairs g symbols) = length missing"
  shows "\<exists>rows. gauss_jordan (map (repair_row g symbols) (chosen_repairs g symbols)) (length missing) = Some rows \<and>
    map (\<lambda>row. take (symbol_length g) (drop (length missing) row)) rows = map ((!) source) missing"
proof -
  let ?rows = "map (repair_row g symbols) (chosen_repairs g symbols)" and ?m = "length missing"
  let ?width = "?m + symbol_length g"
  note w = holds_well_sized [OF ok h]
  note shape = repair_rows_shape [OF g w len [unfolded m], folded m]
  have chosen: "source_count g \<le> chosen_repairs g symbols ! i" "chosen_repairs g symbols ! i < symbol_count g"
      "symbols ! (chosen_repairs g symbols ! i) \<noteq> None" if "i < ?m" for i
    using chosen_repairs_props(2) [of "chosen_repairs g symbols ! i" g symbols] len that by simp_all
  have miss: "missing ! j < source_count g" if "j < ?m" for j
    using missing_less that by (simp add: m)
  have sol: "(\<Sum>j < ?m. Gf (?rows ! i ! j) * Gf (source ! (missing ! j) ! t)) = Gf (?rows ! i ! (?m + t))"
    if i: "i < ?m" and t: "t < ?width - ?m" for i t
    using i t len repair_row_split(2) [OF w chosen [OF i], folded m] repair_row_codeword [OF ok h chosen [OF i], folded m] miss chosen(1) [OF i]
    by (simp add: sum_list_lessThan generator_row_nth)
  obtain rows where r: "gauss_jordan ?rows ?m = Some rows" "length rows = ?m"
    "\<And>i. i < ?m \<Longrightarrow> length (rows ! i) = ?width \<and> (\<forall>t < ?width - ?m. rows ! i ! (?m + t) = source ! (missing ! i) ! t)"
    using gauss_jordan_solves [OF shape, of "\<lambda>j t. source ! (missing ! j) ! t"] sol by blast
  have "take (symbol_length g) (drop ?m (rows ! i)) = source ! (missing ! i)" if "i < ?m" for i
    using r(3) [OF that] miss [OF that] ok by (intro nth_equalityI) (auto simp: sources_ok_def)
  then show ?thesis using r(1,2) by (auto intro!: nth_equalityI)
qed

section \<open>Decoding\<close>

text \<open>The shape \<^const>\<open>solve_missing\<close> asks of what was received.\<close>

definition received_ok :: "geometry \<Rightarrow> (nat \<times> bytes) list \<Rightarrow> bool" where
  "received_ok g received \<longleftrightarrow> distinct (map fst received) \<and>
    (\<forall>(esi, symbol) \<in> set received. esi < symbol_count g \<and> length symbol = symbol_length g)"

definition symbol_table :: "(nat \<times> bytes) list \<Rightarrow> bytes option list" where
  "symbol_table received = map (map_of received) [0..<MAX_SYMBOLS]"

lemma geometry_ok_count: "geometry_ok g \<Longrightarrow> symbol_count g \<le> MAX_SYMBOLS"
  by (simp add: geometry_ok_def symbol_count_def MAX_SYMBOLS_def)

lemma collect_symbols_error: "collect_symbols g received symbols = Inl e \<Longrightarrow> e = InvalidSymbol"
  by (induction g received symbols rule: collect_symbols.induct) (auto simp: check_symbol_def split: if_splits)

lemma collect_symbols_eq:
  assumes "geometry_ok g"
  shows "collect_symbols g received (replicate MAX_SYMBOLS None) =
    (if received_ok g received then Inr (symbol_table received) else Inl InvalidSymbol)"
proof -
  have eq: "map (\<lambda>esi. case map_of received esi of None \<Rightarrow> replicate MAX_SYMBOLS None ! esi | Some s \<Rightarrow> Some s) [0..<MAX_SYMBOLS] =
      symbol_table received"
    by (auto simp: symbol_table_def split: option.split)
  have "collect_symbols g received (replicate MAX_SYMBOLS None) = Inr s \<longleftrightarrow> received_ok g received \<and> s = symbol_table received" for s
    using collect_symbols_iff [of "replicate MAX_SYMBOLS None" g received s] geometry_ok_count [OF assms] eq
    by (auto simp: received_ok_def)
  then show ?thesis
    by (cases "collect_symbols g received (replicate MAX_SYMBOLS None)") (auto dest: collect_symbols_error)
qed

lemma symbol_table_nth: "geometry_ok g \<Longrightarrow> esi < symbol_count g \<Longrightarrow> symbol_table received ! esi = map_of received esi"
  using geometry_ok_count [of g] by (simp add: symbol_table_def)

lemma received_well_sized: "geometry_ok g \<Longrightarrow> received_ok g received \<Longrightarrow> well_sized g (symbol_table received)"
  by (auto simp: well_sized_def symbol_table_nth received_ok_def dest: map_of_SomeD)

lemma enough_repairs:
  assumes g: "geometry_ok g" and r: "received_ok g received" and k: "source_count g \<le> length received"
  shows "length (chosen_repairs g (symbol_table received)) = length (missing_sources g (symbol_table received))"
proof -
  let ?E = "set (map fst received)" and ?t = "symbol_table received"
  have t: "?t ! esi \<noteq> None \<longleftrightarrow> esi \<in> ?E" if "esi < symbol_count g" for esi
    using symbol_table_nth [OF g that] by (simp add: map_of_eq_None_iff)
  have "?E = set (filter (\<lambda>j. ?t ! j \<noteq> None) [0..<symbol_count g])"
  proof -
    have "?E \<subseteq> {..<symbol_count g}" using r by (auto simp: received_ok_def)
    moreover have "set (filter (\<lambda>j. ?t ! j \<noteq> None) [0..<symbol_count g]) = {j. j < symbol_count g \<and> j \<in> ?E}"
      by (simp add: t cong: conj_cong del: not_None_eq)
    ultimately show ?thesis by auto
  qed
  then have "length received = length (filter (\<lambda>j. ?t ! j \<noteq> None) [0..<symbol_count g])"
    using r distinct_card [of "map fst received"] distinct_card [of "filter (\<lambda>j. ?t ! j \<noteq> None) [0..<symbol_count g]"]
    by (simp only: received_ok_def length_map distinct_filter distinct_upt)
  also have "[0..<symbol_count g] = [0..<source_count g] @ [source_count g..<symbol_count g]"
    using upt_add_eq_append [of 0 "source_count g" "repair_count g"] by (simp add: symbol_count_def)
  finally have "length received = length (filter (\<lambda>j. ?t ! j \<noteq> None) [0..<source_count g]) +
      length (filter (\<lambda>j. ?t ! j \<noteq> None) [source_count g..<symbol_count g])" by simp
  moreover have "length (filter (\<lambda>j. ?t ! j \<noteq> None) [0..<source_count g]) + length (missing_sources g ?t) = source_count g"
    using sum_length_filter_compl [of "\<lambda>j. ?t ! j \<noteq> None" "[0..<source_count g]"] by (simp add: missing_sources_def)
  ultimately show ?thesis using k by (simp add: chosen_repairs_def)
qed

lemma solve_missing_eq:
  assumes g: "geometry_ok g"
  shows "solve_missing g received =
    (if \<not> received_ok g received then Some (Inl InvalidSymbol)
     else if length received < source_count g then Some (Inl InsufficientSymbols)
     else let symbols = symbol_table received; missing = missing_sources g symbols in
       map_option (\<lambda>rows. Inr (symbols, zip missing (map (\<lambda>row. take (symbol_length g) (drop (length missing) row)) rows)))
         (gauss_jordan (map (repair_row g symbols) (chosen_repairs g symbols)) (length missing)))"
  by (auto simp: solve_missing_def collect_symbols_eq [OF g] chosen_repairs_def Let_def gauss_jordan_def split: option.split)

lemma merge_recovered_total:
  "length recovered = length (filter (\<lambda>j. symbols ! j = None) esis) \<Longrightarrow> \<exists>out. merge_recovered symbols recovered esis = Some out"
  by (induction symbols recovered esis rule: merge_recovered.induct)
    (auto split: option.split list.split if_splits simp: length_Suc_conv)

lemma merge_recovered_sources:
  "\<forall>j \<in> set esis. symbols ! j = None \<or> symbols ! j = Some (source ! j) \<Longrightarrow>
   merge_recovered symbols (map (\<lambda>j. (j, source ! j)) (filter (\<lambda>j. symbols ! j = None) esis)) esis = Some (map ((!) source) esis)"
  by (induction esis) auto

lemma decode_total:
  assumes g: "geometry_ok g" and r: "received_ok g received" and k: "source_count g \<le> length received"
  shows "\<exists>out. decode g received = Some (Inr out)"
proof -
  let ?t = "symbol_table received"
  let ?m = "length (missing_sources g ?t)"
  note len = enough_repairs [OF g r k]
  note shape = repair_rows_shape [OF g received_well_sized [OF g r] len]
  obtain rows where rows: "gauss_jordan (map (repair_row g ?t) (chosen_repairs g ?t)) ?m = Some rows" "length rows = ?m"
    using gj_loop_correct [OF shape(1) _ shape(2), of 0] by (auto simp: unit_columns_def gauss_jordan_def shaped_def)
  have "\<exists>out. merge_recovered ?t (zip (missing_sources g ?t) (map (\<lambda>row. take (symbol_length g) (drop ?m row)) rows))
      [0..<source_count g] = Some out"
    by (rule merge_recovered_total) (use rows(2) in \<open>simp add: missing_sources_def\<close>)
  then show ?thesis using rows(1) r k by (auto simp: decode_def solve_missing_eq [OF g] Let_def)
qed

lemma solve_missing_codeword:
  assumes g: "geometry_ok g" and ok: "sources_ok g source" and r: "distinct (map fst received)"
    "\<forall>(esi, symbol) \<in> set received. esi < symbol_count g \<and> symbol = code_symbol g source esi"
    and k: "source_count g \<le> length received"
  shows "solve_missing g received = Some (Inr (symbol_table received,
      map (\<lambda>j. (j, source ! j)) (missing_sources g (symbol_table received))))"
    "holds_symbols g source (symbol_table received)"
proof -
  let ?t = "symbol_table received"
  have r': "received_ok g received"
    using r length_code_symbol [OF ok] by (auto simp: received_ok_def)
  show h: "holds_symbols g source ?t"
    unfolding holds_symbols_def
  proof (intro allI impI)
    fix esi assume "esi < symbol_count g"
    then show "?t ! esi = None \<or> ?t ! esi = Some (code_symbol g source esi)"
      using r(2) symbol_table_nth [OF g] by (cases "map_of received esi") (auto dest: map_of_SomeD)
  qed
  obtain rows where rows: "gauss_jordan (map (repair_row g ?t) (chosen_repairs g ?t)) (length (missing_sources g ?t)) = Some rows"
    "map (\<lambda>row. take (symbol_length g) (drop (length (missing_sources g ?t)) row)) rows = map ((!) source) (missing_sources g ?t)"
    using repair_rows_solved [OF g ok h refl enough_repairs [OF g r' k]] by blast
  have "zip (missing_sources g ?t) (map ((!) source) (missing_sources g ?t)) = map (\<lambda>j. (j, source ! j)) (missing_sources g ?t)"
    by (simp add: zip_map2 zip_same_conv_map)
  then show "solve_missing g received = Some (Inr (?t, map (\<lambda>j. (j, source ! j)) (missing_sources g ?t)))"
    using r' k by (simp add: solve_missing_eq [OF g] Let_def rows)
qed

lemma recover_missing_total:
  assumes g: "geometry_ok g" and r: "received_ok g received" and k: "source_count g \<le> length received"
  shows "\<exists>recovered. recover_missing g received = Some (Inr recovered) \<and>
    map fst recovered = filter (\<lambda>j. j \<notin> fst ` set received) [0..<source_count g] \<and>
    (\<forall>(j, s) \<in> set recovered. length s = symbol_length g)"
proof -
  let ?t = "symbol_table received"
  let ?m = "length (missing_sources g ?t)"
  note shape = repair_rows_shape [OF g received_well_sized [OF g r] enough_repairs [OF g r k]]
  obtain rows where rows: "gauss_jordan (map (repair_row g ?t) (chosen_repairs g ?t)) ?m = Some rows" "shaped ?m (?m + symbol_length g) rows"
    using gj_loop_correct [OF shape(1) _ shape(2), of 0] by (auto simp: unit_columns_def gauss_jordan_def)
  have missing: "missing_sources g ?t = filter (\<lambda>j. j \<notin> fst ` set received) [0..<source_count g]"
    unfolding missing_sources_def using symbol_table_nth [OF g, of _ received]
    by (intro filter_cong refl) (simp add: map_of_eq_None_iff symbol_count_def)
  let ?rec = "zip (missing_sources g ?t) (map (\<lambda>row. take (symbol_length g) (drop ?m row)) rows)"
  have "recover_missing g received = Some (Inr ?rec)"
    using rows(1) r k by (simp add: recover_missing_def solve_missing_eq [OF g] Let_def)
  moreover have "map fst ?rec = missing_sources g ?t" using rows(2) by (simp add: shaped_def)
  moreover have "length s = symbol_length g" if "(j, s) \<in> set ?rec" for j s
    using rows(2) that by (auto simp: shaped_def in_set_conv_nth dest!: set_zip_rightD)
  ultimately show ?thesis unfolding missing by blast
qed

lemma recover_missing_codeword:
  assumes "geometry_ok g" "sources_ok g source" "distinct (map fst received)"
    "\<forall>(esi, symbol) \<in> set received. esi < symbol_count g \<and> symbol = code_symbol g source esi"
    "source_count g \<le> length received"
  shows "recover_missing g received = Some (Inr (map (\<lambda>j. (j, source ! j))
    (filter (\<lambda>j. j \<notin> fst ` set received) [0..<source_count g])))"
proof -
  have "missing_sources g (symbol_table received) = filter (\<lambda>j. j \<notin> fst ` set received) [0..<source_count g]"
    unfolding missing_sources_def using symbol_table_nth [OF assms(1), of _ received]
    by (intro filter_cong refl) (simp add: map_of_eq_None_iff symbol_count_def)
  then show ?thesis using solve_missing_codeword(1) [OF assms] by (simp add: recover_missing_def)
qed

lemma decode_codeword:
  assumes "geometry_ok g" "sources_ok g source" "distinct (map fst received)"
    "\<forall>(esi, symbol) \<in> set received. esi < symbol_count g \<and> symbol = code_symbol g source esi"
    "source_count g \<le> length received"
  shows "decode g received = Some (Inr source)"
proof -
  let ?t = "symbol_table received"
  have "?t ! j = None \<or> ?t ! j = Some (source ! j)" if "j < source_count g" for j
    using solve_missing_codeword(2) [OF assms, unfolded holds_symbols_def, rule_format, of j] that
    by (simp add: code_symbol_def symbol_count_def)
  then have "merge_recovered ?t (map (\<lambda>j. (j, source ! j)) (missing_sources g ?t)) [0..<source_count g] =
      Some (map ((!) source) [0..<source_count g])"
    unfolding missing_sources_def by (intro merge_recovered_sources) simp
  moreover have "map ((!) source) [0..<source_count g] = source"
    using assms(2) by (metis map_nth sources_ok_def)
  ultimately show ?thesis using solve_missing_codeword(1) [OF assms] by (simp add: decode_def)
qed

lemma code_symbol_nth:
  "\<lbrakk>encode g source = Inr repair; esi < symbol_count g\<rbrakk> \<Longrightarrow> code_symbol g source esi = (source @ repair) ! esi"
  by (auto simp: encode_iff code_symbol_def nth_append sources_ok_def symbol_count_def)

section \<open>Properties\<close>

text \<open>C4. Any k symbols of a generation restore it. For a geometry \<^const>\<open>geometry_new\<close> accepts, and the
  repair symbols \<^const>\<open>encode\<close> derives from the sources, whatever list of at least k distinct symbols
  arrives, sources or repairs, in any order, \<^const>\<open>decode\<close> returns exactly the sources.\<close>

theorem fec_any_k_symbols:
  assumes "geometry_new k r len = Inr g" "encode g source = Inr repair"
    and "distinct (map fst received)"
    and "\<forall>(esi, symbol) \<in> set received. esi < k + r \<and> symbol = (source @ repair) ! esi"
    and "k \<le> length received"
  shows "decode g received = Some (Inr source)"
proof (rule decode_codeword)
  have g: "geometry_ok g" "source_count g = k" "symbol_count g = k + r"
    using assms(1) by (auto simp: geometry_new_iff symbol_count_def)
  then show "geometry_ok g" "source_count g \<le> length received" using assms(5) by simp_all
  show "sources_ok g source" using assms(2) by (simp add: encode_iff)
  show "\<forall>(esi, symbol) \<in> set received. esi < symbol_count g \<and> symbol = code_symbol g source esi"
    using assms(4) code_symbol_nth [OF assms(2)] g(3) by fastforce
qed (rule assms(3))

definition example_geometry :: geometry where
  "example_geometry = \<lparr>source_count = 2, repair_count = 1, symbol_length = 1\<rparr>"

definition example_source :: "bytes list" where "example_source = [[7], [9]]"

theorem fec_any_k_symbols_witness:
  "decode example_geometry [(2, encode_row example_geometry example_source 0), (0, [7])] = Some (Inr example_source)"
proof -
  have g: "geometry_new 2 1 1 = Inr example_geometry"
    by (simp add: geometry_new_def example_geometry_def MAX_SOURCE_SYMBOLS_def MAX_REPAIR_SYMBOLS_def MAX_SYMBOL_LENGTH_def)
  have e: "encode example_geometry example_source = Inr [encode_row example_geometry example_source 0]"
    by (simp add: encode_def check_symbol_def example_geometry_def example_source_def)
  show ?thesis
    by (rule fec_any_k_symbols [OF g e]) (simp_all add: example_source_def)
qed

text \<open>Decoding never panics, and every refusal has its cause: a repeated or out-of-range symbol
  identifier or a symbol of the wrong length is \<^const>\<open>InvalidSymbol\<close>, fewer than k symbols is
  \<^const>\<open>InsufficientSymbols\<close>, and every other input decodes, whether or not its symbols belong to one
  codeword: elimination always finds a pivot.\<close>

theorem fec_decode_total:
  assumes "geometry_new k r len = Inr g"
  shows "if distinct (map fst received) \<and> (\<forall>(esi, symbol) \<in> set received. esi < k + r \<and> length symbol = len)
    then if k \<le> length received then \<exists>out. decode g received = Some (Inr out)
         else decode g received = Some (Inl InsufficientSymbols)
    else decode g received = Some (Inl InvalidSymbol)"
proof -
  have g: "geometry_ok g" "source_count g = k" "symbol_count g = k + r" "symbol_length g = len"
    using assms by (auto simp: geometry_new_iff symbol_count_def)
  then have ok: "received_ok g received \<longleftrightarrow>
      distinct (map fst received) \<and> (\<forall>(esi, symbol) \<in> set received. esi < k + r \<and> length symbol = len)"
    by (simp add: received_ok_def)
  have "decode g received = Some (Inl InvalidSymbol)" if "\<not> received_ok g received"
    using that by (simp add: decode_def solve_missing_eq [OF g(1)])
  moreover have "decode g received = Some (Inl InsufficientSymbols)" if "received_ok g received" "length received < k"
    using that by (simp add: decode_def solve_missing_eq [OF g(1)] g(2))
  ultimately show ?thesis
    unfolding ok [symmetric] using decode_total [OF g(1), of received] g(2) by simp
qed

end
