(* ===== verification/Fec_Plan.thy ===== *)
theory Fec_Plan
  imports Fec_Code
begin

text \<open>
  A coding epoch's plan (\<^verbatim>\<open>crates/vot-fec/src/plan.rs\<close>): the byte range of an object that an epoch
  carries, cut into generations of k symbols, and the bytes each source symbol covers.  The three
  operations that assert \<^verbatim>\<open>holds\<close> return an option; None is the assertion failing.
\<close>

record epoch_plan =
  plan_epoch :: nat
  plan_offset :: nat
  plan_length :: nat
  plan_geometry :: geometry

datatype symbol_span = SpanBytes nat nat | SpanZero

definition generation_bytes :: "epoch_plan \<Rightarrow> nat" where
  "generation_bytes plan = source_count (plan_geometry plan) * symbol_length (plan_geometry plan)"

definition generation_count :: "epoch_plan \<Rightarrow> nat" where
  "generation_count plan = div_ceil (plan_length plan) (generation_bytes plan)"

definition plan_new :: "nat \<Rightarrow> nat \<Rightarrow> nat \<Rightarrow> geometry \<Rightarrow> fec_error + epoch_plan" where
  "plan_new epoch offset len geometry =
    (if len = 0 \<or> checked_add offset len = None then Inl InvalidGeometry
     else
       let plan = \<lparr>plan_epoch = epoch, plan_offset = offset, plan_length = len, plan_geometry = geometry\<rparr> in
       if u32_max + 1 < generation_count plan then Inl InvalidGeometry
       else Inr plan)"

definition plan_holds :: "epoch_plan \<Rightarrow> nat \<Rightarrow> bool" where
  "plan_holds plan generation \<longleftrightarrow> generation < generation_count plan"

definition generation_span :: "epoch_plan \<Rightarrow> nat \<Rightarrow> (nat \<times> nat) option" where
  "generation_span plan generation =
    (if \<not> plan_holds plan generation then None
     else
       let start = generation * generation_bytes plan in
       Some (plan_offset plan + start, min (generation_bytes plan) (plan_length plan - start)))"

definition source_span :: "epoch_plan \<Rightarrow> nat \<Rightarrow> nat \<Rightarrow> symbol_span option" where
  "source_span plan generation esi =
    (if \<not> esi < source_count (plan_geometry plan) then None
     else
       case generation_span plan generation of
         None \<Rightarrow> None
       | Some (start, len) \<Rightarrow>
           let symbol_start = esi * symbol_length (plan_geometry plan) in
           if len \<le> symbol_start then Some SpanZero
           else Some (SpanBytes (start + symbol_start)
             (min (len - symbol_start) (symbol_length (plan_geometry plan)))))"

definition sent_source_count :: "epoch_plan \<Rightarrow> nat \<Rightarrow> nat option" where
  "sent_source_count plan generation =
    map_option (\<lambda>(start, len). div_ceil len (symbol_length (plan_geometry plan))) (generation_span plan generation)"

section \<open>Plans\<close>

definition plan_ok :: "epoch_plan \<Rightarrow> bool" where
  "plan_ok plan \<longleftrightarrow> geometry_ok (plan_geometry plan) \<and> 0 < plan_length plan \<and>
    plan_offset plan + plan_length plan \<le> u64_max \<and> generation_count plan \<le> u32_max + 1"

lemma plan_new_ok:
  "geometry_ok geometry \<Longrightarrow> plan_new epoch offset len geometry = Inr plan \<Longrightarrow>
    plan_ok plan \<and> plan = \<lparr>plan_epoch = epoch, plan_offset = offset, plan_length = len, plan_geometry = geometry\<rparr>"
  by (auto simp: plan_new_def plan_ok_def Let_def checked_add_def split: if_splits)

lemma generation_bytes_pos: "geometry_ok (plan_geometry plan) \<Longrightarrow> 0 < generation_bytes plan"
  by (simp add: generation_bytes_def geometry_ok_def)

lemma plan_holds_iff:
  "geometry_ok (plan_geometry plan) \<Longrightarrow> plan_holds plan generation \<longleftrightarrow> generation * generation_bytes plan < plan_length plan"
  unfolding plan_holds_def generation_count_def by (rule less_div_ceil_iff [OF generation_bytes_pos])

text \<open>The bytes generation \<^term>\<open>g\<close> covers, and how many of its sources carry any.\<close>

abbreviation (input) span_start :: "epoch_plan \<Rightarrow> nat \<Rightarrow> nat" where
  "span_start plan g \<equiv> g * generation_bytes plan"

abbreviation span_len :: "epoch_plan \<Rightarrow> nat \<Rightarrow> nat" where
  "span_len plan g \<equiv> min (generation_bytes plan) (plan_length plan - g * generation_bytes plan)"

abbreviation sent :: "epoch_plan \<Rightarrow> nat \<Rightarrow> nat" where
  "sent plan g \<equiv> div_ceil (span_len plan g) (symbol_length (plan_geometry plan))"

lemma generation_span_holds:
  "plan_holds plan g \<Longrightarrow> generation_span plan g = Some (plan_offset plan + span_start plan g, span_len plan g)"
  by (simp add: generation_span_def Let_def)

lemma sent_source_count_holds: "plan_holds plan g \<Longrightarrow> sent_source_count plan g = Some (sent plan g)"
  by (simp add: sent_source_count_def generation_span_holds)

lemma span_len_pos: "plan_ok plan \<Longrightarrow> plan_holds plan g \<Longrightarrow> 0 < span_len plan g"
  by (simp add: plan_ok_def plan_holds_iff generation_bytes_pos)

lemma less_sent_iff:
  "plan_ok plan \<Longrightarrow> j < sent plan g \<longleftrightarrow> j * symbol_length (plan_geometry plan) < span_len plan g"
  by (rule less_div_ceil_iff) (simp add: plan_ok_def geometry_ok_def)

lemma sent_le: "plan_ok plan \<Longrightarrow> sent plan g \<le> source_count (plan_geometry plan)"
proof (rule ccontr)
  assume ok: "plan_ok plan" and "\<not> sent plan g \<le> source_count (plan_geometry plan)"
  then have "source_count (plan_geometry plan) * symbol_length (plan_geometry plan) < span_len plan g"
    using less_sent_iff [OF ok] by (simp add: not_le)
  then show False by (simp add: generation_bytes_def)
qed

lemma sent_pos: "plan_ok plan \<Longrightarrow> plan_holds plan g \<Longrightarrow> 0 < sent plan g"
  by (simp only: less_sent_iff mult_0) (rule span_len_pos)

lemma source_span_holds:
  assumes "plan_ok plan" "plan_holds plan g" "j < source_count (plan_geometry plan)"
  shows "source_span plan g j = Some
    (if j < sent plan g
     then SpanBytes (plan_offset plan + span_start plan g + j * symbol_length (plan_geometry plan))
       (min (span_len plan g - j * symbol_length (plan_geometry plan)) (symbol_length (plan_geometry plan)))
     else SpanZero)"
  unfolding less_sent_iff [OF assms(1)]
  using assms(3) by (auto simp: source_span_def generation_span_holds [OF assms(2)] Let_def min_le_iff_disj not_less)

section \<open>Tiling\<close>

lemma source_span_bytes:
  assumes "plan_ok plan" "plan_holds plan g"
  shows "source_span plan g j = Some (SpanBytes a n) \<longleftrightarrow>
    j * symbol_length (plan_geometry plan) < span_len plan g \<and> a = plan_offset plan + span_start plan g + j * symbol_length (plan_geometry plan) \<and>
    n = min (span_len plan g - j * symbol_length (plan_geometry plan)) (symbol_length (plan_geometry plan))"
proof (cases "j < source_count (plan_geometry plan)")
  case True
  show ?thesis using source_span_holds [OF assms True] less_sent_iff [OF assms(1), of j g] by auto
next
  case False
  then have "span_len plan g \<le> j * symbol_length (plan_geometry plan)"
    using mult_le_mono1 [of "source_count (plan_geometry plan)" j] by (simp add: generation_bytes_def min_le_iff_disj)
  then have "\<not> j * symbol_length (plan_geometry plan) < span_len plan g" by (simp only: not_less)
  moreover have "source_span plan g j = None" using False by (simp add: source_span_def)
  ultimately show ?thesis by (simp del: min_less_iff_conj)
qed

text \<open>The generation and symbol that carry the byte at distance \<^term>\<open>y\<close> from the start.\<close>

lemma tile_exists:
  assumes p: "plan_ok plan" and y: "y < plan_length plan"
  defines "l \<equiv> symbol_length (plan_geometry plan)" and "gb \<equiv> generation_bytes plan"
  shows "\<exists>a n. plan_holds plan (y div gb) \<and> source_span plan (y div gb) (y mod gb div l) = Some (SpanBytes a n) \<and>
    a \<le> plan_offset plan + y \<and> plan_offset plan + y < a + n"
proof -
  have pos: "0 < gb" "0 < l" using p by (simp_all add: plan_ok_def gb_def l_def generation_bytes_pos geometry_ok_def)
  let ?g = "y div gb" and ?z = "y mod gb"
  have y_eq: "y = ?g * gb + ?z" by simp
  have z: "?z < gb" using pos by simp
  have "?g * gb \<le> y" by simp
  then have h: "plan_holds plan ?g" using y p plan_holds_iff [of plan ?g] unfolding plan_ok_def gb_def by linarith
  have zlen: "?z < span_len plan ?g" using z y y_eq unfolding gb_def by linarith
  have z_eq: "?z = ?z div l * l + ?z mod l" by simp
  have jl: "?z div l * l < span_len plan ?g" using zlen z_eq by linarith
  have "?z mod l < l" using pos by simp
  then have "?z < ?z div l * l + min (span_len plan ?g - ?z div l * l) l" using zlen z_eq by linarith
  moreover define a where "a = plan_offset plan + ?g * gb + ?z div l * l"
  moreover define n where "n = min (span_len plan ?g - ?z div l * l) l"
  ultimately have "a \<le> plan_offset plan + y" "plan_offset plan + y < a + n" using y_eq z_eq by linarith+
  moreover have "source_span plan ?g (?z div l) = Some (SpanBytes a n)"
    unfolding source_span_bytes [OF p h] using jl by (simp only: a_def n_def l_def gb_def)
  ultimately show ?thesis using h by blast
qed

lemma tile_unique:
  assumes p: "plan_ok plan" and h: "plan_holds plan g" and s: "source_span plan g j = Some (SpanBytes a n)"
    and x: "a \<le> plan_offset plan + y" "plan_offset plan + y < a + n"
  defines "l \<equiv> symbol_length (plan_geometry plan)" and "gb \<equiv> generation_bytes plan"
  shows "g = y div gb \<and> j = y mod gb div l"
proof -
  have pos: "0 < gb" "0 < l" using p by (simp_all add: plan_ok_def gb_def l_def generation_bytes_pos geometry_ok_def)
  have s': "j * l < span_len plan g" "a = plan_offset plan + g * gb + j * l" "n = min (span_len plan g - j * l) l"
    using s unfolding source_span_bytes [OF p h] l_def gb_def by auto
  define t where "t = y - (g * gb + j * l)"
  have t: "y = g * gb + (j * l + t)" "t < l" "j * l + t < gb"
  proof -
    have "n \<le> l" "n \<le> span_len plan g - j * l" "span_len plan g \<le> gb" unfolding s'(3) by (simp_all add: gb_def)
    then show "y = g * gb + (j * l + t)" "t < l" "j * l + t < gb"
      using x s'(1) unfolding s'(2) t_def by linarith+
  qed
  then have "y div gb = g" "y mod gb = j * l + t" using pos by simp_all
  then show ?thesis using t(2) pos by simp
qed

section \<open>Properties\<close>

text \<open>C36. The symbols of a plan tile its range. For a plan \<^const>\<open>plan_new\<close> accepts, every byte of the range
  lies in exactly one source symbol of one generation, and every source symbol that carries bytes
  carries at least one and at most a symbol's length of them, inside the range and below 2^64.\<close>

theorem plan_tiles:
  assumes "geometry_new k r len = Inr geometry" "plan_new epoch offset span geometry = Inr plan"
  shows "(\<forall>x. offset \<le> x \<and> x < offset + span \<longrightarrow>
      (\<exists>!(g, j). plan_holds plan g \<and> (\<exists>a n. source_span plan g j = Some (SpanBytes a n) \<and> a \<le> x \<and> x < a + n))) \<and>
    (\<forall>g j a n. plan_holds plan g \<and> source_span plan g j = Some (SpanBytes a n) \<longrightarrow>
      0 < n \<and> n \<le> len \<and> offset \<le> a \<and> a + n \<le> offset + span \<and> a + n \<le> u64_max)"
proof (intro conjI allI impI)
  have g: "geometry_ok geometry" "symbol_length geometry = len" using assms(1) by (auto simp: geometry_new_iff)
  have p: "plan_ok plan" and sel: "plan_offset plan = offset" "plan_length plan = span" "plan_geometry plan = geometry"
    using plan_new_ok [OF g(1) assms(2)] by auto
  {
    fix x assume x: "offset \<le> x \<and> x < offset + span"
    define y where "y = x - offset"
    have y: "y < plan_length plan" "plan_offset plan + y = x" using x by (auto simp: y_def sel)
    show "\<exists>!(g, j). plan_holds plan g \<and> (\<exists>a n. source_span plan g j = Some (SpanBytes a n) \<and> a \<le> x \<and> x < a + n)"
    proof (rule ex1I [of _ "(y div generation_bytes plan, y mod generation_bytes plan div symbol_length (plan_geometry plan))"])
      show "case (y div generation_bytes plan, y mod generation_bytes plan div symbol_length (plan_geometry plan)) of
        (g, j) \<Rightarrow> plan_holds plan g \<and> (\<exists>a n. source_span plan g j = Some (SpanBytes a n) \<and> a \<le> x \<and> x < a + n)"
        using tile_exists [OF p y(1)] y(2) by auto
    qed (use tile_unique [OF p] y(2) in auto)
  next
    fix g j a n assume "plan_holds plan g \<and> source_span plan g j = Some (SpanBytes a n)"
    then have s: "j * len < span_len plan g" "a = offset + g * generation_bytes plan + j * len" "n = min (span_len plan g - j * len) len"
      using source_span_bytes [OF p, of g j a n] sel g(2) by auto
    have "0 < len" "offset + span \<le> u64_max" using p g(2) sel by (auto simp: plan_ok_def geometry_ok_def)
    then show "0 < n" "n \<le> len" "offset \<le> a" "a + n \<le> offset + span" "a + n \<le> u64_max"
      using s sel(2) by auto
  }
qed

theorem plan_tiles_witness:
  "(\<exists>!(g, j). plan_holds \<lparr>plan_epoch = 0, plan_offset = 10, plan_length = 5, plan_geometry = example_geometry\<rparr> g \<and>
     (\<exists>a n. source_span \<lparr>plan_epoch = 0, plan_offset = 10, plan_length = 5, plan_geometry = example_geometry\<rparr> g j = Some (SpanBytes a n) \<and>
       a \<le> 14 \<and> 14 < a + n))"
proof -
  have g: "geometry_new 2 1 1 = Inr example_geometry"
    by (simp add: geometry_new_def example_geometry_def MAX_SOURCE_SYMBOLS_def MAX_REPAIR_SYMBOLS_def MAX_SYMBOL_LENGTH_def)
  have p: "plan_new 0 10 5 example_geometry = Inr \<lparr>plan_epoch = 0, plan_offset = 10, plan_length = 5, plan_geometry = example_geometry\<rparr>"
    by (simp add: plan_new_def checked_add_def u64_max_def u32_max_def Let_def generation_count_def generation_bytes_def div_ceil_def example_geometry_def)
  show ?thesis using plan_tiles [OF g p] by simp
qed

end
