(* ===== verification/Fec_Sender.thy ===== *)
theory Fec_Sender
  imports Fec_Plan Ordered_Map "HOL-Library.Monad_Syntax"
begin

text \<open>
  The sending end of datagram FEC (\<^verbatim>\<open>crates/vot-fec/src/sender.rs\<close>): the symbols of one generation,
  and the record of what was opened, begun and retired under the receiver's credit.  An operation
  that the source could leave by a panic (an assertion, an index, an unsigned subtraction below
  zero) returns an option, None being that panic.
\<close>

section \<open>The symbols of a generation\<close>

definition source_symbol :: "epoch_plan \<Rightarrow> nat \<Rightarrow> bytes \<Rightarrow> nat \<Rightarrow> bytes option" where
  "source_symbol plan generation bs j =
    (let l = symbol_length (plan_geometry plan) in
     source_span plan generation j \<bind> (\<lambda>span.
       case span of
         SpanZero \<Rightarrow> Some (replicate l 0)
       | SpanBytes offset n \<Rightarrow>
           generation_span plan generation \<bind> (\<lambda>(base, len).
           checked_sub offset base \<bind> (\<lambda>start.
           slice_get bs start (start + n) \<bind> (\<lambda>part.
           if n \<le> l then Some (part @ replicate (l - n) 0) else None)))))"

definition encode_generation ::
  "epoch_plan \<Rightarrow> nat \<Rightarrow> bytes \<Rightarrow> (fec_error + (nat \<times> bytes) list) option" where
  "encode_generation plan generation bs =
    (if \<not> plan_holds plan generation then Some (Inl InvalidGeometry)
     else
       generation_span plan generation \<bind> (\<lambda>(base, len).
       if length bs \<noteq> len then Some (Inl InvalidSymbol)
       else
         sent_source_count plan generation \<bind> (\<lambda>sent_count.
         those (map (source_symbol plan generation bs) [0..<source_count (plan_geometry plan)]) \<bind> (\<lambda>sources.
         Some (and_then (encode (plan_geometry plan) sources) (\<lambda>repair.
           Inr (take sent_count (enumerate 0 sources) @
                enumerate (source_count (plan_geometry plan)) repair)))))))"

section \<open>The sender's state\<close>

text \<open>One \<^verbatim>\<open>DATAGRAM_CREDIT\<close> (\<^verbatim>\<open>receiver.rs\<close>).\<close>

record fec_credit =
  credit_epoch :: nat
  max_unretired_bytes :: nat
  max_active_generations :: nat
  max_decode_work :: nat
  max_open_epochs :: nat

datatype fec_done = DoneDecoded | DoneAbandoned

record gen_report =
  rep_sequence :: nat
  rep_received :: nat
  rep_missing :: "nat list"

record sender_epoch =
  se_plan :: epoch_plan
  se_generations :: "(nat, fec_done option) omap"
  se_sequences :: "(nat, nat) omap"

record sender =
  snd_credit :: "fec_credit option"
  snd_epochs :: "(nat, sender_epoch) omap"
  highest_epoch :: "nat option"
  snd_active :: nat
  snd_unretired :: nat

definition sender_new :: sender where
  "sender_new = \<lparr>snd_credit = None, snd_epochs = [], highest_epoch = None, snd_active = 0, snd_unretired = 0\<rparr>"

definition sender_credit :: "fec_credit \<Rightarrow> sender \<Rightarrow> bool \<times> sender" where
  "sender_credit credit s =
    (if is_some_and (snd_credit s) (\<lambda>held. credit_epoch credit \<le> credit_epoch held) then (False, s)
     else (True, s\<lparr>snd_credit := Some credit\<rparr>))"

definition may_open :: "sender \<Rightarrow> bool" where
  "may_open s \<longleftrightarrow> is_some_and (snd_credit s) (\<lambda>credit. length (snd_epochs s) < max_open_epochs credit)"

definition next_epoch :: "sender \<Rightarrow> nat option" where
  "next_epoch s = (case highest_epoch s of
     None \<Rightarrow> Some 0
   | Some used \<Rightarrow> if used < u32_max then Some (used + 1) else None)"

definition sender_open :: "epoch_plan \<Rightarrow> sender \<Rightarrow> (fec_error + unit) \<times> sender" where
  "sender_open plan s =
    (if is_some_and (highest_epoch s) (\<lambda>used. plan_epoch plan \<le> used) \<or> \<not> may_open s
     then (Inl InvalidGeometry, s)
     else (Inr (), s\<lparr>highest_epoch := Some (plan_epoch plan),
       snd_epochs := om_insert (plan_epoch plan)
         \<lparr>se_plan = plan, se_generations = [], se_sequences = []\<rparr> (snd_epochs s)\<rparr>))"

definition may_begin :: "sender \<Rightarrow> nat \<Rightarrow> bool" where
  "may_begin s epoch \<longleftrightarrow>
    (case snd_credit s of
       None \<Rightarrow> False
     | Some credit \<Rightarrow>
         (case om_get (snd_epochs s) epoch of
            None \<Rightarrow> False
          | Some st \<Rightarrow>
              snd_active s < max_active_generations credit \<and>
              is_some_and (checked_add (snd_unretired s) (generation_bytes (se_plan st)))
                (\<lambda>sum. sum \<le> max_unretired_bytes credit)))"

definition sender_begin :: "nat \<Rightarrow> nat \<Rightarrow> sender \<Rightarrow> ((fec_error + unit) \<times> sender) option" where
  "sender_begin epoch generation s =
    (if \<not> may_begin s epoch then Some (Inl InvalidGeometry, s)
     else
       om_get (snd_epochs s) epoch \<bind> (\<lambda>st.
       if \<not> plan_holds (se_plan st) generation \<or> om_get (se_generations st) generation \<noteq> None
       then Some (Inl InvalidGeometry, s)
       else
         checked_add (snd_active s) 1 \<bind> (\<lambda>active.
         checked_add (snd_unretired s) (generation_bytes (se_plan st)) \<bind> (\<lambda>unretired.
         Some (Inr (), s\<lparr>
           snd_epochs := om_insert epoch
             (st\<lparr>se_generations := om_insert generation None (se_generations st)\<rparr>) (snd_epochs s),
           snd_active := active, snd_unretired := unretired\<rparr>)))))"

definition sender_state ::
  "nat \<Rightarrow> nat \<Rightarrow> gen_report \<Rightarrow> sender \<Rightarrow> ((fec_error + bool) \<times> sender) option" where
  "sender_state epoch generation report s =
    (case om_get (snd_epochs s) epoch of
       None \<Rightarrow> Some (Inr False, s)
     | Some known \<Rightarrow>
         let plan = se_plan known in
         if \<not> plan_holds plan generation then Some (Inl InvalidSymbol, s)
         else
           sent_source_count plan generation \<bind> (\<lambda>sent_count.
           Some (
             if symbol_count (plan_geometry plan) < rep_received report \<or>
                list_ex (\<lambda>esi. sent_count \<le> esi) (rep_missing report)
             then (Inl InvalidSymbol, s)
             else if om_get (se_generations known) generation \<noteq> Some None then (Inr False, s)
             else if is_some_and (om_get (se_sequences known) generation) (\<lambda>held. rep_sequence report \<le> held)
             then (Inr False, s)
             else (Inr True, s\<lparr>snd_epochs := om_insert epoch
               (known\<lparr>se_sequences := om_insert generation (rep_sequence report) (se_sequences known)\<rparr>)
               (snd_epochs s)\<rparr>))))"

definition state_accepted :: "sender \<Rightarrow> nat \<Rightarrow> nat \<Rightarrow> bool" where
  "state_accepted s epoch generation \<longleftrightarrow>
    (case om_get (snd_epochs s) epoch of
       None \<Rightarrow> False
     | Some known \<Rightarrow>
         om_get (se_generations known) generation = Some None \<and> om_get (se_sequences known) generation \<noteq> None)"

definition sender_done ::
  "nat \<Rightarrow> nat \<Rightarrow> fec_done \<Rightarrow> sender \<Rightarrow> ((fec_error + bool) \<times> sender) option" where
  "sender_done epoch generation outcome s =
    (case om_get (snd_epochs s) epoch of
       None \<Rightarrow> Some (Inr False, s)
     | Some st \<Rightarrow>
         if \<not> plan_holds (se_plan st) generation then Some (Inl InvalidSymbol, s)
         else
           (case om_get (se_generations st) generation of
              Some None \<Rightarrow>
                checked_sub (snd_active s) 1 \<bind> (\<lambda>active.
                checked_sub (snd_unretired s) (generation_bytes (se_plan st)) \<bind> (\<lambda>unretired.
                Some (Inr True, s\<lparr>
                  snd_epochs := om_insert epoch
                    (st\<lparr>se_generations := om_insert generation (Some outcome) (se_generations st)\<rparr>) (snd_epochs s),
                  snd_active := active, snd_unretired := unretired\<rparr>)))
            | Some (Some earlier) \<Rightarrow>
                Some (if earlier \<noteq> outcome then Inl InvalidSymbol else Inr False, s)
            | None \<Rightarrow> Some (Inr False, s)))"

definition live_count :: "(nat, fec_done option) omap \<Rightarrow> nat" where
  "live_count generations = length (filter (\<lambda>(g, d). d = None) generations)"

definition sender_close :: "nat \<Rightarrow> sender \<Rightarrow> (bool \<times> sender) option" where
  "sender_close epoch s =
    (case om_get (snd_epochs s) epoch of
       None \<Rightarrow> Some (False, s)
     | Some st \<Rightarrow>
         let live = live_count (se_generations st) in
         checked_sub (snd_active s) live \<bind> (\<lambda>active.
         checked_sub (snd_unretired s) (live * generation_bytes (se_plan st)) \<bind> (\<lambda>unretired.
         Some (True, s\<lparr>snd_epochs := om_remove epoch (snd_epochs s),
           snd_active := active, snd_unretired := unretired\<rparr>))))"

definition sender_refused :: "nat \<Rightarrow> sender \<Rightarrow> (bool \<times> sender) option" where
  "sender_refused epoch s = sender_close epoch s"

definition sender_plan :: "sender \<Rightarrow> nat \<Rightarrow> epoch_plan option" where
  "sender_plan s epoch = map_option se_plan (om_get (snd_epochs s) epoch)"

definition sender_outcome :: "sender \<Rightarrow> nat \<Rightarrow> nat \<Rightarrow> fec_done option option" where
  "sender_outcome s epoch generation = om_get (snd_epochs s) epoch \<bind> (\<lambda>st. om_get (se_generations st) generation)"

definition sender_open_epochs :: "sender \<Rightarrow> nat" where
  "sender_open_epochs s = length (snd_epochs s)"

section \<open>A generation as a codeword\<close>

text \<open>The generation's bytes padded with zeros to k symbols, and cut into them.\<close>

definition padded_sources :: "epoch_plan \<Rightarrow> bytes \<Rightarrow> bytes list" where
  "padded_sources plan bs =
    map (\<lambda>j. take (symbol_length (plan_geometry plan)) (drop (j * symbol_length (plan_geometry plan))
      (bs @ replicate (generation_bytes plan - length bs) 0))) [0..<source_count (plan_geometry plan)]"

lemma concat_chunks: "length xs = k * l \<Longrightarrow> concat (map (\<lambda>j. take l (drop (j * l) xs)) [0..<k]) = xs"
proof (induction k arbitrary: xs)
  case (Suc k)
  have "concat (map (\<lambda>j. take l (drop (j * l) xs)) [0..<k]) = concat (map (\<lambda>j. take l (drop (j * l) (take (k * l) xs))) [0..<k])"
  proof (intro arg_cong [of _ _ concat] map_cong refl)
    fix j assume "j \<in> set [0..<k]"
    then have "j * l + l \<le> k * l" by (metis Suc_leI add.commute atLeastLessThan_iff mult_Suc mult_le_mono1 set_upt)
    then show "take l (drop (j * l) xs) = take l (drop (j * l) (take (k * l) xs))"
      by (simp add: drop_take min_def)
  qed
  also have "\<dots> = take (k * l) xs" using Suc.prems by (intro Suc.IH) simp
  finally show ?case using Suc.prems by simp
qed simp

lemma concat_padded_sources:
  "length bs \<le> generation_bytes plan \<Longrightarrow>
    concat (padded_sources plan bs) = bs @ replicate (generation_bytes plan - length bs) 0"
  unfolding padded_sources_def by (rule concat_chunks) (simp add: generation_bytes_def)

lemma padded_source_nth:
  assumes "j < source_count (plan_geometry plan)" "l = symbol_length (plan_geometry plan)"
    and "length bs \<le> generation_bytes plan"
  shows "padded_sources plan bs ! j =
    take l (drop (j * l) bs) @ replicate (l - length (take l (drop (j * l) bs))) 0"
proof -
  have "Suc j * l \<le> source_count (plan_geometry plan) * l" using assms(1) by (intro mult_le_mono1) simp
  then have le: "j * l + l \<le> generation_bytes plan" using assms(2) by (simp add: generation_bytes_def)
  have arith: "min (l - (m - a)) (g - m - (a - m)) = l - min (m - a) l" if "a + l \<le> g" for a m g :: nat
    using that by (auto simp: min_def)
  show ?thesis
    using assms(1) arith [OF le, of "length bs"] by (simp add: padded_sources_def flip: assms(2))
qed

lemma sources_ok_padded:
  assumes "length bs \<le> generation_bytes plan"
  shows "sources_ok (plan_geometry plan) (padded_sources plan bs)"
proof -
  have len: "length (padded_sources plan bs) = source_count (plan_geometry plan)" by (simp add: padded_sources_def)
  then show ?thesis
    using padded_source_nth [OF _ refl assms] by (simp add: sources_ok_def all_set_conv_all_nth)
qed

lemma source_symbol_padded:
  assumes "plan_ok plan" "plan_holds plan g" "j < source_count (plan_geometry plan)" "length bs = span_len plan g"
  shows "source_symbol plan g bs j = Some (padded_sources plan bs ! j)"
proof -
  let ?l = "symbol_length (plan_geometry plan)"
  have len: "length bs \<le> generation_bytes plan" using assms(4) by simp
  show ?thesis
  proof (cases "j < sent plan g")
    case True
    then have "j * ?l < length bs" using less_sent_iff [OF assms(1)] assms(4) by simp
    moreover define n where "n = min (length bs - j * ?l) ?l"
    ultimately have n: "j * ?l + n \<le> length bs" "n \<le> ?l" "take ?l (drop (j * ?l) bs) = take n (drop (j * ?l) bs)"
      by (auto simp: min_def)
    show ?thesis
      using True n padded_source_nth [OF assms(3) refl len]
      by (simp add: source_symbol_def source_span_holds [OF assms(1-3)] generation_span_holds [OF assms(2)]
          slice_get_def checked_sub_def Let_def flip: assms(4) n_def)
  next
    case False
    then have "length bs \<le> j * ?l" using less_sent_iff [OF assms(1)] assms(4) by (metis not_less)
    with False show ?thesis
      using padded_source_nth [OF assms(3) refl len]
      by (simp add: source_symbol_def source_span_holds [OF assms(1-3)] Let_def)
  qed
qed

lemma those_map_Some: "\<forall>x \<in> set xs. f x = Some (g x) \<Longrightarrow> those (map f xs) = Some (map g xs)"
  by (induction xs) auto

text \<open>The symbols on the wire: the sources that carry bytes and every repair.\<close>

definition sent_esis :: "epoch_plan \<Rightarrow> nat \<Rightarrow> nat list" where
  "sent_esis plan g = [0..<sent plan g] @ [source_count (plan_geometry plan)..<symbol_count (plan_geometry plan)]"

lemma encode_generation_eq:
  assumes "plan_ok plan" "plan_holds plan g" "length bs = span_len plan g"
  shows "encode_generation plan g bs =
    Some (Inr (map (\<lambda>esi. (esi, code_symbol (plan_geometry plan) (padded_sources plan bs) esi)) (sent_esis plan g)))"
proof -
  let ?g = "plan_geometry plan" and ?src = "padded_sources plan bs"
  have "length bs \<le> generation_bytes plan" using assms(3) by simp
  note ok = sources_ok_padded [OF this]
  have "map ((!) ?src) [0..<source_count ?g] = ?src" using ok by (metis map_nth sources_ok_def)
  then have those: "those (map (source_symbol plan g bs) [0..<source_count ?g]) = Some ?src"
    using those_map_Some [of "[0..<source_count ?g]" "source_symbol plan g bs" "(!) ?src"]
      source_symbol_padded [OF assms(1,2) _ assms(3)] by simp
  have enc: "encode ?g ?src = Inr (map (encode_row ?g ?src) [0..<repair_count ?g])" using ok by (simp add: encode_iff)
  have s: "take (sent plan g) (enumerate 0 ?src) = map (\<lambda>esi. (esi, code_symbol ?g ?src esi)) [0..<sent plan g]"
    using sent_le [OF assms(1), of g] ok
    by (intro nth_equalityI) (auto simp: sources_ok_def nth_enumerate_eq code_symbol_def)
  have r: "enumerate (source_count ?g) (map (encode_row ?g ?src) [0..<repair_count ?g]) =
      map (\<lambda>esi. (esi, code_symbol ?g ?src esi)) [source_count ?g..<symbol_count ?g]"
    by (intro nth_equalityI) (auto simp: nth_enumerate_eq code_symbol_def symbol_count_def)
  show ?thesis
    using assms(2,3) by (simp add: encode_generation_def generation_span_holds sent_source_count_holds those enc s r sent_esis_def)
qed

section \<open>The sender's accounts\<close>

text \<open>The calls a session makes, with the replies as one type.\<close>

datatype sender_event =
  SndCredit fec_credit | SndOpen epoch_plan | SndBegin nat nat | SndState nat nat gen_report |
  SndDone nat nat fec_done | SndRefused nat | SndClose nat

fun sender_step :: "sender \<Rightarrow> sender_event \<Rightarrow> ((fec_error + bool) \<times> sender) option" where
  "sender_step s (SndCredit credit) = (case sender_credit credit s of (b, s') \<Rightarrow> Some (Inr b, s'))"
| "sender_step s (SndOpen plan) = (case sender_open plan s of (r, s') \<Rightarrow> Some (and_then r (\<lambda>u. Inr True), s'))"
| "sender_step s (SndBegin epoch g) = map_option (\<lambda>(r, s'). (and_then r (\<lambda>u. Inr True), s')) (sender_begin epoch g s)"
| "sender_step s (SndState epoch g report) = sender_state epoch g report s"
| "sender_step s (SndDone epoch g d) = sender_done epoch g d s"
| "sender_step s (SndRefused epoch) = map_option (\<lambda>(b, s'). (Inr b, s')) (sender_refused epoch s)"
| "sender_step s (SndClose epoch) = map_option (\<lambda>(b, s'). (Inr b, s')) (sender_close epoch s)"

definition credit_ok :: "fec_credit \<Rightarrow> bool" where
  "credit_ok c \<longleftrightarrow> max_unretired_bytes c \<le> u64_max \<and> max_active_generations c \<le> u64_max"

fun sender_event_ok :: "sender_event \<Rightarrow> bool" where
  "sender_event_ok (SndCredit credit) = credit_ok credit"
| "sender_event_ok (SndOpen plan) = plan_ok plan"
| "sender_event_ok _ = True"

definition epoch_live :: "sender_epoch \<Rightarrow> nat" where
  "epoch_live st = live_count (se_generations st)"

definition epoch_unretired :: "sender_epoch \<Rightarrow> nat" where
  "epoch_unretired st = live_count (se_generations st) * generation_bytes (se_plan st)"

definition sender_epoch_ok :: "nat option \<Rightarrow> nat \<Rightarrow> sender_epoch \<Rightarrow> bool" where
  "sender_epoch_ok highest epoch st \<longleftrightarrow> plan_ok (se_plan st) \<and> plan_epoch (se_plan st) = epoch \<and>
    om_ok (se_generations st) \<and> om_ok (se_sequences st) \<and>
    (\<forall>g. om_get (se_generations st) g \<noteq> None \<longrightarrow> plan_holds (se_plan st) g) \<and>
    is_some_and highest (\<lambda>used. epoch \<le> used)"

definition sender_inv :: "sender \<Rightarrow> bool" where
  "sender_inv s \<longleftrightarrow> om_ok (snd_epochs s) \<and> (\<forall>credit. snd_credit s = Some credit \<longrightarrow> credit_ok credit) \<and>
    (\<forall>epoch st. om_get (snd_epochs s) epoch = Some st \<longrightarrow> sender_epoch_ok (highest_epoch s) epoch st) \<and>
    snd_active s = om_sum epoch_live (snd_epochs s) \<and> snd_unretired s = om_sum epoch_unretired (snd_epochs s)"

lemma live_count_sum: "live_count m = om_sum (\<lambda>d. of_bool (d = None)) m"
  by (induction m) (auto simp: live_count_def)

lemma live_count_insert:
  "om_ok m \<Longrightarrow> om_get m g = None \<Longrightarrow> live_count (om_insert g None m) = Suc (live_count m)"
  "om_ok m \<Longrightarrow> om_get m g = Some None \<Longrightarrow> Suc (live_count (om_insert g (Some d) m)) = live_count m"
  using om_sum_insert_new [of m g "\<lambda>d. of_bool (d = None)" None] om_sum_insert_old [of m g None "\<lambda>d. of_bool (d = None)" "Some d"]
  by (simp_all add: live_count_sum)

lemma sender_inv_new: "sender_inv sender_new"
  by (simp add: sender_inv_def sender_new_def)

lemma sender_inv_update:
  assumes inv: "sender_inv s" and st: "om_get (snd_epochs s) epoch = Some st"
    and ok: "sender_epoch_ok (highest_epoch s) epoch st'"
    and act: "active + epoch_live st = snd_active s + epoch_live st'"
    and unr: "unretired + epoch_unretired st = snd_unretired s + epoch_unretired st'"
  shows "sender_inv (s\<lparr>snd_epochs := om_insert epoch st' (snd_epochs s), snd_active := active, snd_unretired := unretired\<rparr>)"
proof -
  have m: "om_ok (snd_epochs s)" using inv by (simp add: sender_inv_def)
  show ?thesis
    using inv ok act unr om_sum_insert_old [OF m st, of epoch_live st'] om_sum_insert_old [OF m st, of epoch_unretired st']
    by (auto simp: sender_inv_def om_ok_insert om_get_insert [OF m])
qed

lemma sender_state_inv: "sender_inv s \<Longrightarrow> \<exists>r s'. sender_state epoch g report s = Some (r, s') \<and> sender_inv s'"
proof (cases "om_get (snd_epochs s) epoch")
  case (Some st)
  assume inv: "sender_inv s"
  then have ok: "sender_epoch_ok (highest_epoch s) epoch st" using Some by (simp add: sender_inv_def)
  let ?st = "st\<lparr>se_sequences := om_insert g (rep_sequence report) (se_sequences st)\<rparr>"
  have "sender_epoch_ok (highest_epoch s) epoch ?st" using ok by (simp add: sender_epoch_ok_def om_ok_insert)
  then have "sender_inv (s\<lparr>snd_epochs := om_insert epoch ?st (snd_epochs s)\<rparr>)"
    using sender_inv_update [OF inv Some, of ?st "snd_active s" "snd_unretired s"] by (simp add: epoch_live_def epoch_unretired_def)
  then show ?thesis
    using Some inv by (auto simp: sender_state_def Let_def sent_source_count_holds)
qed (simp add: sender_state_def)

lemma sender_begin_inv:
  assumes inv: "sender_inv s"
  shows "\<exists>r s'. sender_begin epoch g s = Some (r, s') \<and> sender_inv s' \<and>
    (r = Inr () \<longrightarrow> (\<exists>credit. snd_credit s = Some credit \<and>
      snd_active s' \<le> max_active_generations credit \<and> snd_unretired s' \<le> max_unretired_bytes credit))  \<and>
    (r \<noteq> Inr () \<longrightarrow> s' = s)"
proof (cases "may_begin s epoch")
  case True
  obtain credit st where c: "snd_credit s = Some credit" "om_get (snd_epochs s) epoch = Some st"
      "snd_active s < max_active_generations credit"
      "checked_add (snd_unretired s) (generation_bytes (se_plan st)) = Some (snd_unretired s + generation_bytes (se_plan st))"
      "snd_unretired s + generation_bytes (se_plan st) \<le> max_unretired_bytes credit"
    using True by (auto simp: may_begin_def checked_add_def split: option.splits if_splits)
  have ok: "sender_epoch_ok (highest_epoch s) epoch st" and "credit_ok credit"
    using inv c(1,2) by (simp_all add: sender_inv_def)
  then have act: "checked_add (snd_active s) 1 = Some (Suc (snd_active s))"
    using c(3) by (simp add: credit_ok_def checked_add_def)
  let ?st = "st\<lparr>se_generations := om_insert g None (se_generations st)\<rparr>"
  show ?thesis
  proof (cases "plan_holds (se_plan st) g \<and> om_get (se_generations st) g = None")
    case fresh: True
    then have "live_count (om_insert g None (se_generations st)) = Suc (live_count (se_generations st))"
      using ok by (intro live_count_insert) (simp_all add: sender_epoch_ok_def)
    moreover have "sender_epoch_ok (highest_epoch s) epoch ?st"
      using ok fresh by (auto simp: sender_epoch_ok_def om_ok_insert om_get_insert)
    ultimately have "sender_inv (s\<lparr>snd_epochs := om_insert epoch ?st (snd_epochs s), snd_active := Suc (snd_active s),
        snd_unretired := snd_unretired s + generation_bytes (se_plan st)\<rparr>)"
      by (intro sender_inv_update [OF inv c(2)]) (simp_all add: epoch_live_def epoch_unretired_def)
    then show ?thesis using True fresh c act by (simp add: sender_begin_def checked_add_def)
  qed (use True c inv in \<open>auto simp: sender_begin_def\<close>)
qed (use inv in \<open>simp add: sender_begin_def\<close>)

lemma sender_done_inv:
  assumes inv: "sender_inv s"
  shows "\<exists>r s'. sender_done epoch g d s = Some (r, s') \<and> sender_inv s' \<and> snd_active s' \<le> snd_active s \<and> snd_unretired s' \<le> snd_unretired s"
proof (cases "om_get (snd_epochs s) epoch")
  case (Some st)
  have m: "om_ok (snd_epochs s)" and ok: "sender_epoch_ok (highest_epoch s) epoch st"
    using inv Some by (simp_all add: sender_inv_def)
  let ?st = "st\<lparr>se_generations := om_insert g (Some d) (se_generations st)\<rparr>"
  show ?thesis
  proof (cases "plan_holds (se_plan st) g \<and> om_get (se_generations st) g = Some None")
    case live: True
    then have n: "Suc (live_count (om_insert g (Some d) (se_generations st))) = live_count (se_generations st)"
      using ok by (intro live_count_insert) (simp_all add: sender_epoch_ok_def)
    have "epoch_live st \<le> snd_active s" "epoch_unretired st \<le> snd_unretired s"
      using inv om_sum_ge [OF Some, of epoch_live] om_sum_ge [OF Some, of epoch_unretired] by (simp_all add: sender_inv_def)
    then have ge: "1 \<le> snd_active s" "generation_bytes (se_plan st) \<le> snd_unretired s"
      by (auto simp: epoch_live_def epoch_unretired_def simp flip: n)
    have "sender_epoch_ok (highest_epoch s) epoch ?st"
      using ok live by (auto simp: sender_epoch_ok_def om_ok_insert om_get_insert)
    then have "sender_inv (s\<lparr>snd_epochs := om_insert epoch ?st (snd_epochs s), snd_active := snd_active s - 1,
        snd_unretired := snd_unretired s - generation_bytes (se_plan st)\<rparr>)"
      using ge by (intro sender_inv_update [OF inv Some]) (simp_all add: epoch_live_def epoch_unretired_def flip: n)
    then show ?thesis using Some live ge by (simp add: sender_done_def checked_sub_def)
  qed (use Some inv in \<open>auto simp: sender_done_def split: option.split\<close>)
qed (use inv in \<open>simp add: sender_done_def\<close>)

lemma sender_close_inv:
  assumes inv: "sender_inv s"
  shows "\<exists>b s'. sender_close epoch s = Some (b, s') \<and> sender_inv s' \<and> snd_active s' \<le> snd_active s \<and> snd_unretired s' \<le> snd_unretired s"
proof (cases "om_get (snd_epochs s) epoch")
  case (Some st)
  have m: "om_ok (snd_epochs s)" using inv by (simp add: sender_inv_def)
  have sums: "om_sum epoch_live (om_remove epoch (snd_epochs s)) + live_count (se_generations st) = snd_active s"
    "om_sum epoch_unretired (om_remove epoch (snd_epochs s)) + live_count (se_generations st) * generation_bytes (se_plan st) = snd_unretired s"
    using inv om_sum_remove [OF m Some, of epoch_live] om_sum_remove [OF m Some, of epoch_unretired]
    by (simp_all add: sender_inv_def epoch_live_def epoch_unretired_def)
  have "sender_inv (s\<lparr>snd_epochs := om_remove epoch (snd_epochs s), snd_active := snd_active s - live_count (se_generations st),
      snd_unretired := snd_unretired s - live_count (se_generations st) * generation_bytes (se_plan st)\<rparr>)"
  proof -
    have "om_sum epoch_live (om_remove epoch (snd_epochs s)) = snd_active s - live_count (se_generations st)"
      "om_sum epoch_unretired (om_remove epoch (snd_epochs s)) =
        snd_unretired s - live_count (se_generations st) * generation_bytes (se_plan st)"
      using sums by linarith+
    with inv show ?thesis by (simp add: sender_inv_def om_ok_remove om_get_remove)
  qed
  moreover have "live_count (se_generations st) \<le> snd_active s"
    "live_count (se_generations st) * generation_bytes (se_plan st) \<le> snd_unretired s"
    using sums by simp_all
  ultimately show ?thesis using Some by (auto simp: sender_close_def Let_def checked_sub_def)
qed (use inv in \<open>auto simp: sender_close_def\<close>)

lemma sender_open_inv:
  assumes inv: "sender_inv s" and plan: "plan_ok plan"
  shows "sender_inv (snd (sender_open plan s))"
proof (cases "is_some_and (highest_epoch s) (\<lambda>used. plan_epoch plan \<le> used) \<or> \<not> may_open s")
  case False
  have m: "om_ok (snd_epochs s)" using inv by (simp add: sender_inv_def)
  have above: "epoch < plan_epoch plan \<and> sender_epoch_ok (Some (plan_epoch plan)) epoch st"
    if "om_get (snd_epochs s) epoch = Some st" for epoch st
  proof -
    have "sender_epoch_ok (highest_epoch s) epoch st" using that inv by (simp add: sender_inv_def)
    then show ?thesis using False by (cases "highest_epoch s") (auto simp: sender_epoch_ok_def)
  qed
  then have new: "om_get (snd_epochs s) (plan_epoch plan) = None"
    by (cases "om_get (snd_epochs s) (plan_epoch plan)") auto
  let ?st = "\<lparr>se_plan = plan, se_generations = [], se_sequences = []\<rparr>"
  have zero: "epoch_live ?st = 0" "epoch_unretired ?st = 0"
    by (simp_all add: epoch_live_def epoch_unretired_def live_count_def)
  have ok: "sender_epoch_ok (Some (plan_epoch plan)) (plan_epoch plan) ?st" using plan by (simp add: sender_epoch_ok_def)
  have "sender_open plan s = (Inr (), s\<lparr>highest_epoch := Some (plan_epoch plan), snd_epochs := om_insert (plan_epoch plan) ?st (snd_epochs s)\<rparr>)"
    using False by (simp add: sender_open_def)
  then show ?thesis
    using inv ok above om_sum_insert_new [OF m new, of _ ?st]
    by (simp add: sender_inv_def om_ok_insert om_get_insert [OF m] zero)
qed (use inv in \<open>simp add: sender_open_def\<close>)

lemma sender_step_ok:
  assumes inv: "sender_inv s" and ev: "sender_event_ok e"
  shows "\<exists>r s'. sender_step s e = Some (r, s') \<and> sender_inv s'"
proof (cases e)
  case (SndCredit credit)
  have "sender_inv (s\<lparr>snd_credit := Some credit\<rparr>)" using inv ev SndCredit by (simp add: sender_inv_def)
  then show ?thesis using SndCredit inv by (simp add: sender_credit_def)
next
  case (SndOpen plan)
  obtain r s' where r: "sender_open plan s = (r, s')" by (cases "sender_open plan s")
  then show ?thesis using sender_open_inv [OF inv, of plan] ev SndOpen by simp
next
  case (SndBegin epoch g)
  obtain r s' where "sender_begin epoch g s = Some (r, s')" "sender_inv s'" using sender_begin_inv [OF inv] by blast
  then show ?thesis using SndBegin by simp
next
  case (SndState epoch g report)
  then show ?thesis using sender_state_inv [OF inv] by simp
next
  case (SndDone epoch g d)
  obtain r s' where "sender_done epoch g d s = Some (r, s')" "sender_inv s'" using sender_done_inv [OF inv] by blast
  then show ?thesis using SndDone by simp
next
  case (SndRefused epoch)
  obtain r s' where "sender_close epoch s = Some (r, s')" "sender_inv s'" using sender_close_inv [OF inv] by blast
  then show ?thesis using SndRefused by (simp add: sender_refused_def)
next
  case (SndClose epoch)
  obtain r s' where "sender_close epoch s = Some (r, s')" "sender_inv s'" using sender_close_inv [OF inv] by blast
  then show ?thesis using SndClose by simp
qed

interpretation snd: replying_machine sender_step sender_inv "\<lambda>s. sender_event_ok" "\<lambda>e r. True"
proof (unfold_locales, goal_cases)
  case (1 s e)
  from sender_step_ok [OF this] show ?case by blast
qed

lemma run_valid_static: "run_valid step (\<lambda>s. valid) s es" if "\<forall>e \<in> set es. valid e"
  using that by (induction es arbitrary: s) (auto split: option.split)

text \<open>Only \<^const>\<open>sender_begin\<close> raises a counter, and it stays within the credit in force.\<close>

lemma sender_step_credit:
  assumes inv: "sender_inv s" and step: "sender_step s e = Some (r, s')"
    and up: "snd_active s < snd_active s' \<or> snd_unretired s < snd_unretired s'"
  shows "\<exists>credit. snd_credit s = Some credit \<and> snd_active s' \<le> max_active_generations credit \<and>
    snd_unretired s' \<le> max_unretired_bytes credit"
proof (cases e)
  case (SndCredit credit)
  then show ?thesis using step up by (auto simp: sender_credit_def split: if_splits)
next
  case (SndOpen plan)
  then show ?thesis using step up by (auto simp: sender_open_def split: if_splits)
next
  case (SndBegin epoch g)
  obtain q t where "sender_begin epoch g s = Some (q, t)" "q \<noteq> Inr () \<longrightarrow> t = s" "q = Inr () \<longrightarrow>
      (\<exists>credit. snd_credit s = Some credit \<and> snd_active t \<le> max_active_generations credit \<and> snd_unretired t \<le> max_unretired_bytes credit)"
    using sender_begin_inv [OF inv] by blast
  then show ?thesis using step up SndBegin by (cases "q = Inr ()") auto
next
  case (SndState epoch g report)
  then show ?thesis
    using step up by (simp add: sender_state_def Let_def bind_eq_Some_conv split: option.splits if_splits) auto
next
  case (SndDone epoch g d)
  obtain q t where "sender_done epoch g d s = Some (q, t)" "snd_active t \<le> snd_active s" "snd_unretired t \<le> snd_unretired s"
    using sender_done_inv [OF inv] by blast
  then show ?thesis using step up SndDone by simp
next
  case (SndRefused epoch)
  obtain q t where "sender_close epoch s = Some (q, t)" "snd_active t \<le> snd_active s" "snd_unretired t \<le> snd_unretired s"
    using sender_close_inv [OF inv] by blast
  then show ?thesis using step up SndRefused by (simp add: sender_refused_def)
next
  case (SndClose epoch)
  obtain q t where "sender_close epoch s = Some (q, t)" "snd_active t \<le> snd_active s" "snd_unretired t \<le> snd_unretired s"
    using sender_close_inv [OF inv] by blast
  then show ?thesis using step up SndClose by simp
qed

section \<open>Properties\<close>

text \<open>C35. The sender's accounts are exact and within credit. No sequence of calls makes the sender
  panic: after it, the active generations and unretired bytes are those of the generations begun and
  not retired, so no retirement underflows; and whatever call comes next, if it raises either counter,
  both end within the caps of the credit in force.\<close>

theorem sender_within_credit:
  assumes "\<forall>e \<in> set es. sender_event_ok e"
  shows "\<exists>rs s. run_replies sender_step sender_new es = Some (rs, s) \<and>
    snd_active s = (\<Sum>(epoch, st) \<leftarrow> snd_epochs s. live_count (se_generations st)) \<and>
    snd_unretired s = (\<Sum>(epoch, st) \<leftarrow> snd_epochs s. live_count (se_generations st) * generation_bytes (se_plan st)) \<and>
    (\<forall>e r s'. sender_step s e = Some (r, s') \<and> (snd_active s < snd_active s' \<or> snd_unretired s < snd_unretired s') \<longrightarrow>
      (\<exists>credit. snd_credit s = Some credit \<and> snd_active s' \<le> max_active_generations credit \<and>
        snd_unretired s' \<le> max_unretired_bytes credit))"
proof -
  obtain rs s where s: "run_replies sender_step sender_new es = Some (rs, s)" "sender_inv s"
    using snd.run_ok [OF sender_inv_new run_valid_static [of es sender_event_ok], OF assms] by blast
  then have "snd_active s = om_sum epoch_live (snd_epochs s)" "snd_unretired s = om_sum epoch_unretired (snd_epochs s)"
    by (simp_all add: sender_inv_def)
  then show ?thesis
    using s sender_step_credit [OF s(2)] unfolding om_sum_def epoch_live_def epoch_unretired_def by blast
qed

theorem sender_within_credit_witness:
  "\<exists>rs s. run_replies sender_step sender_new
      [SndCredit \<lparr>credit_epoch = 1, max_unretired_bytes = 2, max_active_generations = 1, max_decode_work = 0, max_open_epochs = 1\<rparr>,
       SndOpen \<lparr>plan_epoch = 0, plan_offset = 0, plan_length = 4, plan_geometry = example_geometry\<rparr>,
       SndBegin 0 0, SndBegin 0 1, SndDone 0 0 DoneDecoded, SndBegin 0 1, SndClose 0] = Some (rs, s) \<and>
    snd_active s = (\<Sum>(epoch, st) \<leftarrow> snd_epochs s. live_count (se_generations st)) \<and>
    snd_unretired s = (\<Sum>(epoch, st) \<leftarrow> snd_epochs s. live_count (se_generations st) * generation_bytes (se_plan st)) \<and>
    (\<forall>e r s'. sender_step s e = Some (r, s') \<and> (snd_active s < snd_active s' \<or> snd_unretired s < snd_unretired s') \<longrightarrow>
      (\<exists>credit. snd_credit s = Some credit \<and> snd_active s' \<le> max_active_generations credit \<and>
        snd_unretired s' \<le> max_unretired_bytes credit))"
  by (rule sender_within_credit)
    (simp add: credit_ok_def plan_ok_def geometry_ok_def generation_count_def generation_bytes_def div_ceil_def example_geometry_def
      MAX_SOURCE_SYMBOLS_def MAX_REPAIR_SYMBOLS_def MAX_SYMBOL_LENGTH_def u64_max_def u32_max_def)

end
