(* ===== verification/Fec_Receiver.thy ===== *)
theory Fec_Receiver
  imports Fec_Sender
begin

text \<open>
  The receiving end of datagram FEC (\<^verbatim>\<open>crates/vot-fec/src/receiver.rs\<close>): credit, the epoch table,
  generation assembly and decoding.  As in \<^verbatim>\<open>Fec_Sender\<close>, an operation that could panic returns an
  option.  The report sequence, the one counter no check bounds, wraps as a release build does.
\<close>

unbundle bit_operations_syntax

datatype open_result = Opened | Repeated | OpenRefused

datatype drop_reason =
  NoCredit | UnknownEpoch | WrongLength | EsiOutOfRange | GenerationPastEpoch | ZeroSource |
  DuplicateSymbol | GenerationDone | PastCredit

record decoded =
  dec_generation :: nat
  dec_offset :: nat
  dec_bytes :: bytes

datatype symbol_result =
  Stored bool | Decoded decoded | Abandoned nat gen_report | Dropped drop_reason

definition MAX_TRACKED_GENERATIONS :: nat where "MAX_TRACKED_GENERATIONS = 1048576"

record generation =
  gen_sources :: bytes
  gen_repairs :: "(nat \<times> bytes) list"
  gen_seen :: "128 word"
  gen_received :: nat
  gen_sequence :: nat

definition gen_has :: "generation \<Rightarrow> nat \<Rightarrow> bool" where
  "gen_has slot esi \<longleftrightarrow> gen_seen slot AND push_bit esi 1 \<noteq> 0"

definition report_of :: "epoch_plan \<Rightarrow> nat \<Rightarrow> generation \<Rightarrow> (gen_report \<times> generation) option" where
  "report_of plan generation slot =
    (let slot = slot\<lparr>gen_sequence := wrapping_add (gen_sequence slot) 1\<rparr> in
     sent_source_count plan generation \<bind> (\<lambda>sent_count.
     if 256 \<le> gen_received slot then None
     else Some (\<lparr>rep_sequence = gen_sequence slot, rep_received = gen_received slot,
       rep_missing = filter (\<lambda>j. \<not> gen_has slot j) [0..<sent_count]\<rparr>, slot)))"

record receiver_epoch =
  re_plan :: epoch_plan
  re_live :: "(nat, generation) omap"
  re_done :: "64 word list"

definition is_done :: "receiver_epoch \<Rightarrow> nat \<Rightarrow> bool option" where
  "is_done st generation =
    (if generation div 64 < length (re_done st)
     then Some (re_done st ! (generation div 64) AND push_bit (generation mod 64) 1 \<noteq> 0)
     else None)"

definition mark_done :: "receiver_epoch \<Rightarrow> nat \<Rightarrow> receiver_epoch option" where
  "mark_done st generation =
    (if generation div 64 < length (re_done st)
     then Some (st\<lparr>re_done := (re_done st)[generation div 64 :=
       re_done st ! (generation div 64) OR push_bit (generation mod 64) 1]\<rparr>)
     else None)"

record counters =
  cnt_active :: nat
  cnt_unretired :: nat

definition counters_admit :: "fec_credit \<Rightarrow> nat \<Rightarrow> counters \<Rightarrow> bool \<times> counters" where
  "counters_admit credit amount c =
    (if max_active_generations credit \<le> cnt_active c \<or>
        \<not> is_some_and (checked_add (cnt_unretired c) amount) (\<lambda>sum. sum \<le> max_unretired_bytes credit)
     then (False, c)
     else (True, c\<lparr>cnt_active := cnt_active c + 1, cnt_unretired := cnt_unretired c + amount\<rparr>))"

definition retire :: "nat \<Rightarrow> counters \<Rightarrow> counters option" where
  "retire amount c =
    checked_sub (cnt_active c) 1 \<bind> (\<lambda>active.
    checked_sub (cnt_unretired c) amount \<bind> (\<lambda>unretired.
    Some (c\<lparr>cnt_active := active, cnt_unretired := unretired\<rparr>)))"

record receiver =
  rcv_credit :: "fec_credit option"
  decode_work_spent :: nat
  rcv_epochs :: "(nat, receiver_epoch) omap"
  rcv_counters :: counters

text \<open>The drops a symbol's header and length decide on their own.\<close>

definition fec_admit :: "epoch_plan \<Rightarrow> nat \<Rightarrow> nat \<Rightarrow> bytes \<Rightarrow> (drop_reason + nat) option" where
  "fec_admit plan generation esi bs =
    (let geometry = plan_geometry plan in
     if length bs \<noteq> symbol_length geometry then Some (Inl WrongLength)
     else if symbol_count geometry \<le> esi then Some (Inl EsiOutOfRange)
     else if \<not> plan_holds plan generation then Some (Inl GenerationPastEpoch)
     else
       sent_source_count plan generation \<bind> (\<lambda>sent_sources.
       Some (if esi < source_count geometry \<and> sent_sources \<le> esi then Inl ZeroSource
             else Inr sent_sources)))"

definition has_sources :: "generation \<Rightarrow> nat \<Rightarrow> bool" where
  "has_sources slot sent_sources = list_all (gen_has slot) [0..<sent_sources]"

text \<open>\<open>sources[start..start + l].copy_from_slice(symbol)\<close>, with the panics of the range and of the
  lengths.\<close>

definition write_symbol :: "geometry \<Rightarrow> bytes \<Rightarrow> nat \<Rightarrow> bytes \<Rightarrow> bytes option" where
  "write_symbol geometry sources esi symbol =
    (let start = esi * symbol_length geometry in
     if start + symbol_length geometry \<le> length sources \<and> length symbol = symbol_length geometry
     then Some (take start sources @ symbol @ drop (start + symbol_length geometry) sources)
     else None)"

fun write_symbols :: "geometry \<Rightarrow> (nat \<times> bytes) list \<Rightarrow> bytes \<Rightarrow> bytes option" where
  "write_symbols geometry [] sources = Some sources"
| "write_symbols geometry ((esi, symbol) # rest) sources =
    write_symbol geometry sources esi symbol \<bind> write_symbols geometry rest"

fun held_sources :: "geometry \<Rightarrow> generation \<Rightarrow> nat list \<Rightarrow> (nat \<times> bytes) list option" where
  "held_sources geometry slot [] = Some []"
| "held_sources geometry slot (esi # rest) =
    (if gen_has slot esi
     then slice_get (gen_sources slot) (esi * symbol_length geometry)
            (esi * symbol_length geometry + symbol_length geometry) \<bind> (\<lambda>symbol.
          map_option ((#) (esi, symbol)) (held_sources geometry slot rest))
     else held_sources geometry slot rest)"

definition eliminate :: "epoch_plan \<Rightarrow> generation \<Rightarrow> nat \<Rightarrow> generation option" where
  "eliminate plan slot sent_sources =
    (let geometry = plan_geometry plan;
         zero = replicate (symbol_length geometry) 0 in
     held_sources geometry slot [0..<sent_sources] \<bind> (\<lambda>held.
     case recover_missing geometry
         (held @ gen_repairs slot @ map (\<lambda>esi. (esi, zero)) [sent_sources..<source_count geometry]) of
       Some (Inr recovered) \<Rightarrow>
         write_symbols geometry recovered (gen_sources slot) \<bind> (\<lambda>sources.
         Some (slot\<lparr>gen_sources := sources\<rparr>))
     | Some (Inl e) \<Rightarrow> None
     | None \<Rightarrow> None))"

definition assemble :: "epoch_plan \<Rightarrow> nat \<Rightarrow> bytes \<Rightarrow> decoded option" where
  "assemble plan generation sources =
    generation_span plan generation \<bind> (\<lambda>(offset, len).
    Some \<lparr>dec_generation = generation, dec_offset = offset, dec_bytes = take len sources\<rparr>)"

section \<open>The receiver's operations\<close>

definition receiver_new :: receiver where
  "receiver_new = \<lparr>rcv_credit = None, decode_work_spent = 0, rcv_epochs = [],
    rcv_counters = \<lparr>cnt_active = 0, cnt_unretired = 0\<rparr>\<rparr>"

definition receiver_credit :: "fec_credit \<Rightarrow> receiver \<Rightarrow> bool \<times> receiver" where
  "receiver_credit credit r =
    (if is_some_and (rcv_credit r) (\<lambda>held. credit_epoch credit \<le> credit_epoch held) then (False, r)
     else (True, r\<lparr>rcv_credit := Some credit, decode_work_spent := 0\<rparr>))"

definition receiver_open :: "epoch_plan \<Rightarrow> receiver \<Rightarrow> (fec_error + open_result) \<times> receiver" where
  "receiver_open plan r =
    (case om_get (rcv_epochs r) (plan_epoch plan) of
       Some known \<Rightarrow> (if re_plan known = plan then Inr Repeated else Inl InvalidGeometry, r)
     | None \<Rightarrow>
         (case rcv_credit r of
            None \<Rightarrow> (Inr OpenRefused, r)
          | Some credit \<Rightarrow>
              if max_open_epochs credit \<le> length (rcv_epochs r) \<or>
                 MAX_TRACKED_GENERATIONS < generation_count plan
              then (Inr OpenRefused, r)
              else (Inr Opened, r\<lparr>rcv_epochs := om_insert (plan_epoch plan)
                \<lparr>re_plan = plan, re_live = [], re_done = replicate (div_ceil (generation_count plan) 64) 0\<rparr>
                (rcv_epochs r)\<rparr>)))"

text \<open>The first symbol of a generation charges the counters and opens its slot.\<close>

definition new_slot :: "geometry \<Rightarrow> nat \<Rightarrow> generation" where
  "new_slot geometry sent_sources =
    \<lparr>gen_sources = replicate (source_count geometry * symbol_length geometry) 0, gen_repairs = [],
     gen_seen = 0, gen_received = source_count geometry - sent_sources, gen_sequence = 0\<rparr>"

definition slot_for ::
  "fec_credit \<Rightarrow> epoch_plan \<Rightarrow> nat \<Rightarrow> nat \<Rightarrow> nat \<Rightarrow> receiver_epoch \<Rightarrow> counters \<Rightarrow>
   drop_reason + bool \<times> generation \<times> counters" where
  "slot_for credit plan generation esi sent_sources st c =
    (case om_get (re_live st) generation of
       Some existing \<Rightarrow> if gen_has existing esi then Inl DuplicateSymbol else Inr (False, existing, c)
     | None \<Rightarrow>
         (case counters_admit credit (generation_bytes plan) c of
            (False, c) \<Rightarrow> Inl PastCredit
          | (True, c) \<Rightarrow> Inr (True, new_slot (plan_geometry plan) sent_sources, c)))"

definition store_symbol :: "geometry \<Rightarrow> nat \<Rightarrow> bytes \<Rightarrow> generation \<Rightarrow> generation option" where
  "store_symbol geometry esi bs slot =
    (if esi < source_count geometry
     then map_option (\<lambda>sources. slot\<lparr>gen_sources := sources\<rparr>) (write_symbol geometry (gen_sources slot) esi bs)
     else Some (slot\<lparr>gen_repairs := gen_repairs slot @ [(esi, bs)]\<rparr>)) \<bind> (\<lambda>slot.
     Some (slot\<lparr>gen_seen := gen_seen slot OR push_bit esi 1, gen_received := gen_received slot + 1\<rparr>))"

text \<open>The generation leaves the table, its done bit is set and its charge returned.\<close>

definition retire_generation ::
  "nat \<Rightarrow> nat \<Rightarrow> receiver_epoch \<Rightarrow> counters \<Rightarrow> receiver \<Rightarrow> receiver option" where
  "retire_generation epoch generation st c r =
    mark_done (st\<lparr>re_live := om_remove generation (re_live st)\<rparr>) generation \<bind> (\<lambda>st.
    retire (generation_bytes (re_plan st)) c \<bind> (\<lambda>c.
    Some (r\<lparr>rcv_epochs := om_insert epoch st (rcv_epochs r), rcv_counters := c\<rparr>)))"

text \<open>The generation is complete: abandon it when elimination is past the decode budget, decode it
  otherwise.\<close>

definition complete_generation ::
  "fec_credit \<Rightarrow> nat \<Rightarrow> nat \<Rightarrow> nat \<Rightarrow> generation \<Rightarrow> receiver_epoch \<Rightarrow> counters \<Rightarrow> receiver \<Rightarrow>
   (symbol_result \<times> receiver) option" where
  "complete_generation credit epoch generation sent_sources slot st c r =
    (let plan = re_plan st;
         needs_elimination = \<not> has_sources slot sent_sources;
         work = generation_bytes plan in
     if needs_elimination \<and>
        \<not> is_some_and (checked_add (decode_work_spent r) work) (\<lambda>spent. spent \<le> max_decode_work credit)
     then
       report_of plan generation slot \<bind> (\<lambda>(report, slot).
       retire_generation epoch generation st c r \<bind> (\<lambda>r.
       Some (Abandoned generation report, r)))
     else
       let r = (if needs_elimination then r\<lparr>decode_work_spent := decode_work_spent r + work\<rparr> else r) in
       (if needs_elimination then eliminate plan slot sent_sources else Some slot) \<bind> (\<lambda>slot.
       retire_generation epoch generation st c r \<bind> (\<lambda>r.
       assemble plan generation (gen_sources slot) \<bind> (\<lambda>d.
       Some (Decoded d, r)))))"

definition receiver_symbol ::
  "nat \<Rightarrow> nat \<Rightarrow> nat \<Rightarrow> bytes \<Rightarrow> receiver \<Rightarrow> (symbol_result \<times> receiver) option" where
  "receiver_symbol epoch generation esi bs r =
    (case rcv_credit r of
       None \<Rightarrow> Some (Dropped NoCredit, r)
     | Some credit \<Rightarrow>
         (case om_get (rcv_epochs r) epoch of
            None \<Rightarrow> Some (Dropped UnknownEpoch, r)
          | Some st \<Rightarrow>
              let plan = re_plan st; geometry = plan_geometry plan in
              fec_admit plan generation esi bs \<bind> (\<lambda>admitted.
              case admitted of
                Inl reason \<Rightarrow> Some (Dropped reason, r)
              | Inr sent_sources \<Rightarrow>
                  is_done st generation \<bind> (\<lambda>finished.
                  if finished then Some (Dropped GenerationDone, r)
                  else
                    (case slot_for credit plan generation esi sent_sources st (rcv_counters r) of
                       Inl reason \<Rightarrow> Some (Dropped reason, r)
                     | Inr (first, slot, c) \<Rightarrow>
                         store_symbol geometry esi bs slot \<bind> (\<lambda>slot.
                         let st = st\<lparr>re_live := om_insert generation slot (re_live st)\<rparr> in
                         if gen_received slot < source_count geometry
                         then Some (Stored first,
                           r\<lparr>rcv_epochs := om_insert epoch st (rcv_epochs r), rcv_counters := c\<rparr>)
                         else complete_generation credit epoch generation sent_sources slot st c r))))))"

definition receiver_report :: "nat \<Rightarrow> nat \<Rightarrow> receiver \<Rightarrow> (gen_report option \<times> receiver) option" where
  "receiver_report epoch generation r =
    (case om_get (rcv_epochs r) epoch of
       None \<Rightarrow> Some (None, r)
     | Some st \<Rightarrow>
         (case om_get (re_live st) generation of
            None \<Rightarrow> Some (None, r)
          | Some slot \<Rightarrow>
              report_of (re_plan st) generation slot \<bind> (\<lambda>(report, slot).
              Some (Some report, r\<lparr>rcv_epochs := om_insert epoch
                (st\<lparr>re_live := om_insert generation slot (re_live st)\<rparr>) (rcv_epochs r)\<rparr>))))"

definition receiver_abandon :: "nat \<Rightarrow> nat \<Rightarrow> receiver \<Rightarrow> (bool \<times> receiver) option" where
  "receiver_abandon epoch generation r =
    (case om_get (rcv_epochs r) epoch of
       None \<Rightarrow> Some (False, r)
     | Some st \<Rightarrow>
         if om_get (re_live st) generation = None then Some (False, r)
         else
           retire_generation epoch generation st (rcv_counters r) r \<bind> (\<lambda>r.
           Some (True, r)))"

fun retire_times :: "nat \<Rightarrow> nat \<Rightarrow> counters \<Rightarrow> counters option" where
  "retire_times 0 amount c = Some c"
| "retire_times (Suc n) amount c = retire amount c \<bind> retire_times n amount"

definition receiver_close :: "nat \<Rightarrow> receiver \<Rightarrow> (bool \<times> receiver) option" where
  "receiver_close epoch r =
    (case om_get (rcv_epochs r) epoch of
       None \<Rightarrow> Some (False, r)
     | Some st \<Rightarrow>
         retire_times (length (re_live st)) (generation_bytes (re_plan st)) (rcv_counters r) \<bind> (\<lambda>c.
         Some (True, r\<lparr>rcv_epochs := om_remove epoch (rcv_epochs r), rcv_counters := c\<rparr>)))"

section \<open>Symbol-sized pieces of a buffer\<close>

definition chunk :: "nat \<Rightarrow> bytes \<Rightarrow> nat \<Rightarrow> bytes" where
  "chunk l xs j = take l (drop (j * l) xs)"

lemma chunk_bound: "j < k \<Longrightarrow> j * l + l \<le> k * (l :: nat)"
  using mult_le_mono1 [of "Suc j" k l] by simp

lemma length_chunk: "length xs = k * l \<Longrightarrow> j < k \<Longrightarrow> length (chunk l xs j) = l"
  using chunk_bound [of j k l] by (simp add: chunk_def)

lemma chunk_nth: "length xs = k * l \<Longrightarrow> j < k \<Longrightarrow> t < l \<Longrightarrow> chunk l xs j ! t = xs ! (j * l + t)"
  using chunk_bound [of j k l] by (simp add: chunk_def)

lemma concat_chunk: "length xs = k * l \<Longrightarrow> concat (map (chunk l xs) [0..<k]) = xs"
  unfolding chunk_def [abs_def] by (rule concat_chunks)

lemma nth_splice:
  "a + l \<le> length xs \<Longrightarrow> length s = l \<Longrightarrow>
    (take a xs @ s @ drop (a + l) xs) ! i = (if a \<le> i \<and> i < a + l then s ! (i - a) else xs ! i)"
  by (auto simp: nth_append)

lemma write_symbol_chunk:
  assumes len: "length xs = source_count g * symbol_length g" and esi: "esi < source_count g" and s: "length s = symbol_length g"
  shows "\<exists>ys. write_symbol g xs esi s = Some ys \<and> length ys = source_count g * symbol_length g \<and>
    (\<forall>j < source_count g. chunk (symbol_length g) ys j = (if j = esi then s else chunk (symbol_length g) xs j))"
proof -
  let ?l = "symbol_length g" and ?k = "source_count g"
  let ?ys = "take (esi * ?l) xs @ s @ drop (esi * ?l + ?l) xs"
  have b: "esi * ?l + ?l \<le> length xs" using chunk_bound [OF esi] len by simp
  then have l: "length ?ys = ?k * ?l" using s len by simp
  have "chunk ?l ?ys j = (if j = esi then s else chunk ?l xs j)" if j: "j < ?k" for j
  proof (rule nth_equalityI)
    show len_eq: "length (chunk ?l ?ys j) = length (if j = esi then s else chunk ?l xs j)"
      using length_chunk [OF l j] length_chunk [OF len j] s by simp
    fix t assume "t < length (chunk ?l ?ys j)"
    then have t: "t < ?l" using length_chunk [OF l j] by simp
    have "?ys ! (j * ?l + t) = (if j = esi then s ! t else xs ! (j * ?l + t))"
    proof (cases j esi rule: linorder_cases)
      case less
      then show ?thesis using chunk_bound [OF less, of ?l] t by (simp add: nth_splice [OF b s])
    next
      case equal
      then show ?thesis using t by (simp add: nth_splice [OF b s])
    next
      case greater
      then show ?thesis using chunk_bound [OF greater, of ?l] by (simp add: nth_splice [OF b s])
    qed
    then show "chunk ?l ?ys j ! t = (if j = esi then s else chunk ?l xs j) ! t"
      by (simp only: chunk_nth [OF l j t] chunk_nth [OF len j t] split: if_split) simp
  qed
  then show ?thesis using b l s by (simp add: write_symbol_def Let_def)
qed

lemma write_symbols_chunk:
  "\<lbrakk>length xs = source_count g * symbol_length g; distinct (map fst ss);
    \<forall>(esi, s) \<in> set ss. esi < source_count g \<and> length s = symbol_length g\<rbrakk> \<Longrightarrow>
   \<exists>ys. write_symbols g ss xs = Some ys \<and> length ys = source_count g * symbol_length g \<and>
    (\<forall>j < source_count g. chunk (symbol_length g) ys j = (case map_of ss j of Some s \<Rightarrow> s | None \<Rightarrow> chunk (symbol_length g) xs j))"
proof (induction ss arbitrary: xs)
  case (Cons es ss)
  obtain esi s where es: "es = (esi, s)" by (cases es)
  obtain ys where ys: "write_symbol g xs esi s = Some ys" "length ys = source_count g * symbol_length g"
    "\<forall>j < source_count g. chunk (symbol_length g) ys j = (if j = esi then s else chunk (symbol_length g) xs j)"
    using write_symbol_chunk [OF Cons.prems(1)] Cons.prems(3) by (fastforce simp: es)
  have "map_of ss esi = None" using Cons.prems(2) by (simp add: es map_of_eq_None_iff)
  with Cons.IH [OF ys(2)] Cons.prems(2,3) ys(1,3) show ?case by (fastforce simp: es split: option.split)
qed simp

lemma held_sources_eq:
  "length (gen_sources slot) = source_count g * symbol_length g \<Longrightarrow> \<forall>esi \<in> set esis. esi < source_count g \<Longrightarrow>
   held_sources g slot esis = Some (map (\<lambda>esi. (esi, chunk (symbol_length g) (gen_sources slot) esi)) (filter (gen_has slot) esis))"
proof (induction esis)
  case (Cons esi esis)
  then show ?case using chunk_bound [of esi "source_count g" "symbol_length g"] by (simp add: slice_get_def chunk_def)
qed simp

section \<open>Bit sets\<close>

lemma gen_has_iff: "gen_has slot esi \<longleftrightarrow> bit (gen_seen slot) esi"
proof -
  have "(w AND push_bit n 1 \<noteq> 0) = bit w n" for w :: "128 word" and n
    by (simp add: and_exp_eq_0_iff_not_bit push_bit_eq_mult)
  then show ?thesis by (simp add: gen_has_def)
qed

lemma bit_or_exp: "bit (w OR 2 ^ n) m \<longleftrightarrow> bit w m \<or> (m = n \<and> n < LENGTH('a))" for w :: "'a :: len word"
  by (auto simp: bit_simps)

lemma is_done_iff: "g div 64 < length (re_done st) \<Longrightarrow> is_done st g = Some (bit (re_done st ! (g div 64)) (g mod 64))"
proof -
  have "(w AND push_bit n 1 \<noteq> 0) = bit w n" for w :: "64 word" and n
    by (simp add: and_exp_eq_0_iff_not_bit push_bit_eq_mult)
  then show "g div 64 < length (re_done st) \<Longrightarrow> ?thesis" by (simp add: is_done_def)
qed

text \<open>The generations an epoch has retired.\<close>

definition done_set :: "receiver_epoch \<Rightarrow> nat set" where
  "done_set st = {g. is_done st g = Some True}"

lemma mark_done_set:
  assumes "g div 64 < length (re_done st)"
  shows "\<exists>st'. mark_done st g = Some st' \<and> st' = st\<lparr>re_done := re_done st'\<rparr> \<and> length (re_done st') = length (re_done st) \<and>
    done_set st' = insert g (done_set st)"
proof -
  let ?st = "st\<lparr>re_done := (re_done st)[g div 64 := re_done st ! (g div 64) OR push_bit (g mod 64) 1]\<rparr>"
  have "is_done ?st h = Some True \<longleftrightarrow> h = g \<or> is_done st h = Some True" for h
  proof (cases "h div 64 < length (re_done st)")
    case True
    have "h = g \<longleftrightarrow> h div 64 = g div 64 \<and> h mod 64 = g mod 64" by (metis div_mult_mod_eq)
    then show ?thesis using True assms by (auto simp: is_done_iff nth_list_update bit_or_exp)
  qed (use assms in \<open>auto simp: is_done_def\<close>)
  then show ?thesis using assms by (auto simp: mark_done_def done_set_def)
qed

lemma is_done_set: "g div 64 < length (re_done st) \<Longrightarrow> is_done st g = Some (g \<in> done_set st)"
  by (simp add: done_set_def is_done_iff)

section \<open>A live generation\<close>

definition held_esis :: "epoch_plan \<Rightarrow> nat \<Rightarrow> generation \<Rightarrow> nat list" where
  "held_esis plan g slot = filter (gen_has slot) [0..<sent plan g] @ map fst (gen_repairs slot)"

definition slot_ok :: "epoch_plan \<Rightarrow> nat \<Rightarrow> generation \<Rightarrow> bool" where
  "slot_ok plan g slot \<longleftrightarrow>
    length (gen_sources slot) = source_count (plan_geometry plan) * symbol_length (plan_geometry plan) \<and>
    distinct (map fst (gen_repairs slot)) \<and>
    (\<forall>(esi, s) \<in> set (gen_repairs slot). source_count (plan_geometry plan) \<le> esi \<and>
      esi < symbol_count (plan_geometry plan) \<and> length s = symbol_length (plan_geometry plan)) \<and>
    (\<forall>esi. gen_has slot esi \<longleftrightarrow> esi \<in> set (held_esis plan g slot)) \<and>
    gen_received slot = source_count (plan_geometry plan) - sent plan g + length (held_esis plan g slot)"

text \<open>What the slot holds agrees with the sources of one codeword.\<close>

definition slot_of :: "epoch_plan \<Rightarrow> nat \<Rightarrow> bytes list \<Rightarrow> generation \<Rightarrow> bool" where
  "slot_of plan g source slot \<longleftrightarrow>
    (\<forall>j < source_count (plan_geometry plan). gen_has slot j \<or> sent plan g \<le> j \<longrightarrow>
      chunk (symbol_length (plan_geometry plan)) (gen_sources slot) j = source ! j) \<and>
    (\<forall>(esi, s) \<in> set (gen_repairs slot). s = code_symbol (plan_geometry plan) source esi)"

lemma symbol_count_128: "geometry_ok g \<Longrightarrow> symbol_count g < 128"
  by (simp add: geometry_ok_def symbol_count_def MAX_SOURCE_SYMBOLS_def MAX_REPAIR_SYMBOLS_def)

lemma gen_has_new [simp]: "\<not> gen_has (new_slot geometry n) esi"
  by (simp add: gen_has_iff new_slot_def)

lemma slot_ok_new: "slot_ok plan g (new_slot (plan_geometry plan) (sent plan g))"
proof -
  have "held_esis plan g (new_slot (plan_geometry plan) (sent plan g)) = []"
    by (simp add: held_esis_def) (simp add: new_slot_def)
  then show ?thesis by (simp add: slot_ok_def) (simp add: new_slot_def)
qed

lemma chunk_replicate: "j < k \<Longrightarrow> chunk l (replicate (k * l) 0) j = replicate l 0"
  using chunk_bound [of j k l] by (simp add: chunk_def)

lemma slot_of_new:
  assumes "plan_ok plan" "length bs = span_len plan g"
  shows "slot_of plan g (padded_sources plan bs) (new_slot (plan_geometry plan) (sent plan g))"
proof -
  let ?l = "symbol_length (plan_geometry plan)"
  have "padded_sources plan bs ! j = replicate ?l 0" if "j < source_count (plan_geometry plan)" "sent plan g \<le> j" for j
  proof -
    have "length bs \<le> j * ?l" using less_sent_iff [OF assms(1)] that(2) assms(2) by (metis not_less)
    then show ?thesis using padded_source_nth [OF that(1) refl, of bs] assms(2) by simp
  qed
  then show ?thesis by (simp add: slot_of_def chunk_replicate) (simp add: new_slot_def chunk_replicate)
qed

lemma length_filter_insert:
  "\<not> P e \<Longrightarrow> e < n \<Longrightarrow> length (filter (\<lambda>x. P x \<or> x = e) [0..<n]) = Suc (length (filter P [0..<n]))"
proof (induction n)
  case (Suc n)
  have "filter (\<lambda>x. P x \<or> x = n) [0..<n] = filter P [0..<n]" by (intro filter_cong) auto
  with Suc show ?case by (cases "e = n") auto
qed simp

lemma store_symbol_ok:
  assumes p: "plan_ok plan" and ok: "slot_ok plan g slot" and new: "\<not> gen_has slot esi"
    and esi: "esi < sent plan g \<or> source_count (plan_geometry plan) \<le> esi" "esi < symbol_count (plan_geometry plan)"
    and len: "length bs = symbol_length (plan_geometry plan)"
  shows "\<exists>slot'. store_symbol (plan_geometry plan) esi bs slot = Some slot' \<and> slot_ok plan g slot' \<and>
    gen_received slot' = Suc (gen_received slot) \<and> (\<forall>x. gen_has slot' x \<longleftrightarrow> gen_has slot x \<or> x = esi) \<and>
    (slot_of plan g source slot \<longrightarrow> bs = code_symbol (plan_geometry plan) source esi \<longrightarrow> slot_of plan g source slot')"
proof (cases "esi < source_count (plan_geometry plan)")
  case True
  let ?g = "plan_geometry plan"
  obtain ys where ys: "write_symbol ?g (gen_sources slot) esi bs = Some ys" "length ys = source_count ?g * symbol_length ?g"
    "\<forall>j < source_count ?g. chunk (symbol_length ?g) ys j = (if j = esi then bs else chunk (symbol_length ?g) (gen_sources slot) j)"
    using write_symbol_chunk [of "gen_sources slot" ?g esi bs] True ok len by (auto simp: slot_ok_def)
  define slot' where "slot' = slot\<lparr>gen_sources := ys, gen_seen := gen_seen slot OR push_bit esi 1, gen_received := gen_received slot + 1\<rparr>"
  have sel: "gen_sources slot' = ys" "gen_repairs slot' = gen_repairs slot" "gen_received slot' = Suc (gen_received slot)"
    by (simp_all add: slot'_def)
  have has: "gen_has slot' = (\<lambda>x. gen_has slot x \<or> x = esi)"
    using symbol_count_128 [of ?g] p esi(2) by (auto simp: slot'_def gen_has_iff bit_or_exp plan_ok_def)
  have s: "esi < sent plan g" using esi(1) True by simp
  have "length (filter (\<lambda>x. gen_has slot x \<or> x = esi) [0..<sent plan g]) =
      Suc (length (filter (gen_has slot) [0..<sent plan g]))"
    using new s by (rule length_filter_insert)
  then have "length (held_esis plan g slot') = Suc (length (held_esis plan g slot))" "set (held_esis plan g slot') = insert esi (set (held_esis plan g slot))"
    using s by (auto simp: held_esis_def has sel)
  then have "slot_ok plan g slot'" using ok ys(2) by (auto simp: slot_ok_def has sel)
  moreover have "slot_of plan g source slot'" if "slot_of plan g source slot" "bs = code_symbol ?g source esi"
    using that ys(3) True by (auto simp: slot_of_def has sel code_symbol_def)
  moreover have "store_symbol ?g esi bs slot = Some slot'" using True ys(1) by (simp add: store_symbol_def slot'_def)
  ultimately show ?thesis using has sel(3) by simp
next
  case False
  let ?g = "plan_geometry plan"
  define slot' where "slot' = slot\<lparr>gen_repairs := gen_repairs slot @ [(esi, bs)], gen_seen := gen_seen slot OR push_bit esi 1, gen_received := gen_received slot + 1\<rparr>"
  have sel: "gen_sources slot' = gen_sources slot" "gen_repairs slot' = gen_repairs slot @ [(esi, bs)]" "gen_received slot' = Suc (gen_received slot)"
    by (simp_all add: slot'_def)
  have has: "gen_has slot' = (\<lambda>x. gen_has slot x \<or> x = esi)"
    using symbol_count_128 [of ?g] p esi(2) by (auto simp: slot'_def gen_has_iff bit_or_exp plan_ok_def)
  have "filter (gen_has slot') [0..<sent plan g] = filter (gen_has slot) [0..<sent plan g]"
    using sent_le [OF p, of g] False by (intro filter_cong) (auto simp: has)
  then have h: "held_esis plan g slot' = held_esis plan g slot @ [esi]" by (simp add: held_esis_def sel)
  moreover have "esi \<notin> fst ` set (gen_repairs slot)" using new ok by (auto simp: slot_ok_def held_esis_def)
  ultimately have "slot_ok plan g slot'" using ok False esi(2) len by (auto simp: slot_ok_def has sel)
  moreover have "slot_of plan g source slot'" if "slot_of plan g source slot" "bs = code_symbol ?g source esi"
    using that False by (auto simp: slot_of_def has sel)
  moreover have "store_symbol ?g esi bs slot = Some slot'" using False by (simp add: store_symbol_def slot'_def)
  ultimately show ?thesis using has sel(3) by simp
qed

definition eliminate_input :: "epoch_plan \<Rightarrow> nat \<Rightarrow> generation \<Rightarrow> (nat \<times> bytes) list" where
  "eliminate_input plan g slot =
    map (\<lambda>esi. (esi, chunk (symbol_length (plan_geometry plan)) (gen_sources slot) esi)) (filter (gen_has slot) [0..<sent plan g]) @
    gen_repairs slot @
    map (\<lambda>esi. (esi, replicate (symbol_length (plan_geometry plan)) 0)) [sent plan g..<source_count (plan_geometry plan)]"

lemma eliminate_input_ok:
  assumes p: "plan_ok plan" and ok: "slot_ok plan g slot"
  shows "received_ok (plan_geometry plan) (eliminate_input plan g slot)"
    "length (eliminate_input plan g slot) = gen_received slot"
proof -
  let ?g = "plan_geometry plan"
  note le = sent_le [OF p, of g]
  have rep: "source_count ?g \<le> esi \<and> esi < symbol_count ?g \<and> length s = symbol_length ?g" if "(esi, s) \<in> set (gen_repairs slot)" for esi s
    using ok that by (auto simp: slot_ok_def)
  have "distinct (map fst (gen_repairs slot))" "set (map fst (gen_repairs slot)) \<inter> {..<source_count ?g} = {}"
    using ok rep by (auto simp: slot_ok_def dest!: rep)
  then have "distinct (map fst (eliminate_input plan g slot))"
    using le by (auto simp: eliminate_input_def o_def)
  moreover have "length (chunk (symbol_length ?g) (gen_sources slot) esi) = symbol_length ?g" if "esi < sent plan g" for esi
    using ok that le by (intro length_chunk [of _ "source_count ?g"]) (simp_all add: slot_ok_def)
  then have "esi < symbol_count ?g \<and> length s = symbol_length ?g" if "(esi, s) \<in> set (eliminate_input plan g slot)" for esi s
    using that le rep by (auto simp: eliminate_input_def symbol_count_def)
  ultimately show "received_ok ?g (eliminate_input plan g slot)"
    by (auto simp: received_ok_def)
  show "length (eliminate_input plan g slot) = gen_received slot"
    using ok by (simp add: eliminate_input_def slot_ok_def held_esis_def)
qed

lemma eliminate_eq:
  assumes p: "plan_ok plan" and ok: "slot_ok plan g slot"
  shows "eliminate plan slot (sent plan g) =
    (case recover_missing (plan_geometry plan) (eliminate_input plan g slot) of
       Some (Inr recovered) \<Rightarrow>
         write_symbols (plan_geometry plan) recovered (gen_sources slot) \<bind> (\<lambda>sources. Some (slot\<lparr>gen_sources := sources\<rparr>))
     | Some (Inl e) \<Rightarrow> None
     | None \<Rightarrow> None)"
proof -
  have "held_sources (plan_geometry plan) slot [0..<sent plan g] =
      Some (map (\<lambda>esi. (esi, chunk (symbol_length (plan_geometry plan)) (gen_sources slot) esi)) (filter (gen_has slot) [0..<sent plan g]))"
    using ok sent_le [OF p, of g] by (intro held_sources_eq) (simp_all add: slot_ok_def)
  then show ?thesis by (simp add: eliminate_def eliminate_input_def Let_def)
qed

lemma eliminate_total:
  assumes p: "plan_ok plan" and ok: "slot_ok plan g slot" and k: "source_count (plan_geometry plan) \<le> gen_received slot"
  shows "\<exists>slot'. eliminate plan slot (sent plan g) = Some slot'"
proof -
  let ?g = "plan_geometry plan"
  have g: "geometry_ok ?g" using p by (simp add: plan_ok_def)
  obtain rec where rec: "recover_missing ?g (eliminate_input plan g slot) = Some (Inr rec)"
    "map fst rec = filter (\<lambda>j. j \<notin> fst ` set (eliminate_input plan g slot)) [0..<source_count ?g]"
    "\<forall>(j, s) \<in> set rec. length s = symbol_length ?g"
    using recover_missing_total [OF g eliminate_input_ok(1) [OF p ok]] eliminate_input_ok(2) [OF p ok] k by auto
  have "distinct (map fst rec)" by (simp only: rec(2)) simp
  moreover have "j < source_count ?g" if "(j, s) \<in> set rec" for j s
    using that arg_cong [OF rec(2), of set] by force
  ultimately have "\<exists>ys. write_symbols ?g rec (gen_sources slot) = Some ys"
    using write_symbols_chunk [of "gen_sources slot" ?g rec] rec(3) ok by (fastforce simp: slot_ok_def)
  then show ?thesis using rec(1) by (auto simp: eliminate_eq [OF p ok])
qed

lemma eliminate_codeword:
  assumes p: "plan_ok plan" and ok: "slot_ok plan g slot" and k: "source_count (plan_geometry plan) \<le> gen_received slot"
    and src: "sources_ok (plan_geometry plan) source" and of: "slot_of plan g source slot"
    and zero: "\<forall>j < source_count (plan_geometry plan). sent plan g \<le> j \<longrightarrow> source ! j = replicate (symbol_length (plan_geometry plan)) 0"
  shows "\<exists>slot'. eliminate plan slot (sent plan g) = Some slot' \<and> gen_sources slot' = concat source"
proof -
  let ?g = "plan_geometry plan" and ?in = "eliminate_input plan g slot"
  let ?missing = "filter (\<lambda>j. j \<notin> fst ` set ?in) [0..<source_count ?g]"
  have g: "geometry_ok ?g" using p by (simp add: plan_ok_def)
  note le = sent_le [OF p, of g]
  note inp = eliminate_input_ok [OF p ok]
  have "symbol = code_symbol ?g source esi" if "(esi, symbol) \<in> set ?in" for esi symbol
    using that of zero le by (auto simp: eliminate_input_def slot_of_def code_symbol_def)
  then have cw: "\<forall>(esi, symbol) \<in> set ?in. esi < symbol_count ?g \<and> symbol = code_symbol ?g source esi"
    using inp(1) by (auto simp: received_ok_def)
  have rec: "recover_missing ?g ?in = Some (Inr (map (\<lambda>j. (j, source ! j)) ?missing))"
    using recover_missing_codeword [OF g src _ cw] inp k by (simp add: received_ok_def)
  obtain ys where ys: "write_symbols ?g (map (\<lambda>j. (j, source ! j)) ?missing) (gen_sources slot) = Some ys"
    "length ys = source_count ?g * symbol_length ?g"
    "\<forall>j < source_count ?g. chunk (symbol_length ?g) ys j =
      (case map_of (map (\<lambda>j. (j, source ! j)) ?missing) j of Some s \<Rightarrow> s | None \<Rightarrow> chunk (symbol_length ?g) (gen_sources slot) j)"
    using write_symbols_chunk [of "gen_sources slot" ?g "map (\<lambda>j. (j, source ! j)) ?missing"] ok src
    by (auto simp: slot_ok_def sources_ok_def o_def)
  have "chunk (symbol_length ?g) ys j = source ! j" if j: "j < source_count ?g" for j
  proof (cases "j \<in> set ?missing")
    case True
    then have "map_of (map (\<lambda>j. (j, source ! j)) ?missing) j = Some (source ! j)" by (simp add: map_of_map_restrict)
    then show ?thesis using ys(3) j by simp
  next
    case False
    then have "map_of (map (\<lambda>j. (j, source ! j)) ?missing) j = None" by (simp add: map_of_map_restrict)
    moreover have "gen_has slot j \<or> sent plan g \<le> j"
    proof -
      have "j \<in> fst ` set ?in" using False j by simp
      then show ?thesis using ok j by (fastforce simp: eliminate_input_def slot_ok_def)
    qed
    ultimately show ?thesis using ys(3) j of by (auto simp: slot_of_def)
  qed
  then have "ys = concat (map ((!) source) [0..<source_count ?g])"
    using concat_chunk [OF ys(2)] by (metis (no_types, lifting) atLeastLessThan_iff map_cong set_upt)
  also have "map ((!) source) [0..<source_count ?g] = source" using src by (metis map_nth sources_ok_def)
  finally show ?thesis using rec ys(1) by (simp add: eliminate_eq [OF p ok])
qed

end
