(* ===== verification/Fec_Delivery.thy ===== *)
theory Fec_Delivery
  imports Fec_Receiver
begin

text \<open>
  The receiver as a machine over the calls a session makes.  \<^verbatim>\<open>slot_contract\<close> is the interface between
  what one live generation holds and the tables and counters around it; it is interpreted twice,
  for the structure alone (every run is total and the counters are exact) and for the bytes of an
  object (every generation delivered is the object's).
\<close>

unbundle bit_operations_syntax

section \<open>The receiver's accounts\<close>

datatype receiver_event =
  RcvCredit fec_credit | RcvOpen epoch_plan | RcvSymbol nat nat nat bytes | RcvReport nat nat |
  RcvAbandon nat nat | RcvClose nat

datatype receiver_reply =
  ReplyBool bool | ReplyOpen "fec_error + open_result" | ReplySymbol symbol_result | ReplyReport "gen_report option"

fun receiver_step :: "receiver \<Rightarrow> receiver_event \<Rightarrow> (receiver_reply \<times> receiver) option" where
  "receiver_step r (RcvCredit credit) = (case receiver_credit credit r of (b, r') \<Rightarrow> Some (ReplyBool b, r'))"
| "receiver_step r (RcvOpen plan) = (case receiver_open plan r of (q, r') \<Rightarrow> Some (ReplyOpen q, r'))"
| "receiver_step r (RcvSymbol epoch g esi bs) = map_option (\<lambda>(q, r'). (ReplySymbol q, r')) (receiver_symbol epoch g esi bs r)"
| "receiver_step r (RcvReport epoch g) = map_option (\<lambda>(q, r'). (ReplyReport q, r')) (receiver_report epoch g r)"
| "receiver_step r (RcvAbandon epoch g) = map_option (\<lambda>(b, r'). (ReplyBool b, r')) (receiver_abandon epoch g r)"
| "receiver_step r (RcvClose epoch) = map_option (\<lambda>(b, r'). (ReplyBool b, r')) (receiver_close epoch r)"

text \<open>The invariant takes the content each live generation must agree with: \<^term>\<open>agrees plan g slot\<close>.
  With \<^term>\<open>\<lambda>plan g slot. True\<close> it is the structure alone.\<close>

type_synonym slot_content = "epoch_plan \<Rightarrow> nat \<Rightarrow> generation \<Rightarrow> bool"

definition live_ok :: "slot_content \<Rightarrow> epoch_plan \<Rightarrow> (nat, generation) omap \<Rightarrow> bool" where
  "live_ok agrees plan live \<longleftrightarrow> om_ok live \<and>
    (\<forall>g slot. om_get live g = Some slot \<longrightarrow> plan_holds plan g \<and> slot_ok plan g slot \<and>
      gen_received slot < source_count (plan_geometry plan) \<and> agrees plan g slot)"

definition receiver_epoch_ok :: "slot_content \<Rightarrow> (epoch_plan \<Rightarrow> bool) \<Rightarrow> nat \<Rightarrow> receiver_epoch \<Rightarrow> bool" where
  "receiver_epoch_ok agrees allowed epoch st \<longleftrightarrow> plan_ok (re_plan st) \<and> allowed (re_plan st) \<and> plan_epoch (re_plan st) = epoch \<and>
    length (re_done st) = div_ceil (generation_count (re_plan st)) 64 \<and> live_ok agrees (re_plan st) (re_live st)"

definition live_bytes :: "receiver_epoch \<Rightarrow> nat" where
  "live_bytes st = length (re_live st) * generation_bytes (re_plan st)"

definition counters_ok :: "counters \<Rightarrow> (nat, receiver_epoch) omap \<Rightarrow> bool" where
  "counters_ok c epochs \<longleftrightarrow>
    cnt_active c = om_sum (\<lambda>st. length (re_live st)) epochs \<and> cnt_unretired c = om_sum live_bytes epochs"

definition receiver_inv :: "slot_content \<Rightarrow> (epoch_plan \<Rightarrow> bool) \<Rightarrow> receiver \<Rightarrow> bool" where
  "receiver_inv agrees allowed r \<longleftrightarrow> om_ok (rcv_epochs r) \<and> counters_ok (rcv_counters r) (rcv_epochs r) \<and>
    (\<forall>epoch st. om_get (rcv_epochs r) epoch = Some st \<longrightarrow> receiver_epoch_ok agrees allowed epoch st)"

lemma om_length_insert_new: "om_ok m \<Longrightarrow> om_get m k = None \<Longrightarrow> length (om_insert k v m) = Suc (length m)"
  unfolding om_length_sum by (simp add: om_sum_insert_new)

lemma om_length_insert_old: "om_ok m \<Longrightarrow> om_get m k = Some w \<Longrightarrow> length (om_insert k v m) = length m"
  using om_sum_insert_old [of m k w "\<lambda>v. 1" v] unfolding om_length_sum by simp

lemma om_length_remove: "om_ok m \<Longrightarrow> om_get m k = Some w \<Longrightarrow> Suc (length (om_remove k m)) = length m"
  using om_sum_remove [of m k w "\<lambda>v. 1"] unfolding om_length_sum by simp

lemma om_remove_insert: "om_ok m \<Longrightarrow> om_remove k (om_insert k v m) = om_remove k m"
  by (induction k v m rule: om_insert.induct) (auto simp: om_remove_def om_ok_Cons)

lemma receiver_inv_new: "receiver_inv agrees allowed receiver_new"
  by (simp add: receiver_inv_def receiver_new_def counters_ok_def)

text \<open>Replacing one epoch, with the counters moved by the difference.\<close>

lemma receiver_inv_update:
  assumes inv: "receiver_inv agrees allowed r" and st: "om_get (rcv_epochs r) epoch = Some st"
    and ok: "receiver_epoch_ok agrees allowed epoch st'"
    and act: "cnt_active c + length (re_live st) = cnt_active (rcv_counters r) + length (re_live st')"
    and unr: "cnt_unretired c + live_bytes st = cnt_unretired (rcv_counters r) + live_bytes st'"
    and r': "rcv_epochs r' = om_insert epoch st' (rcv_epochs r)" "rcv_counters r' = c"
  shows "receiver_inv agrees allowed r'"
proof -
  have m: "om_ok (rcv_epochs r)" and c: "counters_ok (rcv_counters r) (rcv_epochs r)" using inv by (simp_all add: receiver_inv_def)
  have "counters_ok c (om_insert epoch st' (rcv_epochs r))"
    using c act unr om_sum_insert_old [OF m st, of "\<lambda>st. length (re_live st)" st'] om_sum_insert_old [OF m st, of live_bytes st']
    unfolding counters_ok_def by linarith
  moreover have "receiver_epoch_ok agrees allowed e s" if "om_get (om_insert epoch st' (rcv_epochs r)) e = Some s" for e s
    using that inv ok by (auto simp: om_get_insert [OF m] receiver_inv_def split: if_splits)
  ultimately show ?thesis by (simp add: receiver_inv_def r' om_ok_insert m)
qed

lemma live_counted:
  assumes inv: "receiver_inv agrees allowed r" and st: "om_get (rcv_epochs r) epoch = Some st"
  shows "length (re_live st) \<le> cnt_active (rcv_counters r)" "live_bytes st \<le> cnt_unretired (rcv_counters r)"
  using inv om_sum_ge [OF st, of "\<lambda>st. length (re_live st)"] om_sum_ge [OF st, of live_bytes]
  by (simp_all add: receiver_inv_def counters_ok_def)

lemma retire_Some: "0 < cnt_active c \<Longrightarrow> amount \<le> cnt_unretired c \<Longrightarrow>
    retire amount c = Some \<lparr>cnt_active = cnt_active c - 1, cnt_unretired = cnt_unretired c - amount\<rparr>"
  by (simp add: retire_def checked_sub_def)

lemma done_index: "receiver_epoch_ok agrees allowed epoch st \<Longrightarrow> plan_holds (re_plan st) g \<Longrightarrow> g div 64 < length (re_done st)"
  by (simp add: receiver_epoch_ok_def plan_holds_def less_div_ceil_iff)

text \<open>Retiring a live generation: in the table before the step, or charged by it.\<close>

lemma retire_generation_inv:
  assumes inv: "receiver_inv agrees allowed r" and st: "om_get (rcv_epochs r) epoch = Some st"
    and g: "plan_holds (re_plan st) g" and c: "0 < cnt_active c" "generation_bytes (re_plan st) \<le> cnt_unretired c"
    and live: "live_ok agrees (re_plan st) live'" "om_remove g live = live'" 
    and act: "cnt_active c + length (re_live st) = cnt_active (rcv_counters r) + Suc (length live')"
    and unr: "cnt_unretired c + live_bytes st = cnt_unretired (rcv_counters r) + Suc (length live') * generation_bytes (re_plan st)"
    and q: "rcv_epochs q = rcv_epochs r"
  shows "\<exists>r'. retire_generation epoch g (st\<lparr>re_live := live\<rparr>) c q = Some r' \<and> receiver_inv agrees allowed r' \<and>
    rcv_credit r' = rcv_credit q \<and> decode_work_spent r' = decode_work_spent q \<and>
    (\<exists>st'. rcv_epochs r' = om_insert epoch st' (rcv_epochs r) \<and> re_plan st' = re_plan st \<and> re_live st' = live' \<and>
      done_set st' = insert g (done_set st))"
proof -
  have ok: "receiver_epoch_ok agrees allowed epoch st" using inv st by (simp add: receiver_inv_def)
  let ?st = "st\<lparr>re_live := live'\<rparr>"
  obtain st' where st': "mark_done ?st g = Some st'" "st' = ?st\<lparr>re_done := re_done st'\<rparr>"
    "length (re_done st') = length (re_done st)" "done_set st' = insert g (done_set ?st)"
    using mark_done_set [of g ?st] done_index [OF ok g] by auto
  have sel: "re_plan st' = re_plan st" "re_live st' = live'" by (subst st'(2), simp)+
  have ds: "done_set ?st = done_set st" by (simp add: done_set_def is_done_def)
  let ?c = "\<lparr>cnt_active = cnt_active c - 1, cnt_unretired = cnt_unretired c - generation_bytes (re_plan st)\<rparr>"
  let ?r = "q\<lparr>rcv_epochs := om_insert epoch st' (rcv_epochs r), rcv_counters := ?c\<rparr>"
  have "receiver_epoch_ok agrees allowed epoch st'"
    using ok live(1) st'(3) by (simp add: receiver_epoch_ok_def sel)
  then have "receiver_inv agrees allowed ?r"
    using act unr c by (intro receiver_inv_update [OF inv st, of st' ?c]) (simp_all add: sel live_bytes_def)
  moreover have "retire_generation epoch g (st\<lparr>re_live := live\<rparr>) c q = Some ?r"
    using st'(1) retire_Some [OF c] by (simp add: retire_generation_def live(2) sel q)
  ultimately show ?thesis using sel st'(4) ds by auto
qed

section \<open>One symbol\<close>

text \<open>The source buffer a complete slot is delivered from.\<close>

definition final_sources :: "epoch_plan \<Rightarrow> nat \<Rightarrow> generation \<Rightarrow> bytes option" where
  "final_sources plan g slot =
    (if has_sources slot (sent plan g) then Some (gen_sources slot)
     else map_option gen_sources (eliminate plan slot (sent plan g)))"

lemma report_of_Some:
  "plan_holds plan g \<Longrightarrow> gen_received slot < 256 \<Longrightarrow>
    report_of plan g slot = Some
      (\<lparr>rep_sequence = wrapping_add (gen_sequence slot) 1, rep_received = gen_received slot,
        rep_missing = filter (\<lambda>j. \<not> gen_has slot j) [0..<sent plan g]\<rparr>,
       slot\<lparr>gen_sequence := wrapping_add (gen_sequence slot) 1\<rparr>)"
  by (simp add: report_of_def sent_source_count_holds gen_has_def Let_def)

lemma complete_generation_eq:
  assumes p: "plan_ok (re_plan st)" and h: "plan_holds (re_plan st) g"
    and ok: "slot_ok (re_plan st) g slot" and k: "source_count (plan_geometry (re_plan st)) \<le> gen_received slot" "gen_received slot < 256"
    and ret: "\<And>q. rcv_epochs q = rcv_epochs r \<Longrightarrow> \<exists>r'. retire_generation epoch g st c q = Some r' \<and> P r'"
  shows "\<exists>q r'. complete_generation credit epoch g (sent (re_plan st) g) slot st c r = Some (q, r') \<and> P r' \<and>
    (\<forall>d. q = Decoded d \<longrightarrow> (\<exists>sources. final_sources (re_plan st) g slot = Some sources \<and>
      d = \<lparr>dec_generation = g, dec_offset = plan_offset (re_plan st) + span_start (re_plan st) g,
        dec_bytes = take (span_len (re_plan st) g) sources\<rparr>)) \<and>
    (decode_work_spent r + generation_bytes (re_plan st) \<le> min u64_max (max_decode_work credit) \<longrightarrow> (\<exists>d. q = Decoded d))"
proof -
  let ?plan = "re_plan st"
  let ?elim = "\<not> has_sources slot (sent ?plan g)"
  let ?over = "?elim \<and> \<not> is_some_and (checked_add (decode_work_spent r) (generation_bytes ?plan)) (\<lambda>spent. spent \<le> max_decode_work credit)"
  define r1 where "r1 = (if ?elim then r\<lparr>decode_work_spent := decode_work_spent r + generation_bytes ?plan\<rparr> else r)"
  have e1: "rcv_epochs r1 = rcv_epochs r" by (simp add: r1_def)
  obtain sources where src: "final_sources ?plan g slot = Some sources"
    using eliminate_total [OF p ok k(1)] by (cases ?elim) (auto simp: final_sources_def)
  show ?thesis
  proof (cases ?over)
    case True
    obtain r' where "retire_generation epoch g st c r = Some r'" "P r'" using ret by blast
    moreover have "\<not> decode_work_spent r + generation_bytes ?plan \<le> min u64_max (max_decode_work credit)"
      using True by (auto simp: checked_add_def)
    ultimately show ?thesis using True
      by (simp add: complete_generation_def Let_def report_of_Some [OF h k(2)])
  next
    case False
    obtain r' where "retire_generation epoch g st c r1 = Some r'" "P r'" using ret [OF e1] by blast
    moreover have "\<exists>slot'. (if ?elim then eliminate ?plan slot (sent ?plan g) else Some slot) = Some slot' \<and> gen_sources slot' = sources"
      using src by (auto simp: final_sources_def split: if_splits)
    moreover have "complete_generation credit epoch g (sent ?plan g) slot st c r =
        (if ?elim then eliminate ?plan slot (sent ?plan g) else Some slot) \<bind> (\<lambda>slot.
        retire_generation epoch g st c r1 \<bind> (\<lambda>r. assemble ?plan g (gen_sources slot) \<bind> (\<lambda>d. Some (Decoded d, r))))"
      using False unfolding complete_generation_def Let_def r1_def by (simp only: if_False)
    ultimately show ?thesis
      using src by (auto simp: assemble_def generation_span_holds [OF h])
  qed
qed

definition decoded_from :: "slot_content \<Rightarrow> (epoch_plan \<Rightarrow> bool) \<Rightarrow> decoded \<Rightarrow> bool" where
  "decoded_from agrees allowed d \<longleftrightarrow> (\<exists>plan slot sources.
    plan_ok plan \<and> allowed plan \<and> plan_holds plan (dec_generation d) \<and> slot_ok plan (dec_generation d) slot \<and>
    agrees plan (dec_generation d) slot \<and> source_count (plan_geometry plan) \<le> gen_received slot \<and>
    final_sources plan (dec_generation d) slot = Some sources \<and>
    dec_offset d = plan_offset plan + span_start plan (dec_generation d) \<and>
    dec_bytes d = take (span_len plan (dec_generation d)) sources)"

fun receiver_event_ok ::
  "(epoch_plan \<Rightarrow> bool) \<Rightarrow> (epoch_plan \<Rightarrow> nat \<Rightarrow> nat \<Rightarrow> bytes \<Rightarrow> bool) \<Rightarrow> receiver \<Rightarrow> receiver_event \<Rightarrow> bool" where
  "receiver_event_ok allowed honest r (RcvOpen plan) = (plan_ok plan \<and> allowed plan)"
| "receiver_event_ok allowed honest r (RcvSymbol epoch g esi bs) =
    (\<forall>st. om_get (rcv_epochs r) epoch = Some st \<longrightarrow> plan_holds (re_plan st) g \<longrightarrow> honest (re_plan st) g esi bs)"
| "receiver_event_ok allowed honest r _ = True"

definition reply_ok :: "slot_content \<Rightarrow> (epoch_plan \<Rightarrow> bool) \<Rightarrow> receiver_reply \<Rightarrow> bool" where
  "reply_ok agrees allowed reply \<longleftrightarrow> (\<forall>d. reply = ReplySymbol (Decoded d) \<longrightarrow> decoded_from agrees allowed d)"

lemma fec_admit_cases:
  obtains (dropped) reason where "fec_admit plan g esi bs = Some (Inl reason)"
  | (admitted) "fec_admit plan g esi bs = Some (Inr (sent plan g))" "plan_holds plan g"
      "length bs = symbol_length (plan_geometry plan)" "esi < symbol_count (plan_geometry plan)"
      "esi < sent plan g \<or> source_count (plan_geometry plan) \<le> esi"
proof (cases "length bs = symbol_length (plan_geometry plan) \<and> esi < symbol_count (plan_geometry plan) \<and> plan_holds plan g \<and>
    (esi < sent plan g \<or> source_count (plan_geometry plan) \<le> esi)")
  case True
  then show ?thesis by (intro admitted) (auto simp: fec_admit_def Let_def sent_source_count_holds)
next
  case False
  then have "\<exists>reason. fec_admit plan g esi bs = Some (Inl reason)"
    by (auto simp: fec_admit_def Let_def sent_source_count_holds)
  then show ?thesis using dropped by blast
qed

locale slot_contract =
  fixes agrees :: slot_content
    and allowed :: "epoch_plan \<Rightarrow> bool"
    and honest :: "epoch_plan \<Rightarrow> nat \<Rightarrow> nat \<Rightarrow> bytes \<Rightarrow> bool"
  assumes agrees_new: "plan_ok plan \<Longrightarrow> allowed plan \<Longrightarrow> plan_holds plan g \<Longrightarrow>
      agrees plan g (new_slot (plan_geometry plan) (sent plan g))"
    and agrees_sequence: "agrees plan g slot \<Longrightarrow> agrees plan g (slot\<lparr>gen_sequence := n\<rparr>)"
    and agrees_store: "\<lbrakk>plan_ok plan; allowed plan; plan_holds plan g; slot_ok plan g slot; agrees plan g slot;
      honest plan g esi bs; \<not> gen_has slot esi; esi < sent plan g \<or> source_count (plan_geometry plan) \<le> esi;
      esi < symbol_count (plan_geometry plan); length bs = symbol_length (plan_geometry plan);
      store_symbol (plan_geometry plan) esi bs slot = Some slot'\<rbrakk> \<Longrightarrow> agrees plan g slot'"
begin

abbreviation inv :: "receiver \<Rightarrow> bool" where "inv \<equiv> receiver_inv agrees allowed"

lemma epoch_ok: "inv r \<Longrightarrow> om_get (rcv_epochs r) epoch = Some st \<Longrightarrow> receiver_epoch_ok agrees allowed epoch st"
  by (simp add: receiver_inv_def)

lemma live_ok_insert:
  "\<lbrakk>live_ok agrees plan live; plan_holds plan g; slot_ok plan g slot; agrees plan g slot;
    gen_received slot < source_count (plan_geometry plan)\<rbrakk> \<Longrightarrow> live_ok agrees plan (om_insert g slot live)"
  by (auto simp: live_ok_def om_ok_insert om_get_insert)

lemma live_ok_remove: "live_ok agrees plan live \<Longrightarrow> live_ok agrees plan (om_remove g live)"
  by (auto simp: live_ok_def om_ok_remove om_get_remove)

lemma receiver_close_inv:
  assumes "inv r" shows "\<exists>b r'. receiver_close epoch r = Some (b, r') \<and> inv r'"
proof (cases "om_get (rcv_epochs r) epoch")
  case (Some st)
  have times: "retire_times n amount c = Some \<lparr>cnt_active = cnt_active c - n, cnt_unretired = cnt_unretired c - n * amount\<rparr>"
    if "n \<le> cnt_active c" "n * amount \<le> cnt_unretired c" for n amount c
    using that by (induction n arbitrary: c) (simp_all add: retire_Some diff_diff_eq)
  have m: "om_ok (rcv_epochs r)" and c: "counters_ok (rcv_counters r) (rcv_epochs r)" using assms by (simp_all add: receiver_inv_def)
  let ?c = "\<lparr>cnt_active = cnt_active (rcv_counters r) - length (re_live st), cnt_unretired = cnt_unretired (rcv_counters r) - live_bytes st\<rparr>"
  have "counters_ok ?c (om_remove epoch (rcv_epochs r))"
    using c om_sum_remove [OF m Some, of "\<lambda>st. length (re_live st)"] om_sum_remove [OF m Some, of live_bytes]
    by (auto simp: counters_ok_def)
  then have "inv (r\<lparr>rcv_epochs := om_remove epoch (rcv_epochs r), rcv_counters := ?c\<rparr>)"
    using assms by (simp add: receiver_inv_def om_ok_remove om_get_remove)
  moreover have "retire_times (length (re_live st)) (generation_bytes (re_plan st)) (rcv_counters r) = Some ?c"
    using times live_counted [OF assms Some] by (simp add: live_bytes_def)
  ultimately show ?thesis using Some by (auto simp: receiver_close_def)
qed (use assms in \<open>auto simp: receiver_close_def\<close>)

lemma receiver_abandon_inv:
  assumes inv: "inv r" shows "\<exists>b r'. receiver_abandon epoch g r = Some (b, r') \<and> inv r'"
proof (cases "om_get (rcv_epochs r) epoch")
  case (Some st)
  have ok: "receiver_epoch_ok agrees allowed epoch st" by (rule epoch_ok [OF inv Some])
  show ?thesis
  proof (cases "om_get (re_live st) g")
    case slot: (Some slot)
    have live: "live_ok agrees (re_plan st) (re_live st)" using ok by (simp add: receiver_epoch_ok_def)
    then have h: "plan_holds (re_plan st) g" and m: "om_ok (re_live st)" using slot by (simp_all add: live_ok_def)
    note len = om_length_remove [OF m slot]
    have lb: "live_bytes st = Suc (length (om_remove g (re_live st))) * generation_bytes (re_plan st)"
      by (simp only: live_bytes_def len)
    have pos: "0 < cnt_active (rcv_counters r)" "generation_bytes (re_plan st) \<le> cnt_unretired (rcv_counters r)"
      using live_counted [OF inv Some] by (simp_all add: lb flip: len)
    obtain r' where "retire_generation epoch g (st\<lparr>re_live := re_live st\<rparr>) (rcv_counters r) r = Some r'" "inv r'"
      using retire_generation_inv [OF inv Some h pos live_ok_remove [OF live] refl, of r] len lb by auto
    then show ?thesis using Some slot by (auto simp: receiver_abandon_def)
  qed (use Some inv in \<open>auto simp: receiver_abandon_def\<close>)
qed (use inv in \<open>auto simp: receiver_abandon_def\<close>)

lemma slot_ok_sequence: "slot_ok plan g (slot\<lparr>gen_sequence := n\<rparr>) \<longleftrightarrow> slot_ok plan g slot"
proof -
  have "gen_has (slot\<lparr>gen_sequence := n\<rparr>) = gen_has slot" by (simp add: gen_has_def fun_eq_iff)
  then show ?thesis by (simp add: slot_ok_def held_esis_def)
qed

lemma geometry_small: "plan_ok plan \<Longrightarrow> source_count (plan_geometry plan) < 256"
  by (simp add: plan_ok_def geometry_ok_def MAX_SOURCE_SYMBOLS_def)

lemma receiver_report_inv:
  assumes inv: "inv r" shows "\<exists>q r'. receiver_report epoch g r = Some (q, r') \<and> inv r'"
proof (cases "om_get (rcv_epochs r) epoch")
  case (Some st)
  have ok: "receiver_epoch_ok agrees allowed epoch st" by (rule epoch_ok [OF inv Some])
  show ?thesis
  proof (cases "om_get (re_live st) g")
    case slot: (Some slot)
    have live: "live_ok agrees (re_plan st) (re_live st)" and p: "plan_ok (re_plan st)" using ok by (simp_all add: receiver_epoch_ok_def)
    then have h: "plan_holds (re_plan st) g" "slot_ok (re_plan st) g slot" "agrees (re_plan st) g slot"
      "gen_received slot < source_count (plan_geometry (re_plan st))" and m: "om_ok (re_live st)" using slot by (simp_all add: live_ok_def)
    let ?slot = "slot\<lparr>gen_sequence := wrapping_add (gen_sequence slot) 1\<rparr>"
    let ?st = "st\<lparr>re_live := om_insert g ?slot (re_live st)\<rparr>"
    have "live_ok agrees (re_plan st) (om_insert g ?slot (re_live st))"
      by (rule live_ok_insert [OF live h(1)]) (simp_all add: slot_ok_sequence h agrees_sequence)
    then have "receiver_epoch_ok agrees allowed epoch ?st" using ok by (simp add: receiver_epoch_ok_def)
    then have "inv (r\<lparr>rcv_epochs := om_insert epoch ?st (rcv_epochs r)\<rparr>)"
      by (rule receiver_inv_update [OF inv Some, of _ "rcv_counters r"]) (simp_all add: om_length_insert_old [OF m slot] live_bytes_def)
    moreover have "gen_received slot < 256" using geometry_small [OF p] h(4) by simp
    ultimately show ?thesis
      using Some slot h(1) by (simp add: receiver_report_def report_of_Some)
  qed (use Some inv in \<open>simp add: receiver_report_def\<close>)
qed (use inv in \<open>simp add: receiver_report_def\<close>)

lemma receiver_open_inv:
  assumes inv: "inv r" and plan: "plan_ok plan" "allowed plan" and r': "receiver_open plan r = (q, r')"
  shows "inv r'"
proof (cases "r' = r")
  case False
  let ?st = "\<lparr>re_plan = plan, re_live = [], re_done = replicate (div_ceil (generation_count plan) 64) 0\<rparr>"
  have new: "om_get (rcv_epochs r) (plan_epoch plan) = None" and eq: "r' = r\<lparr>rcv_epochs := om_insert (plan_epoch plan) ?st (rcv_epochs r)\<rparr>"
    using r' False by (auto simp: receiver_open_def split: option.splits if_splits)
  have m: "om_ok (rcv_epochs r)" using inv by (simp add: receiver_inv_def)
  have "receiver_epoch_ok agrees allowed (plan_epoch plan) ?st"
    using plan by (simp add: receiver_epoch_ok_def live_ok_def)
  then have "\<forall>epoch st. om_get (rcv_epochs r') epoch = Some st \<longrightarrow> receiver_epoch_ok agrees allowed epoch st"
    using inv by (auto simp: eq receiver_inv_def om_get_insert [OF m])
  moreover have "counters_ok (rcv_counters r) (rcv_epochs r')"
    using inv om_sum_insert_new [OF m new, of _ ?st] by (simp add: eq receiver_inv_def counters_ok_def live_bytes_def)
  ultimately show ?thesis using m by (simp add: receiver_inv_def eq om_ok_insert)
qed (use inv in simp)

text \<open>The slot a symbol goes to, found or just opened, and the counters that charge for it.\<close>

lemma slot_for_ok:
  assumes inv: "inv r" and st: "om_get (rcv_epochs r) epoch = Some st" and h: "plan_holds (re_plan st) g"
    and s: "slot_for credit (re_plan st) g esi (sent (re_plan st) g) st (rcv_counters r) = Inr (first, slot, c)"
  defines "live' \<equiv> om_remove g (re_live st)"
  shows "slot_ok (re_plan st) g slot" "agrees (re_plan st) g slot" "\<not> gen_has slot esi"
    "gen_received slot < source_count (plan_geometry (re_plan st))"
    "length (om_insert g x (re_live st)) = Suc (length live')"
    "0 < cnt_active c" "generation_bytes (re_plan st) \<le> cnt_unretired c"
    "cnt_active c + length (re_live st) = cnt_active (rcv_counters r) + Suc (length live')"
    "cnt_unretired c + live_bytes st = cnt_unretired (rcv_counters r) + Suc (length live') * generation_bytes (re_plan st)"
proof -
  have ok: "receiver_epoch_ok agrees allowed epoch st" by (rule epoch_ok [OF inv st])
  then have p: "plan_ok (re_plan st)" "allowed (re_plan st)" and live: "live_ok agrees (re_plan st) (re_live st)"
    by (simp_all add: receiver_epoch_ok_def)
  then have m: "om_ok (re_live st)" by (simp add: live_ok_def)
  consider (old) "om_get (re_live st) g = Some slot" "\<not> gen_has slot esi" "c = rcv_counters r"
    | (new) "om_get (re_live st) g = None" "slot = new_slot (plan_geometry (re_plan st)) (sent (re_plan st) g)"
      "cnt_active c = Suc (cnt_active (rcv_counters r))" "cnt_unretired c = cnt_unretired (rcv_counters r) + generation_bytes (re_plan st)"
    using s by (auto simp: slot_for_def counters_admit_def split: option.splits if_splits)
  then have "slot_ok (re_plan st) g slot \<and> agrees (re_plan st) g slot \<and> \<not> gen_has slot esi \<and>
    gen_received slot < source_count (plan_geometry (re_plan st)) \<and>
    length (om_insert g x (re_live st)) = Suc (length live') \<and>
    0 < cnt_active c \<and> generation_bytes (re_plan st) \<le> cnt_unretired c \<and>
    cnt_active c + length (re_live st) = cnt_active (rcv_counters r) + Suc (length live') \<and>
    cnt_unretired c + live_bytes st = cnt_unretired (rcv_counters r) + Suc (length live') * generation_bytes (re_plan st)"
  proof cases
    case old
    note len = om_length_remove [OF m old(1), folded live'_def]
    have lb: "live_bytes st = Suc (length live') * generation_bytes (re_plan st)" by (simp only: live_bytes_def len)
    have "0 < cnt_active c" "generation_bytes (re_plan st) \<le> cnt_unretired c"
      using live_counted [OF inv st] by (simp_all add: lb old(3) flip: len)
    then show ?thesis
      using old live om_length_insert_old [OF m old(1)] len lb by (auto simp: live_ok_def)
  next
    case new
    have "live' = re_live st" by (simp add: live'_def om_remove_absent [OF new(1)])
    moreover have "gen_received slot < source_count (plan_geometry (re_plan st))"
      using sent_pos [OF p(1) h] sent_le [OF p(1), of g] by (simp only: new(2)) (simp add: new_slot_def)
    ultimately show ?thesis
      using new agrees_new [OF p h] slot_ok_new om_length_insert_new [OF m new(1)] by (simp add: live_bytes_def)
  qed
  then show "slot_ok (re_plan st) g slot" "agrees (re_plan st) g slot" "\<not> gen_has slot esi"
    "gen_received slot < source_count (plan_geometry (re_plan st))"
    "length (om_insert g x (re_live st)) = Suc (length live')"
    "0 < cnt_active c" "generation_bytes (re_plan st) \<le> cnt_unretired c"
    "cnt_active c + length (re_live st) = cnt_active (rcv_counters r) + Suc (length live')"
    "cnt_unretired c + live_bytes st = cnt_unretired (rcv_counters r) + Suc (length live') * generation_bytes (re_plan st)"
    by blast+
qed

lemma receiver_symbol_stored:
  assumes inv: "inv r" and st: "om_get (rcv_epochs r) epoch = Some st" and h: "plan_holds (re_plan st) g"
    and s: "slot_for credit (re_plan st) g esi (sent (re_plan st) g) st (rcv_counters r) = Inr (first, slot, c)"
    and slot': "slot_ok (re_plan st) g slot'" "agrees (re_plan st) g slot'" "gen_received slot' = Suc (gen_received slot)"
  defines "st' \<equiv> st\<lparr>re_live := om_insert g slot' (re_live st)\<rparr>"
  shows "\<exists>q r'. (if gen_received slot' < source_count (plan_geometry (re_plan st))
      then Some (Stored first, r\<lparr>rcv_epochs := om_insert epoch st' (rcv_epochs r), rcv_counters := c\<rparr>)
      else complete_generation credit epoch g (sent (re_plan st) g) slot' st' c r) = Some (q, r') \<and> inv r' \<and>
    (\<forall>d. q = Decoded d \<longrightarrow> decoded_from agrees allowed d)"
proof -
  have ok: "receiver_epoch_ok agrees allowed epoch st" by (rule epoch_ok [OF inv st])
  then have p: "plan_ok (re_plan st)" "allowed (re_plan st)" and live: "live_ok agrees (re_plan st) (re_live st)"
    by (simp_all add: receiver_epoch_ok_def)
  then have m: "om_ok (re_live st)" by (simp add: live_ok_def)
  note sf = slot_for_ok [OF inv st h s]
  show ?thesis
  proof (cases "gen_received slot' < source_count (plan_geometry (re_plan st))")
    case True
    have "receiver_epoch_ok agrees allowed epoch st'"
      using ok live_ok_insert [OF live h slot'(1,2) True] by (simp add: receiver_epoch_ok_def st'_def)
    then have "inv (r\<lparr>rcv_epochs := om_insert epoch st' (rcv_epochs r), rcv_counters := c\<rparr>)"
      by (rule receiver_inv_update [OF inv st, of _ c]) (simp_all add: st'_def live_bytes_def [of "st\<lparr>re_live := _\<rparr>"] sf(5) sf(8,9))
    then show ?thesis using True by simp
  next
    case False
    have k: "source_count (plan_geometry (re_plan st')) \<le> gen_received slot'" "gen_received slot' < 256"
      using False sf(4) slot'(3) geometry_small [OF p(1)] by (simp_all add: st'_def)
    have ret: "\<exists>r'. retire_generation epoch g st' c q = Some r' \<and> inv r'" if "rcv_epochs q = rcv_epochs r" for q
      using retire_generation_inv [OF inv st h sf(6,7) live_ok_remove [OF live] om_remove_insert [OF m] sf(8,9) that]
      unfolding st'_def by blast
    obtain q r' where q: "complete_generation credit epoch g (sent (re_plan st') g) slot' st' c r = Some (q, r')" "inv r'"
      "\<And>d. q = Decoded d \<Longrightarrow> \<exists>sources. final_sources (re_plan st') g slot' = Some sources \<and>
        d = \<lparr>dec_generation = g, dec_offset = plan_offset (re_plan st') + span_start (re_plan st') g,
          dec_bytes = take (span_len (re_plan st') g) sources\<rparr>"
      using complete_generation_eq [of st' g slot' r epoch c inv credit, OF _ _ _ k ret] p(1) h slot'(1)
      by (auto simp: st'_def)
    have pl: "re_plan st' = re_plan st" by (simp add: st'_def)
    have "decoded_from agrees allowed d" if "q = Decoded d" for d
    proof -
      note qd = q(3) [OF that]
      obtain sources where src: "final_sources (re_plan st) g slot' = Some sources"
        "d = \<lparr>dec_generation = g, dec_offset = plan_offset (re_plan st) + span_start (re_plan st) g,
          dec_bytes = take (span_len (re_plan st) g) sources\<rparr>"
        using qd unfolding pl by blast
      show ?thesis
        unfolding decoded_from_def
        by (rule exI [of _ "re_plan st"], rule exI [of _ slot'], rule exI [of _ sources])
          (use src p h slot'(1,2) k(1) pl in simp)
    qed
    then show ?thesis using False q(1,2) pl by auto
  qed
qed

lemma receiver_symbol_inv:
  assumes inv: "inv r"
    and honest: "\<And>st. om_get (rcv_epochs r) epoch = Some st \<Longrightarrow> plan_holds (re_plan st) g \<Longrightarrow> honest (re_plan st) g esi bs"
  shows "\<exists>q r'. receiver_symbol epoch g esi bs r = Some (q, r') \<and> inv r' \<and> (\<forall>d. q = Decoded d \<longrightarrow> decoded_from agrees allowed d)"
proof (cases "rcv_credit r")
  case credit: (Some credit)
  show ?thesis
  proof (cases "om_get (rcv_epochs r) epoch")
    case st: (Some st)
    have ok: "receiver_epoch_ok agrees allowed epoch st" by (rule epoch_ok [OF inv st])
    then have p: "plan_ok (re_plan st)" "allowed (re_plan st)" by (simp_all add: receiver_epoch_ok_def)
    show ?thesis
    proof (cases rule: fec_admit_cases [of "re_plan st" g esi bs])
      case admitted
      note h = admitted(2)
      have fin: "is_done st g = Some (g \<in> done_set st)" by (rule is_done_set [OF done_index [OF ok h]])
      show ?thesis
      proof (cases "g \<in> done_set st")
        case False
        show ?thesis
        proof (cases "slot_for credit (re_plan st) g esi (sent (re_plan st) g) st (rcv_counters r)")
          case (Inr fsc)
          obtain first slot c where s: "slot_for credit (re_plan st) g esi (sent (re_plan st) g) st (rcv_counters r) = Inr (first, slot, c)"
            using Inr by (cases fsc) auto
          note sf = slot_for_ok [OF inv st h s]
          obtain slot' where slot': "store_symbol (plan_geometry (re_plan st)) esi bs slot = Some slot'"
            "slot_ok (re_plan st) g slot'" "gen_received slot' = Suc (gen_received slot)"
            using store_symbol_ok [OF p(1) sf(1) sf(3) admitted(5,4,3)] by blast
          have "agrees (re_plan st) g slot'"
            by (rule agrees_store [OF p h sf(1,2) honest [OF st h] sf(3) admitted(5,4,3) slot'(1)])
          from receiver_symbol_stored [OF inv st h s slot'(2) this slot'(3)]
          show ?thesis using credit st admitted(1) fin False s slot'(1) by (simp add: receiver_symbol_def Let_def)
        qed (use credit st admitted fin False inv in \<open>simp add: receiver_symbol_def Let_def\<close>)
      qed (use credit st admitted fin inv in \<open>simp add: receiver_symbol_def Let_def\<close>)
    qed (use credit st inv in \<open>simp add: receiver_symbol_def Let_def\<close>)
  qed (use credit inv in \<open>simp add: receiver_symbol_def\<close>)
qed (use inv in \<open>simp add: receiver_symbol_def\<close>)

lemma receiver_step_ok:
  assumes inv: "inv r" and ev: "receiver_event_ok allowed honest r e"
  shows "\<exists>q r'. receiver_step r e = Some (q, r') \<and> inv r' \<and> reply_ok agrees allowed q"
proof (cases e)
  case (RcvCredit credit)
  have "inv (r\<lparr>rcv_credit := Some credit, decode_work_spent := 0\<rparr>)" using inv by (simp add: receiver_inv_def)
  then show ?thesis using RcvCredit inv by (simp add: receiver_credit_def reply_ok_def)
next
  case (RcvOpen plan)
  obtain q r' where r: "receiver_open plan r = (q, r')" by (cases "receiver_open plan r")
  then show ?thesis using receiver_open_inv [OF inv _ _ r] ev RcvOpen by (simp add: reply_ok_def)
next
  case (RcvSymbol epoch g esi bs)
  obtain q r' where "receiver_symbol epoch g esi bs r = Some (q, r')" "inv r'" "\<forall>d. q = Decoded d \<longrightarrow> decoded_from agrees allowed d"
    using receiver_symbol_inv [OF inv, of epoch g esi bs] ev RcvSymbol by auto
  then show ?thesis using RcvSymbol by (simp add: reply_ok_def)
next
  case (RcvReport epoch g)
  obtain q r' where "receiver_report epoch g r = Some (q, r')" "inv r'" using receiver_report_inv [OF inv] by blast
  then show ?thesis using RcvReport by (simp add: reply_ok_def)
next
  case (RcvAbandon epoch g)
  obtain q r' where "receiver_abandon epoch g r = Some (q, r')" "inv r'" using receiver_abandon_inv [OF inv] by blast
  then show ?thesis using RcvAbandon by (simp add: reply_ok_def)
next
  case (RcvClose epoch)
  obtain q r' where "receiver_close epoch r = Some (q, r')" "inv r'" using receiver_close_inv [OF inv] by blast
  then show ?thesis using RcvClose by (simp add: reply_ok_def)
qed

end

sublocale slot_contract \<subseteq> replying_machine receiver_step "receiver_inv agrees allowed" "receiver_event_ok allowed honest"
  "\<lambda>e. reply_ok agrees allowed"
proof (unfold_locales, goal_cases)
  case (1 r e)
  from receiver_step_ok [OF this] show ?case by blast
qed

section \<open>Delivery\<close>

text \<open>The bytes of an object a generation covers.\<close>

definition span_bytes :: "bytes \<Rightarrow> epoch_plan \<Rightarrow> nat \<Rightarrow> bytes" where
  "span_bytes obj plan g = take (span_len plan g) (drop (plan_offset plan + span_start plan g) obj)"

definition plan_within :: "bytes \<Rightarrow> epoch_plan \<Rightarrow> bool" where
  "plan_within obj plan \<longleftrightarrow> plan_offset plan + plan_length plan \<le> length obj"

text \<open>A symbol the sender of the object put on the wire for that generation.\<close>

definition sent_symbol :: "bytes \<Rightarrow> epoch_plan \<Rightarrow> nat \<Rightarrow> nat \<Rightarrow> bytes \<Rightarrow> bool" where
  "sent_symbol obj plan g esi bs \<longleftrightarrow>
    (\<exists>out. encode_generation plan g (span_bytes obj plan g) = Some (Inr out) \<and> (esi, bs) \<in> set out)"

definition slot_of_object :: "bytes \<Rightarrow> slot_content" where
  "slot_of_object obj plan g slot \<longleftrightarrow> slot_of plan g (padded_sources plan (span_bytes obj plan g)) slot"

lemma length_span_bytes:
  assumes "plan_ok plan" "plan_within obj plan" "plan_holds plan g"
  shows "length (span_bytes obj plan g) = span_len plan g"
proof -
  have "g * generation_bytes plan < plan_length plan" using assms by (simp add: plan_ok_def plan_holds_iff)
  then show ?thesis using assms(2) by (simp add: span_bytes_def plan_within_def)
qed

interpretation shape: slot_contract "\<lambda>plan g slot. True" "\<lambda>plan. True" "\<lambda>plan g esi bs. True"
  by unfold_locales simp_all

interpretation delivery: slot_contract "slot_of_object obj" "plan_within obj" "sent_symbol obj" for obj
proof (unfold_locales, goal_cases)
  case (1 plan g)
  then show ?case unfolding slot_of_object_def by (intro slot_of_new length_span_bytes)
next
  case (2 plan g slot n)
  then show ?case by (simp add: slot_of_object_def slot_of_def gen_has_def)
next
  case (3 plan g slot esi bs slot')
  have "bs = code_symbol (plan_geometry plan) (padded_sources plan (span_bytes obj plan g)) esi"
    using 3(6) encode_generation_eq [OF 3(1,3) length_span_bytes [OF 3(1,2,3)]] by (auto simp: sent_symbol_def)
  then show ?case
    using store_symbol_ok [OF 3(1,4,7,8,9,10), of "padded_sources plan (span_bytes obj plan g)"] 3(5,11)
    by (simp add: slot_of_object_def)
qed

text \<open>What a complete slot delivers is the object's bytes.\<close>

lemma final_sources_object:
  assumes p: "plan_ok plan" "plan_within obj plan" "plan_holds plan g" and ok: "slot_ok plan g slot"
    and of: "slot_of_object obj plan g slot" and k: "source_count (plan_geometry plan) \<le> gen_received slot"
    and src: "final_sources plan g slot = Some sources"
  shows "take (span_len plan g) sources = span_bytes obj plan g"
proof -
  let ?g = "plan_geometry plan" and ?bs = "span_bytes obj plan g"
  let ?source = "padded_sources plan ?bs"
  note len = length_span_bytes [OF p]
  then have le: "length ?bs \<le> generation_bytes plan" by simp
  note so = sources_ok_padded [OF le]
  have sl: "slot_of plan g ?source slot" using of by (simp add: slot_of_object_def)
  have zero: "\<forall>j < source_count ?g. sent plan g \<le> j \<longrightarrow> ?source ! j = replicate (symbol_length ?g) 0"
    using slot_of_new [OF p(1) len] by (auto simp: slot_of_def new_slot_def chunk_replicate)
  have "sources = concat ?source"
  proof (cases "has_sources slot (sent plan g)")
    case True
    then have "chunk (symbol_length ?g) (gen_sources slot) j = ?source ! j" if "j < source_count ?g" for j
      using sl that by (cases "j < sent plan g") (auto simp: slot_of_def has_sources_def list_all_iff)
    then have "map (chunk (symbol_length ?g) (gen_sources slot)) [0..<source_count ?g] = map ((!) ?source) [0..<source_count ?g]" by simp
    also have "\<dots> = ?source" using so by (metis map_nth sources_ok_def)
    finally show ?thesis
      using src True concat_chunk [of "gen_sources slot" "source_count ?g" "symbol_length ?g"] ok
      by (simp add: final_sources_def slot_ok_def)
  next
    case False
    then show ?thesis using src eliminate_codeword [OF p(1) ok k so sl zero] by (auto simp: final_sources_def)
  qed
  then show ?thesis using concat_padded_sources [OF le] len by simp
qed

lemma decoded_from_object:
  assumes "decoded_from (slot_of_object obj) (plan_within obj) d"
  shows "dec_bytes d \<noteq> [] \<and> dec_bytes d = take (length (dec_bytes d)) (drop (dec_offset d) obj)"
proof -
  obtain plan slot sources where d: "plan_ok plan" "plan_within obj plan" "plan_holds plan (dec_generation d)"
    "slot_ok plan (dec_generation d) slot" "slot_of_object obj plan (dec_generation d) slot"
    "source_count (plan_geometry plan) \<le> gen_received slot" "final_sources plan (dec_generation d) slot = Some sources"
    "dec_offset d = plan_offset plan + span_start plan (dec_generation d)"
    "dec_bytes d = take (span_len plan (dec_generation d)) sources"
    using assms unfolding decoded_from_def by blast
  have b: "dec_bytes d = span_bytes obj plan (dec_generation d)" using final_sources_object [OF d(1-7)] d(9) by simp
  have "length (dec_bytes d) = span_len plan (dec_generation d)" unfolding b by (rule length_span_bytes [OF d(1-3)])
  moreover have "0 < span_len plan (dec_generation d)" by (rule span_len_pos [OF d(1,3)])
  ultimately show ?thesis using b d(8) by (auto simp: span_bytes_def)
qed

section \<open>Progress\<close>

text \<open>A generation that is being received: what is needed for its symbols to be stored until the last
  one completes it.\<close>

definition receiving :: "bytes \<Rightarrow> fec_credit \<Rightarrow> nat \<Rightarrow> nat \<Rightarrow> receiver_epoch \<Rightarrow> receiver \<Rightarrow> bool" where
  "receiving obj credit epoch g st r \<longleftrightarrow> receiver_inv (slot_of_object obj) (plan_within obj) r \<and>
    rcv_credit r = Some credit \<and> om_get (rcv_epochs r) epoch = Some st \<and> plan_holds (re_plan st) g \<and> g \<notin> done_set st \<and>
    decode_work_spent r + generation_bytes (re_plan st) \<le> min u64_max (max_decode_work credit)"

lemma receiver_symbol_eq:
  assumes "rcv_credit r = Some credit" "om_get (rcv_epochs r) epoch = Some st"
    "fec_admit (re_plan st) g esi bs = Some (Inr (sent (re_plan st) g))" "is_done st g = Some False"
    "slot_for credit (re_plan st) g esi (sent (re_plan st) g) st (rcv_counters r) = Inr (first, slot, c)"
    "store_symbol (plan_geometry (re_plan st)) esi bs slot = Some slot'"
  shows "receiver_symbol epoch g esi bs r =
    (let st' = st\<lparr>re_live := om_insert g slot' (re_live st)\<rparr> in
     if gen_received slot' < source_count (plan_geometry (re_plan st))
     then Some (Stored first, r\<lparr>rcv_epochs := om_insert epoch st' (rcv_epochs r), rcv_counters := c\<rparr>)
     else complete_generation credit epoch g (sent (re_plan st) g) slot' st' c r)"
  using assms by (simp add: receiver_symbol_def Let_def)

lemma symbol_progress:
  assumes rc: "receiving obj credit epoch g st r"
    and s: "slot_for credit (re_plan st) g esi (sent (re_plan st) g) st (rcv_counters r) = Inr (first, slot, c)"
    and sym: "sent_symbol obj (re_plan st) g esi bs"
  shows "if Suc (gen_received slot) < source_count (plan_geometry (re_plan st))
    then \<exists>r' st' slot'. receiver_symbol epoch g esi bs r = Some (Stored first, r') \<and> receiving obj credit epoch g st' r' \<and>
      re_plan st' = re_plan st \<and> om_get (re_live st') g = Some slot' \<and> gen_received slot' = Suc (gen_received slot) \<and>
      (\<forall>x. gen_has slot' x \<longleftrightarrow> gen_has slot x \<or> x = esi)
    else \<exists>r'. receiver_symbol epoch g esi bs r = Some (Decoded
      \<lparr>dec_generation = g, dec_offset = plan_offset (re_plan st) + span_start (re_plan st) g, dec_bytes = span_bytes obj (re_plan st) g\<rparr>, r')"
proof -
  let ?plan = "re_plan st" and ?g = "plan_geometry (re_plan st)"
  have inv: "receiver_inv (slot_of_object obj) (plan_within obj) r" and st: "om_get (rcv_epochs r) epoch = Some st"
    and h: "plan_holds ?plan g" and nd: "g \<notin> done_set st" and credit: "rcv_credit r = Some credit"
    and work: "decode_work_spent r + generation_bytes ?plan \<le> min u64_max (max_decode_work credit)"
    using rc by (simp_all add: receiving_def)
  have ok: "receiver_epoch_ok (slot_of_object obj) (plan_within obj) epoch st" by (rule delivery.epoch_ok [OF inv st])
  then have p: "plan_ok ?plan" "plan_within obj ?plan" and m: "om_ok (re_live st)" by (simp_all add: receiver_epoch_ok_def live_ok_def)
  note enc = encode_generation_eq [OF p(1) h length_span_bytes [OF p h]]
  have esi: "esi < sent ?plan g \<or> source_count ?g \<le> esi" "esi < symbol_count ?g" and bs: "length bs = symbol_length ?g"
    using sym enc sent_le [OF p(1), of g] sources_ok_padded [of "span_bytes obj ?plan g" ?plan] length_span_bytes [OF p h]
    by (auto simp: sent_symbol_def sent_esis_def symbol_count_def intro!: length_code_symbol)
  have adm: "fec_admit ?plan g esi bs = Some (Inr (sent ?plan g))"
    using esi bs h by (auto simp: fec_admit_def Let_def sent_source_count_holds)
  have fin: "is_done st g = Some False" using is_done_set [OF done_index [OF ok h]] nd by simp
  note sf = delivery.slot_for_ok [OF inv st h s]
  obtain slot' where slot': "store_symbol ?g esi bs slot = Some slot'" "slot_ok ?plan g slot'"
      "gen_received slot' = Suc (gen_received slot)" "\<forall>x. gen_has slot' x \<longleftrightarrow> gen_has slot x \<or> x = esi"
    using store_symbol_ok [OF p(1) sf(1,3) esi bs] by blast
  have ag: "slot_of_object obj ?plan g slot'"
    by (rule delivery.agrees_store [OF p h sf(1,2) sym sf(3) esi bs slot'(1)])
  define st' where "st' = st\<lparr>re_live := om_insert g slot' (re_live st)\<rparr>"
  have eq: "receiver_symbol epoch g esi bs r = (if gen_received slot' < source_count ?g
     then Some (Stored first, r\<lparr>rcv_epochs := om_insert epoch st' (rcv_epochs r), rcv_counters := c\<rparr>)
     else complete_generation credit epoch g (sent ?plan g) slot' st' c r)"
    unfolding receiver_symbol_eq [OF credit st adm fin s slot'(1)] by (simp add: Let_def st'_def)
  note stored = delivery.receiver_symbol_stored [OF inv st h s slot'(2) ag slot'(3), folded st'_def]
  show ?thesis
  proof (cases "gen_received slot' < source_count ?g")
    case True
    let ?r = "r\<lparr>rcv_epochs := om_insert epoch st' (rcv_epochs r), rcv_counters := c\<rparr>"
    have mr: "om_ok (rcv_epochs r)" using inv by (simp add: receiver_inv_def)
    have "receiving obj credit epoch g st' ?r"
      using stored True rc nd h by (auto simp: receiving_def om_get_insert [OF mr] st'_def done_set_def is_done_def)
    then show ?thesis
      using True eq slot'(3,4) by (auto simp: st'_def om_get_insert [OF m])
  next
    case False
    have k: "source_count (plan_geometry (re_plan st')) \<le> gen_received slot'" "gen_received slot' < 256"
      using False sf(4) slot'(3) delivery.geometry_small [OF p(1)] by (simp_all add: st'_def)
    have live: "live_ok (slot_of_object obj) ?plan (re_live st)" using ok by (simp add: receiver_epoch_ok_def)
    have ret: "\<exists>r'. retire_generation epoch g st' c q = Some r' \<and> True" if "rcv_epochs q = rcv_epochs r" for q
      using retire_generation_inv [OF inv st h sf(6,7) delivery.live_ok_remove [OF live] om_remove_insert [OF m] sf(8,9) that]
      unfolding st'_def by blast
    have pl: "re_plan st' = ?plan" by (simp add: st'_def)
    obtain q r' sources where q: "complete_generation credit epoch g (sent ?plan g) slot' st' c r = Some (Decoded q, r')"
      "final_sources ?plan g slot' = Some sources"
      "q = \<lparr>dec_generation = g, dec_offset = plan_offset ?plan + span_start ?plan g, dec_bytes = take (span_len ?plan g) sources\<rparr>"
      using complete_generation_eq [of st' g slot' r epoch c "\<lambda>_. True" credit, OF _ _ _ k ret, unfolded pl] p(1) h slot'(2) work
      by (auto simp: pl)
    then show ?thesis
      using False slot'(3) eq final_sources_object [OF p h slot'(2) ag _ q(2)] k(1) pl by simp
  qed
qed

abbreviation (input) delivered :: "bytes \<Rightarrow> epoch_plan \<Rightarrow> nat \<Rightarrow> receiver_reply" where
  "delivered obj plan g \<equiv> ReplySymbol (Decoded
    \<lparr>dec_generation = g, dec_offset = plan_offset plan + span_start plan g, dec_bytes = span_bytes obj plan g\<rparr>)"

abbreviation (input) symbol_events :: "nat \<Rightarrow> nat \<Rightarrow> (nat \<times> bytes) list \<Rightarrow> receiver_event list" where
  "symbol_events epoch g xs \<equiv> map (\<lambda>(esi, bs). RcvSymbol epoch g esi bs) xs"

lemma live_slot_for:
  "om_get (re_live st) g = Some slot \<Longrightarrow> \<not> gen_has slot esi \<Longrightarrow> slot_for credit plan g esi n st c = Inr (False, slot, c)"
  by (simp add: slot_for_def)

lemma symbols_progress:
  "\<lbrakk>receiving obj credit epoch g st r; om_get (re_live st) g = Some slot; distinct (map fst xs);
    \<forall>(esi, bs) \<in> set xs. sent_symbol obj (re_plan st) g esi bs \<and> \<not> gen_has slot esi;
    gen_received slot + length xs = source_count (plan_geometry (re_plan st)); xs \<noteq> []\<rbrakk> \<Longrightarrow>
   \<exists>n r'. run_replies receiver_step r (symbol_events epoch g xs) =
     Some (replicate n (ReplySymbol (Stored False)) @ [delivered obj (re_plan st) g], r')"
proof (induction xs arbitrary: r st slot)
  case (Cons x xs)
  obtain esi bs where x: "x = (esi, bs)" by (cases x)
  have sym: "sent_symbol obj (re_plan st) g esi bs" "\<not> gen_has slot esi" using Cons.prems(4) by (simp_all add: x)
  note step = symbol_progress [OF Cons.prems(1) live_slot_for [OF Cons.prems(2) sym(2)] sym(1)]
  show ?case
  proof (cases "xs = []")
    case True
    then obtain r' where "receiver_symbol epoch g esi bs r = Some (Decoded
      \<lparr>dec_generation = g, dec_offset = plan_offset (re_plan st) + span_start (re_plan st) g, dec_bytes = span_bytes obj (re_plan st) g\<rparr>, r')"
      using step Cons.prems(5) by auto
    then show ?thesis using True by (auto simp: x intro: exI [of _ 0])
  next
    case False
    then have "Suc (gen_received slot) < source_count (plan_geometry (re_plan st))" using Cons.prems(5) by (cases xs) simp_all
    then obtain r' st' slot' where s': "receiver_symbol epoch g esi bs r = Some (Stored False, r')" "receiving obj credit epoch g st' r'"
      "re_plan st' = re_plan st" "om_get (re_live st') g = Some slot'" "gen_received slot' = Suc (gen_received slot)"
      "\<forall>y. gen_has slot' y \<longleftrightarrow> gen_has slot y \<or> y = esi"
      using step by auto
    have "\<forall>(esi, bs) \<in> set xs. sent_symbol obj (re_plan st') g esi bs \<and> \<not> gen_has slot' esi"
      using Cons.prems(3,4) s'(3,6) by (auto simp: x image_iff)
    from Cons.IH [OF s'(2,4) _ this _ False] Cons.prems(3,5) s'(3,5)
    obtain n r'' where "run_replies receiver_step r' (symbol_events epoch g xs) =
        Some (replicate n (ReplySymbol (Stored False)) @ [delivered obj (re_plan st) g], r'')" by auto
    then show ?thesis using s'(1) by (auto simp: x intro: exI [of _ "Suc n"])
  qed
qed simp

text \<open>The receiver after one credit and one open.\<close>

definition opened :: "fec_credit \<Rightarrow> epoch_plan \<Rightarrow> receiver" where
  "opened credit plan = \<lparr>rcv_credit = Some credit, decode_work_spent = 0,
    rcv_epochs = [(plan_epoch plan, \<lparr>re_plan = plan, re_live = [], re_done = replicate (div_ceil (generation_count plan) 64) 0\<rparr>)],
    rcv_counters = \<lparr>cnt_active = 0, cnt_unretired = 0\<rparr>\<rparr>"

lemma run_opened:
  "0 < max_open_epochs credit \<Longrightarrow> generation_count plan \<le> MAX_TRACKED_GENERATIONS \<Longrightarrow>
   run_replies receiver_step receiver_new (RcvCredit credit # RcvOpen plan # es) =
     map_option (\<lambda>(rs, r). (ReplyBool True # ReplyOpen (Inr Opened) # rs, r)) (run_replies receiver_step (opened credit plan) es)"
  by (cases "run_replies receiver_step (opened credit plan) es")
    (auto simp: receiver_credit_def receiver_new_def receiver_open_def opened_def)

lemma generation_bytes_u64: "geometry_ok (plan_geometry plan) \<Longrightarrow> generation_bytes plan \<le> u64_max"
proof -
  assume "geometry_ok (plan_geometry plan)"
  then have "generation_bytes plan \<le> 64 * 65535"
    unfolding generation_bytes_def by (intro mult_le_mono) (simp_all add: geometry_ok_def MAX_SOURCE_SYMBOLS_def MAX_SYMBOL_LENGTH_def)
  then show ?thesis by (simp add: u64_max_def)
qed

lemma opened_receiving:
  assumes "plan_ok plan" "plan_within obj plan" "plan_holds plan g" "generation_bytes plan \<le> max_decode_work credit"
  shows "receiving obj credit (plan_epoch plan) g
    \<lparr>re_plan = plan, re_live = [], re_done = replicate (div_ceil (generation_count plan) 64) 0\<rparr> (opened credit plan)"
proof -
  have "g \<notin> done_set \<lparr>re_plan = plan, re_live = [], re_done = replicate (div_ceil (generation_count plan) 64) 0\<rparr>"
    by (simp add: done_set_def is_done_def)
  moreover have "generation_bytes plan \<le> u64_max" using assms(1) by (simp add: generation_bytes_u64 plan_ok_def)
  ultimately show ?thesis
    using assms by (simp add: receiving_def opened_def receiver_inv_def om_ok_Cons counters_ok_def live_bytes_def receiver_epoch_ok_def live_ok_def)
qed

lemma generation_delivered:
  assumes p: "plan_ok plan" "plan_within obj plan" "plan_holds plan g"
    and out: "encode_generation plan g (span_bytes obj plan g) = Some (Inr out)"
    and xs: "set xs \<subseteq> set out" "distinct (map fst xs)" "length xs = sent plan g"
    and credit: "0 < max_active_generations credit" "generation_bytes plan \<le> max_unretired_bytes credit"
      "generation_bytes plan \<le> max_decode_work credit"
  shows "\<exists>rs r. run_replies receiver_step (opened credit plan) (symbol_events (plan_epoch plan) g xs) =
    Some (rs @ [delivered obj plan g], r)"
proof -
  let ?st = "\<lparr>re_plan = plan, re_live = [], re_done = replicate (div_ceil (generation_count plan) 64) 0\<rparr>"
  let ?r = "opened credit plan" and ?k = "source_count (plan_geometry plan)"
  let ?slot = "new_slot (plan_geometry plan) (sent plan g)"
  have rc: "receiving obj credit (plan_epoch plan) g ?st ?r" by (rule opened_receiving [OF p credit(3)])
  have sym: "\<forall>(esi, bs) \<in> set xs. sent_symbol obj plan g esi bs" using xs(1) out by (auto simp: sent_symbol_def)
  have pos: "0 < length xs" "sent plan g \<le> ?k" using xs(3) sent_pos [OF p(1,3)] sent_le [OF p(1)] by simp_all
  obtain esi bs ys where x: "xs = (esi, bs) # ys" using pos(1) by (cases xs) auto
  have rec: "gen_received ?slot = ?k - sent plan g" by (simp add: new_slot_def)
  have gu: "generation_bytes plan \<le> u64_max" using p(1) by (simp add: generation_bytes_u64 plan_ok_def)
  obtain c where s: "slot_for credit (re_plan ?st) g esi (sent (re_plan ?st) g) ?st (rcv_counters ?r) = Inr (True, ?slot, c)"
    using credit(1,2) gu by (auto simp: slot_for_def counters_admit_def opened_def checked_add_def)
  have "sent_symbol obj (re_plan ?st) g esi bs" using sym by (simp add: x)
  note step = symbol_progress [OF rc s this]
  show ?thesis
  proof (cases "ys = []")
    case True
    then have one: "sent plan g = 1" using xs(3) by (simp add: x)
    have "\<not> Suc (gen_received ?slot) < ?k" using rec pos(2) unfolding one by simp
    then obtain r' where "receiver_symbol (plan_epoch plan) g esi bs ?r = Some (Decoded
      \<lparr>dec_generation = g, dec_offset = plan_offset plan + span_start plan g, dec_bytes = span_bytes obj plan g\<rparr>, r')"
      using step by auto
    then have "run_replies receiver_step ?r (symbol_events (plan_epoch plan) g xs) = Some ([] @ [delivered obj plan g], r')"
      by (simp add: x True)
    then show ?thesis by blast
  next
    case False
    then have "2 \<le> length xs" by (cases ys) (simp_all add: x)
    then have "Suc (gen_received ?slot) < ?k" using rec pos(2) unfolding xs(3) by linarith
    then obtain r' st' slot' where s': "receiver_symbol (plan_epoch plan) g esi bs ?r = Some (Stored True, r')"
      "receiving obj credit (plan_epoch plan) g st' r'" "re_plan st' = plan" "om_get (re_live st') g = Some slot'"
      "gen_received slot' = Suc (gen_received ?slot)" "\<forall>y. gen_has slot' y \<longleftrightarrow> y = esi"
      using step by auto
    have "\<forall>(esi, bs) \<in> set ys. sent_symbol obj (re_plan st') g esi bs \<and> \<not> gen_has slot' esi"
      using sym xs(2) s'(3,6) by (auto simp: x image_iff)
    moreover have "gen_received slot' + length ys = source_count (plan_geometry (re_plan st'))"
    proof -
      have "Suc (length ys) = sent plan g" using xs(3) by (simp add: x)
      then show ?thesis using s'(5) rec pos(2) unfolding s'(3) by linarith
    qed
    ultimately obtain n r'' where "run_replies receiver_step r' (symbol_events (plan_epoch plan) g ys) =
        Some (replicate n (ReplySymbol (Stored False)) @ [delivered obj plan g], r'')"
      using symbols_progress [OF s'(2,4), of ys] False xs(2) s'(3) by (auto simp: x)
    then have "run_replies receiver_step ?r (symbol_events (plan_epoch plan) g xs) =
        Some ((ReplySymbol (Stored True) # replicate n (ReplySymbol (Stored False))) @ [delivered obj plan g], r'')"
      using s'(1) by (simp add: x)
    then show ?thesis by blast
  qed
qed

section \<open>Properties\<close>

text \<open>C2. Every generation a receiver reports decoded is exactly the object's bytes. The run is any
  interleaving of credits, opens, closes, abandonments, reports and symbols over any number of epochs
  of one object, in which symbols may be lost, repeated and reordered, as long as a symbol accepted for
  an open epoch is one \<^const>\<open>encode_generation\<close> produced from the object's bytes. The run never panics,
  and what each \<^const>\<open>Decoded\<close> reply carries is a non-empty piece of the object at the offset it names.\<close>

theorem fec_delivers_object:
  assumes "run_valid receiver_step (receiver_event_ok (plan_within obj) (sent_symbol obj)) receiver_new es"
  shows "\<exists>rs r. run_replies receiver_step receiver_new es = Some (rs, r) \<and>
    (\<forall>d. ReplySymbol (Decoded d) \<in> set rs \<longrightarrow>
      dec_bytes d \<noteq> [] \<and> dec_bytes d = take (length (dec_bytes d)) (drop (dec_offset d) obj))"
proof -
  obtain rs r where r: "run_replies receiver_step receiver_new es = Some (rs, r)"
    "list_all2 (\<lambda>e. reply_ok (slot_of_object obj) (plan_within obj)) es rs"
    using delivery.run_ok [OF receiver_inv_new assms] by blast
  have "decoded_from (slot_of_object obj) (plan_within obj) d" if "ReplySymbol (Decoded d) \<in> set rs" for d
  proof -
    obtain i where "i < length rs" "rs ! i = ReplySymbol (Decoded d)" using \<open>_ \<in> set rs\<close> by (auto simp: in_set_conv_nth)
    then show ?thesis using list_all2_nthD2 [OF r(2), of i] by (simp add: reply_ok_def)
  qed
  then show ?thesis using r(1) decoded_from_object by blast
qed

definition example_plan :: epoch_plan where
  "example_plan = \<lparr>plan_epoch = 0, plan_offset = 0, plan_length = 2, plan_geometry = example_geometry\<rparr>"

definition example_object :: bytes where "example_object = [7, 9]"

definition example_credit :: fec_credit where
  "example_credit = \<lparr>credit_epoch = 1, max_unretired_bytes = 8, max_active_generations = 4, max_decode_work = 8, max_open_epochs = 1\<rparr>"

lemma example_plan_ok: "plan_ok example_plan" "plan_within example_object example_plan" "plan_holds example_plan 0"
  by (simp_all add: plan_ok_def plan_within_def plan_holds_def generation_count_def generation_bytes_def div_ceil_def
    geometry_ok_def example_plan_def example_geometry_def example_object_def MAX_SOURCE_SYMBOLS_def MAX_REPAIR_SYMBOLS_def
    MAX_SYMBOL_LENGTH_def u64_max_def u32_max_def)

lemma example_span: "span_bytes example_object example_plan 0 = [7, 9]" "padded_sources example_plan [7, 9] = example_source"
  "sent example_plan 0 = 2" "sent_esis example_plan 0 = [0, 1, 2]"
  by (simp_all add: span_bytes_def padded_sources_def sent_esis_def example_plan_def example_geometry_def example_object_def
    example_source_def generation_bytes_def div_ceil_def symbol_count_def upt_rec)

lemma example_encode:
  "encode_generation example_plan 0 (span_bytes example_object example_plan 0) =
    Some (Inr [(0, [7]), (1, [9]), (2, encode_row example_geometry example_source 0)])"
proof -
  have "plan_geometry example_plan = example_geometry" "source_count example_geometry = 2"
    by (simp_all add: example_plan_def example_geometry_def)
  then show ?thesis
    using encode_generation_eq [OF example_plan_ok(1,3) length_span_bytes [OF example_plan_ok]]
    by (simp add: example_span code_symbol_def example_source_def)
qed

theorem fec_delivers_object_witness:
  "\<exists>rs r. run_replies receiver_step receiver_new [RcvCredit example_credit, RcvOpen example_plan, RcvSymbol 0 0 1 [9]] = Some (rs, r) \<and>
    (\<forall>d. ReplySymbol (Decoded d) \<in> set rs \<longrightarrow>
      dec_bytes d \<noteq> [] \<and> dec_bytes d = take (length (dec_bytes d)) (drop (dec_offset d) example_object))"
proof (rule fec_delivers_object)
  have sym: "sent_symbol example_object example_plan 0 1 [9]" by (simp add: sent_symbol_def example_encode)
  have small: "generation_count example_plan = 1" "plan_epoch example_plan = 0"
    by (simp_all add: example_plan_def generation_count_def generation_bytes_def example_geometry_def div_ceil_def)
  show "run_valid receiver_step (receiver_event_ok (plan_within example_object) (sent_symbol example_object)) receiver_new
      [RcvCredit example_credit, RcvOpen example_plan, RcvSymbol 0 0 1 [9]]"
    using example_plan_ok(1,2) sym
    by (simp add: receiver_credit_def receiver_new_def receiver_open_def small MAX_TRACKED_GENERATIONS_def example_credit_def
      split: option.split)
qed

text \<open>C10. A generation is delivered as soon as enough of it has arrived. After a credit that covers one
  generation and the open of a plan over an object, any choice of as many distinct symbols of a
  generation as it has sources with bytes, in any order, ends with the generation decoded, at its
  offset and with exactly its bytes.\<close>

theorem fec_generation_completes:
  assumes "geometry_new k r len = Inr geometry" "plan_new epoch offset span geometry = Inr plan" "offset + span \<le> length obj"
    and "plan_holds plan g" "generation_count plan \<le> MAX_TRACKED_GENERATIONS"
    and "encode_generation plan g (span_bytes obj plan g) = Some (Inr out)"
    and "set xs \<subseteq> set out" "distinct (map fst xs)" "sent_source_count plan g = Some (length xs)"
    and "0 < max_open_epochs credit" "0 < max_active_generations credit"
      "generation_bytes plan \<le> max_unretired_bytes credit" "generation_bytes plan \<le> max_decode_work credit"
  shows "\<exists>rs q. run_replies receiver_step receiver_new
      ([RcvCredit credit, RcvOpen plan] @ map (\<lambda>(esi, bs). RcvSymbol epoch g esi bs) xs) =
    Some (rs @ [ReplySymbol (Decoded \<lparr>dec_generation = g, dec_offset = offset + g * (k * len),
      dec_bytes = span_bytes obj plan g\<rparr>)], q)"
proof -
  have g: "geometry_ok geometry" "geometry = \<lparr>source_count = k, repair_count = r, symbol_length = len\<rparr>"
    using assms(1) unfolding geometry_new_iff by blast+
  have p: "plan_ok plan" "plan = \<lparr>plan_epoch = epoch, plan_offset = offset, plan_length = span, plan_geometry = geometry\<rparr>"
    using plan_new_ok [OF g(1) assms(2)] by blast+
  have "plan_within obj plan" using assms(3) p(2) by (simp add: plan_within_def)
  moreover have "length xs = sent plan g" using assms(9) by (simp add: sent_source_count_holds [OF assms(4)])
  ultimately obtain rs q where "run_replies receiver_step (opened credit plan) (symbol_events (plan_epoch plan) g xs) =
      Some (rs @ [delivered obj plan g], q)"
    using generation_delivered [OF p(1) _ assms(4,6,7,8) _ assms(11-13)] by blast
  moreover have "plan_epoch plan = epoch" "plan_offset plan + span_start plan g = offset + g * (k * len)"
    using p(2) g(2) by (simp_all add: generation_bytes_def)
  ultimately have "run_replies receiver_step receiver_new
      ([RcvCredit credit, RcvOpen plan] @ map (\<lambda>(esi, bs). RcvSymbol epoch g esi bs) xs) =
    Some ((ReplyBool True # ReplyOpen (Inr Opened) # rs) @ [ReplySymbol (Decoded \<lparr>dec_generation = g, dec_offset = offset + g * (k * len),
      dec_bytes = span_bytes obj plan g\<rparr>)], q)"
    using run_opened [OF assms(10,5), of "symbol_events epoch g xs"] by simp
  then show ?thesis by blast
qed

theorem fec_generation_completes_witness:
  "\<exists>rs q. run_replies receiver_step receiver_new
      ([RcvCredit example_credit, RcvOpen example_plan] @
       map (\<lambda>(esi, bs). RcvSymbol 0 0 esi bs) [(2, encode_row example_geometry example_source 0), (1, [9])]) =
    Some (rs @ [ReplySymbol (Decoded \<lparr>dec_generation = 0, dec_offset = 0, dec_bytes = [7, 9]\<rparr>)], q)"
proof -
  have g: "geometry_new 2 1 1 = Inr example_geometry"
    by (simp add: geometry_new_def example_geometry_def MAX_SOURCE_SYMBOLS_def MAX_REPAIR_SYMBOLS_def MAX_SYMBOL_LENGTH_def)
  have small: "generation_count example_plan = 1" "generation_bytes example_plan = 2"
    by (simp_all add: example_plan_def generation_count_def generation_bytes_def example_geometry_def div_ceil_def)
  have p: "plan_new 0 0 2 example_geometry = Inr example_plan"
    using small by (simp add: plan_new_def checked_add_def u64_max_def u32_max_def Let_def example_plan_def)
  have sent: "sent_source_count example_plan 0 = Some 2"
    using sent_source_count_holds [OF example_plan_ok(3)] by (simp only: example_span(3))
  show ?thesis
    using fec_generation_completes [OF g p _ example_plan_ok(3) _ example_encode,
      of "[(2, encode_row example_geometry example_source 0), (1, [9])]" example_credit]
    by (simp add: small sent example_span(1) MAX_TRACKED_GENERATIONS_def example_credit_def) (simp add: example_object_def)
qed

text \<open>The receiver never panics and its counters are exact. For any sequence of calls, whatever the
  symbols' bytes, with plans that \<^const>\<open>plan_new\<close> accepts, the run returns; afterwards the active
  generations are the live ones of the open epochs, and the unretired bytes are the sum of their
  charges, so every retirement subtracts what was charged.\<close>

theorem receiver_counters_exact:
  assumes "\<forall>e \<in> set es. \<forall>plan. e = RcvOpen plan \<longrightarrow> plan_ok plan"
  shows "\<exists>rs r. run_replies receiver_step receiver_new es = Some (rs, r) \<and>
    cnt_active (rcv_counters r) = (\<Sum>(epoch, st) \<leftarrow> rcv_epochs r. length (re_live st)) \<and>
    cnt_unretired (rcv_counters r) = (\<Sum>(epoch, st) \<leftarrow> rcv_epochs r. length (re_live st) * generation_bytes (re_plan st))"
proof -
  have "\<forall>e \<in> set es. receiver_event_ok (\<lambda>plan. True) (\<lambda>plan g esi bs. True) r e" for r
  proof
    fix e assume "e \<in> set es"
    then have "\<forall>plan. e = RcvOpen plan \<longrightarrow> plan_ok plan" using assms by blast
    then show "receiver_event_ok (\<lambda>plan. True) (\<lambda>plan g esi bs. True) r e" by (cases e) auto
  qed
  then have "run_valid receiver_step (receiver_event_ok (\<lambda>plan. True) (\<lambda>plan g esi bs. True)) s es" for s
    by (induction es arbitrary: s) (auto split: option.split)
  from shape.run_ok [OF receiver_inv_new this] obtain rs r where "run_replies receiver_step receiver_new es = Some (rs, r)"
    "counters_ok (rcv_counters r) (rcv_epochs r)" by (auto simp: receiver_inv_def)
  then show ?thesis by (auto simp: counters_ok_def om_sum_def live_bytes_def)
qed

end
