(* ===== verification/Payload_Codec.thy ===== *)
theory Payload_Codec
  imports Cbor
begin

text \<open>
  How the decoders of whole messages are put together from the reader operations of \<open>Cbor\<close>.
  \<open>parses R p\<close> says that the reading step \<open>p\<close> accepts exactly the byte strings that the relation
  \<open>R\<close> gives to its result and consumes nothing else; \<open>parses_all\<close> says it of a step that must
  reach the end of the input. The rules follow the shapes a decoder is written in: a step after
  a step, a check, a loop with a count, the end of the input. A decoder's relation is computed by
  applying them, and it remains to see that the relation is the encoder's graph.
\<close>

section \<open>Items as byte strings\<close>

definition uint_item :: "nat \<Rightarrow> bytes" where "uint_item v = cbor_uint [] v"
definition int_item :: "int \<Rightarrow> bytes" where "int_item v = cbor_int [] v"
definition bytes_item :: "bytes \<Rightarrow> bytes" where "bytes_item v = byte_string [] v"
definition text_item :: "bytes \<Rightarrow> bytes" where "text_item v = text_string [] v"
definition array_item :: "nat \<Rightarrow> bytes" where "array_item v = array_head [] v"
definition map_item :: "nat \<Rightarrow> bytes" where "map_item v = map_head [] v"

named_theorems items \<open>encoders that append, written with items\<close>

lemma append_items [items]:
  "cbor_uint out v = out @ uint_item v"
  "cbor_int out i = out @ int_item i"
  "byte_string out b = out @ bytes_item b"
  "text_string out b = out @ text_item b"
  "array_head out v = out @ array_item v"
  "map_head out v = out @ map_item v"
  by (simp_all add: head_eq uint_item_def int_item_def bytes_item_def text_item_def array_item_def map_item_def
      cbor_uint_def cbor_int_def byte_string_def text_string_def array_head_def map_head_def)

lemma length_items:
  "length (uint_item v) = head_len v"
  "length (array_item v) = head_len v"
  "length (map_item v) = head_len v"
  "length (bytes_item b) = head_len (length b) + length b"
  "length (text_item b) = head_len (length b) + length b"
  "length (int_item i) = int_len i"
  by (simp_all add: uint_item_def int_item_def bytes_item_def text_item_def array_item_def map_item_def
      cbor_uint_def cbor_int_def byte_string_def text_string_def array_head_def map_head_def
      length_head int_len_def)

section \<open>Reading steps\<close>

definition parses :: "('v \<Rightarrow> bytes \<Rightarrow> bool) \<Rightarrow> (reader \<Rightarrow> 'e + 'v \<times> reader) \<Rightarrow> bool" where
  "parses R p \<longleftrightarrow> (\<forall>r v r'. reader_ok r \<longrightarrow>
    (p r = Inr (v, r') \<longleftrightarrow> (\<exists>bs. R v bs \<and> starts_with r bs \<and> r' = advance r (length bs))))"

definition parses_all :: "('v \<Rightarrow> bytes \<Rightarrow> bool) \<Rightarrow> (reader \<Rightarrow> 'e + 'v) \<Rightarrow> bool" where
  "parses_all R d \<longleftrightarrow> (\<forall>r v. reader_ok r \<longrightarrow> (d r = Inr v \<longleftrightarrow> R v (remaining r)))"

named_theorems parse_rules \<open>how a decoder's relation is computed from its steps\<close>

lemma parses_allD: "parses_all R d \<Longrightarrow> length bs \<le> u64_max \<Longrightarrow> d (new_reader bs) = Inr v \<longleftrightarrow> R v bs"
  by (simp add: parses_all_def remaining_def new_reader_def reader_ok_def)

lemma parses_cong: "parses R p \<Longrightarrow> (\<And>v bs. R v bs \<longleftrightarrow> S v bs) \<Longrightarrow> parses S p"
  by (simp add: parses_def)

lemma parsesD:
  assumes "parses R p" "reader_ok r" "p r = Inr (v, r')"
  obtains bs where "R v bs" "starts_with r bs" "r' = advance r (length bs)" "reader_ok r'"
  using assms reader_ok_advance unfolding parses_def by metis

lemma parsesI:
  assumes "parses R p" "reader_ok r" "R v bs" "starts_with r bs"
  shows "p r = Inr (v, advance r (length bs))"
  using assms unfolding parses_def by blast

lemma parses_map_err: "parses R p \<Longrightarrow> parses R (\<lambda>r. map_err f (p r))"
  by (simp add: parses_def)

lemma parses_then [parse_rules]:
  assumes p: "parses R1 p" and q: "\<And>x. parses (R2 x) (q x)"
  shows "parses (\<lambda>v bs. \<exists>x b1 b2. R1 x b1 \<and> R2 x v b2 \<and> bs = b1 @ b2) (\<lambda>r. and_then (p r) (\<lambda>(x, r). q x r))"
  unfolding parses_def
proof (intro allI impI iffI)
  fix r v r' assume ok: "reader_ok r" and run: "and_then (p r) (\<lambda>(x, r). q x r) = Inr (v, r')"
  then obtain x s where s: "p r = Inr (x, s)" "q x s = Inr (v, r')" by (auto split: prod.splits)
  from parsesD [OF p ok s(1)] obtain b1 where b1: "R1 x b1" "starts_with r b1" "s = advance r (length b1)" "reader_ok s" .
  from parsesD [OF q b1(4) s(2)] obtain b2 where b2: "R2 x v b2" "starts_with s b2" "r' = advance s (length b2)" by metis
  with b1 show "\<exists>bs. (\<exists>x b1 b2. R1 x b1 \<and> R2 x v b2 \<and> bs = b1 @ b2) \<and> starts_with r bs \<and> r' = advance r (length bs)"
    by (intro exI [of _ "b1 @ b2"]) (auto simp: starts_with_append)
next
  fix r v r' assume ok: "reader_ok r"
    and "\<exists>bs. (\<exists>x b1 b2. R1 x b1 \<and> R2 x v b2 \<and> bs = b1 @ b2) \<and> starts_with r bs \<and> r' = advance r (length bs)"
  then obtain x b1 b2 where *: "R1 x b1" "R2 x v b2" "starts_with r (b1 @ b2)" "r' = advance r (length (b1 @ b2))" by blast
  then have 1: "starts_with r b1" "starts_with (advance r (length b1)) b2" by (simp_all add: starts_with_append)
  then show "and_then (p r) (\<lambda>(x, r). q x r) = Inr (v, r')"
    using parsesI [OF p ok *(1) 1(1)] parsesI [OF q reader_ok_advance [OF ok 1(1)] *(2) 1(2)] * by simp
qed

lemma parses_return [parse_rules]: "parses (\<lambda>v bs. v = x \<and> bs = []) (\<lambda>r. Inr (x, r))"
  by (auto simp: parses_def starts_with_iff advance_def)

lemma parses_pure [parse_rules]:
  assumes "\<And>x. parses (R x) (q x)"
  shows "parses (\<lambda>v bs. \<exists>x. m = Inr x \<and> R x v bs) (\<lambda>r. and_then m (\<lambda>x. q x r))"
  using assms by (cases m) (auto simp: parses_def)

lemma parses_check [parse_rules]:
  assumes "parses R q"
  shows "parses (\<lambda>v bs. \<not> c \<and> R v bs) (\<lambda>r. if c then Inl e else q r)"
  using assms by (auto simp: parses_def)

lemma parses_fail [parse_rules]: "parses (\<lambda>v bs. False) (\<lambda>r. Inl e)"
  by (simp add: parses_def)

lemma parses_if: "parses R p \<Longrightarrow> parses S q \<Longrightarrow> parses (\<lambda>v bs. if c then R v bs else S v bs) (\<lambda>r. if c then p r else q r)"
  by (simp add: parses_def)

lemma parses_all_then [parse_rules]:
  assumes p: "parses R1 p" and q: "\<And>x. parses_all (R2 x) (q x)"
  shows "parses_all (\<lambda>v bs. \<exists>x b1 b2. R1 x b1 \<and> R2 x v b2 \<and> bs = b1 @ b2) (\<lambda>r. and_then (p r) (\<lambda>(x, r). q x r))"
  unfolding parses_all_def
proof (intro allI impI iffI)
  fix r v assume ok: "reader_ok r" and run: "and_then (p r) (\<lambda>(x, r). q x r) = Inr v"
  then obtain x s where s: "p r = Inr (x, s)" "q x s = Inr v" by (auto split: prod.splits)
  from parsesD [OF p ok s(1)] obtain b1 where b1: "R1 x b1" "starts_with r b1" "s = advance r (length b1)" "reader_ok s" .
  moreover have "R2 x v (remaining s)" using q b1(4) s(2) by (simp add: parses_all_def)
  moreover have "remaining r = b1 @ remaining s" using b1(2,3) by (auto simp: starts_with_iff)
  ultimately show "\<exists>x b1 b2. R1 x b1 \<and> R2 x v b2 \<and> remaining r = b1 @ b2" by blast
next
  fix r v assume ok: "reader_ok r" and "\<exists>x b1 b2. R1 x b1 \<and> R2 x v b2 \<and> remaining r = b1 @ b2"
  then obtain x b1 b2 where *: "R1 x b1" "R2 x v b2" "remaining r = b1 @ b2" by blast
  then have 1: "starts_with r b1" "remaining (advance r (length b1)) = b2" by (auto simp: starts_with_iff)
  then show "and_then (p r) (\<lambda>(x, r). q x r) = Inr v"
    using parsesI [OF p ok *(1) 1(1)] q [of x] reader_ok_advance [OF ok 1(1)] * by (simp add: parses_all_def)
qed

lemma parses_all_pure [parse_rules]:
  assumes "\<And>x. parses_all (R x) (q x)"
  shows "parses_all (\<lambda>v bs. \<exists>x. m = Inr x \<and> R x v bs) (\<lambda>r. and_then m (\<lambda>x. q x r))"
  using assms by (cases m) (auto simp: parses_all_def)

lemma parses_all_check [parse_rules]:
  assumes "parses_all R q"
  shows "parses_all (\<lambda>v bs. \<not> c \<and> R v bs) (\<lambda>r. if c then Inl e else q r)"
  using assms by (auto simp: parses_all_def)

lemma rd_finish_iff: "reader_ok r \<Longrightarrow> rd_finish r = Inr () \<longleftrightarrow> remaining r = []"
  by (auto simp: rd_finish_def reader_ok_def remaining_def)

lemma parses_all_finish [parse_rules]:
  "parses_all (\<lambda>v bs. m = Inr v \<and> bs = []) (\<lambda>r. and_then (map_err f (rd_finish r)) (\<lambda>u. m))"
  by (auto simp: parses_all_def rd_finish_iff)

text \<open>An encoding that a step reads is self-delimiting: what follows it does not matter.\<close>

lemma parses_prefix_free:
  assumes p: "parses (\<lambda>v bs. P v \<and> bs = item v) p" and "P v" "P w" "item v @ s = item w @ t"
    and len: "length (item v @ s) \<le> u64_max"
  shows "v = w \<and> s = t"
proof -
  let ?r = "new_reader (item v @ s)"
  have ok: "reader_ok ?r" using len by simp
  have "starts_with ?r (item v)" "starts_with ?r (item w)" unfolding starts_with_new using assms(4) by blast+
  with assms(2,3) have "p ?r = Inr (v, advance ?r (length (item v)))" "p ?r = Inr (w, advance ?r (length (item w)))"
    using parsesI [OF p ok, of v "item v"] parsesI [OF p ok, of w "item w"] by simp_all
  then show ?thesis using assms(4) by simp
qed

section \<open>The reader operations as steps\<close>

lemma parses_uint [parse_rules]: "parses (\<lambda>v bs. v \<le> u64_max \<and> bs = uint_item v) rd_uint"
  using uint_codec.read_iff by (auto simp: parses_def uint_item_def)

lemma parses_int [parse_rules]:
  "parses (\<lambda>v bs. - (2 ^ 63) \<le> v \<and> v < 2 ^ 63 \<and> bs = int_item v) rd_int"
  using int_codec.read_iff by (auto simp: parses_def int_item_def)

lemma parses_bytes [parse_rules]: "parses (\<lambda>v bs. length v \<le> maximum \<and> bs = bytes_item v) (rd_bytes maximum)"
  using starts_with_length by (auto simp: parses_def bytes_item_def rd_bytes_iff)

lemma parses_text [parse_rules]:
  "parses (\<lambda>v bs. length v \<le> maximum \<and> utf8_ok v \<and> bs = text_item v) (rd_text maximum)"
  using starts_with_length by (auto simp: parses_def text_item_def rd_text_iff)

lemma parses_fixed_bytes [parse_rules]: "parses (\<lambda>v bs. length v = n \<and> bs = bytes_item v) (rd_fixed_bytes n)"
  using starts_with_length by (auto simp: parses_def bytes_item_def rd_fixed_bytes_iff)

lemma parses_array_len [parse_rules]:
  "parses (\<lambda>v bs. v \<le> maximum \<and> v \<le> u64_max \<and> bs = array_item v) (rd_array_len maximum)"
  by (auto simp: parses_def array_item_def rd_array_len_iff)

lemma parses_map_len [parse_rules]:
  "parses (\<lambda>v bs. v \<le> maximum \<and> v \<le> u64_max \<and> bs = map_item v) (rd_map_len maximum)"
  by (auto simp: parses_def map_item_def rd_map_len_iff)

lemma parses_exact [parse_rules]:
  "parses (\<lambda>v bs. k \<le> u64_max \<and> bs = uint_item k) (rd_key k)"
  "parses (\<lambda>v bs. k \<le> u64_max \<and> bs = array_item k) (rd_array k)"
  "parses (\<lambda>v bs. k \<le> u64_max \<and> bs = map_item k) (rd_map k)"
  by (auto simp: parses_def uint_item_def array_item_def map_item_def rd_exact_iff)

section \<open>Loops with a count\<close>

text \<open>\<open>for _ in 0..count { items.push(read(reader)?) }\<close>, and a loop that appends each element's
  encoding.\<close>

fun read_times :: "nat \<Rightarrow> (reader \<Rightarrow> 'e + 'v \<times> reader) \<Rightarrow> reader \<Rightarrow> 'e + 'v list \<times> reader" where
  "read_times 0 read r = Inr ([], r)"
| "read_times (Suc n) read r =
    and_then (read r) (\<lambda>(v, r). and_then (read_times n read r) (\<lambda>(vs, r). Inr (v # vs, r)))"

definition write_each :: "(bytes \<Rightarrow> 'v \<Rightarrow> bytes) \<Rightarrow> 'v list \<Rightarrow> bytes \<Rightarrow> bytes" where
  "write_each write vs out = foldl write out vs"

lemma write_each_items [items]:
  assumes "\<And>out v. write out v = out @ item v"
  shows "write_each write vs out = out @ concat (map item vs)"
  by (induction vs arbitrary: out) (simp_all add: write_each_def assms)

lemma parses_times [parse_rules]:
  assumes "parses (\<lambda>v bs. P v \<and> bs = item v) read"
  shows "parses (\<lambda>vs bs. length vs = n \<and> list_all P vs \<and> bs = concat (map item vs)) (read_times n read)"
proof (induction n)
  case 0
  then show ?case by (auto simp: parses_def starts_with_iff advance_def)
next
  case (Suc n)
  have "read_times (Suc n) read = (\<lambda>r. and_then (read r) (\<lambda>(v, r). and_then (read_times n read r) (\<lambda>(vs, r). Inr (v # vs, r))))"
    by (rule ext) simp
  moreover have "parses (\<lambda>vs bs. length vs = Suc n \<and> list_all P vs \<and> bs = concat (map item vs)) \<dots>"
    by (rule parses_cong [OF parses_then [OF assms parses_then [OF Suc.IH parses_return]]])
      (auto simp: length_Suc_conv)
  ultimately show ?case by simp
qed

text \<open>A decoder is its first step on a fresh reader, then the rest.\<close>

lemma decodes_first:
  assumes "parses R1 p" "\<And>x. parses_all (R2 x) (q x)" "length bs \<le> u64_max"
    and "(\<exists>x b1 b2. R1 x b1 \<and> R2 x v b2 \<and> bs = b1 @ b2) \<longleftrightarrow> S"
  shows "and_then (p (new_reader bs)) (\<lambda>(x, r). q x r) = Inr v \<longleftrightarrow> S"
  using parses_allD [OF parses_all_then [OF assms(1,2)] assms(3)] assms(4) by simp

text \<open>\<open>u16::try_from\<close> and its like: a value within a narrower type's range.\<close>

definition narrow :: "nat \<Rightarrow> 'e \<Rightarrow> nat \<Rightarrow> 'e + nat" where
  "narrow maximum e v = (if v \<le> maximum then Inr v else Inl e)"

lemma narrow_iff [simp]: "narrow maximum e v = Inr w \<longleftrightarrow> v \<le> maximum \<and> w = v"
  by (auto simp: narrow_def)

lemma small_key [simp]: "numeral k \<le> u64_max \<longleftrightarrow> (numeral k :: nat) \<le> 18446744073709551615" "0 \<le> u64_max" "Suc 0 \<le> u64_max"
  by (simp_all add: u64_max_def)

lemma narrow_le [simp]: "v \<le> 255 \<Longrightarrow> v \<le> u64_max" "v \<le> 65535 \<Longrightarrow> v \<le> u64_max" "v \<le> 4294967295 \<Longrightarrow> v \<le> u64_max"
  by (simp_all add: u64_max_def)

section \<open>The contract of a message codec\<close>

text \<open>What a receiver relies on of any message: what was encoded is what is decoded, and what was
  decoded is a well-typed value that can be passed on in no more bytes than it came in. The
  \<^verbatim>\<open>typed\<close> predicate states the widths the source's types enforce.\<close>

locale wire_codec =
  fixes typed :: "'v \<Rightarrow> bool"
    and encode :: "'v \<Rightarrow> bytes \<Rightarrow> 'e + bytes"
    and decode :: "bytes \<Rightarrow> 'f + 'v"
  assumes decode_encode: "\<lbrakk>typed v; encode v [] = Inr bs; length bs \<le> u64_max\<rbrakk> \<Longrightarrow> decode bs = Inr v"
    and decode_typed: "\<lbrakk>decode bs = Inr v; length bs \<le> u64_max\<rbrakk> \<Longrightarrow> typed v"
    and reencode: "\<lbrakk>decode bs = Inr v; length bs \<le> u64_max\<rbrakk> \<Longrightarrow> \<exists>bs'. encode v [] = Inr bs' \<and> length bs' \<le> length bs"
begin

lemma encode_injective:
  "\<lbrakk>typed v; typed w; encode v [] = Inr bs; encode w [] = Inr bs; length bs \<le> u64_max\<rbrakk> \<Longrightarrow> v = w"
  using decode_encode [of v bs] decode_encode [of w bs] by simp

lemma reencode_stable:
  "\<lbrakk>decode bs = Inr v; length bs \<le> u64_max; encode v [] = Inr bs'; length bs' \<le> u64_max\<rbrakk> \<Longrightarrow> decode bs' = Inr v"
  using decode_encode decode_typed by blast

end

text \<open>Where the encoding is deterministic, a decoder accepts exactly what the encoder writes.\<close>

locale payload_codec =
  fixes typed :: "'v \<Rightarrow> bool"
    and encode :: "'v \<Rightarrow> bytes \<Rightarrow> 'e + bytes"
    and decode :: "bytes \<Rightarrow> 'f + 'v"
  assumes decode_iff: "length bs \<le> u64_max \<Longrightarrow> decode bs = Inr v \<longleftrightarrow> typed v \<and> encode v [] = Inr bs"
begin

lemma decode_canonical: "decode bs = Inr v \<Longrightarrow> length bs \<le> u64_max \<Longrightarrow> encode v [] = Inr bs"
  by (simp add: decode_iff)

end

sublocale payload_codec \<subseteq> wire_codec typed encode decode
  by unfold_locales (auto simp: decode_iff)

end
