(* ===== verification/Frame_Payload.thy ===== *)
theory Frame_Payload
  imports Payload_Codec Frame_Codec
begin

text \<open>
  What the typed frame payloads share (\<open>src/crates/vot-codec/src/frames/cbor.rs\<close> and the head of
  \<open>mod.rs\<close>): the error type, the frame codec's view of a CBOR reader with its translation of
  errors, and object identifiers.
\<close>

section \<open>Errors and the reader\<close>

definition MAX_OBJECT_LENGTH :: nat where "MAX_OBJECT_LENGTH = i64_max"
definition GROUP_BYTES :: nat where "GROUP_BYTES = 65536"

datatype frame_error =
    FrEnvelope decode_error
  | WrongFrameType nat
  | FrMalformed
  | FrInvalidValue
  | FrTooLarge
  | FrManifest
  | FrSeal
  | FrReceipt

fun structural :: "cbor_error \<Rightarrow> frame_error" where
  "structural TooLarge = FrTooLarge"
| "structural Truncated = FrMalformed"
| "structural Malformed = FrMalformed"
| "structural NonCanonical = FrMalformed"
| "structural WrongType = FrMalformed"
| "structural NotUtf8 = FrMalformed"
| "structural Trailing = FrMalformed"

definition fr_uint :: "reader \<Rightarrow> frame_error + nat \<times> reader" where
  "fr_uint r = map_err structural (rd_uint r)"

definition fr_key :: "nat \<Rightarrow> reader \<Rightarrow> frame_error + unit \<times> reader" where
  "fr_key expected r = map_err (\<lambda>_. FrMalformed) (rd_key expected r)"

definition fr_map :: "nat \<Rightarrow> reader \<Rightarrow> frame_error + unit \<times> reader" where
  "fr_map expected r = map_err (\<lambda>_. FrMalformed) (rd_map expected r)"

definition fr_array :: "nat \<Rightarrow> reader \<Rightarrow> frame_error + nat \<times> reader" where
  "fr_array expected r =
    map_err (\<lambda>_. FrMalformed) (and_then (rd_array expected r) (\<lambda>(u, r). Inr (expected, r)))"

definition fr_array_len :: "nat \<Rightarrow> reader \<Rightarrow> frame_error + nat \<times> reader" where
  "fr_array_len maximum r = map_err (\<lambda>_. FrTooLarge) (rd_array_len maximum r)"

definition fr_bytes :: "nat \<Rightarrow> reader \<Rightarrow> frame_error + bytes \<times> reader" where
  "fr_bytes maximum r = map_err structural (rd_bytes maximum r)"

definition fr_text :: "nat \<Rightarrow> reader \<Rightarrow> frame_error + bytes \<times> reader" where
  "fr_text maximum r = map_err structural (rd_text maximum r)"

definition fr_fixed :: "nat \<Rightarrow> reader \<Rightarrow> frame_error + bytes \<times> reader" where
  "fr_fixed n r = map_err (\<lambda>e. if e = TooLarge then FrMalformed else structural e) (rd_fixed_bytes n r)"

definition fr_finish :: "reader \<Rightarrow> frame_error + unit" where
  "fr_finish r = map_err (\<lambda>_. FrMalformed) (rd_finish r)"

lemma fr_steps [parse_rules]:
  "parses (\<lambda>v bs. v \<le> u64_max \<and> bs = uint_item v) fr_uint"
  "parses (\<lambda>v bs. k \<le> u64_max \<and> bs = uint_item k) (fr_key k)"
  "parses (\<lambda>v bs. k \<le> u64_max \<and> bs = map_item k) (fr_map k)"
  "parses (\<lambda>v bs. v \<le> maximum \<and> v \<le> u64_max \<and> bs = array_item v) (fr_array_len maximum)"
  "parses (\<lambda>v bs. length v \<le> maximum \<and> bs = bytes_item v) (fr_bytes maximum)"
  "parses (\<lambda>v bs. length v \<le> maximum \<and> utf8_ok v \<and> bs = text_item v) (fr_text maximum)"
  "parses (\<lambda>v bs. length v = n \<and> bs = bytes_item v) (fr_fixed n)"
  unfolding fr_uint_def [abs_def] fr_key_def [abs_def] fr_map_def [abs_def] fr_array_len_def [abs_def]
    fr_bytes_def [abs_def] fr_text_def [abs_def] fr_fixed_def [abs_def]
  by (intro parses_map_err parse_rules)+

lemma fr_array_step [parse_rules]:
  "parses (\<lambda>v bs. v = k \<and> k \<le> u64_max \<and> bs = array_item k) (fr_array k)"
  unfolding fr_array_def [abs_def]
  by (rule parses_map_err, rule parses_cong, (rule parse_rules)+) auto

lemma fr_finish_step [parse_rules]:
  "parses_all (\<lambda>v bs. m = Inr v \<and> bs = []) (\<lambda>r. and_then (fr_finish r) (\<lambda>u. m))"
  unfolding fr_finish_def by (rule parses_all_finish)

section \<open>Object identifiers\<close>

record object_id =
  obj_suite :: nat
  obj_root :: bytes
  obj_length :: nat

definition object_validate :: "object_id \<Rightarrow> frame_error + unit" where
  "object_validate obj =
    (if obj_suite obj \<notin> {1, 2} \<or> MAX_OBJECT_LENGTH < obj_length obj then Inl FrInvalidValue else Inr ())"

definition encode_object :: "object_id \<Rightarrow> bytes \<Rightarrow> bytes" where
  "encode_object obj out =
    (let out = array_head out 4;
         out = cbor_uint out 1;
         out = cbor_uint out (obj_suite obj);
         out = byte_string out (obj_root obj) in
     cbor_uint out (obj_length obj))"

definition decode_object :: "reader \<Rightarrow> frame_error + object_id \<times> reader" where
  "decode_object r =
    and_then (fr_array 4 r) (\<lambda>(len, r).
    if len \<noteq> 4 then Inl FrMalformed
    else and_then (fr_uint r) (\<lambda>(version, r).
    if version \<noteq> 1 then Inl FrInvalidValue
    else and_then (fr_uint r) (\<lambda>(suite, r).
    and_then (narrow 0xffff FrInvalidValue suite) (\<lambda>suite.
    and_then (fr_fixed 32 r) (\<lambda>(root, r).
    and_then (fr_uint r) (\<lambda>(len, r).
      let object = \<lparr>obj_suite = suite, obj_root = root, obj_length = len\<rparr> in
      and_then (object_validate object) (\<lambda>u. Inr (object, r))))))))"

text \<open>The widths of the fields: \<open>u16\<close>, \<open>[u8; 32]\<close>, \<open>u64\<close>.\<close>

definition object_typed :: "object_id \<Rightarrow> bool" where
  "object_typed obj \<longleftrightarrow> obj_suite obj \<le> 0xffff \<and> length (obj_root obj) = 32 \<and> obj_length obj \<le> u64_max"

definition object_item :: "object_id \<Rightarrow> bytes" where "object_item obj = encode_object obj []"

lemma object_validate_iff: "object_validate obj = Inr u \<longleftrightarrow> obj_suite obj \<in> {1, 2} \<and> obj_length obj \<le> MAX_OBJECT_LENGTH"
  by (auto simp: object_validate_def)

lemma encode_object_items [items]: "encode_object obj out = out @ object_item obj"
  by (simp add: encode_object_def object_item_def items)

lemma object_item_eq:
  "object_item obj = array_item 4 @ uint_item 1 @ uint_item (obj_suite obj) @ bytes_item (obj_root obj) @ uint_item (obj_length obj)"
  by (simp add: object_item_def encode_object_def items)

lemma MAX_OBJECT_LENGTH_le: "MAX_OBJECT_LENGTH \<le> u64_max"
  by (simp add: MAX_OBJECT_LENGTH_def i64_max_def u64_max_def)

lemma parses_object [parse_rules]:
  "parses (\<lambda>v bs. object_typed v \<and> object_validate v = Inr () \<and> bs = object_item v) decode_object"
  unfolding decode_object_def [abs_def] Let_def
  apply (rule parses_cong, (rule parse_rules)+)
  subgoal for v bs by (cases v) (auto simp: object_item_eq object_typed_def)
  done

section \<open>Whole payloads\<close>

text \<open>A decoder that starts with a map head, and an encoder that validates before it writes.\<close>

lemmas decodes_map = decodes_first [OF fr_steps(3)]

lemma validated_codec:
  assumes "\<And>v out. encode v out = and_then (validate v) (\<lambda>u :: unit. Inr (out @ item v))"
    and "\<And>bs v. length bs \<le> u64_max \<Longrightarrow> decode bs = Inr v \<longleftrightarrow> typed v \<and> validate v = Inr () \<and> bs = item v"
  shows "payload_codec typed encode decode"
  by unfold_locales (auto simp: assms)

end
