(* ===== verification/Session_Frames.thy ===== *)
theory Session_Frames
  imports Frame_Payload
begin

text \<open>
  The authentication and session-open payloads (\<open>src/crates/vot-codec/src/frames/session.rs\<close>):
  \<open>AUTH_CONTEXT\<close>, \<open>SESSION_OPEN\<close>, \<open>SESSION_ACCEPT\<close>, \<open>SESSION_REJECT\<close>, and the two whose payload is
  not CBOR, \<open>GOAWAY\<close> and \<open>ERROR\<close>. A \<open>String\<close> is its UTF-8 bytes.
\<close>

definition MAX_AUTH_NONCE :: nat where "MAX_AUTH_NONCE = 64"
definition MIN_AUTH_NONCE :: nat where "MIN_AUTH_NONCE = 16"
definition MAX_CAPABILITY_FORMATS :: nat where "MAX_CAPABILITY_FORMATS = 16"
definition MAX_SCOPE_BYTES :: nat where "MAX_SCOPE_BYTES = 4096"
definition MAX_REJECT_DETAIL_BYTES :: nat where "MAX_REJECT_DETAIL_BYTES = 1024"
definition MAX_CAPABILITY_FORMAT :: nat where "MAX_CAPABILITY_FORMAT = 65535"
definition MAX_CAPABILITY_BYTES :: nat where "MAX_CAPABILITY_BYTES = 49152"

definition AUTHENTICATION_FAILED :: nat where "AUTHENTICATION_FAILED = 0x0201"
definition AUTHORIZATION_FAILED :: nat where "AUTHORIZATION_FAILED = 0x0202"
definition REPLAY_REJECTED :: nat where "REPLAY_REJECTED = 0x0203"

definition REGISTERED_ERROR_CODES :: "nat list" where
  "REGISTERED_ERROR_CODES =
    [0x0101, 0x0102, 0x0103, 0x0104, 0x0105, 0x0106,
     AUTHENTICATION_FAILED, AUTHORIZATION_FAILED, REPLAY_REJECTED,
     0x0301, 0x0302, 0x0303, 0x0304,
     0x0401, 0x0402, 0x0403, 0x0404, 0x0405, 0x0406,
     0x0501, 0x0502, 0x0503, 0x0601, 0x0602, 0x0701, 0x0702, 0x0703]"

section \<open>Data\<close>

datatype binding = NoBinding | ProofOfPossession

fun binding_from_wire :: "nat \<Rightarrow> binding option" where
  "binding_from_wire value =
    (if value = 0 then Some NoBinding else if value = 1 then Some ProofOfPossession else None)"

fun binding_to_wire :: "binding \<Rightarrow> nat" where
  "binding_to_wire NoBinding = 0"
| "binding_to_wire ProofOfPossession = 1"

record auth_context =
  ac_nonce :: bytes
  ac_binding :: binding
  ac_formats :: "nat list"

record session_open =
  so_session_id :: bytes
  so_capability_format :: nat
  so_capability :: bytes
  so_requested_scope :: bytes
  so_binding_proof :: bytes

record session_accept =
  sa_session_id :: bytes
  sa_granted_scope :: bytes

record session_reject =
  sr_session_id :: bytes
  sr_reason :: nat
  sr_detail :: bytes

record go_away =
  ga_cursor :: nat

record error_frame =
  ef_code :: nat
  ef_detail :: bytes

section \<open>GOAWAY and ERROR\<close>

definition encode_goaway :: "go_away \<Rightarrow> bytes \<Rightarrow> frame_error + bytes" where
  "encode_goaway value out = map_err FrEnvelope (encode_varint (ga_cursor value) out)"

definition decode_goaway :: "bytes \<Rightarrow> frame_error + go_away" where
  "decode_goaway input =
    and_then (map_err FrEnvelope (decode_varint input)) (\<lambda>(cursor, consumed).
      if consumed \<noteq> length input then Inl FrMalformed else Inr \<lparr>ga_cursor = cursor\<rparr>)"

definition encode_error_frame :: "error_frame \<Rightarrow> bytes \<Rightarrow> frame_error + bytes" where
  "encode_error_frame value out =
    (if ef_code value \<notin> set REGISTERED_ERROR_CODES then Inl FrInvalidValue
     else and_then (map_err FrEnvelope (encode_varint (ef_code value) out)) (\<lambda>out.
       Inr (out @ ef_detail value)))"

definition decode_error_frame :: "bytes \<Rightarrow> frame_error + error_frame" where
  "decode_error_frame input =
    and_then (map_err FrEnvelope (decode_varint input)) (\<lambda>(code, consumed).
    and_then (narrow 0xffff FrInvalidValue code) (\<lambda>code.
      if code \<notin> set REGISTERED_ERROR_CODES then Inl FrInvalidValue
      else Inr \<lparr>ef_code = code, ef_detail = drop consumed input\<rparr>))"

section \<open>AUTH\_CONTEXT\<close>

definition validate_auth_context :: "auth_context \<Rightarrow> frame_error + unit" where
  "validate_auth_context value =
    (if length (ac_nonce value) < MIN_AUTH_NONCE \<or> MAX_AUTH_NONCE < length (ac_nonce value) then Inl FrInvalidValue
     else if MAX_CAPABILITY_FORMATS < length (ac_formats value) then Inl FrTooLarge
     else if \<not> sorted_wrt (<) (ac_formats value) \<or>
       list_ex (\<lambda>format. format = 0 \<or> MAX_CAPABILITY_FORMAT < format) (ac_formats value)
     then Inl FrInvalidValue
     else Inr ())"

definition encode_auth_context :: "auth_context \<Rightarrow> bytes \<Rightarrow> frame_error + bytes" where
  "encode_auth_context value out =
    and_then (validate_auth_context value) (\<lambda>u.
      let out = map_head out 4;
          out = cbor_uint out 0;
          out = cbor_uint out 0;
          out = cbor_uint out 1;
          out = byte_string out (ac_nonce value);
          out = cbor_uint out 2;
          out = cbor_uint out (binding_to_wire (ac_binding value));
          out = cbor_uint out 3;
          out = array_head out (length (ac_formats value)) in
      Inr (write_each cbor_uint (ac_formats value) out))"

definition decode_auth_context :: "bytes \<Rightarrow> frame_error + auth_context" where
  "decode_auth_context input =
    and_then (fr_map 4 (new_reader input)) (\<lambda>(u, r).
    and_then (fr_key 0 r) (\<lambda>(u, r).
    and_then (fr_uint r) (\<lambda>(version, r).
    if version \<noteq> 0 then Inl FrInvalidValue
    else and_then (fr_key 1 r) (\<lambda>(u, r).
    and_then (fr_bytes MAX_AUTH_NONCE r) (\<lambda>(nonce, r).
    and_then (fr_key 2 r) (\<lambda>(u, r).
    and_then (fr_uint r) (\<lambda>(wire, r).
    and_then (ok_or (binding_from_wire wire) FrInvalidValue) (\<lambda>binding.
    and_then (fr_key 3 r) (\<lambda>(u, r).
    and_then (fr_array_len MAX_CAPABILITY_FORMATS r) (\<lambda>(count, r).
    and_then (read_times count fr_uint r) (\<lambda>(formats, r).
    and_then (fr_finish r) (\<lambda>u.
      let value = \<lparr>ac_nonce = nonce, ac_binding = binding, ac_formats = formats\<rparr> in
      and_then (validate_auth_context value) (\<lambda>u. Inr value)))))))))))))"

section \<open>SESSION\_OPEN, SESSION\_ACCEPT and SESSION\_REJECT\<close>

definition validate_session_open :: "session_open \<Rightarrow> frame_error + unit" where
  "validate_session_open value =
    (if so_capability_format value = 0 \<or> MAX_CAPABILITY_FORMAT < so_capability_format value then Inl FrInvalidValue
     else if MAX_CAPABILITY_BYTES < length (so_capability value) \<or>
       MAX_SCOPE_BYTES < length (so_requested_scope value) \<or>
       MAX_SCOPE_BYTES < length (so_binding_proof value)
     then Inl FrTooLarge
     else Inr ())"

definition encode_session_open :: "session_open \<Rightarrow> bytes \<Rightarrow> frame_error + bytes" where
  "encode_session_open value out =
    and_then (validate_session_open value) (\<lambda>u.
      let out = map_head out 6;
          out = cbor_uint out 0;
          out = cbor_uint out 0;
          out = cbor_uint out 1;
          out = byte_string out (so_session_id value);
          out = cbor_uint out 2;
          out = cbor_uint out (so_capability_format value);
          out = cbor_uint out 3;
          out = byte_string out (so_capability value);
          out = cbor_uint out 4;
          out = byte_string out (so_requested_scope value);
          out = cbor_uint out 5 in
      Inr (byte_string out (so_binding_proof value)))"

definition decode_session_open :: "bytes \<Rightarrow> frame_error + session_open" where
  "decode_session_open input =
    and_then (fr_map 6 (new_reader input)) (\<lambda>(u, r).
    and_then (fr_key 0 r) (\<lambda>(u, r).
    and_then (fr_uint r) (\<lambda>(version, r).
    if version \<noteq> 0 then Inl FrInvalidValue
    else and_then (fr_key 1 r) (\<lambda>(u, r).
    and_then (fr_fixed 16 r) (\<lambda>(session_id, r).
    and_then (fr_key 2 r) (\<lambda>(u, r).
    and_then (fr_uint r) (\<lambda>(capability_format, r).
    and_then (fr_key 3 r) (\<lambda>(u, r).
    and_then (fr_bytes MAX_CAPABILITY_BYTES r) (\<lambda>(capability, r).
    and_then (fr_key 4 r) (\<lambda>(u, r).
    and_then (fr_bytes MAX_SCOPE_BYTES r) (\<lambda>(requested_scope, r).
    and_then (fr_key 5 r) (\<lambda>(u, r).
    and_then (fr_bytes MAX_SCOPE_BYTES r) (\<lambda>(binding_proof, r).
    and_then (fr_finish r) (\<lambda>u.
      let value = \<lparr>so_session_id = session_id, so_capability_format = capability_format,
        so_capability = capability, so_requested_scope = requested_scope, so_binding_proof = binding_proof\<rparr> in
      and_then (validate_session_open value) (\<lambda>u. Inr value)))))))))))))))"

definition validate_session_accept :: "session_accept \<Rightarrow> frame_error + unit" where
  "validate_session_accept value =
    (if MAX_SCOPE_BYTES < length (sa_granted_scope value) then Inl FrTooLarge else Inr ())"

definition encode_session_accept :: "session_accept \<Rightarrow> bytes \<Rightarrow> frame_error + bytes" where
  "encode_session_accept value out =
    and_then (validate_session_accept value) (\<lambda>u.
      let out = map_head out 3;
          out = cbor_uint out 0;
          out = cbor_uint out 0;
          out = cbor_uint out 1;
          out = byte_string out (sa_session_id value);
          out = cbor_uint out 2 in
      Inr (byte_string out (sa_granted_scope value)))"

definition decode_session_accept :: "bytes \<Rightarrow> frame_error + session_accept" where
  "decode_session_accept input =
    and_then (fr_map 3 (new_reader input)) (\<lambda>(u, r).
    and_then (fr_key 0 r) (\<lambda>(u, r).
    and_then (fr_uint r) (\<lambda>(version, r).
    if version \<noteq> 0 then Inl FrInvalidValue
    else and_then (fr_key 1 r) (\<lambda>(u, r).
    and_then (fr_fixed 16 r) (\<lambda>(session_id, r).
    and_then (fr_key 2 r) (\<lambda>(u, r).
    and_then (fr_bytes MAX_SCOPE_BYTES r) (\<lambda>(granted_scope, r).
    and_then (fr_finish r) (\<lambda>u.
      let value = \<lparr>sa_session_id = session_id, sa_granted_scope = granted_scope\<rparr> in
      and_then (validate_session_accept value) (\<lambda>u. Inr value)))))))))"

definition validate_session_reject :: "session_reject \<Rightarrow> frame_error + unit" where
  "validate_session_reject value =
    (let registered = sr_reason value \<in> {AUTHENTICATION_FAILED, AUTHORIZATION_FAILED, REPLAY_REJECTED} in
     if \<not> registered \<or> MAX_REJECT_DETAIL_BYTES < length (sr_detail value) then Inl FrInvalidValue
     else Inr ())"

definition encode_session_reject :: "session_reject \<Rightarrow> bytes \<Rightarrow> frame_error + bytes" where
  "encode_session_reject value out =
    and_then (validate_session_reject value) (\<lambda>u.
      let out = map_head out 4;
          out = cbor_uint out 0;
          out = cbor_uint out 0;
          out = cbor_uint out 1;
          out = byte_string out (sr_session_id value);
          out = cbor_uint out 2;
          out = cbor_uint out (sr_reason value);
          out = cbor_uint out 3 in
      Inr (text_string out (sr_detail value)))"

definition decode_session_reject :: "bytes \<Rightarrow> frame_error + session_reject" where
  "decode_session_reject input =
    and_then (fr_map 4 (new_reader input)) (\<lambda>(u, r).
    and_then (fr_key 0 r) (\<lambda>(u, r).
    and_then (fr_uint r) (\<lambda>(version, r).
    if version \<noteq> 0 then Inl FrInvalidValue
    else and_then (fr_key 1 r) (\<lambda>(u, r).
    and_then (fr_fixed 16 r) (\<lambda>(session_id, r).
    and_then (fr_key 2 r) (\<lambda>(u, r).
    and_then (fr_uint r) (\<lambda>(reason, r).
    and_then (fr_key 3 r) (\<lambda>(u, r).
    and_then (fr_text MAX_REJECT_DETAIL_BYTES r) (\<lambda>(detail, r).
    and_then (fr_finish r) (\<lambda>u.
      let value = \<lparr>sr_session_id = session_id, sr_reason = reason, sr_detail = detail\<rparr> in
      and_then (validate_session_reject value) (\<lambda>u. Inr value)))))))))))"

section \<open>Round trips\<close>

definition auth_context_typed :: "auth_context \<Rightarrow> bool" where
  "auth_context_typed v \<longleftrightarrow> list_all (\<lambda>f. f \<le> u64_max) (ac_formats v)"

definition session_open_typed :: "session_open \<Rightarrow> bool" where
  "session_open_typed v \<longleftrightarrow> length (so_session_id v) = 16 \<and> so_capability_format v \<le> u64_max"

definition session_accept_typed :: "session_accept \<Rightarrow> bool" where
  "session_accept_typed v \<longleftrightarrow> length (sa_session_id v) = 16"

definition session_reject_typed :: "session_reject \<Rightarrow> bool" where
  "session_reject_typed v \<longleftrightarrow> length (sr_session_id v) = 16 \<and> sr_reason v \<le> u64_max \<and> utf8_ok (sr_detail v)"

definition session_accept_item :: "session_accept \<Rightarrow> bytes" where
  "session_accept_item v =
    map_item 3 @ uint_item 0 @ uint_item 0 @ uint_item 1 @ bytes_item (sa_session_id v) @
    uint_item 2 @ bytes_item (sa_granted_scope v)"

definition session_open_item :: "session_open \<Rightarrow> bytes" where
  "session_open_item v =
    map_item 6 @ uint_item 0 @ uint_item 0 @ uint_item 1 @ bytes_item (so_session_id v) @
    uint_item 2 @ uint_item (so_capability_format v) @ uint_item 3 @ bytes_item (so_capability v) @
    uint_item 4 @ bytes_item (so_requested_scope v) @ uint_item 5 @ bytes_item (so_binding_proof v)"

definition session_reject_item :: "session_reject \<Rightarrow> bytes" where
  "session_reject_item v =
    map_item 4 @ uint_item 0 @ uint_item 0 @ uint_item 1 @ bytes_item (sr_session_id v) @
    uint_item 2 @ uint_item (sr_reason v) @ uint_item 3 @ text_item (sr_detail v)"

definition auth_context_item :: "auth_context \<Rightarrow> bytes" where
  "auth_context_item v =
    map_item 4 @ uint_item 0 @ uint_item 0 @ uint_item 1 @ bytes_item (ac_nonce v) @
    uint_item 2 @ uint_item (binding_to_wire (ac_binding v)) @ uint_item 3 @
    array_item (length (ac_formats v)) @ concat (map uint_item (ac_formats v))"

lemma encode_session_items:
  "encode_auth_context v out = and_then (validate_auth_context v) (\<lambda>u. Inr (out @ auth_context_item v))"
  "encode_session_open w out = and_then (validate_session_open w) (\<lambda>u. Inr (out @ session_open_item w))"
  "encode_session_accept x out = and_then (validate_session_accept x) (\<lambda>u. Inr (out @ session_accept_item x))"
  "encode_session_reject y out = and_then (validate_session_reject y) (\<lambda>u. Inr (out @ session_reject_item y))"
  by (simp_all add: encode_auth_context_def encode_session_open_def encode_session_accept_def
      encode_session_reject_def auth_context_item_def session_open_item_def session_accept_item_def
      session_reject_item_def items)

lemma decode_session_accept_iff:
  assumes "length bs \<le> u64_max"
  shows "decode_session_accept bs = Inr v \<longleftrightarrow>
    session_accept_typed v \<and> validate_session_accept v = Inr () \<and> bs = session_accept_item v"
  unfolding decode_session_accept_def Let_def
  by (rule decodes_map, (rule parse_rules)+, fact assms, cases v)
    (auto simp: session_accept_typed_def session_accept_item_def validate_session_accept_def)

lemma decode_session_open_iff:
  assumes "length bs \<le> u64_max"
  shows "decode_session_open bs = Inr v \<longleftrightarrow>
    session_open_typed v \<and> validate_session_open v = Inr () \<and> bs = session_open_item v"
  unfolding decode_session_open_def Let_def
  by (rule decodes_map, (rule parse_rules)+, fact assms, cases v)
    (auto simp: session_open_typed_def session_open_item_def validate_session_open_def)

lemma decode_session_reject_iff:
  assumes "length bs \<le> u64_max"
  shows "decode_session_reject bs = Inr v \<longleftrightarrow>
    session_reject_typed v \<and> validate_session_reject v = Inr () \<and> bs = session_reject_item v"
  unfolding decode_session_reject_def Let_def
  by (rule decodes_map, (rule parse_rules)+, fact assms, cases v)
    (auto simp: session_reject_typed_def session_reject_item_def validate_session_reject_def)

lemma binding_wire: "binding_from_wire w = Some b \<longleftrightarrow> w = binding_to_wire b"
  by (cases b) auto

lemma binding_to_wire_le: "binding_to_wire b \<le> u64_max"
  by (cases b) auto

lemma formats_le: "n \<le> MAX_CAPABILITY_FORMATS \<Longrightarrow> n \<le> u64_max"
  by (simp add: MAX_CAPABILITY_FORMATS_def u64_max_def)

lemma decode_auth_context_iff:
  assumes "length bs \<le> u64_max"
  shows "decode_auth_context bs = Inr v \<longleftrightarrow>
    auth_context_typed v \<and> validate_auth_context v = Inr () \<and> bs = auth_context_item v"
  unfolding decode_auth_context_def Let_def
  by (rule decodes_map, (rule parse_rules)+, fact assms, cases v)
    (auto simp: auth_context_typed_def auth_context_item_def validate_auth_context_def binding_wire binding_to_wire_le formats_le not_less simp del: binding_from_wire.simps)

interpretation auth_context: payload_codec auth_context_typed encode_auth_context decode_auth_context
  by (rule validated_codec [OF encode_session_items(1) decode_auth_context_iff])

interpretation session_open: payload_codec session_open_typed encode_session_open decode_session_open
  by (rule validated_codec [OF encode_session_items(2) decode_session_open_iff])

interpretation session_accept: payload_codec session_accept_typed encode_session_accept decode_session_accept
  by (rule validated_codec [OF encode_session_items(3) decode_session_accept_iff])

interpretation session_reject: payload_codec session_reject_typed encode_session_reject decode_session_reject
  by (rule validated_codec [OF encode_session_items(4) decode_session_reject_iff])

text \<open>\<open>GOAWAY\<close> and \<open>ERROR\<close> carry QUIC varints, which may be padded: what was decoded re-encodes, in no
  more bytes, but not always in the same ones.\<close>

definition go_away_typed :: "go_away \<Rightarrow> bool" where
  "go_away_typed v \<longleftrightarrow> ga_cursor v \<le> u64_max"

definition error_frame_typed :: "error_frame \<Rightarrow> bool" where
  "error_frame_typed v \<longleftrightarrow> ef_code v \<le> 0xffff"

interpretation go_away: wire_codec go_away_typed encode_goaway decode_goaway
proof
  fix v and bs :: bytes assume "encode_goaway v [] = Inr bs"
  then show "decode_goaway bs = Inr v"
    using decode_varint_varint [of "ga_cursor v" "[]"]
    by (auto simp: encode_goaway_def encode_varint_eq decode_goaway_def split: if_splits)
next
  fix bs :: bytes and v assume "decode_goaway bs = Inr v"
  then obtain w where w: "decode_varint bs = Inr (ga_cursor v, w)" "w = length bs"
    by (auto simp: decode_goaway_def split: if_splits)
  from decode_varint_shortest [OF w(1)] w(2)
  show "\<exists>bs'. encode_goaway v [] = Inr bs' \<and> length bs' \<le> length bs" "go_away_typed v"
    by (simp_all add: encode_goaway_def encode_varint_eq leD go_away_typed_def MAX_QUIC_VARINT_def u64_max_def)
qed

lemma registered_codes: "code \<in> set REGISTERED_ERROR_CODES \<Longrightarrow> code \<le> MAX_QUIC_VARINT \<and> code \<le> 0xffff"
  by (auto simp: REGISTERED_ERROR_CODES_def AUTHENTICATION_FAILED_def AUTHORIZATION_FAILED_def
      REPLAY_REJECTED_def MAX_QUIC_VARINT_def)

interpretation error_frame: wire_codec error_frame_typed encode_error_frame decode_error_frame
proof
  fix v and bs :: bytes assume "encode_error_frame v [] = Inr bs"
  then have v: "ef_code v \<in> set REGISTERED_ERROR_CODES" and bs: "bs = varint (ef_code v) @ ef_detail v"
    using registered_codes by (auto simp: encode_error_frame_def encode_varint_eq leD split: if_splits)
  with registered_codes [OF v] decode_varint_varint [of "ef_code v"]
  show "decode_error_frame bs = Inr v" by (simp add: decode_error_frame_def narrow_def)
next
  fix bs :: bytes and v assume "decode_error_frame bs = Inr v"
  then obtain w where w: "decode_varint bs = Inr (ef_code v, w)" "ef_detail v = drop w bs"
      and v: "ef_code v \<in> set REGISTERED_ERROR_CODES" "ef_code v \<le> 0xffff"
    by (auto simp: decode_error_frame_def split: if_splits)
  from decode_varint_shortest [OF w(1)] decode_varint_width [OF w(1)] w(2) v
  show "\<exists>bs'. encode_error_frame v [] = Inr bs' \<and> length bs' \<le> length bs" "error_frame_typed v"
    by (auto simp: encode_error_frame_def encode_varint_eq leD error_frame_typed_def)
qed

end
