(* ===== verification/Object_Frames.thy ===== *)
theory Object_Frames
  imports Frame_Payload
begin

text \<open>
  The package descriptor and manifest request (\<open>src/crates/vot-codec/src/frames/manifest.rs\<close>) and
  the capacity and assurance payloads (\<open>assurance.rs\<close>). The payloads that carry another crate's
  encoding (manifest pages, seals, receipts) are with that encoding.
\<close>

definition MAX_MANIFEST_REQUEST_PAGES :: nat where "MAX_MANIFEST_REQUEST_PAGES = 8192"

record package_descriptor =
  pd_package :: object_id
  pd_manifest_id :: bytes
  pd_page_count :: nat

record manifest_request =
  mr_request_id :: bytes
  mr_manifest_id :: bytes
  mr_first_page :: nat
  mr_page_count :: nat

record capacity =
  cap_epoch :: nat
  cap_available_bytes :: nat
  cap_bdp_target_bytes :: nat
  cap_max_inflight_bytes :: nat

record assurance_frame =
  af_object :: object_id
  af_sequence :: nat
  af_unit_start :: nat
  af_unit_count :: nat

section \<open>Package descriptors and manifest requests\<close>

definition encode_package_descriptor :: "package_descriptor \<Rightarrow> bytes \<Rightarrow> frame_error + bytes" where
  "encode_package_descriptor value out =
    and_then (object_validate (pd_package value)) (\<lambda>u.
      if pd_page_count value = 0 then Inl FrInvalidValue
      else
        let out = map_head out 3;
            out = cbor_uint out 0;
            out = encode_object (pd_package value) out;
            out = cbor_uint out 1;
            out = byte_string out (pd_manifest_id value);
            out = cbor_uint out 2 in
        Inr (cbor_uint out (pd_page_count value)))"

definition decode_package_descriptor :: "bytes \<Rightarrow> frame_error + package_descriptor" where
  "decode_package_descriptor input =
    and_then (fr_map 3 (new_reader input)) (\<lambda>(u, r).
    and_then (fr_key 0 r) (\<lambda>(u, r).
    and_then (decode_object r) (\<lambda>(package, r).
    and_then (fr_key 1 r) (\<lambda>(u, r).
    and_then (fr_fixed 16 r) (\<lambda>(manifest_id, r).
    and_then (fr_key 2 r) (\<lambda>(u, r).
    and_then (fr_uint r) (\<lambda>(page_count, r).
    and_then (fr_finish r) (\<lambda>u.
      let value = \<lparr>pd_package = package, pd_manifest_id = manifest_id, pd_page_count = page_count\<rparr> in
      if pd_page_count value = 0 then Inl FrInvalidValue else Inr value))))))))"

definition validate_manifest_request :: "manifest_request \<Rightarrow> frame_error + unit" where
  "validate_manifest_request value =
    (if mr_page_count value = 0 \<or> MAX_MANIFEST_REQUEST_PAGES < mr_page_count value \<or>
       MAX_OBJECT_LENGTH < mr_first_page value \<or>
       checked_add (mr_first_page value) (mr_page_count value) = None
     then Inl FrInvalidValue else Inr ())"

definition encode_manifest_request :: "manifest_request \<Rightarrow> bytes \<Rightarrow> frame_error + bytes" where
  "encode_manifest_request value out =
    and_then (validate_manifest_request value) (\<lambda>u.
      let out = map_head out 4;
          out = cbor_uint out 0;
          out = byte_string out (mr_request_id value);
          out = cbor_uint out 1;
          out = byte_string out (mr_manifest_id value);
          out = cbor_uint out 2;
          out = cbor_uint out (mr_first_page value);
          out = cbor_uint out 3 in
      Inr (cbor_uint out (mr_page_count value)))"

definition decode_manifest_request :: "bytes \<Rightarrow> frame_error + manifest_request" where
  "decode_manifest_request input =
    and_then (fr_map 4 (new_reader input)) (\<lambda>(u, r).
    and_then (fr_key 0 r) (\<lambda>(u, r).
    and_then (fr_fixed 16 r) (\<lambda>(request_id, r).
    and_then (fr_key 1 r) (\<lambda>(u, r).
    and_then (fr_fixed 16 r) (\<lambda>(manifest_id, r).
    and_then (fr_key 2 r) (\<lambda>(u, r).
    and_then (fr_uint r) (\<lambda>(first_page, r).
    and_then (fr_key 3 r) (\<lambda>(u, r).
    and_then (fr_uint r) (\<lambda>(page_count, r).
    and_then (fr_finish r) (\<lambda>u.
      let value = \<lparr>mr_request_id = request_id, mr_manifest_id = manifest_id,
        mr_first_page = first_page, mr_page_count = page_count\<rparr> in
      and_then (validate_manifest_request value) (\<lambda>u. Inr value)))))))))))"

section \<open>Capacity and assurance\<close>

definition encode_capacity :: "capacity \<Rightarrow> bytes \<Rightarrow> bytes" where
  "encode_capacity value out =
    (let out = map_head out 4;
         out = cbor_uint out 0;
         out = cbor_uint out (cap_epoch value);
         out = cbor_uint out 1;
         out = cbor_uint out (cap_available_bytes value);
         out = cbor_uint out 2;
         out = cbor_uint out (cap_bdp_target_bytes value);
         out = cbor_uint out 3 in
     cbor_uint out (cap_max_inflight_bytes value))"

definition decode_capacity :: "bytes \<Rightarrow> frame_error + capacity" where
  "decode_capacity input =
    and_then (fr_map 4 (new_reader input)) (\<lambda>(u, r).
    and_then (fr_key 0 r) (\<lambda>(u, r).
    and_then (fr_uint r) (\<lambda>(epoch, r).
    and_then (fr_key 1 r) (\<lambda>(u, r).
    and_then (fr_uint r) (\<lambda>(available_bytes, r).
    and_then (fr_key 2 r) (\<lambda>(u, r).
    and_then (fr_uint r) (\<lambda>(bdp_target_bytes, r).
    and_then (fr_key 3 r) (\<lambda>(u, r).
    and_then (fr_uint r) (\<lambda>(max_inflight_bytes, r).
    and_then (fr_finish r) (\<lambda>u.
      Inr \<lparr>cap_epoch = epoch, cap_available_bytes = available_bytes,
        cap_bdp_target_bytes = bdp_target_bytes, cap_max_inflight_bytes = max_inflight_bytes\<rparr>))))))))))"

definition validate_assurance :: "assurance_frame \<Rightarrow> frame_error + unit" where
  "validate_assurance value =
    and_then (object_validate (af_object value)) (\<lambda>u.
      if af_sequence value = 0 \<or> af_unit_count value = 0 \<or>
        \<not> is_some_and (checked_add (af_unit_start value) (af_unit_count value))
            (\<lambda>stop. stop \<le> div_ceil (obj_length (af_object value)) GROUP_BYTES)
      then Inl FrInvalidValue else Inr ())"

definition encode_assurance :: "assurance_frame \<Rightarrow> bytes \<Rightarrow> frame_error + bytes" where
  "encode_assurance value out =
    and_then (validate_assurance value) (\<lambda>u.
      let out = map_head out 4;
          out = cbor_uint out 0;
          out = encode_object (af_object value) out;
          out = cbor_uint out 1;
          out = cbor_uint out (af_sequence value);
          out = cbor_uint out 2;
          out = cbor_uint out (af_unit_start value);
          out = cbor_uint out 3 in
      Inr (cbor_uint out (af_unit_count value)))"

definition decode_assurance :: "bytes \<Rightarrow> frame_error + assurance_frame" where
  "decode_assurance input =
    and_then (fr_map 4 (new_reader input)) (\<lambda>(u, r).
    and_then (fr_key 0 r) (\<lambda>(u, r).
    and_then (decode_object r) (\<lambda>(object, r).
    and_then (fr_key 1 r) (\<lambda>(u, r).
    and_then (fr_uint r) (\<lambda>(sequence, r).
    and_then (fr_key 2 r) (\<lambda>(u, r).
    and_then (fr_uint r) (\<lambda>(unit_start, r).
    and_then (fr_key 3 r) (\<lambda>(u, r).
    and_then (fr_uint r) (\<lambda>(unit_count, r).
    and_then (fr_finish r) (\<lambda>u.
      let value = \<lparr>af_object = object, af_sequence = sequence, af_unit_start = unit_start,
        af_unit_count = unit_count\<rparr> in
      and_then (validate_assurance value) (\<lambda>u. Inr value)))))))))))"

section \<open>Round trips\<close>

definition validate_package_descriptor :: "package_descriptor \<Rightarrow> frame_error + unit" where
  "validate_package_descriptor v =
    and_then (object_validate (pd_package v)) (\<lambda>u. if pd_page_count v = 0 then Inl FrInvalidValue else Inr ())"

definition package_descriptor_typed :: "package_descriptor \<Rightarrow> bool" where
  "package_descriptor_typed v \<longleftrightarrow>
    object_typed (pd_package v) \<and> length (pd_manifest_id v) = 16 \<and> pd_page_count v \<le> u64_max"

definition manifest_request_typed :: "manifest_request \<Rightarrow> bool" where
  "manifest_request_typed v \<longleftrightarrow> length (mr_request_id v) = 16 \<and> length (mr_manifest_id v) = 16 \<and>
    mr_first_page v \<le> u64_max \<and> mr_page_count v \<le> u64_max"

definition capacity_typed :: "capacity \<Rightarrow> bool" where
  "capacity_typed v \<longleftrightarrow> cap_epoch v \<le> u64_max \<and> cap_available_bytes v \<le> u64_max \<and>
    cap_bdp_target_bytes v \<le> u64_max \<and> cap_max_inflight_bytes v \<le> u64_max"

definition assurance_frame_typed :: "assurance_frame \<Rightarrow> bool" where
  "assurance_frame_typed v \<longleftrightarrow> object_typed (af_object v) \<and> af_sequence v \<le> u64_max \<and>
    af_unit_start v \<le> u64_max \<and> af_unit_count v \<le> u64_max"

definition package_descriptor_item :: "package_descriptor \<Rightarrow> bytes" where
  "package_descriptor_item v = map_item 3 @ uint_item 0 @ object_item (pd_package v) @
    uint_item 1 @ bytes_item (pd_manifest_id v) @ uint_item 2 @ uint_item (pd_page_count v)"

definition manifest_request_item :: "manifest_request \<Rightarrow> bytes" where
  "manifest_request_item v = map_item 4 @ uint_item 0 @ bytes_item (mr_request_id v) @
    uint_item 1 @ bytes_item (mr_manifest_id v) @ uint_item 2 @ uint_item (mr_first_page v) @
    uint_item 3 @ uint_item (mr_page_count v)"

definition capacity_item :: "capacity \<Rightarrow> bytes" where
  "capacity_item v = map_item 4 @ uint_item 0 @ uint_item (cap_epoch v) @
    uint_item 1 @ uint_item (cap_available_bytes v) @ uint_item 2 @ uint_item (cap_bdp_target_bytes v) @
    uint_item 3 @ uint_item (cap_max_inflight_bytes v)"

definition assurance_frame_item :: "assurance_frame \<Rightarrow> bytes" where
  "assurance_frame_item v = map_item 4 @ uint_item 0 @ object_item (af_object v) @
    uint_item 1 @ uint_item (af_sequence v) @ uint_item 2 @ uint_item (af_unit_start v) @
    uint_item 3 @ uint_item (af_unit_count v)"

lemma encode_object_frame_items:
  "encode_package_descriptor v out = and_then (validate_package_descriptor v) (\<lambda>u. Inr (out @ package_descriptor_item v))"
  "encode_manifest_request w out = and_then (validate_manifest_request w) (\<lambda>u. Inr (out @ manifest_request_item w))"
  "Inr (encode_capacity x out) = and_then (Inr ()) (\<lambda>u. Inr (out @ capacity_item x))"
  "encode_assurance y out = and_then (validate_assurance y) (\<lambda>u. Inr (out @ assurance_frame_item y))"
  by (cases "object_validate (pd_package v)")
    (simp_all add: encode_package_descriptor_def encode_manifest_request_def encode_capacity_def
      encode_assurance_def package_descriptor_item_def manifest_request_item_def capacity_item_def
      assurance_frame_item_def validate_package_descriptor_def items)

lemma decode_package_descriptor_iff:
  assumes "length bs \<le> u64_max"
  shows "decode_package_descriptor bs = Inr v \<longleftrightarrow>
    package_descriptor_typed v \<and> validate_package_descriptor v = Inr () \<and> bs = package_descriptor_item v"
  unfolding decode_package_descriptor_def Let_def
  by (rule decodes_map, (rule parse_rules)+, fact assms, cases v)
    (auto simp: package_descriptor_typed_def package_descriptor_item_def validate_package_descriptor_def)

lemma decode_manifest_request_iff:
  assumes "length bs \<le> u64_max"
  shows "decode_manifest_request bs = Inr v \<longleftrightarrow>
    manifest_request_typed v \<and> validate_manifest_request v = Inr () \<and> bs = manifest_request_item v"
  unfolding decode_manifest_request_def Let_def
  by (rule decodes_map, (rule parse_rules)+, fact assms, cases v)
    (auto simp: manifest_request_typed_def manifest_request_item_def)

lemma decode_capacity_iff:
  assumes "length bs \<le> u64_max"
  shows "decode_capacity bs = Inr v \<longleftrightarrow> capacity_typed v \<and> Inr () = (Inr () :: frame_error + unit) \<and> bs = capacity_item v"
  unfolding decode_capacity_def Let_def
  by (rule decodes_map, (rule parse_rules)+, fact assms, cases v)
    (auto simp: capacity_typed_def capacity_item_def)

lemma decode_assurance_iff:
  assumes "length bs \<le> u64_max"
  shows "decode_assurance bs = Inr v \<longleftrightarrow>
    assurance_frame_typed v \<and> validate_assurance v = Inr () \<and> bs = assurance_frame_item v"
  unfolding decode_assurance_def Let_def
  by (rule decodes_map, (rule parse_rules)+, fact assms, cases v)
    (auto simp: assurance_frame_typed_def assurance_frame_item_def validate_assurance_def)

interpretation package_descriptor:
  payload_codec package_descriptor_typed encode_package_descriptor decode_package_descriptor
  by (rule validated_codec [OF encode_object_frame_items(1) decode_package_descriptor_iff])

interpretation manifest_request: payload_codec manifest_request_typed encode_manifest_request decode_manifest_request
  by (rule validated_codec [OF encode_object_frame_items(2) decode_manifest_request_iff])

interpretation capacity: payload_codec capacity_typed "\<lambda>v out. Inr (encode_capacity v out) :: frame_error + bytes" decode_capacity
  by (rule validated_codec [OF encode_object_frame_items(3) decode_capacity_iff])

interpretation assurance_frame: payload_codec assurance_frame_typed encode_assurance decode_assurance
  by (rule validated_codec [OF encode_object_frame_items(4) decode_assurance_iff])

end
