(* ===== verification/Transfer_Frames.thy ===== *)
theory Transfer_Frames
  imports Frame_Payload
begin

text \<open>
  The range, proof, data and have payloads (\<open>src/crates/vot-codec/src/frames/transfer.rs\<close>), with
  the length functions the encoders rely on. A \<open>DataRecordRef\<close> borrows what a \<open>DataRecord\<close> owns;
  both are the record \<open>data_record\<close>, and the conversions between them are the identity.
\<close>

definition MAX_REQUESTED_RANGE :: nat where "MAX_REQUESTED_RANGE = 4194304"
definition MAX_PROOF_BYTES :: nat where "MAX_PROOF_BYTES = 16 * 1024 * 1024"
definition MAX_DATA_BYTES :: nat where "MAX_DATA_BYTES = 256 * 1024"
definition MAX_HAVE_RUNS :: nat where "MAX_HAVE_RUNS = 2097152"
definition MAX_DATA_RECORDS_PER_BUNDLE :: nat where "MAX_DATA_RECORDS_PER_BUNDLE = 17"

section \<open>Data\<close>

record range_request =
  rq_request_id :: bytes
  rq_object :: object_id
  rq_offset :: nat
  rq_length :: nat

record proof_bundle =
  pb_request_id :: bytes
  pb_bundle_id :: bytes
  pb_object :: object_id
  pb_requested_offset :: nat
  pb_requested_length :: nat
  pb_covered_offset :: nat
  pb_covered_length :: nat
  pb_data_record_count :: nat
  pb_total_plaintext_length :: nat
  pb_proof :: bytes

record data_record =
  dr_bundle_id :: bytes
  dr_record_index :: nat
  dr_plaintext_offset :: nat
  dr_plaintext_length :: nat
  dr_compression :: nat
  dr_encoded :: bytes

record data_record_header =
  dh_bundle_id :: bytes
  dh_record_index :: nat
  dh_plaintext_offset :: nat
  dh_plaintext_length :: nat
  dh_compression :: nat
  dh_encoded_length :: nat

record have_run =
  hr_start_group :: nat
  hr_group_count :: nat

record have_map =
  hv_object :: object_id
  hv_map_sequence :: nat
  hv_runs :: "have_run list"

definition data_record_header_of :: "data_record \<Rightarrow> data_record_header" where
  "data_record_header_of value =
    \<lparr>dh_bundle_id = dr_bundle_id value, dh_record_index = dr_record_index value,
     dh_plaintext_offset = dr_plaintext_offset value, dh_plaintext_length = dr_plaintext_length value,
     dh_compression = dr_compression value, dh_encoded_length = length (dr_encoded value)\<rparr>"

section \<open>Lengths\<close>

definition cbor_head_len :: "nat \<Rightarrow> nat" where
  "cbor_head_len value =
    (if value \<le> 23 then 1 else if value \<le> 0xff then 2 else if value \<le> 0xffff then 3
     else if value \<le> 0xffffffff then 5 else 9)"

definition cbor_byte_string_len :: "nat \<Rightarrow> nat" where
  "cbor_byte_string_len len = saturating_add (cbor_head_len len) len"

text \<open>A chain of \<open>saturating_add\<close>s.\<close>

definition saturating_total :: "nat list \<Rightarrow> nat" where
  "saturating_total parts = foldl saturating_add (hd parts) (tl parts)"

definition proof_bundle_payload_len_with :: "proof_bundle \<Rightarrow> nat \<Rightarrow> nat" where
  "proof_bundle_payload_len_with value proof_len =
    (let object_length = saturating_total
           [cbor_head_len 4, cbor_head_len 1, cbor_head_len (obj_suite (pb_object value)),
            cbor_byte_string_len 32, cbor_head_len (obj_length (pb_object value))] in
     saturating_total
       [cbor_head_len 11, cbor_head_len 0, cbor_head_len 0, cbor_head_len 1, cbor_byte_string_len 16,
        cbor_head_len 2, cbor_byte_string_len 16, cbor_head_len 3, object_length,
        cbor_head_len 4, cbor_head_len (pb_requested_offset value),
        cbor_head_len 5, cbor_head_len (pb_requested_length value),
        cbor_head_len 6, cbor_head_len (pb_covered_offset value),
        cbor_head_len 7, cbor_head_len (pb_covered_length value),
        cbor_head_len 8, cbor_head_len (pb_data_record_count value),
        cbor_head_len 9, cbor_head_len (pb_total_plaintext_length value),
        cbor_head_len 10, cbor_byte_string_len proof_len])"

definition data_record_payload_len :: "data_record_header \<Rightarrow> nat" where
  "data_record_payload_len value =
    saturating_total
      [cbor_head_len 8, cbor_head_len 0, cbor_head_len 0, cbor_head_len 1, cbor_byte_string_len 16,
       cbor_head_len 2, cbor_head_len (dh_record_index value),
       cbor_head_len 3, cbor_head_len (dh_plaintext_offset value),
       cbor_head_len 4, cbor_head_len (dh_plaintext_length value),
       cbor_head_len 5, cbor_head_len (dh_compression value),
       cbor_head_len 6, cbor_head_len (dh_encoded_length value),
       cbor_head_len 7, cbor_byte_string_len (dh_encoded_length value)]"

definition have_run_len :: "have_run \<Rightarrow> nat" where
  "have_run_len run =
    saturating_total [cbor_head_len 2, cbor_head_len (hr_start_group run), cbor_head_len (hr_group_count run)]"

definition have_payload_len :: "have_map \<Rightarrow> nat" where
  "have_payload_len value =
    (let object_length = saturating_total
           [cbor_head_len 4, cbor_head_len 1, cbor_head_len (obj_suite (hv_object value)),
            cbor_byte_string_len 32, cbor_head_len (obj_length (hv_object value))];
         len = saturating_total
           [cbor_head_len 3, cbor_head_len 0, object_length,
            cbor_head_len 1, cbor_head_len (hv_map_sequence value),
            cbor_head_len 2, cbor_head_len (length (hv_runs value))] in
     foldl (\<lambda>len run. saturating_add len (have_run_len run)) len (hv_runs value))"

section \<open>RANGE\_REQUEST\<close>

definition encode_range_request :: "range_request \<Rightarrow> bytes \<Rightarrow> frame_error + bytes" where
  "encode_range_request value out =
    and_then (object_validate (rq_object value)) (\<lambda>u.
      if rq_length value = 0 \<or> MAX_REQUESTED_RANGE < rq_length value \<or>
        \<not> is_some_and (checked_add (rq_offset value) (rq_length value)) (\<lambda>stop. stop \<le> obj_length (rq_object value))
      then Inl FrInvalidValue
      else
        let out = map_head out 4;
            out = cbor_uint out 0;
            out = byte_string out (rq_request_id value);
            out = cbor_uint out 1;
            out = encode_object (rq_object value) out;
            out = cbor_uint out 2;
            out = cbor_uint out (rq_offset value);
            out = cbor_uint out 3 in
        Inr (cbor_uint out (rq_length value)))"

definition decode_range_request :: "bytes \<Rightarrow> frame_error + range_request" where
  "decode_range_request input =
    and_then (fr_map 4 (new_reader input)) (\<lambda>(u, r).
    and_then (fr_key 0 r) (\<lambda>(u, r).
    and_then (fr_fixed 16 r) (\<lambda>(request_id, r).
    and_then (fr_key 1 r) (\<lambda>(u, r).
    and_then (decode_object r) (\<lambda>(object, r).
    and_then (fr_key 2 r) (\<lambda>(u, r).
    and_then (fr_uint r) (\<lambda>(offset, r).
    and_then (fr_key 3 r) (\<lambda>(u, r).
    and_then (fr_uint r) (\<lambda>(len, r).
    and_then (fr_finish r) (\<lambda>u.
      let value = \<lparr>rq_request_id = request_id, rq_object = object, rq_offset = offset, rq_length = len\<rparr> in
      and_then (encode_range_request value []) (\<lambda>out. Inr value)))))))))))"

section \<open>PROOF\_BUNDLE\<close>

definition validate_proof_bundle_with_proof_len :: "proof_bundle \<Rightarrow> nat \<Rightarrow> frame_error + unit" where
  "validate_proof_bundle_with_proof_len value proof_len =
    and_then (object_validate (pb_object value)) (\<lambda>u.
      if obj_length (pb_object value) = 0 \<or>
        pb_requested_length value = 0 \<or>
        MAX_REQUESTED_RANGE < pb_requested_length value \<or>
        \<not> is_some_and (checked_add (pb_requested_offset value) (pb_requested_length value))
            (\<lambda>stop. stop \<le> obj_length (pb_object value)) \<or>
        pb_covered_offset value \<noteq> pb_requested_offset value div GROUP_BYTES * GROUP_BYTES \<or>
        pb_data_record_count value = 0 \<or>
        MAX_DATA_RECORDS_PER_BUNDLE < pb_data_record_count value \<or>
        pb_total_plaintext_length value \<noteq> pb_covered_length value \<or>
        is_some_and (registered_payload_limit PROOF_BUNDLE) (\<lambda>limit. limit < proof_bundle_payload_len_with value proof_len)
      then Inl FrInvalidValue
      else
        and_then (ok_or (checked_add (pb_requested_offset value) (pb_requested_length value)) FrInvalidValue) (\<lambda>request_end.
        and_then (ok_or (checked_mul (div_ceil request_end GROUP_BYTES) GROUP_BYTES) FrInvalidValue) (\<lambda>aligned.
          let expected_end = min aligned (obj_length (pb_object value)) in
          if checked_add (pb_covered_offset value) (pb_covered_length value) = Some expected_end
          then Inr () else Inl FrInvalidValue)))"

definition validate_proof_bundle :: "proof_bundle \<Rightarrow> frame_error + unit" where
  "validate_proof_bundle value = validate_proof_bundle_with_proof_len value (length (pb_proof value))"

definition encode_proof_bundle :: "proof_bundle \<Rightarrow> bytes \<Rightarrow> frame_error + bytes" where
  "encode_proof_bundle value out =
    and_then (validate_proof_bundle value) (\<lambda>u.
      let out = map_head out 11;
          out = cbor_uint out 0;
          out = cbor_uint out 0;
          out = cbor_uint out 1;
          out = byte_string out (pb_request_id value);
          out = cbor_uint out 2;
          out = byte_string out (pb_bundle_id value);
          out = cbor_uint out 3;
          out = encode_object (pb_object value) out;
          out = cbor_uint out 4;
          out = cbor_uint out (pb_requested_offset value);
          out = cbor_uint out 5;
          out = cbor_uint out (pb_requested_length value);
          out = cbor_uint out 6;
          out = cbor_uint out (pb_covered_offset value);
          out = cbor_uint out 7;
          out = cbor_uint out (pb_covered_length value);
          out = cbor_uint out 8;
          out = cbor_uint out (pb_data_record_count value);
          out = cbor_uint out 9;
          out = cbor_uint out (pb_total_plaintext_length value);
          out = cbor_uint out 10 in
      Inr (byte_string out (pb_proof value)))"

definition decode_proof_bundle :: "bytes \<Rightarrow> frame_error + proof_bundle" where
  "decode_proof_bundle input =
    and_then (fr_map 11 (new_reader input)) (\<lambda>(u, r).
    and_then (fr_key 0 r) (\<lambda>(u, r).
    and_then (fr_uint r) (\<lambda>(version, r).
    if version \<noteq> 0 then Inl FrInvalidValue
    else and_then (fr_key 1 r) (\<lambda>(u, r).
    and_then (fr_fixed 16 r) (\<lambda>(request_id, r).
    and_then (fr_key 2 r) (\<lambda>(u, r).
    and_then (fr_fixed 16 r) (\<lambda>(bundle_id, r).
    and_then (fr_key 3 r) (\<lambda>(u, r).
    and_then (decode_object r) (\<lambda>(object, r).
    and_then (fr_key 4 r) (\<lambda>(u, r).
    and_then (fr_uint r) (\<lambda>(requested_offset, r).
    and_then (fr_key 5 r) (\<lambda>(u, r).
    and_then (fr_uint r) (\<lambda>(requested_length, r).
    and_then (fr_key 6 r) (\<lambda>(u, r).
    and_then (fr_uint r) (\<lambda>(covered_offset, r).
    and_then (fr_key 7 r) (\<lambda>(u, r).
    and_then (fr_uint r) (\<lambda>(covered_length, r).
    and_then (fr_key 8 r) (\<lambda>(u, r).
    and_then (fr_uint r) (\<lambda>(data_record_count, r).
    and_then (fr_key 9 r) (\<lambda>(u, r).
    and_then (fr_uint r) (\<lambda>(total_plaintext_length, r).
    and_then (fr_key 10 r) (\<lambda>(u, r).
    and_then (fr_bytes MAX_PROOF_BYTES r) (\<lambda>(prf, r).
    and_then (fr_finish r) (\<lambda>u.
      let value = \<lparr>pb_request_id = request_id, pb_bundle_id = bundle_id, pb_object = object,
        pb_requested_offset = requested_offset, pb_requested_length = requested_length,
        pb_covered_offset = covered_offset, pb_covered_length = covered_length,
        pb_data_record_count = data_record_count,
        pb_total_plaintext_length = total_plaintext_length, pb_proof = []\<rparr> in
      and_then (validate_proof_bundle_with_proof_len value (length prf)) (\<lambda>u.
        Inr (value\<lparr>pb_proof := prf\<rparr>))))))))))))))))))))))))))"

section \<open>DATA\_RECORD\<close>

definition validate_data_record_header :: "data_record_header \<Rightarrow> frame_error + unit" where
  "validate_data_record_header value =
    (let encoded_length = dh_encoded_length value in
     if 16 < dh_record_index value \<or>
       MAX_OBJECT_LENGTH < dh_plaintext_offset value \<or>
       dh_plaintext_length value = 0 \<or>
       MAX_DATA_BYTES < dh_plaintext_length value \<or>
       encoded_length = 0 \<or>
       MAX_DATA_BYTES < data_record_payload_len value \<or>
       dh_compression value \<notin> {0, 1} \<or>
       dh_compression value = 0 \<and> dh_plaintext_length value \<noteq> encoded_length
     then Inl FrInvalidValue else Inr ())"

definition validate_data_record :: "data_record \<Rightarrow> frame_error + unit" where
  "validate_data_record value = validate_data_record_header (data_record_header_of value)"

definition encode_validated_data_record_header :: "data_record_header \<Rightarrow> bytes \<Rightarrow> bytes" where
  "encode_validated_data_record_header value out =
    (let out = map_head out 8;
         out = cbor_uint out 0;
         out = cbor_uint out 0;
         out = cbor_uint out 1;
         out = byte_string out (dh_bundle_id value);
         out = cbor_uint out 2;
         out = cbor_uint out (dh_record_index value);
         out = cbor_uint out 3;
         out = cbor_uint out (dh_plaintext_offset value);
         out = cbor_uint out 4;
         out = cbor_uint out (dh_plaintext_length value);
         out = cbor_uint out 5;
         out = cbor_uint out (dh_compression value);
         out = cbor_uint out 6;
         out = cbor_uint out (dh_encoded_length value);
         out = cbor_uint out 7 in
     head out major_bytes (dh_encoded_length value))"

definition decode_data_record_ref_payload :: "bytes \<Rightarrow> frame_error + data_record" where
  "decode_data_record_ref_payload input =
    and_then (fr_map 8 (new_reader input)) (\<lambda>(u, r).
    and_then (fr_key 0 r) (\<lambda>(u, r).
    and_then (fr_uint r) (\<lambda>(version, r).
    if version \<noteq> 0 then Inl FrInvalidValue
    else and_then (fr_key 1 r) (\<lambda>(u, r).
    and_then (fr_fixed 16 r) (\<lambda>(bundle_id, r).
    and_then (fr_key 2 r) (\<lambda>(u, r).
    and_then (fr_uint r) (\<lambda>(record_index, r).
    and_then (fr_key 3 r) (\<lambda>(u, r).
    and_then (fr_uint r) (\<lambda>(plaintext_offset, r).
    and_then (fr_key 4 r) (\<lambda>(u, r).
    and_then (fr_uint r) (\<lambda>(plaintext_length, r).
    and_then (fr_key 5 r) (\<lambda>(u, r).
    and_then (fr_uint r) (\<lambda>(wire, r).
    and_then (narrow 0xff FrInvalidValue wire) (\<lambda>compression.
    and_then (fr_key 6 r) (\<lambda>(u, r).
    and_then (fr_uint r) (\<lambda>(encoded_length, r).
    and_then (fr_key 7 r) (\<lambda>(u, r).
    and_then (fr_bytes MAX_DATA_BYTES r) (\<lambda>(encoded, r).
    and_then (fr_finish r) (\<lambda>u.
      if encoded_length \<noteq> length encoded then Inl FrInvalidValue
      else
        let value = \<lparr>dr_bundle_id = bundle_id, dr_record_index = record_index,
          dr_plaintext_offset = plaintext_offset, dr_plaintext_length = plaintext_length,
          dr_compression = compression, dr_encoded = encoded\<rparr> in
        and_then (validate_data_record value) (\<lambda>u. Inr value))))))))))))))))))))"

definition decode_data_record :: "bytes \<Rightarrow> frame_error + data_record" where
  "decode_data_record input = decode_data_record_ref_payload input"

section \<open>HAVE\<close>

fun validate_have_runs :: "nat \<Rightarrow> nat \<Rightarrow> nat \<Rightarrow> have_run list \<Rightarrow> frame_error + unit" where
  "validate_have_runs group_count index previous_end [] = Inr ()"
| "validate_have_runs group_count index previous_end (run # rest) =
    (if hr_group_count run = 0 \<or>
       hr_start_group run < previous_end \<or>
       0 < index \<and> hr_start_group run = previous_end \<or>
       \<not> is_some_and (checked_add (hr_start_group run) (hr_group_count run)) (\<lambda>stop. stop \<le> group_count)
     then Inl FrInvalidValue
     else validate_have_runs group_count (Suc index) (hr_start_group run + hr_group_count run) rest)"

definition validate_have :: "have_map \<Rightarrow> frame_error + unit" where
  "validate_have value =
    and_then (object_validate (hv_object value)) (\<lambda>u.
      if is_some_and (registered_payload_limit HAVE) (\<lambda>limit. limit < have_payload_len value) then Inl FrTooLarge
      else validate_have_runs (div_ceil (obj_length (hv_object value)) GROUP_BYTES) 0 0 (hv_runs value))"

definition encode_have_run :: "bytes \<Rightarrow> have_run \<Rightarrow> bytes" where
  "encode_have_run out run =
    (let out = array_head out 2;
         out = cbor_uint out (hr_start_group run) in
     cbor_uint out (hr_group_count run))"

definition decode_have_run :: "reader \<Rightarrow> frame_error + have_run \<times> reader" where
  "decode_have_run r =
    and_then (fr_array 2 r) (\<lambda>(len, r).
    if len \<noteq> 2 then Inl FrMalformed
    else and_then (fr_uint r) (\<lambda>(start_group, r).
    and_then (fr_uint r) (\<lambda>(group_count, r).
      Inr (\<lparr>hr_start_group = start_group, hr_group_count = group_count\<rparr>, r))))"

definition encode_have :: "have_map \<Rightarrow> bytes \<Rightarrow> frame_error + bytes" where
  "encode_have value out =
    and_then (validate_have value) (\<lambda>u.
      let out = map_head out 3;
          out = cbor_uint out 0;
          out = encode_object (hv_object value) out;
          out = cbor_uint out 1;
          out = cbor_uint out (hv_map_sequence value);
          out = cbor_uint out 2;
          out = array_head out (length (hv_runs value)) in
      Inr (write_each encode_have_run (hv_runs value) out))"

definition decode_have :: "bytes \<Rightarrow> frame_error + have_map" where
  "decode_have input =
    and_then (fr_map 3 (new_reader input)) (\<lambda>(u, r).
    and_then (fr_key 0 r) (\<lambda>(u, r).
    and_then (decode_object r) (\<lambda>(object, r).
    and_then (fr_key 1 r) (\<lambda>(u, r).
    and_then (fr_uint r) (\<lambda>(map_sequence, r).
    and_then (fr_key 2 r) (\<lambda>(u, r).
    and_then (fr_array_len MAX_HAVE_RUNS r) (\<lambda>(count, r).
    and_then (read_times count decode_have_run r) (\<lambda>(runs, r).
    and_then (fr_finish r) (\<lambda>u.
      let value = \<lparr>hv_object = object, hv_map_sequence = map_sequence, hv_runs = runs\<rparr> in
      and_then (validate_have value) (\<lambda>u. Inr value))))))))))"

section \<open>The length functions are exact\<close>

lemma cbor_head_len_eq: "cbor_head_len v = head_len v"
  by (simp add: cbor_head_len_def head_len_def)

lemma foldl_saturating_add: "foldl saturating_add (min n u64_max) parts = min (n + sum_list parts) u64_max"
proof (induction parts arbitrary: n)
  case (Cons p parts)
  have "saturating_add (min n u64_max) p = min (n + p) u64_max" by (auto simp: saturating_add_def)
  then show ?case using Cons.IH [of "n + p"] by (simp add: add.assoc)
qed simp

lemma saturating_total_eq: "p \<le> u64_max \<Longrightarrow> saturating_total (p # parts) = min (p + sum_list parts) u64_max"
  using foldl_saturating_add [of p parts] by (simp add: saturating_total_def)

lemma head_len_le_u64: "head_len v \<le> u64_max"
  using head_len_le [of v] by (simp add: u64_max_def)

lemma min_absorb_right: "min (a + min b u) u = min (a + b) (u :: nat)" "min (a + (min b u + c)) u = min (a + (b + c)) u"
  by auto

lemmas payload_lengths = cbor_head_len_eq cbor_byte_string_len_def saturating_total_eq head_len_le_u64
  saturating_add_def length_items object_item_eq

definition data_record_item :: "data_record \<Rightarrow> bytes" where
  "data_record_item v =
    map_item 8 @ uint_item 0 @ uint_item 0 @ uint_item 1 @ bytes_item (dr_bundle_id v) @
    uint_item 2 @ uint_item (dr_record_index v) @ uint_item 3 @ uint_item (dr_plaintext_offset v) @
    uint_item 4 @ uint_item (dr_plaintext_length v) @ uint_item 5 @ uint_item (dr_compression v) @
    uint_item 6 @ uint_item (length (dr_encoded v)) @ uint_item 7 @ bytes_item (dr_encoded v)"

definition proof_bundle_item :: "proof_bundle \<Rightarrow> bytes" where
  "proof_bundle_item v =
    map_item 11 @ uint_item 0 @ uint_item 0 @ uint_item 1 @ bytes_item (pb_request_id v) @
    uint_item 2 @ bytes_item (pb_bundle_id v) @ uint_item 3 @ object_item (pb_object v) @
    uint_item 4 @ uint_item (pb_requested_offset v) @ uint_item 5 @ uint_item (pb_requested_length v) @
    uint_item 6 @ uint_item (pb_covered_offset v) @ uint_item 7 @ uint_item (pb_covered_length v) @
    uint_item 8 @ uint_item (pb_data_record_count v) @ uint_item 9 @ uint_item (pb_total_plaintext_length v) @
    uint_item 10 @ bytes_item (pb_proof v)"

definition have_run_item :: "have_run \<Rightarrow> bytes" where
  "have_run_item run = array_item 2 @ uint_item (hr_start_group run) @ uint_item (hr_group_count run)"

definition have_item :: "have_map \<Rightarrow> bytes" where
  "have_item v =
    map_item 3 @ uint_item 0 @ object_item (hv_object v) @ uint_item 1 @ uint_item (hv_map_sequence v) @
    uint_item 2 @ array_item (length (hv_runs v)) @ concat (map have_run_item (hv_runs v))"

lemma data_record_payload_len_eq:
  assumes "length (dr_bundle_id v) = 16"
  shows "data_record_payload_len (data_record_header_of v) = min (length (data_record_item v)) u64_max"
  using assms
  by (simp add: data_record_payload_len_def data_record_header_of_def data_record_item_def payload_lengths
      min_absorb_right add.assoc)

lemma fixed_string_len: "cbor_byte_string_len 16 = 17" "cbor_byte_string_len 32 = 34"
  by (simp_all add: cbor_byte_string_len_def cbor_head_len_def saturating_add_def u64_max_def)

lemma object_length_eq:
  assumes "object_typed obj"
  shows "saturating_total [cbor_head_len 4, cbor_head_len 1, cbor_head_len (obj_suite obj),
      cbor_byte_string_len 32, cbor_head_len (obj_length obj)] = length (object_item obj)"
    "length (object_item obj) \<le> 100"
  using assms head_len_le [of 4] head_len_le [of 1] head_len_le [of "obj_suite obj"] head_len_le [of "obj_length obj"]
  unfolding object_item_eq fixed_string_len
  by (simp_all add: cbor_head_len_eq saturating_total_eq head_len_le_u64 length_items object_typed_def u64_max_def
      head_len_def [of 32])

lemma proof_bundle_payload_len_eq:
  assumes "length (pb_request_id v) = 16" "length (pb_bundle_id v) = 16" "object_typed (pb_object v)"
  shows "proof_bundle_payload_len_with v (length (pb_proof v)) = min (length (proof_bundle_item v)) u64_max"
  unfolding proof_bundle_payload_len_with_def object_length_eq(1) [OF assms(3)]
  unfolding Let_def fixed_string_len
  using assms(1,2)
  by (simp add: proof_bundle_item_def cbor_head_len_eq saturating_total_eq head_len_le_u64 length_items
      cbor_byte_string_len_def saturating_add_def min_absorb_right head_len_def [of 16] flip: add.assoc)

lemma have_run_len_eq: "have_run_len run = length (have_run_item run)"
  using head_len_le [of 2] head_len_le [of "hr_start_group run"] head_len_le [of "hr_group_count run"]
  by (simp add: have_run_len_def have_run_item_def payload_lengths u64_max_def)

lemma foldl_have_run_len:
  "foldl (\<lambda>len run. saturating_add len (have_run_len run)) (min n u64_max) runs =
    min (n + length (concat (map have_run_item runs))) u64_max"
proof (induction runs arbitrary: n)
  case (Cons run runs)
  have "saturating_add (min n u64_max) (have_run_len run) = min (n + length (have_run_item run)) u64_max"
    by (auto simp: saturating_add_def have_run_len_eq)
  then show ?case using Cons.IH [of "n + length (have_run_item run)"] by (simp add: add.assoc)
qed simp

lemma have_payload_len_eq:
  assumes "object_typed (hv_object v)"
  shows "have_payload_len v = min (length (have_item v)) u64_max"
  unfolding have_payload_len_def object_length_eq(1) [OF assms] Let_def
  by (simp add: cbor_head_len_eq saturating_total_eq head_len_le_u64 foldl_have_run_len have_item_def length_items
      flip: add.assoc)

lemma have_runs_fit: "3 * length runs \<le> length (concat (map have_run_item runs))"
proof (induction runs)
  case (Cons run runs)
  have "1 \<le> head_len n" for n by (simp add: head_len_def)
  from this [of 2] this [of "hr_start_group run"] this [of "hr_group_count run"] Cons show ?case
    by (simp add: have_run_item_def length_items)
qed simp

section \<open>Round trips\<close>

definition range_request_typed :: "range_request \<Rightarrow> bool" where
  "range_request_typed v \<longleftrightarrow> length (rq_request_id v) = 16 \<and> object_typed (rq_object v) \<and>
    rq_offset v \<le> u64_max \<and> rq_length v \<le> u64_max"

definition proof_bundle_typed :: "proof_bundle \<Rightarrow> bool" where
  "proof_bundle_typed v \<longleftrightarrow> length (pb_request_id v) = 16 \<and> length (pb_bundle_id v) = 16 \<and>
    object_typed (pb_object v) \<and> pb_requested_offset v \<le> u64_max \<and> pb_requested_length v \<le> u64_max \<and>
    pb_covered_offset v \<le> u64_max \<and> pb_covered_length v \<le> u64_max \<and> pb_data_record_count v \<le> u64_max \<and>
    pb_total_plaintext_length v \<le> u64_max"

definition data_record_typed :: "data_record \<Rightarrow> bool" where
  "data_record_typed v \<longleftrightarrow> length (dr_bundle_id v) = 16 \<and> dr_record_index v \<le> u64_max \<and>
    dr_plaintext_offset v \<le> u64_max \<and> dr_plaintext_length v \<le> u64_max \<and> dr_compression v \<le> 255"

definition have_run_typed :: "have_run \<Rightarrow> bool" where
  "have_run_typed run \<longleftrightarrow> hr_start_group run \<le> u64_max \<and> hr_group_count run \<le> u64_max"

definition have_typed :: "have_map \<Rightarrow> bool" where
  "have_typed v \<longleftrightarrow> object_typed (hv_object v) \<and> hv_map_sequence v \<le> u64_max \<and> list_all have_run_typed (hv_runs v)"

definition range_request_item :: "range_request \<Rightarrow> bytes" where
  "range_request_item v = map_item 4 @ uint_item 0 @ bytes_item (rq_request_id v) @ uint_item 1 @
    object_item (rq_object v) @ uint_item 2 @ uint_item (rq_offset v) @ uint_item 3 @ uint_item (rq_length v)"

definition validate_range_request :: "range_request \<Rightarrow> frame_error + unit" where
  "validate_range_request v =
    and_then (object_validate (rq_object v)) (\<lambda>u.
      if rq_length v = 0 \<or> MAX_REQUESTED_RANGE < rq_length v \<or>
        \<not> is_some_and (checked_add (rq_offset v) (rq_length v)) (\<lambda>stop. stop \<le> obj_length (rq_object v))
      then Inl FrInvalidValue else Inr ())"

lemma encode_range_request_items:
  "encode_range_request v out = and_then (validate_range_request v) (\<lambda>u. Inr (out @ range_request_item v))"
  by (cases "object_validate (rq_object v)")
    (simp_all add: encode_range_request_def validate_range_request_def range_request_item_def items)

lemma encode_proof_bundle_items:
  "encode_proof_bundle v out = and_then (validate_proof_bundle v) (\<lambda>u. Inr (out @ proof_bundle_item v))"
  by (simp add: encode_proof_bundle_def proof_bundle_item_def items)

lemma encode_have_run_items: "encode_have_run out run = out @ have_run_item run"
  by (simp add: encode_have_run_def have_run_item_def items)

lemma encode_have_items:
  "encode_have v out = and_then (validate_have v) (\<lambda>u. Inr (out @ have_item v))"
  by (simp add: encode_have_def have_item_def items write_each_items [OF encode_have_run_items])

lemma bytes_head: "head out major_bytes (length bs) @ bs = out @ bytes_item bs"
  by (simp add: bytes_item_def byte_string_def head_eq)

lemma encode_data_record_header_items:
  "encode_validated_data_record_header (data_record_header_of v) out @ dr_encoded v = out @ data_record_item v"
  by (simp add: encode_validated_data_record_header_def data_record_header_of_def data_record_item_def items
      bytes_head)

lemma decode_range_request_iff:
  assumes "length bs \<le> u64_max"
  shows "decode_range_request bs = Inr v \<longleftrightarrow>
    range_request_typed v \<and> validate_range_request v = Inr () \<and> bs = range_request_item v"
  unfolding decode_range_request_def Let_def encode_range_request_items
  by (rule decodes_map, (rule parse_rules)+, fact assms, cases v)
    (auto simp: range_request_typed_def range_request_item_def validate_range_request_def)

lemma transfer_limits:
  "registered_payload_limit PROOF_BUNDLE = Some HARD_MAX_FRAME_PAYLOAD"
  "registered_payload_limit HAVE = Some (4 * 1024 * 1024)"
  by (simp_all add: registered_payload_limit_def frame_registry_def frame_types)

lemma proof_fits:
  assumes "proof_bundle_typed v" "validate_proof_bundle v = Inr ()"
  shows "length (pb_proof v) \<le> MAX_PROOF_BYTES"
proof -
  have "\<not> HARD_MAX_FRAME_PAYLOAD < proof_bundle_payload_len_with v (length (pb_proof v))"
    using assms(2) unfolding validate_proof_bundle_def validate_proof_bundle_with_proof_len_def transfer_limits
    by (cases "object_validate (pb_object v)") (simp_all split: if_splits)
  then have "length (proof_bundle_item v) \<le> HARD_MAX_FRAME_PAYLOAD"
    using assms(1) by (simp add: proof_bundle_payload_len_eq proof_bundle_typed_def HARD_MAX_FRAME_PAYLOAD_def
        u64_max_def not_less min_le_iff_disj)
  moreover have "length (pb_proof v) \<le> length (proof_bundle_item v)"
    by (simp add: proof_bundle_item_def length_items)
  ultimately show ?thesis by (simp add: HARD_MAX_FRAME_PAYLOAD_def MAX_PROOF_BYTES_def)
qed

lemma encoded_fits:
  assumes "data_record_typed v" "validate_data_record v = Inr ()"
  shows "length (data_record_item v) \<le> MAX_DATA_BYTES" "length (dr_encoded v) \<le> MAX_DATA_BYTES"
proof -
  have "data_record_payload_len (data_record_header_of v) \<le> MAX_DATA_BYTES"
    using assms(2) by (auto simp: validate_data_record_def validate_data_record_header_def Let_def split: if_splits)
  then show len: "length (data_record_item v) \<le> MAX_DATA_BYTES"
    using assms(1) by (simp add: data_record_payload_len_eq data_record_typed_def MAX_DATA_BYTES_def
        u64_max_def min_le_iff_disj)
  moreover have "length (dr_encoded v) \<le> length (data_record_item v)"
    by (simp add: data_record_item_def length_items)
  ultimately show "length (dr_encoded v) \<le> MAX_DATA_BYTES" by linarith
qed

lemma runs_fit:
  assumes "have_typed v" "validate_have v = Inr ()"
  shows "length (hv_runs v) \<le> MAX_HAVE_RUNS"
proof -
  have "have_payload_len v \<le> 4 * 1024 * 1024"
    using assms(2) unfolding validate_have_def transfer_limits
    by (cases "object_validate (hv_object v)") (simp_all split: if_splits)
  then have "length (have_item v) \<le> 4 * 1024 * 1024"
    using assms(1) by (simp add: have_payload_len_eq have_typed_def u64_max_def min_le_iff_disj)
  with have_runs_fit [of "hv_runs v"] show ?thesis by (simp add: have_item_def MAX_HAVE_RUNS_def)
qed

text \<open>Each decoder bounds a length before it validates; validation makes the bound redundant.\<close>

lemma validate_proof_bundle_update:
  "validate_proof_bundle_with_proof_len (v\<lparr>pb_proof := p\<rparr>) n = validate_proof_bundle_with_proof_len v n"
  by (simp add: validate_proof_bundle_with_proof_len_def proof_bundle_payload_len_with_def)

lemma and_then_validate_object: "and_then (object_validate obj) f = Inr x \<Longrightarrow> object_validate obj = Inr ()"
  by (cases "object_validate obj") auto

lemma decode_proof_bundle_bounded:
  assumes "length bs \<le> u64_max"
  shows "decode_proof_bundle bs = Inr v \<longleftrightarrow> proof_bundle_typed v \<and>
    object_validate (pb_object v) = Inr () \<and> length (pb_proof v) \<le> MAX_PROOF_BYTES \<and>
    validate_proof_bundle_with_proof_len (v\<lparr>pb_proof := []\<rparr>) (length (pb_proof v)) = Inr () \<and> bs = proof_bundle_item v"
  unfolding decode_proof_bundle_def Let_def
  by (rule decodes_map, (rule parse_rules)+, fact assms, cases v)
    (auto simp: proof_bundle_typed_def proof_bundle_item_def)

lemma decode_proof_bundle_iff:
  assumes "length bs \<le> u64_max"
  shows "decode_proof_bundle bs = Inr v \<longleftrightarrow>
    proof_bundle_typed v \<and> validate_proof_bundle v = Inr () \<and> bs = proof_bundle_item v"
  unfolding decode_proof_bundle_bounded [OF assms] validate_proof_bundle_update
  using proof_fits [of v] and_then_validate_object [of "pb_object v"]
  by (auto simp: validate_proof_bundle_def validate_proof_bundle_with_proof_len_def [of v])

lemma decode_data_record_bounded:
  assumes "length bs \<le> u64_max"
  shows "decode_data_record bs = Inr v \<longleftrightarrow> data_record_typed v \<and> length (dr_encoded v) \<le> u64_max \<and>
    length (dr_encoded v) \<le> MAX_DATA_BYTES \<and> validate_data_record v = Inr () \<and> bs = data_record_item v"
  unfolding decode_data_record_def decode_data_record_ref_payload_def Let_def
  by (rule decodes_map, (rule parse_rules)+, fact assms, cases v)
    (auto simp: data_record_typed_def data_record_item_def)

lemma decode_data_record_iff:
  assumes "length bs \<le> u64_max"
  shows "decode_data_record bs = Inr v \<longleftrightarrow>
    data_record_typed v \<and> validate_data_record v = Inr () \<and> bs = data_record_item v"
proof -
  have "n \<le> u64_max" if "n \<le> MAX_DATA_BYTES" for n using that by (simp add: MAX_DATA_BYTES_def u64_max_def)
  then show ?thesis unfolding decode_data_record_bounded [OF assms] using encoded_fits(2) [of v] by blast
qed

lemma parses_have_run [parse_rules]:
  "parses (\<lambda>v bs. have_run_typed v \<and> bs = have_run_item v) decode_have_run"
  unfolding decode_have_run_def [abs_def]
  apply (rule parses_cong, (rule parse_rules)+)
  subgoal for v bs by (cases v) (auto simp: have_run_item_def have_run_typed_def)
  done

lemma decode_have_bounded:
  assumes "length bs \<le> u64_max"
  shows "decode_have bs = Inr v \<longleftrightarrow> have_typed v \<and> object_validate (hv_object v) = Inr () \<and>
    length (hv_runs v) \<le> MAX_HAVE_RUNS \<and> length (hv_runs v) \<le> u64_max \<and> validate_have v = Inr () \<and> bs = have_item v"
  unfolding decode_have_def Let_def
  by (rule decodes_map, (rule parse_rules)+, fact assms, cases v)
    (auto simp: have_typed_def have_item_def)

lemma decode_have_iff:
  assumes "length bs \<le> u64_max"
  shows "decode_have bs = Inr v \<longleftrightarrow> have_typed v \<and> validate_have v = Inr () \<and> bs = have_item v"
proof -
  have "n \<le> u64_max" if "n \<le> MAX_HAVE_RUNS" for n using that by (simp add: MAX_HAVE_RUNS_def u64_max_def)
  moreover have "object_validate (hv_object v) = Inr ()" if "validate_have v = Inr ()"
    using that unfolding validate_have_def by (rule and_then_validate_object)
  ultimately show ?thesis unfolding decode_have_bounded [OF assms] using runs_fit [of v] by blast
qed

interpretation range_request: payload_codec range_request_typed encode_range_request decode_range_request
  by (rule validated_codec [OF encode_range_request_items decode_range_request_iff])

interpretation proof_bundle: payload_codec proof_bundle_typed encode_proof_bundle decode_proof_bundle
  by (rule validated_codec [OF encode_proof_bundle_items decode_proof_bundle_iff])

interpretation have_map: payload_codec have_typed encode_have decode_have
  by (rule validated_codec [OF encode_have_items decode_have_iff])

end
