(* ===== verification/Fec_Frames.thy ===== *)
theory Fec_Frames
  imports Frame_Payload Fec_Plan
begin

text \<open>
  The datagram FEC payloads and the symbol datagram (\<open>src/crates/vot-codec/src/frames/fec.rs\<close>).
  An accepted \<open>CODING_EPOCH_OPEN\<close> always has an epoch plan.
\<close>

definition SYMBOL_HEADER_LEN :: nat where "SYMBOL_HEADER_LEN = 9"

record coding_epoch_open =
  ceo_epoch :: nat
  ceo_object :: object_id
  ceo_offset :: nat
  ceo_length :: nat
  ceo_geometry :: geometry

record gen_state =
  gs_epoch :: nat
  gs_generation :: nat
  gs_sequence :: nat
  gs_received :: nat
  gs_missing_sources :: "nat list"

datatype gen_outcome = OutcomeDecoded | OutcomeAbandoned | OutcomeRefused

record gen_done =
  gd_epoch :: nat
  gd_generation :: nat
  gd_outcome :: gen_outcome

record coding_epoch_close =
  cec_epoch :: nat

record datagram_credit =
  dc_credit_epoch :: nat
  dc_max_unretired_bytes :: nat
  dc_max_active_generations :: nat
  dc_max_decode_work :: nat
  dc_max_open_epochs :: nat

record symbol_header =
  sh_epoch :: nat
  sh_generation :: nat
  sh_esi :: nat

section \<open>Fields\<close>

definition u32_field :: "reader \<Rightarrow> frame_error + nat \<times> reader" where
  "u32_field r = and_then (fr_uint r) (\<lambda>(v, r). and_then (narrow u32_max FrInvalidValue v) (\<lambda>v. Inr (v, r)))"

definition u8_field :: "reader \<Rightarrow> frame_error + nat \<times> reader" where
  "u8_field r = and_then (fr_uint r) (\<lambda>(v, r). and_then (narrow 0xff FrInvalidValue v) (\<lambda>v. Inr (v, r)))"

definition small_field :: "reader \<Rightarrow> frame_error + nat \<times> reader" where
  "small_field r = and_then (fr_uint r) (\<lambda>(v, r). and_then (narrow u64_max FrInvalidValue v) (\<lambda>v. Inr (v, r)))"

section \<open>CODING\_EPOCH\_OPEN\<close>

definition open_generation_count :: "coding_epoch_open \<Rightarrow> nat" where
  "open_generation_count value =
    div_ceil (ceo_length value) (source_count (ceo_geometry value) * symbol_length (ceo_geometry value))"

definition validate_coding_epoch_open :: "coding_epoch_open \<Rightarrow> frame_error + unit" where
  "validate_coding_epoch_open value =
    and_then (object_validate (ceo_object value)) (\<lambda>u.
      if ceo_length value = 0 \<or>
        \<not> is_some_and (checked_add (ceo_offset value) (ceo_length value)) (\<lambda>stop. stop \<le> obj_length (ceo_object value)) \<or>
        u32_max + 1 < open_generation_count value
      then Inl FrInvalidValue else Inr ())"

definition encode_coding_epoch_open :: "coding_epoch_open \<Rightarrow> bytes \<Rightarrow> frame_error + bytes" where
  "encode_coding_epoch_open value out =
    and_then (validate_coding_epoch_open value) (\<lambda>u.
      let out = map_head out 7;
          out = cbor_uint out 0;
          out = cbor_uint out (ceo_epoch value);
          out = cbor_uint out 1;
          out = encode_object (ceo_object value) out;
          out = cbor_uint out 2;
          out = cbor_uint out (ceo_offset value);
          out = cbor_uint out 3;
          out = cbor_uint out (ceo_length value);
          out = cbor_uint out 4;
          out = cbor_uint out (source_count (ceo_geometry value));
          out = cbor_uint out 5;
          out = cbor_uint out (repair_count (ceo_geometry value));
          out = cbor_uint out 6 in
      Inr (cbor_uint out (symbol_length (ceo_geometry value))))"

definition decode_coding_epoch_open :: "bytes \<Rightarrow> frame_error + coding_epoch_open" where
  "decode_coding_epoch_open input =
    and_then (fr_map 7 (new_reader input)) (\<lambda>(u, r).
    and_then (fr_key 0 r) (\<lambda>(u, r).
    and_then (u32_field r) (\<lambda>(epoch, r).
    and_then (fr_key 1 r) (\<lambda>(u, r).
    and_then (decode_object r) (\<lambda>(object, r).
    and_then (fr_key 2 r) (\<lambda>(u, r).
    and_then (fr_uint r) (\<lambda>(offset, r).
    and_then (fr_key 3 r) (\<lambda>(u, r).
    and_then (fr_uint r) (\<lambda>(len, r).
    and_then (fr_key 4 r) (\<lambda>(u, r).
    and_then (small_field r) (\<lambda>(sources, r).
    and_then (fr_key 5 r) (\<lambda>(u, r).
    and_then (small_field r) (\<lambda>(repairs, r).
    and_then (fr_key 6 r) (\<lambda>(u, r).
    and_then (small_field r) (\<lambda>(symbol_len, r).
    and_then (fr_finish r) (\<lambda>u.
    and_then (map_err (\<lambda>_. FrInvalidValue) (geometry_new sources repairs symbol_len)) (\<lambda>geometry.
      let value = \<lparr>ceo_epoch = epoch, ceo_object = object, ceo_offset = offset, ceo_length = len,
        ceo_geometry = geometry\<rparr> in
      and_then (validate_coding_epoch_open value) (\<lambda>u. Inr value))))))))))))))))))"

section \<open>GEN\_STATE and GEN\_DONE\<close>

definition encode_gen_state :: "gen_state \<Rightarrow> bytes \<Rightarrow> frame_error + bytes" where
  "encode_gen_state value out =
    (if MAX_SYMBOLS < gs_received value \<or>
       MAX_SOURCE_SYMBOLS < length (gs_missing_sources value) \<or>
       list_ex (\<lambda>esi. MAX_SOURCE_SYMBOLS \<le> esi) (gs_missing_sources value) \<or>
       \<not> sorted_wrt (<) (gs_missing_sources value)
     then Inl FrInvalidValue
     else
       let out = map_head out 5;
           out = cbor_uint out 0;
           out = cbor_uint out (gs_epoch value);
           out = cbor_uint out 1;
           out = cbor_uint out (gs_generation value);
           out = cbor_uint out 2;
           out = cbor_uint out (gs_sequence value);
           out = cbor_uint out 3;
           out = cbor_uint out (gs_received value);
           out = cbor_uint out 4;
           out = array_head out (length (gs_missing_sources value)) in
       Inr (write_each cbor_uint (gs_missing_sources value) out))"

definition decode_gen_state :: "bytes \<Rightarrow> frame_error + gen_state" where
  "decode_gen_state input =
    and_then (fr_map 5 (new_reader input)) (\<lambda>(u, r).
    and_then (fr_key 0 r) (\<lambda>(u, r).
    and_then (u32_field r) (\<lambda>(epoch, r).
    and_then (fr_key 1 r) (\<lambda>(u, r).
    and_then (u32_field r) (\<lambda>(generation, r).
    and_then (fr_key 2 r) (\<lambda>(u, r).
    and_then (fr_uint r) (\<lambda>(sequence, r).
    and_then (fr_key 3 r) (\<lambda>(u, r).
    and_then (u8_field r) (\<lambda>(received, r).
    and_then (fr_key 4 r) (\<lambda>(u, r).
    and_then (fr_array_len MAX_SOURCE_SYMBOLS r) (\<lambda>(count, r).
    and_then (read_times count u8_field r) (\<lambda>(missing_sources, r).
    and_then (fr_finish r) (\<lambda>u.
      let value = \<lparr>gs_epoch = epoch, gs_generation = generation, gs_sequence = sequence,
        gs_received = received, gs_missing_sources = missing_sources\<rparr> in
      and_then (encode_gen_state value []) (\<lambda>out. Inr value))))))))))))))"

fun outcome_wire :: "gen_outcome \<Rightarrow> nat" where
  "outcome_wire OutcomeDecoded = 0"
| "outcome_wire OutcomeAbandoned = 1"
| "outcome_wire OutcomeRefused = 2"

definition outcome_of_wire :: "nat \<Rightarrow> frame_error + gen_outcome" where
  "outcome_of_wire code =
    (if code = 0 then Inr OutcomeDecoded else if code = 1 then Inr OutcomeAbandoned
     else if code = 2 then Inr OutcomeRefused else Inl FrInvalidValue)"

definition encode_gen_done :: "gen_done \<Rightarrow> bytes \<Rightarrow> bytes" where
  "encode_gen_done value out =
    (let out = map_head out 3;
         out = cbor_uint out 0;
         out = cbor_uint out (gd_epoch value);
         out = cbor_uint out 1;
         out = cbor_uint out (gd_generation value);
         out = cbor_uint out 2 in
     cbor_uint out (outcome_wire (gd_outcome value)))"

definition decode_gen_done :: "bytes \<Rightarrow> frame_error + gen_done" where
  "decode_gen_done input =
    and_then (fr_map 3 (new_reader input)) (\<lambda>(u, r).
    and_then (fr_key 0 r) (\<lambda>(u, r).
    and_then (u32_field r) (\<lambda>(epoch, r).
    and_then (fr_key 1 r) (\<lambda>(u, r).
    and_then (u32_field r) (\<lambda>(generation, r).
    and_then (fr_key 2 r) (\<lambda>(u, r).
    and_then (fr_uint r) (\<lambda>(code, r).
    and_then (outcome_of_wire code) (\<lambda>gen_outcome.
    and_then (fr_finish r) (\<lambda>u.
      Inr \<lparr>gd_epoch = epoch, gd_generation = generation, gd_outcome = gen_outcome\<rparr>)))))))))"

section \<open>CODING\_EPOCH\_CLOSE and DATAGRAM\_CREDIT\<close>

definition encode_coding_epoch_close :: "coding_epoch_close \<Rightarrow> bytes \<Rightarrow> bytes" where
  "encode_coding_epoch_close value out =
    (let out = map_head out 1;
         out = cbor_uint out 0 in
     cbor_uint out (cec_epoch value))"

definition decode_coding_epoch_close :: "bytes \<Rightarrow> frame_error + coding_epoch_close" where
  "decode_coding_epoch_close input =
    and_then (fr_map 1 (new_reader input)) (\<lambda>(u, r).
    and_then (fr_key 0 r) (\<lambda>(u, r).
    and_then (u32_field r) (\<lambda>(epoch, r).
    and_then (fr_finish r) (\<lambda>u. Inr \<lparr>cec_epoch = epoch\<rparr>))))"

definition encode_datagram_credit :: "datagram_credit \<Rightarrow> bytes \<Rightarrow> bytes" where
  "encode_datagram_credit value out =
    (let out = map_head out 5;
         out = cbor_uint out 0;
         out = cbor_uint out (dc_credit_epoch value);
         out = cbor_uint out 1;
         out = cbor_uint out (dc_max_unretired_bytes value);
         out = cbor_uint out 2;
         out = cbor_uint out (dc_max_active_generations value);
         out = cbor_uint out 3;
         out = cbor_uint out (dc_max_decode_work value);
         out = cbor_uint out 4 in
     cbor_uint out (dc_max_open_epochs value))"

definition decode_datagram_credit :: "bytes \<Rightarrow> frame_error + datagram_credit" where
  "decode_datagram_credit input =
    and_then (fr_map 5 (new_reader input)) (\<lambda>(u, r).
    and_then (fr_key 0 r) (\<lambda>(u, r).
    and_then (fr_uint r) (\<lambda>(credit_epoch, r).
    and_then (fr_key 1 r) (\<lambda>(u, r).
    and_then (fr_uint r) (\<lambda>(max_unretired_bytes, r).
    and_then (fr_key 2 r) (\<lambda>(u, r).
    and_then (fr_uint r) (\<lambda>(max_active_generations, r).
    and_then (fr_key 3 r) (\<lambda>(u, r).
    and_then (fr_uint r) (\<lambda>(max_decode_work, r).
    and_then (fr_key 4 r) (\<lambda>(u, r).
    and_then (fr_uint r) (\<lambda>(max_open_epochs, r).
    and_then (fr_finish r) (\<lambda>u.
      Inr \<lparr>dc_credit_epoch = credit_epoch, dc_max_unretired_bytes = max_unretired_bytes,
        dc_max_active_generations = max_active_generations, dc_max_decode_work = max_decode_work,
        dc_max_open_epochs = max_open_epochs\<rparr>))))))))))))"

section \<open>The symbol datagram\<close>

definition encode_symbol :: "symbol_header \<Rightarrow> geometry \<Rightarrow> bytes \<Rightarrow> bytes \<Rightarrow> frame_error + bytes" where
  "encode_symbol header geometry symbol out =
    (if length symbol \<noteq> symbol_length geometry \<or> symbol_count geometry \<le> sh_esi header then Inl FrInvalidValue
     else Inr (out @ be_bytes 4 (sh_epoch header) @ be_bytes 4 (sh_generation header) @
       [word_of_nat (sh_esi header)] @ symbol))"

definition decode_symbol :: "bytes \<Rightarrow> geometry \<Rightarrow> frame_error + symbol_header \<times> bytes" where
  "decode_symbol datagram geometry =
    (if length datagram \<noteq> SYMBOL_HEADER_LEN + symbol_length geometry then Inl FrMalformed
     else
       let epoch = be_value [datagram ! 0, datagram ! 1, datagram ! 2, datagram ! 3];
           generation = be_value [datagram ! 4, datagram ! 5, datagram ! 6, datagram ! 7];
           esi = unat (datagram ! 8) in
       if symbol_count geometry \<le> esi then Inl FrInvalidValue
       else Inr (\<lparr>sh_epoch = epoch, sh_generation = generation, sh_esi = esi\<rparr>, drop SYMBOL_HEADER_LEN datagram))"

section \<open>Round trips\<close>

lemma fec_fields [parse_rules]:
  "parses (\<lambda>v bs. v \<le> u32_max \<and> bs = uint_item v) u32_field"
  "parses (\<lambda>v bs. v \<le> 255 \<and> bs = uint_item v) u8_field"
  "parses (\<lambda>v bs. v \<le> u64_max \<and> bs = uint_item v) small_field"
  unfolding u32_field_def [abs_def] u8_field_def [abs_def] small_field_def [abs_def] u32_max_def
  by (rule parses_cong, (rule parse_rules)+, auto)+

text \<open>A \<open>Geometry\<close> can only be made by its constructor, so every value of it satisfies \<^const>\<open>geometry_ok\<close>.\<close>

definition coding_epoch_open_typed :: "coding_epoch_open \<Rightarrow> bool" where
  "coding_epoch_open_typed v \<longleftrightarrow> ceo_epoch v \<le> u32_max \<and> object_typed (ceo_object v) \<and> ceo_offset v \<le> u64_max \<and>
    ceo_length v \<le> u64_max \<and> geometry_ok (ceo_geometry v)"

definition gen_state_typed :: "gen_state \<Rightarrow> bool" where
  "gen_state_typed v \<longleftrightarrow> gs_epoch v \<le> u32_max \<and> gs_generation v \<le> u32_max \<and> gs_sequence v \<le> u64_max \<and>
    gs_received v \<le> 255 \<and> list_all (\<lambda>esi. esi \<le> 255) (gs_missing_sources v)"

definition gen_done_typed :: "gen_done \<Rightarrow> bool" where
  "gen_done_typed v \<longleftrightarrow> gd_epoch v \<le> u32_max \<and> gd_generation v \<le> u32_max"

definition coding_epoch_close_typed :: "coding_epoch_close \<Rightarrow> bool" where
  "coding_epoch_close_typed v \<longleftrightarrow> cec_epoch v \<le> u32_max"

definition datagram_credit_typed :: "datagram_credit \<Rightarrow> bool" where
  "datagram_credit_typed v \<longleftrightarrow> dc_credit_epoch v \<le> u64_max \<and> dc_max_unretired_bytes v \<le> u64_max \<and>
    dc_max_active_generations v \<le> u64_max \<and> dc_max_decode_work v \<le> u64_max \<and> dc_max_open_epochs v \<le> u64_max"

definition coding_epoch_open_item :: "coding_epoch_open \<Rightarrow> bytes" where
  "coding_epoch_open_item v =
    map_item 7 @ uint_item 0 @ uint_item (ceo_epoch v) @ uint_item 1 @ object_item (ceo_object v) @
    uint_item 2 @ uint_item (ceo_offset v) @ uint_item 3 @ uint_item (ceo_length v) @
    uint_item 4 @ uint_item (source_count (ceo_geometry v)) @ uint_item 5 @ uint_item (repair_count (ceo_geometry v)) @
    uint_item 6 @ uint_item (symbol_length (ceo_geometry v))"

definition gen_state_item :: "gen_state \<Rightarrow> bytes" where
  "gen_state_item v =
    map_item 5 @ uint_item 0 @ uint_item (gs_epoch v) @ uint_item 1 @ uint_item (gs_generation v) @
    uint_item 2 @ uint_item (gs_sequence v) @ uint_item 3 @ uint_item (gs_received v) @
    uint_item 4 @ array_item (length (gs_missing_sources v)) @ concat (map uint_item (gs_missing_sources v))"

definition validate_gen_state :: "gen_state \<Rightarrow> frame_error + unit" where
  "validate_gen_state v =
    (if MAX_SYMBOLS < gs_received v \<or> MAX_SOURCE_SYMBOLS < length (gs_missing_sources v) \<or>
       list_ex (\<lambda>esi. MAX_SOURCE_SYMBOLS \<le> esi) (gs_missing_sources v) \<or> \<not> sorted_wrt (<) (gs_missing_sources v)
     then Inl FrInvalidValue else Inr ())"

definition gen_done_item :: "gen_done \<Rightarrow> bytes" where
  "gen_done_item v = map_item 3 @ uint_item 0 @ uint_item (gd_epoch v) @ uint_item 1 @ uint_item (gd_generation v) @
    uint_item 2 @ uint_item (outcome_wire (gd_outcome v))"

definition coding_epoch_close_item :: "coding_epoch_close \<Rightarrow> bytes" where
  "coding_epoch_close_item v = map_item 1 @ uint_item 0 @ uint_item (cec_epoch v)"

definition datagram_credit_item :: "datagram_credit \<Rightarrow> bytes" where
  "datagram_credit_item v =
    map_item 5 @ uint_item 0 @ uint_item (dc_credit_epoch v) @ uint_item 1 @ uint_item (dc_max_unretired_bytes v) @
    uint_item 2 @ uint_item (dc_max_active_generations v) @ uint_item 3 @ uint_item (dc_max_decode_work v) @
    uint_item 4 @ uint_item (dc_max_open_epochs v)"

lemma encode_fec_items:
  "encode_coding_epoch_open v out = and_then (validate_coding_epoch_open v) (\<lambda>u. Inr (out @ coding_epoch_open_item v))"
  "encode_gen_state w out = and_then (validate_gen_state w) (\<lambda>u. Inr (out @ gen_state_item w))"
  "Inr (encode_gen_done x out) = and_then (Inr ()) (\<lambda>u. Inr (out @ gen_done_item x))"
  "Inr (encode_coding_epoch_close y out) = and_then (Inr ()) (\<lambda>u. Inr (out @ coding_epoch_close_item y))"
  "Inr (encode_datagram_credit z out) = and_then (Inr ()) (\<lambda>u. Inr (out @ datagram_credit_item z))"
  by (simp_all add: encode_coding_epoch_open_def encode_gen_state_def encode_gen_done_def
      encode_coding_epoch_close_def encode_datagram_credit_def coding_epoch_open_item_def gen_state_item_def
      gen_done_item_def coding_epoch_close_item_def datagram_credit_item_def validate_gen_state_def items)

lemma geometry_ok_bounds:
  "geometry_ok g \<Longrightarrow> source_count g \<le> u64_max \<and> repair_count g \<le> u64_max \<and> symbol_length g \<le> u64_max"
  by (simp add: geometry_ok_def u64_max_def MAX_SOURCE_SYMBOLS_def MAX_REPAIR_SYMBOLS_def MAX_SYMBOL_LENGTH_def)

lemma decode_coding_epoch_open_bounded:
  assumes "length bs \<le> u64_max"
  shows "decode_coding_epoch_open bs = Inr v \<longleftrightarrow> coding_epoch_open_typed v \<and>
    source_count (ceo_geometry v) \<le> u64_max \<and> repair_count (ceo_geometry v) \<le> u64_max \<and>
    symbol_length (ceo_geometry v) \<le> u64_max \<and> object_validate (ceo_object v) = Inr () \<and>
    validate_coding_epoch_open v = Inr () \<and> bs = coding_epoch_open_item v"
  unfolding decode_coding_epoch_open_def Let_def
  by (rule decodes_map, (rule parse_rules)+, fact assms, cases v, cases "ceo_geometry v")
    (auto simp: coding_epoch_open_typed_def coding_epoch_open_item_def geometry_new_iff)

lemma decode_coding_epoch_open_iff:
  assumes "length bs \<le> u64_max"
  shows "decode_coding_epoch_open bs = Inr v \<longleftrightarrow>
    coding_epoch_open_typed v \<and> validate_coding_epoch_open v = Inr () \<and> bs = coding_epoch_open_item v"
proof -
  have "object_validate (ceo_object v) = Inr ()" if "validate_coding_epoch_open v = Inr ()"
    using that unfolding validate_coding_epoch_open_def by (cases "object_validate (ceo_object v)") auto
  then show ?thesis
    unfolding decode_coding_epoch_open_bounded [OF assms] coding_epoch_open_typed_def
    using geometry_ok_bounds by blast
qed

lemma decode_gen_state_iff:
  assumes "length bs \<le> u64_max"
  shows "decode_gen_state bs = Inr v \<longleftrightarrow>
    gen_state_typed v \<and> validate_gen_state v = Inr () \<and> bs = gen_state_item v"
  unfolding decode_gen_state_def Let_def encode_fec_items
  by (rule decodes_map, (rule parse_rules)+, fact assms, cases v)
    (auto simp: gen_state_typed_def gen_state_item_def validate_gen_state_def MAX_SOURCE_SYMBOLS_def split: if_splits)

lemma outcome_of_wire_iff: "outcome_of_wire code = Inr x \<longleftrightarrow> code = outcome_wire x"
  by (cases x) (auto simp: outcome_of_wire_def)

lemma outcome_wire_le: "outcome_wire x \<le> u64_max"
  by (cases x) auto

lemma decode_gen_done_iff:
  assumes "length bs \<le> u64_max"
  shows "decode_gen_done bs = Inr v \<longleftrightarrow> gen_done_typed v \<and> Inr () = (Inr () :: frame_error + unit) \<and> bs = gen_done_item v"
  unfolding decode_gen_done_def
  by (rule decodes_map, (rule parse_rules)+, fact assms, cases v)
    (auto simp: gen_done_typed_def gen_done_item_def outcome_of_wire_iff outcome_wire_le)

lemma decode_coding_epoch_close_iff:
  assumes "length bs \<le> u64_max"
  shows "decode_coding_epoch_close bs = Inr v \<longleftrightarrow>
    coding_epoch_close_typed v \<and> Inr () = (Inr () :: frame_error + unit) \<and> bs = coding_epoch_close_item v"
  unfolding decode_coding_epoch_close_def
  by (rule decodes_map, (rule parse_rules)+, fact assms, cases v)
    (auto simp: coding_epoch_close_typed_def coding_epoch_close_item_def)

lemma decode_datagram_credit_iff:
  assumes "length bs \<le> u64_max"
  shows "decode_datagram_credit bs = Inr v \<longleftrightarrow>
    datagram_credit_typed v \<and> Inr () = (Inr () :: frame_error + unit) \<and> bs = datagram_credit_item v"
  unfolding decode_datagram_credit_def
  by (rule decodes_map, (rule parse_rules)+, fact assms, cases v)
    (auto simp: datagram_credit_typed_def datagram_credit_item_def)

interpretation coding_epoch_open: payload_codec coding_epoch_open_typed encode_coding_epoch_open decode_coding_epoch_open
  by (rule validated_codec [OF encode_fec_items(1) decode_coding_epoch_open_iff])

interpretation gen_state: payload_codec gen_state_typed encode_gen_state decode_gen_state
  by (rule validated_codec [OF encode_fec_items(2) decode_gen_state_iff])

interpretation gen_done: payload_codec gen_done_typed "\<lambda>v out. Inr (encode_gen_done v out) :: frame_error + bytes" decode_gen_done
  by (rule validated_codec [OF encode_fec_items(3) decode_gen_done_iff])

interpretation coding_epoch_close: payload_codec coding_epoch_close_typed
    "\<lambda>v out. Inr (encode_coding_epoch_close v out) :: frame_error + bytes" decode_coding_epoch_close
  by (rule validated_codec [OF encode_fec_items(4) decode_coding_epoch_close_iff])

interpretation datagram_credit: payload_codec datagram_credit_typed
    "\<lambda>v out. Inr (encode_datagram_credit v out) :: frame_error + bytes" decode_datagram_credit
  by (rule validated_codec [OF encode_fec_items(5) decode_datagram_credit_iff])

section \<open>Symbol datagrams and plans\<close>

definition symbol_header_typed :: "symbol_header \<Rightarrow> bool" where
  "symbol_header_typed h \<longleftrightarrow> sh_epoch h \<le> u32_max \<and> sh_generation h \<le> u32_max \<and> sh_esi h \<le> 255"

lemma first_quad: "4 \<le> length xs \<Longrightarrow> [xs ! 0, xs ! 1, xs ! 2, xs ! 3] = take 4 xs"
proof -
  assume "4 \<le> length xs"
  then have "take 4 xs = map ((!) xs) [0..<4]" by (intro nth_equalityI) auto
  then show ?thesis by (simp add: upt_conv_Cons numeral_2_eq_2 numeral_3_eq_3)
qed

lemma datagram_parts:
  assumes "length bs = 9 + n"
  shows "[bs ! 0, bs ! 1, bs ! 2, bs ! 3] = take 4 bs" "[bs ! 4, bs ! 5, bs ! 6, bs ! 7] = take 4 (drop 4 bs)"
    "bs = take 4 bs @ take 4 (drop 4 bs) @ [bs ! 8] @ drop 9 bs"
proof -
  show "[bs ! 0, bs ! 1, bs ! 2, bs ! 3] = take 4 bs" using assms by (intro first_quad) simp
  show "[bs ! 4, bs ! 5, bs ! 6, bs ! 7] = take 4 (drop 4 bs)"
    using first_quad [of "drop 4 bs"] assms by simp
  have "drop 8 bs = bs ! 8 # drop 9 bs" using Cons_nth_drop_Suc [of 8 bs] assms by simp
  then show "bs = take 4 bs @ take 4 (drop 4 bs) @ [bs ! 8] @ drop 9 bs"
    using append_take_drop_id [of 4 bs] append_take_drop_id [of 4 "drop 4 bs"] by simp
qed

lemma symbol_datagram_encode:
  assumes "symbol_header_typed h" "encode_symbol h geometry symbol [] = Inr datagram"
  shows "decode_symbol datagram geometry = Inr (h, symbol)"
proof -
  have d: "datagram = be_bytes 4 (sh_epoch h) @ be_bytes 4 (sh_generation h) @ [word_of_nat (sh_esi h)] @ symbol"
      and s: "length symbol = symbol_length geometry" "sh_esi h < symbol_count geometry"
    using assms(2) by (auto simp: encode_symbol_def split: if_splits)
  have len: "length datagram = 9 + symbol_length geometry" by (simp add: d s)
  have nine: "datagram ! 8 = word_of_nat (sh_esi h)" "drop 9 datagram = symbol" by (simp_all add: d nth_append)
  have quads: "take 4 datagram = be_bytes 4 (sh_epoch h)" "take 4 (drop 4 datagram) = be_bytes 4 (sh_generation h)"
    by (simp_all add: d)
  have "unat (word_of_nat (sh_esi h) :: byte) = sh_esi h"
    using assms(1) by (simp add: symbol_header_typed_def unat_of_nat)
  moreover have "sh_epoch h < 256 ^ 4" "sh_generation h < 256 ^ 4"
    using assms(1) by (simp_all add: symbol_header_typed_def u32_max_def)
  ultimately show ?thesis
    unfolding decode_symbol_def datagram_parts(1,2) [OF len]
    using s len by (simp add: SYMBOL_HEADER_LEN_def quads nine not_le)
qed

lemma symbol_datagram_iff:
  "decode_symbol datagram geometry = Inr (h, symbol) \<longleftrightarrow>
    symbol_header_typed h \<and> encode_symbol h geometry symbol [] = Inr datagram"
proof
  assume dec: "decode_symbol datagram geometry = Inr (h, symbol)"
  then have len: "length datagram = 9 + symbol_length geometry"
    by (auto simp: decode_symbol_def SYMBOL_HEADER_LEN_def split: if_splits)
  from dec have h: "h = \<lparr>sh_epoch = be_value (take 4 datagram), sh_generation = be_value (take 4 (drop 4 datagram)),
      sh_esi = unat (datagram ! 8)\<rparr>" and s: "symbol = drop 9 datagram" "unat (datagram ! 8) < symbol_count geometry"
    unfolding decode_symbol_def datagram_parts(1,2) [OF len]
    by (auto simp: Let_def SYMBOL_HEADER_LEN_def split: if_splits)
  have "be_bytes 4 (be_value w) = w" "be_value w \<le> u32_max" if "length w = 4" for w
    using be_bytes_be_value [of w] be_value_bound [of w] that by (simp_all add: u32_max_def)
  note quad = this
  have "unat (datagram ! 8) < 256" by simp
  then have esi: "unat (datagram ! 8) \<le> 255" by linarith
  have "length (take 4 datagram) = 4" "length (take 4 (drop 4 datagram)) = 4" using len by simp_all
  then have "symbol_header_typed h" "be_bytes 4 (sh_epoch h) = take 4 datagram"
      "be_bytes 4 (sh_generation h) = take 4 (drop 4 datagram)"
    using quad esi by (auto simp: h symbol_header_typed_def)
  then show "symbol_header_typed h \<and> encode_symbol h geometry symbol [] = Inr datagram"
    using datagram_parts(3) [OF len] s len by (simp add: encode_symbol_def h)
qed (use symbol_datagram_encode in blast)

lemma accepted_open_has_plan:
  assumes "coding_epoch_open_typed v" "validate_coding_epoch_open v = Inr ()"
  shows "plan_new (ceo_epoch v) (ceo_offset v) (ceo_length v) (ceo_geometry v) =
      Inr \<lparr>plan_epoch = ceo_epoch v, plan_offset = ceo_offset v, plan_length = ceo_length v, plan_geometry = ceo_geometry v\<rparr> \<and>
    ceo_offset v + ceo_length v \<le> obj_length (ceo_object v)"
  using assms
  by (cases "object_validate (ceo_object v)")
    (auto simp: validate_coding_epoch_open_def plan_new_def Let_def open_generation_count_def generation_count_def
      generation_bytes_def is_some_and_iff checked_add_def split: if_splits)

section \<open>Properties\<close>

text \<open>A symbol datagram is read exactly when it is what the sender of that geometry writes for
  the header and symbol read from it: no other length, no symbol index the geometry has not.\<close>

theorem symbol_datagrams_exact:
  "decode_symbol datagram geometry = Inr (h, symbol) \<longleftrightarrow>
    symbol_header_typed h \<and> encode_symbol h geometry symbol [] = Inr datagram"
  by (rule symbol_datagram_iff)

text \<open>C23. An epoch that a receiver was told of can be planned: when the payload of a coding epoch's
  opening is accepted, the plan of that epoch exists and covers bytes of the announced object only.\<close>

theorem accepted_epoch_is_planned:
  assumes "decode_coding_epoch_open payload = Inr v" "length payload \<le> u64_max"
  shows "plan_new (ceo_epoch v) (ceo_offset v) (ceo_length v) (ceo_geometry v) =
      Inr \<lparr>plan_epoch = ceo_epoch v, plan_offset = ceo_offset v, plan_length = ceo_length v, plan_geometry = ceo_geometry v\<rparr> \<and>
    ceo_offset v + ceo_length v \<le> obj_length (ceo_object v)"
  using accepted_open_has_plan decode_coding_epoch_open_iff [OF assms(2)] assms(1) by blast

definition example_epoch :: coding_epoch_open where
  "example_epoch = \<lparr>ceo_epoch = 1, ceo_object = \<lparr>obj_suite = 1, obj_root = replicate 32 0, obj_length = 100\<rparr>, ceo_offset = 10,
    ceo_length = 50, ceo_geometry = \<lparr>source_count = 4, repair_count = 2, symbol_length = 8\<rparr>\<rparr>"

lemma example_epoch_decodes:
  "decode_coding_epoch_open (coding_epoch_open_item example_epoch) = Inr example_epoch" "length (coding_epoch_open_item example_epoch) \<le> u64_max"
proof -
  show len: "length (coding_epoch_open_item example_epoch) \<le> u64_max"
    by (simp add: coding_epoch_open_item_def example_epoch_def object_item_eq length_items head_len_def u64_max_def)
  have "coding_epoch_open_typed example_epoch" "validate_coding_epoch_open example_epoch = Inr ()"
    by (simp_all add: coding_epoch_open_typed_def validate_coding_epoch_open_def example_epoch_def object_typed_def object_validate_def
        geometry_ok_def MAX_SOURCE_SYMBOLS_def MAX_REPAIR_SYMBOLS_def MAX_SYMBOL_LENGTH_def MAX_OBJECT_LENGTH_def
        checked_add_def is_some_and_def open_generation_count_def div_ceil_def u32_max_def i64_max_def u64_max_def)
  then show "decode_coding_epoch_open (coding_epoch_open_item example_epoch) = Inr example_epoch"
    by (simp add: decode_coding_epoch_open_iff [OF len])
qed

theorem accepted_epoch_is_planned_witness:
  "plan_new 1 10 50 \<lparr>source_count = 4, repair_count = 2, symbol_length = 8\<rparr> =
    Inr \<lparr>plan_epoch = 1, plan_offset = 10, plan_length = 50, plan_geometry = \<lparr>source_count = 4, repair_count = 2, symbol_length = 8\<rparr>\<rparr>"
  using accepted_epoch_is_planned [OF example_epoch_decodes] by (simp add: example_epoch_def)

end
