(* ===== verification/Receipt.thy ===== *)
theory Receipt
  imports Payload_Codec Commit_Model
begin

text \<open>
  Assurance receipts (\<open>src/crates/vot-receipt/src/\<close>): the receipt with its validation and
  deterministic encoding (\<open>model.rs\<close>, \<open>codec.rs\<close>, \<open>time.rs\<close>) and the authenticated envelope.
  A \<open>String\<close> is its UTF-8 bytes.
\<close>

datatype receipt_error =
    RcInvalidKey | RcInvalidKeyId | RcInvalidTimestamp | RcInvalidFlags | RcInvalidClockSource
  | RcInvalidSuite | RcInvalidProvider | RcInvalidSubjectLength | RcInvalidSequence
  | RcAuthentication | RcUnexpectedScheme | RcWitnessHeadMismatch | RcChainBroken
  | RcChainSubjectMismatch | RcChainIssuerMismatch | RcChainScopeMismatch
  | RcAssuranceDidNotAdvance | RcPredecessorTooWeak | RcPredecessorNotObserved | RcEmptyChain
  | RcInvalidEncoding | RcTooLarge | RcNonCanonical

section \<open>Time\<close>

definition is_ascii_digit :: "byte \<Rightarrow> bool" where
  "is_ascii_digit b \<longleftrightarrow> 0x30 \<le> b \<and> b \<le> 0x39"

fun decimal_value :: "nat \<Rightarrow> bytes \<Rightarrow> nat option" where
  "decimal_value acc [] = Some acc"
| "decimal_value acc (b # bs) =
    (if is_ascii_digit b then decimal_value (acc * 10 + (unat b - 0x30)) bs else None)"

definition time_decimal :: "bytes \<Rightarrow> nat option" where
  "time_decimal bs = decimal_value 0 bs"

definition days_in_month :: "nat \<Rightarrow> nat \<Rightarrow> nat" where
  "days_in_month year month =
    (if month = 2 \<and> year mod 4 = 0 \<and> (year mod 100 \<noteq> 0 \<or> year mod 400 = 0) then 29
     else if month = 2 then 28
     else if month \<in> {4, 6, 9, 11} then 30 else 31)"

definition byte_at :: "bytes \<Rightarrow> nat \<Rightarrow> byte option" where
  "byte_at bs i = (if i < length bs then Some (bs ! i) else None)"

definition field :: "bytes \<Rightarrow> nat \<Rightarrow> nat \<Rightarrow> bytes" where
  "field bs start stop = take (stop - start) (drop start bs)"

definition valid_zone :: "bytes \<Rightarrow> nat \<Rightarrow> bool" where
  "valid_zone bs offset =
    (if byte_at bs offset \<in> {Some 0x5a, Some 0x7a} then offset + 1 = length bs
     else if byte_at bs offset \<in> {Some 0x2b, Some 0x2d} then
       length bs = offset + 6 \<and>
       byte_at bs (offset + 3) = Some 0x3a \<and>
       is_some_and (time_decimal (field bs (offset + 1) (offset + 3))) (\<lambda>hours. hours \<le> 23) \<and>
       is_some_and (time_decimal (field bs (offset + 4) (offset + 6))) (\<lambda>minutes. minutes \<le> 59)
     else False)"

definition valid_rfc3339 :: "bytes \<Rightarrow> bool" where
  "valid_rfc3339 bs =
    (if length bs < 20 \<or> 35 < length bs \<or>
       byte_at bs 4 \<noteq> Some 0x2d \<or> byte_at bs 7 \<noteq> Some 0x2d \<or>
       byte_at bs 10 \<notin> {Some 0x54, Some 0x74} \<or>
       byte_at bs 13 \<noteq> Some 0x3a \<or> byte_at bs 16 \<noteq> Some 0x3a
     then False
     else
       case (time_decimal (field bs 0 4), time_decimal (field bs 5 7), time_decimal (field bs 8 10),
             time_decimal (field bs 11 13), time_decimal (field bs 14 16), time_decimal (field bs 17 19)) of
         (Some year, Some month, Some day, Some hour, Some minute, Some second) \<Rightarrow>
           if month < 1 \<or> 12 < month \<or> day = 0 \<or> days_in_month year month < day \<or>
             23 < hour \<or> 59 < minute \<or> 60 < second
           then False
           else if byte_at bs 19 = Some 0x2e then
             let digits = length (takeWhile is_ascii_digit (drop 20 bs)) in
             digits \<noteq> 0 \<and> valid_zone bs (20 + digits)
           else valid_zone bs 19
       | _ \<Rightarrow> False)"

section \<open>Receipts\<close>

datatype assurance_level = LevelAdmitted | LevelTransitVerified | LevelDurable | LevelAtRestVerified | LevelPublished

datatype commit_profile = ProfileFast | ProfileBalanced | ProfileStrict

datatype subject_kind = SubjectObject | SubjectPackage

fun level_code :: "assurance_level \<Rightarrow> nat" where
  "level_code LevelAdmitted = 1"
| "level_code LevelTransitVerified = 2"
| "level_code LevelDurable = 3"
| "level_code LevelAtRestVerified = 4"
| "level_code LevelPublished = 5"

fun profile_code :: "commit_profile \<Rightarrow> nat" where
  "profile_code ProfileFast = 1"
| "profile_code ProfileBalanced = 2"
| "profile_code ProfileStrict = 3"

fun subject_code :: "subject_kind \<Rightarrow> nat" where
  "subject_code SubjectObject = 0"
| "subject_code SubjectPackage = 1"

record receipt =
  rc_subject_kind :: subject_kind
  rc_suite_id :: nat
  rc_subject_digest :: bytes
  rc_subject_length :: nat
  rc_assurance :: assurance_level
  rc_profile :: commit_profile
  rc_actual_predecessor :: assurance_level
  rc_provider :: nat
  rc_provider_version :: "nat list"
  rc_session_id :: bytes
  rc_incarnation_id :: bytes
  rc_sequence :: nat
  rc_observed_at :: bytes
  rc_clock_source :: nat
  rc_flags :: nat
  rc_previous :: "bytes option"

definition receipt_validate :: "receipt \<Rightarrow> receipt_error + unit" where
  "receipt_validate v =
    (if rc_suite_id v < 1 \<or> 2 < rc_suite_id v then Inl RcInvalidSuite
     else if rc_provider v < 1 \<or> 5 < rc_provider v then Inl RcInvalidProvider
     else if i64_max < rc_subject_length v then Inl RcInvalidSubjectLength
     else if rc_sequence v = 0 then Inl RcInvalidSequence
     else if \<not> valid_rfc3339 (rc_observed_at v) then Inl RcInvalidTimestamp
     else if 2 < rc_clock_source v then Inl RcInvalidClockSource
     else if 15 < rc_flags v then Inl RcInvalidFlags
     else Inr ())"

definition canonical_bytes :: "receipt \<Rightarrow> receipt_error + bytes" where
  "canonical_bytes v =
    and_then (receipt_validate v) (\<lambda>u.
      let out = map_head [] (if rc_previous v \<noteq> None then 15 else 14);
          out = cbor_uint out 0;
          out = cbor_uint out 0;
          out = cbor_uint out 1;
          out = array_head out 4;
          out = cbor_uint out (subject_code (rc_subject_kind v));
          out = cbor_uint out (rc_suite_id v);
          out = byte_string out (rc_subject_digest v);
          out = cbor_uint out (rc_subject_length v);
          out = cbor_uint out 2;
          out = cbor_uint out (level_code (rc_assurance v));
          out = cbor_uint out 3;
          out = cbor_uint out (profile_code (rc_profile v));
          out = cbor_uint out 4;
          out = cbor_uint out (level_code (rc_actual_predecessor v));
          out = cbor_uint out 5;
          out = cbor_uint out (rc_provider v);
          out = cbor_uint out 6;
          out = array_head out 3;
          out = write_each cbor_uint (rc_provider_version v) out;
          out = cbor_uint out 7;
          out = byte_string out (rc_session_id v);
          out = cbor_uint out 8;
          out = byte_string out (rc_incarnation_id v);
          out = cbor_uint out 9;
          out = cbor_uint out (rc_sequence v);
          out = cbor_uint out 10;
          out = text_string out (rc_observed_at v);
          out = cbor_uint out 11;
          out = cbor_uint out (rc_clock_source v);
          out = cbor_uint out 12;
          out = cbor_uint out (rc_suite_id v);
          out = cbor_uint out 13;
          out = cbor_uint out (rc_flags v) in
      Inr (case rc_previous v of
             Some previous \<Rightarrow> byte_string (cbor_uint out 17) previous
           | None \<Rightarrow> out))"

text \<open>The two vocabularies for assurance, and the predecessor table they share.\<close>

fun receipt_assurance :: "assurance \<Rightarrow> assurance_level" where
  "receipt_assurance assurance.Admitted = LevelAdmitted"
| "receipt_assurance assurance.TransitVerified = LevelTransitVerified"
| "receipt_assurance assurance.Durable = LevelDurable"
| "receipt_assurance assurance.AtRestVerified = LevelAtRestVerified"
| "receipt_assurance assurance.Published = LevelPublished"

fun model_assurance :: "assurance_level \<Rightarrow> assurance" where
  "model_assurance LevelAdmitted = assurance.Admitted"
| "model_assurance LevelTransitVerified = assurance.TransitVerified"
| "model_assurance LevelDurable = assurance.Durable"
| "model_assurance LevelAtRestVerified = assurance.AtRestVerified"
| "model_assurance LevelPublished = assurance.Published"

fun model_profile :: "commit_profile \<Rightarrow> profile" where
  "model_profile ProfileFast = Fast"
| "model_profile ProfileBalanced = Balanced"
| "model_profile ProfileStrict = Strict"

definition receipt_required_predecessor :: "commit_profile \<Rightarrow> assurance_level" where
  "receipt_required_predecessor p = receipt_assurance (required_predecessor (model_profile p))"

section \<open>The authenticated envelope\<close>

datatype auth_scheme = Ed25519 | HmacSha256

fun scheme_code :: "auth_scheme \<Rightarrow> nat" where
  "scheme_code Ed25519 = 1"
| "scheme_code HmacSha256 = 2"

fun authenticator_len :: "auth_scheme \<Rightarrow> nat" where
  "authenticator_len Ed25519 = 64"
| "authenticator_len HmacSha256 = 32"

definition scheme_from_registry :: "nat \<Rightarrow> auth_scheme option" where
  "scheme_from_registry code =
    (if code = 1 then Some Ed25519 else if code = 2 then Some HmacSha256 else None)"

record authenticated_receipt =
  ar_receipt :: receipt
  ar_scheme :: auth_scheme
  ar_key_id :: bytes
  ar_authentication :: bytes

definition validate_key_id :: "bytes \<Rightarrow> receipt_error + unit" where
  "validate_key_id key_id = (if key_id = [] \<or> 64 < length key_id then Inl RcInvalidKeyId else Inr ())"

definition encode_authenticated :: "authenticated_receipt \<Rightarrow> receipt_error + bytes" where
  "encode_authenticated v =
    and_then (validate_key_id (ar_key_id v)) (\<lambda>u.
      if length (ar_authentication v) \<noteq> authenticator_len (ar_scheme v) then Inl RcAuthentication
      else
        and_then (canonical_bytes (ar_receipt v)) (\<lambda>canonical.
          let out = map_head [] 4;
              out = cbor_uint out 0;
              out = out @ canonical;
              out = cbor_uint out 1;
              out = cbor_uint out (scheme_code (ar_scheme v));
              out = cbor_uint out 2;
              out = byte_string out (ar_key_id v);
              out = cbor_uint out 3 in
          Inr (byte_string out (ar_authentication v))))"

section \<open>Decoding\<close>

fun receipt_structural :: "cbor_error \<Rightarrow> receipt_error" where
  "receipt_structural NonCanonical = RcNonCanonical"
| "receipt_structural TooLarge = RcTooLarge"
| "receipt_structural Truncated = RcInvalidEncoding"
| "receipt_structural Malformed = RcInvalidEncoding"
| "receipt_structural WrongType = RcInvalidEncoding"
| "receipt_structural NotUtf8 = RcInvalidEncoding"
| "receipt_structural Trailing = RcInvalidEncoding"

definition rc_uint :: "reader \<Rightarrow> receipt_error + nat \<times> reader" where
  "rc_uint r = map_err receipt_structural (rd_uint r)"

definition rc_u16 :: "reader \<Rightarrow> receipt_error + nat \<times> reader" where
  "rc_u16 r = and_then (rc_uint r) (\<lambda>(v, r). and_then (narrow 0xffff RcInvalidEncoding v) (\<lambda>v. Inr (v, r)))"

definition rc_u8 :: "reader \<Rightarrow> receipt_error + nat \<times> reader" where
  "rc_u8 r = and_then (rc_uint r) (\<lambda>(v, r). and_then (narrow 0xff RcInvalidEncoding v) (\<lambda>v. Inr (v, r)))"

definition rc_map_len :: "reader \<Rightarrow> receipt_error + nat \<times> reader" where
  "rc_map_len r = map_err receipt_structural (rd_map_len u64_max r)"

definition rc_exact_key :: "nat \<Rightarrow> reader \<Rightarrow> receipt_error + unit \<times> reader" where
  "rc_exact_key expected r =
    and_then (rc_uint r) (\<lambda>(v, r). if v \<noteq> expected then Inl RcInvalidEncoding else Inr ((), r))"

definition rc_exact_map :: "nat \<Rightarrow> reader \<Rightarrow> receipt_error + unit \<times> reader" where
  "rc_exact_map expected r =
    and_then (rc_map_len r) (\<lambda>(v, r). if v \<noteq> expected then Inl RcInvalidEncoding else Inr ((), r))"

definition rc_exact_array :: "nat \<Rightarrow> reader \<Rightarrow> receipt_error + unit \<times> reader" where
  "rc_exact_array expected r =
    and_then (map_err receipt_structural (rd_array_len u64_max r)) (\<lambda>(v, r).
      if v \<noteq> expected then Inl RcInvalidEncoding else Inr ((), r))"

definition rc_bytes :: "nat \<Rightarrow> reader \<Rightarrow> receipt_error + bytes \<times> reader" where
  "rc_bytes maximum r = map_err receipt_structural (rd_bytes maximum r)"

definition rc_fixed_bytes :: "nat \<Rightarrow> reader \<Rightarrow> receipt_error + bytes \<times> reader" where
  "rc_fixed_bytes n r =
    map_err (\<lambda>e. if e = TooLarge then RcInvalidEncoding else receipt_structural e) (rd_fixed_bytes n r)"

definition rc_text :: "nat \<Rightarrow> reader \<Rightarrow> receipt_error + bytes \<times> reader" where
  "rc_text maximum r = map_err receipt_structural (rd_text maximum r)"

definition rc_finish :: "reader \<Rightarrow> receipt_error + unit" where
  "rc_finish r = map_err (\<lambda>_. RcInvalidEncoding) (rd_finish r)"

definition decode_level :: "nat \<Rightarrow> receipt_error + assurance_level" where
  "decode_level code =
    (if code = 1 then Inr LevelAdmitted
     else if code = 2 then Inr LevelTransitVerified
     else if code = 3 then Inr LevelDurable
     else if code = 4 then Inr LevelAtRestVerified
     else if code = 5 then Inr LevelPublished
     else Inl RcInvalidEncoding)"

definition decode_profile :: "nat \<Rightarrow> receipt_error + commit_profile" where
  "decode_profile code =
    (if code = 1 then Inr ProfileFast else if code = 2 then Inr ProfileBalanced
     else if code = 3 then Inr ProfileStrict else Inl RcInvalidEncoding)"

definition decode_subject :: "nat \<Rightarrow> receipt_error + subject_kind" where
  "decode_subject code =
    (if code = 0 then Inr SubjectObject else if code = 1 then Inr SubjectPackage
     else Inl RcInvalidEncoding)"

definition decode_previous :: "nat \<Rightarrow> reader \<Rightarrow> receipt_error + bytes option \<times> reader" where
  "decode_previous entries r =
    (if entries = 15 then
       and_then (rc_exact_key 17 r) (\<lambda>(u, r).
       and_then (rc_fixed_bytes 32 r) (\<lambda>(digest, r). Inr (Some digest, r)))
     else Inr (None, r))"

definition decode_receipt :: "reader \<Rightarrow> receipt_error + receipt \<times> reader" where
  "decode_receipt r =
    and_then (rc_map_len r) (\<lambda>(entries, r).
    if entries \<noteq> 14 \<and> entries \<noteq> 15 then Inl RcInvalidEncoding
    else and_then (rc_exact_key 0 r) (\<lambda>(u, r).
    and_then (rc_uint r) (\<lambda>(version, r).
    if version \<noteq> 0 then Inl RcInvalidEncoding
    else and_then (rc_exact_key 1 r) (\<lambda>(u, r).
    and_then (rc_exact_array 4 r) (\<lambda>(u, r).
    and_then (rc_uint r) (\<lambda>(code, r).
    and_then (decode_subject code) (\<lambda>subject_kind.
    and_then (rc_u16 r) (\<lambda>(suite_id, r).
    and_then (rc_fixed_bytes 32 r) (\<lambda>(subject_digest, r).
    and_then (rc_uint r) (\<lambda>(subject_length, r).
    and_then (rc_exact_key 2 r) (\<lambda>(u, r).
    and_then (rc_uint r) (\<lambda>(code, r).
    and_then (decode_level code) (\<lambda>assurance.
    and_then (rc_exact_key 3 r) (\<lambda>(u, r).
    and_then (rc_uint r) (\<lambda>(code, r).
    and_then (decode_profile code) (\<lambda>profile.
    and_then (rc_exact_key 4 r) (\<lambda>(u, r).
    and_then (rc_uint r) (\<lambda>(code, r).
    and_then (decode_level code) (\<lambda>actual_predecessor.
    and_then (rc_exact_key 5 r) (\<lambda>(u, r).
    and_then (rc_u16 r) (\<lambda>(provider, r).
    and_then (rc_exact_key 6 r) (\<lambda>(u, r).
    and_then (rc_exact_array 3 r) (\<lambda>(u, r).
    and_then (rc_u16 r) (\<lambda>(v0, r).
    and_then (rc_u16 r) (\<lambda>(v1, r).
    and_then (rc_u16 r) (\<lambda>(v2, r).
    and_then (rc_exact_key 7 r) (\<lambda>(u, r).
    and_then (rc_fixed_bytes 16 r) (\<lambda>(session_id, r).
    and_then (rc_exact_key 8 r) (\<lambda>(u, r).
    and_then (rc_fixed_bytes 16 r) (\<lambda>(incarnation_id, r).
    and_then (rc_exact_key 9 r) (\<lambda>(u, r).
    and_then (rc_uint r) (\<lambda>(sequence, r).
    and_then (rc_exact_key 10 r) (\<lambda>(u, r).
    and_then (rc_text 35 r) (\<lambda>(observed_at, r).
    and_then (rc_exact_key 11 r) (\<lambda>(u, r).
    and_then (rc_u8 r) (\<lambda>(clock_source, r).
    and_then (rc_exact_key 12 r) (\<lambda>(u, r).
    and_then (rc_u16 r) (\<lambda>(repeated, r).
    if repeated \<noteq> suite_id then Inl RcInvalidEncoding
    else and_then (rc_exact_key 13 r) (\<lambda>(u, r).
    and_then (rc_u8 r) (\<lambda>(flags, r).
    and_then (decode_previous entries r) (\<lambda>(previous, r).
      let receipt = \<lparr>rc_subject_kind = subject_kind, rc_suite_id = suite_id,
        rc_subject_digest = subject_digest, rc_subject_length = subject_length,
        rc_assurance = assurance, rc_profile = profile, rc_actual_predecessor = actual_predecessor,
        rc_provider = provider, rc_provider_version = [v0, v1, v2], rc_session_id = session_id,
        rc_incarnation_id = incarnation_id, rc_sequence = sequence, rc_observed_at = observed_at,
        rc_clock_source = clock_source, rc_flags = flags, rc_previous = previous\<rparr> in
      and_then (receipt_validate receipt) (\<lambda>u. Inr (receipt, r)))))))))))))))))))))))))))))))))))))))))))"

definition decode_authenticated :: "bytes \<Rightarrow> receipt_error + authenticated_receipt" where
  "decode_authenticated input =
    (if 65536 < length input then Inl RcTooLarge
     else
       and_then (rc_exact_map 4 (new_reader input)) (\<lambda>(u, r).
       and_then (rc_exact_key 0 r) (\<lambda>(u, r).
       and_then (decode_receipt r) (\<lambda>(receipt, r).
       and_then (rc_exact_key 1 r) (\<lambda>(u, r).
       and_then (rc_uint r) (\<lambda>(code, r).
       and_then (ok_or (scheme_from_registry code) RcInvalidEncoding) (\<lambda>scheme.
       and_then (rc_exact_key 2 r) (\<lambda>(u, r).
       and_then (rc_bytes 64 r) (\<lambda>(key_id, r).
       if key_id = [] then Inl RcInvalidKeyId
       else and_then (rc_exact_key 3 r) (\<lambda>(u, r).
       and_then (rc_bytes (authenticator_len scheme) r) (\<lambda>(authentication, r).
       if length authentication \<noteq> authenticator_len scheme then Inl RcInvalidEncoding
       else and_then (rc_finish r) (\<lambda>u.
         let authenticated = \<lparr>ar_receipt = receipt, ar_scheme = scheme, ar_key_id = key_id,
           ar_authentication = authentication\<rparr> in
         and_then (encode_authenticated authenticated) (\<lambda>encoded.
           if encoded \<noteq> input then Inl RcNonCanonical else Inr authenticated)))))))))))))"

section \<open>The encoding is canonical\<close>

lemma rc_map_len_step: "parses (\<lambda>v bs. v \<le> u64_max \<and> bs = map_item v) rc_map_len"
  unfolding rc_map_len_def [abs_def] by (rule parses_map_err, rule parses_cong, rule parses_map_len) auto

lemma rc_steps [parse_rules]:
  "parses (\<lambda>v bs. v \<le> u64_max \<and> bs = uint_item v) rc_uint"
  "parses (\<lambda>v bs. length v \<le> maximum \<and> bs = bytes_item v) (rc_bytes maximum)"
  "parses (\<lambda>v bs. length v \<le> maximum \<and> utf8_ok v \<and> bs = text_item v) (rc_text maximum)"
  "parses (\<lambda>v bs. length v = n \<and> bs = bytes_item v) (rc_fixed_bytes n)"
  unfolding rc_uint_def [abs_def] rc_bytes_def [abs_def] rc_text_def [abs_def] rc_fixed_bytes_def [abs_def]
  by (intro parses_map_err parse_rules)+

lemma rc_exact_steps [parse_rules]:
  "parses (\<lambda>v bs. k \<le> u64_max \<and> bs = uint_item k) (rc_exact_key k)"
  "parses (\<lambda>v bs. k \<le> u64_max \<and> bs = map_item k) (rc_exact_map k)"
  "parses (\<lambda>v bs. k \<le> u64_max \<and> bs = array_item k) (rc_exact_array k)"
  "parses (\<lambda>v bs. v \<le> 65535 \<and> bs = uint_item v) rc_u16"
  "parses (\<lambda>v bs. v \<le> 255 \<and> bs = uint_item v) rc_u8"
  unfolding rc_exact_key_def [abs_def] rc_exact_map_def [abs_def] rc_exact_array_def [abs_def]
    rc_u16_def [abs_def] rc_u8_def [abs_def]
  by (rule parses_cong, (rule rc_map_len_step parses_map_err parse_rules)+, auto)+

lemma rc_finish_step [parse_rules]:
  "parses_all (\<lambda>v bs. m = Inr v \<and> bs = []) (\<lambda>r. and_then (rc_finish r) (\<lambda>u. m))"
  unfolding rc_finish_def by (rule parses_all_finish)

definition previous_item :: "bytes option \<Rightarrow> bytes" where
  "previous_item previous = (case previous of Some digest \<Rightarrow> uint_item 17 @ bytes_item digest | None \<Rightarrow> [])"

lemma decode_previous_step [parse_rules]:
  "parses (\<lambda>v bs. (v \<noteq> None \<longleftrightarrow> entries = 15) \<and> (\<forall>digest. v = Some digest \<longrightarrow> length digest = 32) \<and> bs = previous_item v)
    (decode_previous entries)"
  unfolding decode_previous_def [abs_def]
  apply (rule parses_cong, rule parses_if, (rule parse_rules)+)
  subgoal for v bs by (cases v) (auto simp: previous_item_def)
  done

lemma code_iffs:
  "decode_level code = Inr l \<longleftrightarrow> code = level_code l"
  "decode_profile code = Inr p \<longleftrightarrow> code = profile_code p"
  "decode_subject code = Inr k \<longleftrightarrow> code = subject_code k"
  "scheme_from_registry code = Some s \<longleftrightarrow> code = scheme_code s"
  by (cases l; cases p; cases k; cases s; auto simp: decode_level_def decode_profile_def decode_subject_def scheme_from_registry_def)+

lemma code_bounds [simp]:
  "level_code l \<le> u64_max" "profile_code p \<le> u64_max" "subject_code k \<le> u64_max" "scheme_code s \<le> u64_max"
  by (cases l; cases p; cases k; cases s; simp)+

definition receipt_item :: "receipt \<Rightarrow> bytes" where
  "receipt_item v =
    map_item (if rc_previous v \<noteq> None then 15 else 14) @ uint_item 0 @ uint_item 0 @ uint_item 1 @
    array_item 4 @ uint_item (subject_code (rc_subject_kind v)) @ uint_item (rc_suite_id v) @
    bytes_item (rc_subject_digest v) @ uint_item (rc_subject_length v) @
    uint_item 2 @ uint_item (level_code (rc_assurance v)) @ uint_item 3 @ uint_item (profile_code (rc_profile v)) @
    uint_item 4 @ uint_item (level_code (rc_actual_predecessor v)) @ uint_item 5 @ uint_item (rc_provider v) @
    uint_item 6 @ array_item 3 @ concat (map uint_item (rc_provider_version v)) @
    uint_item 7 @ bytes_item (rc_session_id v) @ uint_item 8 @ bytes_item (rc_incarnation_id v) @
    uint_item 9 @ uint_item (rc_sequence v) @ uint_item 10 @ text_item (rc_observed_at v) @
    uint_item 11 @ uint_item (rc_clock_source v) @ uint_item 12 @ uint_item (rc_suite_id v) @
    uint_item 13 @ uint_item (rc_flags v) @ previous_item (rc_previous v)"

lemma canonical_bytes_items: "canonical_bytes v = and_then (receipt_validate v) (\<lambda>u. Inr (receipt_item v))"
  by (cases "rc_previous v") (simp_all add: canonical_bytes_def receipt_item_def previous_item_def items)

definition receipt_typed :: "receipt \<Rightarrow> bool" where
  "receipt_typed v \<longleftrightarrow> rc_suite_id v \<le> 65535 \<and> length (rc_subject_digest v) = 32 \<and> rc_subject_length v \<le> u64_max \<and>
    rc_provider v \<le> 65535 \<and> length (rc_provider_version v) = 3 \<and> list_all (\<lambda>n. n \<le> 65535) (rc_provider_version v) \<and>
    length (rc_session_id v) = 16 \<and> length (rc_incarnation_id v) = 16 \<and> rc_sequence v \<le> u64_max \<and>
    utf8_ok (rc_observed_at v) \<and> rc_clock_source v \<le> 255 \<and> rc_flags v \<le> 255 \<and>
    (\<forall>digest. rc_previous v = Some digest \<longrightarrow> length digest = 32)"

lemma valid_rfc3339_length: "valid_rfc3339 bs \<Longrightarrow> length bs \<le> 35"
  by (simp add: valid_rfc3339_def split: if_splits)

lemma length_3: "length xs = 3 \<longleftrightarrow> (\<exists>a b c. xs = [a, b, c])"
  by (auto simp: numeral_3_eq_3 length_Suc_conv)

lemma decode_receipt_bounded:
  "parses (\<lambda>v bs. receipt_typed v \<and> length (rc_observed_at v) \<le> 35 \<and> receipt_validate v = Inr () \<and> bs = receipt_item v)
    decode_receipt"
  unfolding decode_receipt_def [abs_def] Let_def
  apply (rule parses_cong, (rule rc_map_len_step parse_rules)+)
  subgoal for v bs
    by (cases v) (auto simp: receipt_typed_def receipt_item_def code_iffs length_3, intro exI [of _ 14], simp)
  done
lemma receipt_validate_length: "receipt_validate v = Inr () \<Longrightarrow> length (rc_observed_at v) \<le> 35"
  using valid_rfc3339_length by (auto simp: receipt_validate_def split: if_splits)

lemma parses_receipt [parse_rules]:
  "parses (\<lambda>v bs. receipt_typed v \<and> receipt_validate v = Inr () \<and> bs = receipt_item v) decode_receipt"
  by (rule parses_cong [OF decode_receipt_bounded]) (use receipt_validate_length in blast)

definition authenticated_typed :: "authenticated_receipt \<Rightarrow> bool" where
  "authenticated_typed v \<longleftrightarrow> receipt_typed (ar_receipt v)"

definition authenticated_item :: "authenticated_receipt \<Rightarrow> bytes" where
  "authenticated_item v = map_item 4 @ uint_item 0 @ receipt_item (ar_receipt v) @
    uint_item 1 @ uint_item (scheme_code (ar_scheme v)) @ uint_item 2 @ bytes_item (ar_key_id v) @
    uint_item 3 @ bytes_item (ar_authentication v)"

lemma encode_authenticated_iff:
  "encode_authenticated v = Inr bs \<longleftrightarrow> ar_key_id v \<noteq> [] \<and> length (ar_key_id v) \<le> 64 \<and>
    length (ar_authentication v) = authenticator_len (ar_scheme v) \<and> receipt_validate (ar_receipt v) = Inr () \<and>
    bs = authenticated_item v"
  by (auto simp: encode_authenticated_def validate_key_id_def canonical_bytes_items authenticated_item_def items
      split: if_splits)

lemmas rc_decodes = decodes_first [OF rc_exact_steps(2)]

lemma decode_authenticated_iff:
  "decode_authenticated bs = Inr v \<longleftrightarrow>
    length bs \<le> 65536 \<and> authenticated_typed v \<and> encode_authenticated v = Inr bs"
proof (cases "65536 < length bs")
  case False
  then have len: "length bs \<le> u64_max" and short: "length bs \<le> 65536" by (simp_all add: u64_max_def)
  show ?thesis
    unfolding decode_authenticated_def Let_def if_not_P [OF False]
    by (rule rc_decodes, (rule parse_rules)+, fact len, cases v)
      (auto simp: code_iffs authenticated_typed_def encode_authenticated_iff authenticated_item_def short split: if_splits)
qed (simp add: decode_authenticated_def)

section \<open>Properties\<close>

text \<open>C21. Receipts are canonical: the reader accepts exactly the byte strings, up to its size limit,
  that the writer produces for an envelope of well-typed fields, and returns that envelope, so one
  receipt has one digest.\<close>

theorem receipt_canonical:
  "decode_authenticated bs = Inr v \<longleftrightarrow> length bs \<le> 65536 \<and> authenticated_typed v \<and> encode_authenticated v = Inr bs"
  by (rule decode_authenticated_iff)

end
