(* ===== verification/Receipt_Chain.thy ===== *)
theory Receipt_Chain
  imports Receipt Merkle_Log
begin

text \<open>
  What receipts prove (\<open>src/crates/vot-receipt/src/\<close>): authentication (\<open>authenticator.rs\<close>), the chain
  of one issuer's observations (\<open>chain.rs\<close>), and witness statements (\<open>witness.rs\<close>). SHA-256, HMAC and
  Ed25519 are code outside the repository: the hash \<open>H\<close>, the MAC \<open>hmac\<close>, and the signature
  operations \<open>sign\<close> and \<open>verify_strict\<close> are arguments, a key being its bytes.
\<close>

section \<open>Authentication\<close>

text \<open>The ASCII text \<^verbatim>\<open>VOT receipt v0\<close> and a zero byte.\<close>

definition DOMAIN :: bytes where
  "DOMAIN = [0x56, 0x4f, 0x54, 0x20, 0x72, 0x65, 0x63, 0x65, 0x69, 0x70, 0x74, 0x20, 0x76, 0x30, 0x00]"

definition signing_input :: "auth_scheme \<Rightarrow> bytes \<Rightarrow> receipt \<Rightarrow> receipt_error + bytes" where
  "signing_input scheme key_id receipt =
    and_then (validate_key_id key_id) (\<lambda>u.
    and_then (narrow 0xff RcInvalidKeyId (length key_id)) (\<lambda>key_id_len.
    and_then (canonical_bytes receipt) (\<lambda>canonical.
      Inr (DOMAIN @ be_bytes 2 (scheme_code scheme) @ [word_of_nat key_id_len] @ key_id @ canonical))))"

datatype verified_by = ByEd25519 bytes | ByHmacSha256

record verified_receipt =
  vr_authenticated :: authenticated_receipt
  vr_by :: verified_by

abbreviation vr_receipt :: "verified_receipt \<Rightarrow> receipt" where
  "vr_receipt v \<equiv> ar_receipt (vr_authenticated v)"

definition sign_ed25519 :: "(bytes \<Rightarrow> bytes \<Rightarrow> bytes) \<Rightarrow> receipt \<Rightarrow> bytes \<Rightarrow> bytes \<Rightarrow> receipt_error + authenticated_receipt" where
  "sign_ed25519 sign receipt key_id key =
    and_then (signing_input Ed25519 key_id receipt) (\<lambda>input.
      Inr \<lparr>ar_receipt = receipt, ar_scheme = Ed25519, ar_key_id = key_id, ar_authentication = sign key input\<rparr>)"

definition verify_ed25519 ::
  "(bytes \<Rightarrow> bytes \<Rightarrow> bytes \<Rightarrow> bool) \<Rightarrow> authenticated_receipt \<Rightarrow> bytes \<Rightarrow> receipt_error + verified_receipt" where
  "verify_ed25519 verify_strict receipt key =
    (if ar_scheme receipt \<noteq> Ed25519 then Inl RcUnexpectedScheme
     else if length (ar_authentication receipt) \<noteq> 64 then Inl RcAuthentication
     else
       and_then (signing_input Ed25519 (ar_key_id receipt) (ar_receipt receipt)) (\<lambda>input.
         if \<not> verify_strict key input (ar_authentication receipt) then Inl RcAuthentication
         else Inr \<lparr>vr_authenticated = receipt, vr_by = ByEd25519 key\<rparr>))"

definition authenticate_hmac_sha256 ::
  "(bytes \<Rightarrow> bytes \<Rightarrow> bytes) \<Rightarrow> receipt \<Rightarrow> bytes \<Rightarrow> bytes \<Rightarrow> receipt_error + authenticated_receipt" where
  "authenticate_hmac_sha256 hmac receipt key_id key =
    (if length key < 32 then Inl RcInvalidKey
     else
       and_then (signing_input HmacSha256 key_id receipt) (\<lambda>input.
         Inr \<lparr>ar_receipt = receipt, ar_scheme = HmacSha256, ar_key_id = key_id, ar_authentication = hmac key input\<rparr>))"

definition verify_hmac_sha256 ::
  "(bytes \<Rightarrow> bytes \<Rightarrow> bytes) \<Rightarrow> authenticated_receipt \<Rightarrow> bytes \<Rightarrow> receipt_error + verified_receipt" where
  "verify_hmac_sha256 hmac receipt key =
    (if ar_scheme receipt \<noteq> HmacSha256 then Inl RcUnexpectedScheme
     else if length key < 32 then Inl RcInvalidKey
     else
       and_then (signing_input HmacSha256 (ar_key_id receipt) (ar_receipt receipt)) (\<lambda>input.
         if ar_authentication receipt \<noteq> hmac key input then Inl RcAuthentication
         else Inr \<lparr>vr_authenticated = receipt, vr_by = ByHmacSha256\<rparr>))"

definition envelope_digest :: "hash_fun \<Rightarrow> authenticated_receipt \<Rightarrow> receipt_error + bytes" where
  "envelope_digest H v = and_then (encode_authenticated v) (\<lambda>encoded. Inr (H encoded))"

section \<open>Chains\<close>

definition subject_identity :: "receipt \<Rightarrow> subject_kind \<times> nat \<times> bytes \<times> nat" where
  "subject_identity v = (rc_subject_kind v, rc_suite_id v, rc_subject_digest v, rc_subject_length v)"

definition chain_scope :: "receipt \<Rightarrow> nat \<times> nat list \<times> bytes \<times> bytes" where
  "chain_scope v = (rc_provider v, rc_provider_version v, rc_session_id v, rc_incarnation_id v)"

definition check_predecessor :: "receipt \<Rightarrow> assurance_level list \<Rightarrow> receipt_error + unit" where
  "check_predecessor v observed =
    (if rc_assurance v \<noteq> LevelPublished then Inr ()
     else
       let required = model_assurance (receipt_required_predecessor (rc_profile v)) in
       if model_assurance (rc_actual_predecessor v) \<noteq> required then Inl RcPredecessorTooWeak
       else if \<not> list_ex (\<lambda>level. model_assurance level = required) observed then Inl RcPredecessorNotObserved
       else Inr ())"

fun verify_links ::
  "hash_fun \<Rightarrow> subject_kind \<times> nat \<times> bytes \<times> nat \<Rightarrow> nat \<times> nat list \<times> bytes \<times> bytes \<Rightarrow> verified_by \<Rightarrow>
   bytes \<Rightarrow> nat \<Rightarrow> assurance_level \<Rightarrow> assurance_level list \<Rightarrow> verified_receipt list \<Rightarrow> receipt_error + unit" where
  "verify_links H subject scope issuer previous_digest previous_sequence previous_assurance observed [] = Inr ()"
| "verify_links H subject scope issuer previous_digest previous_sequence previous_assurance observed (entry # rest) =
    (let v = vr_receipt entry in
     if rc_previous v \<noteq> Some previous_digest then Inl RcChainBroken
     else if subject_identity v \<noteq> subject then Inl RcChainSubjectMismatch
     else if vr_by entry \<noteq> issuer then Inl RcChainIssuerMismatch
     else if chain_scope v \<noteq> scope then Inl RcChainScopeMismatch
     else if rc_sequence v \<le> previous_sequence then Inl RcInvalidSequence
     else if model_assurance (rc_assurance v) \<le> model_assurance previous_assurance then Inl RcAssuranceDidNotAdvance
     else
       and_then (check_predecessor v observed) (\<lambda>u.
       and_then (envelope_digest H (vr_authenticated entry)) (\<lambda>digest.
         verify_links H subject scope issuer digest (rc_sequence v) (rc_assurance v)
           (observed @ [rc_assurance v]) rest)))"

definition verify_chain :: "hash_fun \<Rightarrow> verified_receipt list \<Rightarrow> receipt_error + unit" where
  "verify_chain H chain =
    (case chain of
       [] \<Rightarrow> Inl RcEmptyChain
     | first # rest \<Rightarrow>
         let v = vr_receipt first in
         if rc_previous v \<noteq> None then Inl RcChainBroken
         else
           and_then (envelope_digest H (vr_authenticated first)) (\<lambda>digest.
           and_then (check_predecessor v []) (\<lambda>u.
             verify_links H (subject_identity v) (chain_scope v) (vr_by first) digest
               (rc_sequence v) (rc_assurance v) [rc_assurance v] rest)))"

section \<open>Witness statements\<close>

record witness_statement =
  ws_head :: bytes
  ws_observed_at :: bytes
  ws_key_id :: bytes

record witness_signature =
  wsig_statement :: witness_statement
  wsig_scheme :: auth_scheme
  wsig_authentication :: bytes

text \<open>The ASCII text \<^verbatim>\<open>VOT witness v0\<close> and a zero byte.\<close>

definition WITNESS_DOMAIN :: bytes where
  "WITNESS_DOMAIN = [0x56, 0x4f, 0x54, 0x20, 0x77, 0x69, 0x74, 0x6e, 0x65, 0x73, 0x73, 0x20, 0x76, 0x30, 0x00]"

definition witness_validate :: "witness_statement \<Rightarrow> receipt_error + unit" where
  "witness_validate v =
    and_then (validate_key_id (ws_key_id v)) (\<lambda>u.
      if \<not> valid_rfc3339 (ws_observed_at v) then Inl RcInvalidTimestamp else Inr ())"

definition witness_canonical_bytes :: "witness_statement \<Rightarrow> receipt_error + bytes" where
  "witness_canonical_bytes v =
    and_then (witness_validate v) (\<lambda>u.
      let out = map_head WITNESS_DOMAIN 3;
          out = cbor_uint out 0;
          out = byte_string out (ws_head v);
          out = cbor_uint out 1;
          out = text_string out (ws_observed_at v);
          out = cbor_uint out 2 in
      Inr (byte_string out (ws_key_id v)))"

definition witness_ed25519 ::
  "(bytes \<Rightarrow> bytes \<Rightarrow> bytes) \<Rightarrow> witness_statement \<Rightarrow> bytes \<Rightarrow> receipt_error + witness_signature" where
  "witness_ed25519 sign statement key =
    and_then (witness_canonical_bytes statement) (\<lambda>bs.
      Inr \<lparr>wsig_statement = statement, wsig_scheme = Ed25519, wsig_authentication = sign key bs\<rparr>)"

definition verify_witness ::
  "(bytes \<Rightarrow> bytes \<Rightarrow> bytes \<Rightarrow> bool) \<Rightarrow> witness_signature \<Rightarrow> bytes \<Rightarrow> bytes \<Rightarrow> receipt_error + unit" where
  "verify_witness verify_strict s hd' key =
    (if ws_head (wsig_statement s) \<noteq> hd' then Inl RcWitnessHeadMismatch
     else if wsig_scheme s \<noteq> Ed25519 then Inl RcUnexpectedScheme
     else if length (wsig_authentication s) \<noteq> 64 then Inl RcAuthentication
     else
       and_then (witness_canonical_bytes (wsig_statement s)) (\<lambda>bs.
         if verify_strict key bs (wsig_authentication s) then Inr () else Inl RcAuthentication))"

section \<open>What a signature covers\<close>

lemma previous_item_short:
  assumes "\<forall>d. previous = Some d \<longrightarrow> length d = 32"
  shows "length (previous_item previous) \<le> 50"
proof (cases previous)
  case (Some d)
  then have "length d = 32" using assms by simp
  with Some show ?thesis using head_len_le [of 17] head_len_le [of 32] by (simp add: previous_item_def length_items)
qed (simp add: previous_item_def)

lemma receipt_item_short:
  assumes "receipt_typed v" "receipt_validate v = Inr ()"
  shows "length (receipt_item v) \<le> 1000"
proof -
  note facts = assms(1) [unfolded receipt_typed_def] receipt_validate_length [OF assms(2)]
  have 1: "length (rc_subject_digest v) = 32" "length (rc_session_id v) = 16" "length (rc_incarnation_id v) = 16"
      "length (rc_observed_at v) \<le> 35" "length (previous_item (rc_previous v)) \<le> 50"
    using facts previous_item_short by simp_all
  from facts obtain a b c where 2: "rc_provider_version v = [a, b, c]" by (auto simp: length_3)
  have 3: "length (concat (map uint_item (rc_provider_version v))) \<le> 27"
    using head_len_le [of a] head_len_le [of b] head_len_le [of c] by (simp add: 2 length_items)
  show ?thesis
    unfolding receipt_item_def length_append length_items
    by (rule order_trans, (rule add_le_mono head_len_le order_refl)+) (use 1 3 in simp)
qed

lemma signing_input_iff:
  "signing_input scheme key_id v = Inr m \<longleftrightarrow> key_id \<noteq> [] \<and> length key_id \<le> 64 \<and> receipt_validate v = Inr () \<and>
    m = DOMAIN @ be_bytes 2 (scheme_code scheme) @ [word_of_nat (length key_id)] @ key_id @ receipt_item v"
  by (auto simp: signing_input_def validate_key_id_def canonical_bytes_items split: if_splits)

lemma scheme_bytes_inject: "be_bytes 2 (scheme_code s) = be_bytes 2 (scheme_code t) \<longleftrightarrow> s = t"
proof -
  have "be_value (be_bytes 2 (scheme_code s)) = scheme_code s" for s by (cases s) simp_all
  then show ?thesis by (metis auth_scheme.exhaust scheme_code.simps one_eq_numeral_iff semiring_norm(85))
qed

lemma key_length_inject:
  assumes "length k \<le> 64" "length l \<le> 64" "(word_of_nat (length k) :: byte) = word_of_nat (length l)"
  shows "length k = length l"
proof -
  have "unat (word_of_nat n :: byte) = n" if "n \<le> 64" for n using that by (simp add: unat_of_nat)
  then show ?thesis using assms by metis
qed

lemma signing_input_inject:
  assumes "receipt_typed v" "receipt_typed w" "signing_input s k v = Inr m" "signing_input t l w = Inr m"
  shows "s = t \<and> k = l \<and> v = w"
proof -
  have m: "m = DOMAIN @ be_bytes 2 (scheme_code s) @ [word_of_nat (length k)] @ k @ receipt_item v"
      "m = DOMAIN @ be_bytes 2 (scheme_code t) @ [word_of_nat (length l)] @ l @ receipt_item w"
      and ok: "length k \<le> 64" "length l \<le> 64" "receipt_validate v = Inr ()" "receipt_validate w = Inr ()"
    using assms(3,4) by (simp_all add: signing_input_iff)
  then have eq: "be_bytes 2 (scheme_code s) = be_bytes 2 (scheme_code t)"
      "(word_of_nat (length k) :: byte) = word_of_nat (length l)" "k @ receipt_item v = l @ receipt_item w"
    by simp_all
  from key_length_inject [OF ok(1,2) eq(2)] eq(3) have "k = l" "receipt_item v = receipt_item w" by simp_all
  moreover have "length (receipt_item v @ []) \<le> u64_max"
    using receipt_item_short [OF assms(1) ok(3)] by (simp add: u64_max_def)
  ultimately show ?thesis
    using eq(1) parses_prefix_free [where p = decode_receipt and P = "\<lambda>v. receipt_typed v \<and> receipt_validate v = Inr ()"
        and item = receipt_item and v = v and w = w and s = "[]" and t = "[]"] parses_receipt assms(1,2) ok
    by (simp add: scheme_bytes_inject conj_assoc)
qed

lemma domains_disjoint:
  assumes "signing_input s k v = Inr m" shows "witness_canonical_bytes w \<noteq> Inr m"
proof
  assume "witness_canonical_bytes w = Inr m"
  then have "take 15 m = WITNESS_DOMAIN"
    by (auto simp: witness_canonical_bytes_def items WITNESS_DOMAIN_def)
  moreover have "take 15 m = DOMAIN" using assms by (auto simp: signing_input_iff DOMAIN_def)
  ultimately show False by (simp add: DOMAIN_def WITNESS_DOMAIN_def)
qed

section \<open>What a chain shows\<close>

text \<open>The digests a chain's entries commit to, and the contract of \<^const>\<open>verify_chain\<close>: one subject, one
  issuer and one scope, every entry linked to the one before it, sequence and assurance rising, and a
  publication only after its profile's predecessor.\<close>

definition entry_digest :: "hash_fun \<Rightarrow> verified_receipt \<Rightarrow> bytes" where
  "entry_digest H e = H (authenticated_item (vr_authenticated e))"

definition encodes :: "verified_receipt \<Rightarrow> bool" where
  "encodes e \<longleftrightarrow> encode_authenticated (vr_authenticated e) = Inr (authenticated_item (vr_authenticated e))"

definition chain_ok :: "hash_fun \<Rightarrow> verified_receipt list \<Rightarrow> bool" where
  "chain_ok H chain \<longleftrightarrow> chain \<noteq> [] \<and>
    (\<forall>e \<in> set chain. encodes e \<and> subject_identity (vr_receipt e) = subject_identity (vr_receipt (hd chain)) \<and>
      chain_scope (vr_receipt e) = chain_scope (vr_receipt (hd chain)) \<and> vr_by e = vr_by (hd chain)) \<and>
    (\<forall>i < length chain. rc_previous (vr_receipt (chain ! i)) = (if i = 0 then None else Some (entry_digest H (chain ! (i - 1))))) \<and>
    sorted_wrt (<) (map (\<lambda>e. rc_sequence (vr_receipt e)) chain) \<and>
    sorted_wrt (<) (map (\<lambda>e. model_assurance (rc_assurance (vr_receipt e))) chain) \<and>
    (\<forall>i < length chain. check_predecessor (vr_receipt (chain ! i)) (map (\<lambda>e. rc_assurance (vr_receipt e)) (take i chain)) = Inr ())"

lemma envelope_digest_iff: "envelope_digest H (vr_authenticated e) = Inr d \<longleftrightarrow> encodes e \<and> d = entry_digest H e"
  unfolding envelope_digest_def encodes_def entry_digest_def
  by (cases "encode_authenticated (vr_authenticated e)") (auto simp: encode_authenticated_iff)

lemma sorted_wrt_less_Cons2: "sorted_wrt (<) (a # b # xs) \<longleftrightarrow> a < (b :: 'a :: order) \<and> sorted_wrt (<) (b # xs)"
  by (auto intro: less_trans)

lemma verify_links_iff:
  "verify_links H subject scope issuer (entry_digest H e) (rc_sequence (vr_receipt e)) (rc_assurance (vr_receipt e)) observed rest = Inr () \<longleftrightarrow>
    (\<forall>x \<in> set rest. encodes x \<and> subject_identity (vr_receipt x) = subject \<and> chain_scope (vr_receipt x) = scope \<and> vr_by x = issuer) \<and>
    (\<forall>i < length rest. rc_previous (vr_receipt (rest ! i)) = Some (entry_digest H ((e # rest) ! i))) \<and>
    sorted_wrt (<) (map (\<lambda>e. rc_sequence (vr_receipt e)) (e # rest)) \<and>
    sorted_wrt (<) (map (\<lambda>e. model_assurance (rc_assurance (vr_receipt e))) (e # rest)) \<and>
    (\<forall>i < length rest. check_predecessor (vr_receipt (rest ! i)) (observed @ map (\<lambda>e. rc_assurance (vr_receipt e)) (take i rest)) = Inr ())"
proof (induction rest arbitrary: e observed)
  case (Cons x rest)
  have all: "(\<forall>i < length (x # rest). P ((x # rest) ! i) i) \<longleftrightarrow> P x 0 \<and> (\<forall>i < length rest. P (rest ! i) (Suc i))" for P
    by (auto simp: less_Suc_eq_0_disj)
  have "verify_links H subject scope issuer (entry_digest H e) (rc_sequence (vr_receipt e)) (rc_assurance (vr_receipt e)) observed (x # rest) = Inr () \<longleftrightarrow>
      rc_previous (vr_receipt x) = Some (entry_digest H e) \<and> subject_identity (vr_receipt x) = subject \<and> vr_by x = issuer \<and>
      chain_scope (vr_receipt x) = scope \<and> rc_sequence (vr_receipt e) < rc_sequence (vr_receipt x) \<and>
      model_assurance (rc_assurance (vr_receipt e)) < model_assurance (rc_assurance (vr_receipt x)) \<and>
      check_predecessor (vr_receipt x) observed = Inr () \<and> encodes x \<and>
      verify_links H subject scope issuer (entry_digest H x) (rc_sequence (vr_receipt x)) (rc_assurance (vr_receipt x))
        (observed @ [rc_assurance (vr_receipt x)]) rest = Inr ()"
    by (simp add: Let_def envelope_digest_iff not_le)
  then show ?case
    unfolding Cons.IH list.map sorted_wrt_less_Cons2
      all [of "\<lambda>y i. rc_previous (vr_receipt y) = Some (entry_digest H ((e # x # rest) ! i))"]
      all [of "\<lambda>y i. check_predecessor (vr_receipt y) (observed @ map (\<lambda>e. rc_assurance (vr_receipt e)) (take i (x # rest))) = Inr ()"]
    by (simp add: conj_ac)
qed simp

lemma verify_chain_iff: "verify_chain H chain = Inr () \<longleftrightarrow> chain_ok H chain"
proof (cases chain)
  case (Cons e rest)
  have all: "(\<forall>i < length (e # rest). P ((e # rest) ! i) i) \<longleftrightarrow> P e 0 \<and> (\<forall>i < length rest. P (rest ! i) (Suc i))" for P
    by (auto simp: less_Suc_eq_0_disj)
  have "verify_chain H chain = Inr () \<longleftrightarrow> rc_previous (vr_receipt e) = None \<and> encodes e \<and> check_predecessor (vr_receipt e) [] = Inr () \<and>
      verify_links H (subject_identity (vr_receipt e)) (chain_scope (vr_receipt e)) (vr_by e) (entry_digest H e)
        (rc_sequence (vr_receipt e)) (rc_assurance (vr_receipt e)) [rc_assurance (vr_receipt e)] rest = Inr ()"
    by (simp add: verify_chain_def Cons envelope_digest_iff Let_def)
  then show ?thesis
    unfolding verify_links_iff chain_ok_def Cons
      all [of "\<lambda>y i. rc_previous (vr_receipt y) = (if i = 0 then None else Some (entry_digest H ((e # rest) ! (i - 1))))"]
      all [of "\<lambda>y i. check_predecessor (vr_receipt y) (map (\<lambda>e. rc_assurance (vr_receipt e)) (take i (e # rest))) = Inr ()"]
    by (simp add: conj_ac)
qed (simp add: verify_chain_def chain_ok_def)

definition chain_typed :: "verified_receipt list \<Rightarrow> bool" where
  "chain_typed chain \<longleftrightarrow> (\<forall>e \<in> set chain. authenticated_typed (vr_authenticated e))"

definition envelopes :: "verified_receipt list \<Rightarrow> bytes set" where
  "envelopes chain = {bs. \<exists>e \<in> set chain. encode_authenticated (vr_authenticated e) = Inr bs}"

lemma authenticated_item_short:
  assumes "authenticated_typed v" "encode_authenticated v = Inr bs"
  shows "length bs \<le> 65536"
proof -
  from assms(2) have ok: "length (ar_key_id v) \<le> 64" "length (ar_authentication v) = authenticator_len (ar_scheme v)"
      "receipt_validate (ar_receipt v) = Inr ()" and bs: "bs = authenticated_item v"
    by (simp_all add: encode_authenticated_iff)
  from assms(1) ok(3) have "length (receipt_item (ar_receipt v)) \<le> 1000"
    by (intro receipt_item_short) (simp_all add: authenticated_typed_def)
  moreover have "length (ar_authentication v) \<le> 64" using ok(2) by (cases "ar_scheme v") simp_all
  moreover have "length (authenticated_item v) \<le>
      9 + (9 + (length (receipt_item (ar_receipt v)) + (9 + (9 + (9 + (9 + length (ar_key_id v) + (9 + (9 + length (ar_authentication v)))))))))"
    unfolding authenticated_item_def length_append length_items by (intro add_le_mono head_len_le order_refl)
  ultimately show ?thesis using ok(1) by (simp add: bs)
qed

lemma authenticated_inject:
  assumes "authenticated_typed v" "authenticated_typed w" "encode_authenticated v = Inr bs" "encode_authenticated w = Inr bs"
  shows "v = w"
proof -
  have "decode_authenticated bs = Inr v" "decode_authenticated bs = Inr w"
    using assms authenticated_item_short by (simp_all add: decode_authenticated_iff)
  then show ?thesis by simp
qed

lemma chain_ok_snoc:
  assumes "chain_ok H (c @ [e])"
  shows "rc_previous (vr_receipt e) = (if c = [] then None else Some (entry_digest H (last c)))"
    "c \<noteq> [] \<Longrightarrow> chain_ok H c"
proof -
  have link: "rc_previous (vr_receipt ((c @ [e]) ! i)) = (if i = 0 then None else Some (entry_digest H ((c @ [e]) ! (i - 1))))"
      and pred: "check_predecessor (vr_receipt ((c @ [e]) ! i)) (map (\<lambda>e. rc_assurance (vr_receipt e)) (take i (c @ [e]))) = Inr ()"
    if "i < length (c @ [e])" for i
    using assms that unfolding chain_ok_def by blast+
  show "rc_previous (vr_receipt e) = (if c = [] then None else Some (entry_digest H (last c)))"
    using link [of "length c"] by (auto simp: nth_append last_conv_nth)
  assume c: "c \<noteq> []"
  have prefix: "rc_previous (vr_receipt (c ! i)) = (if i = 0 then None else Some (entry_digest H (c ! (i - 1))))"
      "check_predecessor (vr_receipt (c ! i)) (map (\<lambda>e. rc_assurance (vr_receipt e)) (take i c)) = Inr ()"
    if "i < length c" for i
    using link [of i] pred [of i] that by (simp_all add: nth_append less_imp_diff_less)
  have whole: "\<forall>x \<in> set (c @ [e]). encodes x \<and> subject_identity (vr_receipt x) = subject_identity (vr_receipt (hd (c @ [e]))) \<and>
      chain_scope (vr_receipt x) = chain_scope (vr_receipt (hd (c @ [e]))) \<and> vr_by x = vr_by (hd (c @ [e]))"
      "sorted_wrt (<) (map (\<lambda>e. rc_sequence (vr_receipt e)) (c @ [e]))"
      "sorted_wrt (<) (map (\<lambda>e. model_assurance (rc_assurance (vr_receipt e))) (c @ [e]))"
    using assms unfolding chain_ok_def by blast+
  have "\<forall>x \<in> set c. encodes x \<and> subject_identity (vr_receipt x) = subject_identity (vr_receipt (hd c)) \<and>
      chain_scope (vr_receipt x) = chain_scope (vr_receipt (hd c)) \<and> vr_by x = vr_by (hd c)"
    using whole(1) unfolding hd_append2 [OF c] by simp
  moreover have "sorted_wrt (<) (map (\<lambda>e. rc_sequence (vr_receipt e)) c)"
      "sorted_wrt (<) (map (\<lambda>e. model_assurance (rc_assurance (vr_receipt e))) c)"
    using whole(2,3) unfolding map_append sorted_wrt_append by blast+
  ultimately show "chain_ok H c" unfolding chain_ok_def using c prefix by blast
qed

lemma head_commits:
  assumes "chain_ok H c" "chain_ok H d" "chain_typed c" "chain_typed d" "entry_digest H (last c) = entry_digest H (last d)"
  shows "map vr_authenticated c = map vr_authenticated d \<or> collision H (envelopes c) (envelopes d)"
  using assms
proof (induction c arbitrary: d rule: rev_induct)
  case (snoc e c)
  from snoc.prems(2) obtain d' f where d: "d = d' @ [f]" by (cases d rule: rev_cases) (auto simp: chain_ok_def)
  have typed: "authenticated_typed (vr_authenticated e)" "authenticated_typed (vr_authenticated f)" "chain_typed c" "chain_typed d'"
    using snoc.prems(3,4) by (auto simp: d chain_typed_def)
  have enc: "encode_authenticated (vr_authenticated e) = Inr (authenticated_item (vr_authenticated e))"
      "encode_authenticated (vr_authenticated f) = Inr (authenticated_item (vr_authenticated f))"
    using snoc.prems(1,2) by (simp_all add: d chain_ok_def encodes_def)
  show ?case
  proof (cases "authenticated_item (vr_authenticated e) = authenticated_item (vr_authenticated f)")
    case False
    moreover have "authenticated_item (vr_authenticated e) \<in> envelopes (c @ [e])"
        "authenticated_item (vr_authenticated f) \<in> envelopes d"
      using enc by (auto simp: envelopes_def d)
    ultimately show ?thesis using snoc.prems(5) by (auto simp: collision_def entry_digest_def d)
  next
    case True
    with enc typed have same: "vr_authenticated e = vr_authenticated f" by (metis authenticated_inject)
    note prev = chain_ok_snoc(1) [OF snoc.prems(1)] chain_ok_snoc(1) [OF snoc.prems(2) [unfolded d]]
    show ?thesis
    proof (cases "c = []")
      case True
      with prev same have "d' = []" by (simp split: if_splits)
      with True same show ?thesis by (simp add: d)
    next
      case nonempty: False
      with prev same have d': "d' \<noteq> []" "entry_digest H (last c) = entry_digest H (last d')"
        by (simp_all split: if_splits)
      from snoc.IH [OF chain_ok_snoc(2) [OF snoc.prems(1) nonempty] chain_ok_snoc(2) [OF snoc.prems(2) [unfolded d] d'(1)]
          typed(3,4) d'(2)]
      show ?thesis
      proof
        assume "collision H (envelopes c) (envelopes d')"
        moreover have "envelopes c \<subseteq> envelopes (c @ [e])" "envelopes d' \<subseteq> envelopes d"
          by (auto simp: envelopes_def d)
        ultimately show ?thesis using collision_mono by blast
      qed (simp add: d same)
    qed
  qed
qed (simp add: chain_ok_def)

section \<open>Properties\<close>

text \<open>A receipt for the examples, observed at 2026-01-02T03:04:05Z.\<close>

definition example_receipt :: receipt where
  "example_receipt = \<lparr>rc_subject_kind = SubjectObject, rc_suite_id = 1, rc_subject_digest = replicate 32 0, rc_subject_length = 5,
    rc_assurance = LevelDurable, rc_profile = ProfileBalanced, rc_actual_predecessor = LevelTransitVerified, rc_provider = 1,
    rc_provider_version = [1, 0, 0], rc_session_id = replicate 16 0, rc_incarnation_id = replicate 16 0, rc_sequence = 1,
    rc_observed_at = [0x32, 0x30, 0x32, 0x36, 0x2d, 0x30, 0x31, 0x2d, 0x30, 0x32, 0x54, 0x30, 0x33, 0x3a, 0x30, 0x34, 0x3a, 0x30, 0x35, 0x5a],
    rc_clock_source = 0, rc_flags = 0, rc_previous = None\<rparr>"

lemma example_time: "valid_rfc3339 (rc_observed_at example_receipt)" "utf8_ok (rc_observed_at example_receipt)"
  by code_simp+

lemma example_receipt_ok: "receipt_validate example_receipt = Inr ()" "receipt_typed example_receipt"
  using example_time by (simp_all add: receipt_validate_def receipt_typed_def) (simp_all add: example_receipt_def i64_max_def)

definition example_envelope :: authenticated_receipt where
  "example_envelope = \<lparr>ar_receipt = example_receipt, ar_scheme = Ed25519, ar_key_id = [1], ar_authentication = replicate 64 0\<rparr>"

definition example_chain :: "verified_receipt list" where
  "example_chain = [\<lparr>vr_authenticated = example_envelope, vr_by = ByEd25519 (replicate 32 0)\<rparr>]"

lemma example_envelope_ok: "authenticated_typed example_envelope" "encode_authenticated example_envelope = Inr (authenticated_item example_envelope)"
  using example_receipt_ok by (simp_all add: authenticated_typed_def example_envelope_def encode_authenticated_iff)

lemma example_chain_verifies: "verify_chain H example_chain = Inr ()"
proof -
  have "envelope_digest H example_envelope = Inr (H (authenticated_item example_envelope))"
    using example_envelope_ok(2) by (simp add: envelope_digest_def)
  moreover have "rc_previous (ar_receipt example_envelope) = None" "rc_assurance (ar_receipt example_envelope) = LevelDurable"
    by (simp_all add: example_envelope_def example_receipt_def)
  ultimately show ?thesis by (simp add: verify_chain_def example_chain_def check_predecessor_def)
qed

text \<open>A receipt chain verifies exactly when it is a history one issuer could have told: the
  entries have one subject, one scope and one verified issuer, each commits to the envelope of
  the one before it and the first to none, sequence numbers and assurance levels rise, and a
  publication follows an entry with its profile's required assurance.\<close>

theorem receipt_chain_exact: "verify_chain H chain = Inr () \<longleftrightarrow> chain_ok H chain"
  by (rule verify_chain_iff)

text \<open>C16. The head of a chain commits to its history: two chains that verify and whose last
  envelopes have the same digest are the same sequence of envelopes, or two different envelopes
  among them have the same hash.\<close>

theorem chain_head_commits:
  assumes "verify_chain H chain = Inr ()" "verify_chain H other = Inr ()"
    and "\<forall>e \<in> set chain \<union> set other. authenticated_typed (vr_authenticated e)"
    and "envelope_digest H (vr_authenticated (last chain)) = envelope_digest H (vr_authenticated (last other))"
  shows "map vr_authenticated chain = map vr_authenticated other \<or> collision H (envelopes chain) (envelopes other)"
proof -
  note ok = assms(1,2) [unfolded verify_chain_iff]
  have "encodes (last chain)" "encodes (last other)" using ok unfolding chain_ok_def by (meson last_in_set)+
  then have "entry_digest H (last chain) = entry_digest H (last other)"
    using assms(4) envelope_digest_iff [of H "last chain"] envelope_digest_iff [of H "last other"] by auto
  then show ?thesis using head_commits [OF ok] assms(3) by (simp add: chain_typed_def)
qed

theorem chain_head_commits_witness:
  "map vr_authenticated example_chain = map vr_authenticated example_chain \<or>
    collision (\<lambda>bs. bs) (envelopes example_chain) (envelopes example_chain)"
  using chain_head_commits [OF example_chain_verifies example_chain_verifies, of "\<lambda>bs. bs"] example_envelope_ok(1)
  by (simp add: example_chain_def)

text \<open>C17. A verified signature stands for one receipt: whatever the signature scheme, an envelope verifies
  under a key exactly when its signature is the key's over a string of bytes that spells the scheme,
  the key identifier and every field of the receipt. No other receipt, key identifier or scheme is
  signed with that string, and no witness statement is, so what the key's owner signed was this
  receipt and nothing else.\<close>

theorem verified_receipt_is_signed:
  assumes "receipt_typed (ar_receipt envelope)"
  shows "verify_ed25519 verify_strict envelope key = Inr verified \<longleftrightarrow>
    verified = \<lparr>vr_authenticated = envelope, vr_by = ByEd25519 key\<rparr> \<and> ar_scheme envelope = Ed25519 \<and>
    length (ar_authentication envelope) = 64 \<and>
    (\<exists>input. verify_strict key input (ar_authentication envelope) \<and>
      signing_input Ed25519 (ar_key_id envelope) (ar_receipt envelope) = Inr input \<and>
      (\<forall>scheme key_id receipt. receipt_typed receipt \<and> signing_input scheme key_id receipt = Inr input \<longrightarrow>
        scheme = Ed25519 \<and> key_id = ar_key_id envelope \<and> receipt = ar_receipt envelope) \<and>
      (\<forall>statement. witness_canonical_bytes statement \<noteq> Inr input))"
proof (cases "signing_input Ed25519 (ar_key_id envelope) (ar_receipt envelope)")
  case (Inl e)
  then show ?thesis by (auto simp: verify_ed25519_def split: if_splits)
next
  case (Inr input)
  have "scheme = Ed25519 \<and> key_id = ar_key_id envelope \<and> receipt = ar_receipt envelope"
    if "receipt_typed receipt" "signing_input scheme key_id receipt = Inr input" for scheme key_id receipt
    by (rule signing_input_inject [OF that(1) assms that(2) Inr])
  then show ?thesis using Inr domains_disjoint [OF Inr] by (auto simp: verify_ed25519_def split: if_splits)
qed

theorem verified_receipt_is_signed_witness:
  "\<exists>verified input. verify_ed25519 (\<lambda>key input signature. signature = key @ key) example_envelope (replicate 32 0) = Inr verified \<and>
    signing_input Ed25519 [1] example_receipt = Inr input \<and> (\<forall>statement. witness_canonical_bytes statement \<noteq> Inr input)"
proof -
  have typed: "receipt_typed (ar_receipt example_envelope)" using example_receipt_ok by (simp add: example_envelope_def)
  have "verify_ed25519 (\<lambda>key input signature. signature = key @ key) example_envelope (replicate 32 0) =
      Inr \<lparr>vr_authenticated = example_envelope, vr_by = ByEd25519 (replicate 32 0)\<rparr>"
    using example_receipt_ok
    by (simp add: verify_ed25519_def example_envelope_def signing_input_def validate_key_id_def canonical_bytes_items
        flip: replicate_add)
  from verified_receipt_is_signed [OF typed, THEN iffD1, OF this] this show ?thesis by (auto simp: example_envelope_def)
qed

end
