(* ===== verification/Manifest_Path.thy ===== *)
theory Manifest_Path
  imports Payload_Codec Rust_Text "HOL-Library.List_Lexorder" "HOL-Library.Sublist"
begin

text \<open>
  Package paths (\<open>src/crates/vot-manifest/src/path.rs\<close>): the two path profiles, which components
  each accepts, and the canonical key under which a manifest orders and compares its entries.
  A text component is the UTF-8 bytes of a Rust string; byte strings are ordered as Rust orders
  slices, which is the lexicographic order of \<open>List_Lexorder\<close>.

  Unicode normalisation (the \<open>unicode-normalization\<close> crate) and the lower-case table are the
  parameter \<open>unicode\<close>. \<open>unicode_ok\<close> collects what the laws about keys rely on.
\<close>

section \<open>Definitions\<close>

text \<open>\<open>vot_manifest::Error\<close>.\<close>

datatype manifest_error =
  InvalidPath | PathCollision | EntriesUnsorted | InvalidObject | MPageTooLarge | WrongManifest |
  WrongPageIndex | BrokenPageChain | SealedPageInProgressiveStream | MPoisoned | InvalidSeal

definition MAX_PATH_COMPONENTS :: nat where "MAX_PATH_COMPONENTS = 256"

text \<open>\<open>nfc\<close> and \<open>nfkc\<close> of \<open>UnicodeNormalization\<close>, and \<open>char::to_lowercase\<close>.\<close>

record unicode =
  un_nfc :: "rtext \<Rightarrow> rtext"
  un_nfkc :: "rtext \<Rightarrow> rtext"
  un_lower :: "nat \<Rightarrow> rtext"

datatype path_profile = Portable | RawPosix

datatype component = TextPart bytes | BytesPart bytes

record package_path =
  pp_profile :: path_profile
  pp_components :: "component list"

text \<open>\<open>str::chars\<close>: the scalar values of well-formed UTF-8.\<close>

fun utf8_chars :: "bytes \<Rightarrow> rtext" where
  "utf8_chars [] = []"
| "utf8_chars (a # bs) =
    (if a \<le> 0x7f then unat a # utf8_chars bs
     else if a \<le> 0xdf then
       (case bs of b # t \<Rightarrow> (unat a mod 32 * 64 + unat b mod 64) # utf8_chars t | _ \<Rightarrow> [])
     else if a \<le> 0xef then
       (case bs of b # c # t \<Rightarrow>
          (unat a mod 16 * 4096 + unat b mod 64 * 64 + unat c mod 64) # utf8_chars t
        | _ \<Rightarrow> [])
     else
       (case bs of b # c # d # t \<Rightarrow>
          (unat a mod 8 * 262144 + unat b mod 64 * 4096 + unat c mod 64 * 64 + unat d mod 64) # utf8_chars t
        | _ \<Rightarrow> []))"

definition is_path_prefix :: "bytes \<Rightarrow> bytes \<Rightarrow> bool" where
  "is_path_prefix ancestor descendant \<longleftrightarrow>
    take (length ancestor) descendant = ancestor \<and>
    length ancestor < length descendant \<and> descendant ! length ancestor = 0"

definition portable_fold :: "unicode \<Rightarrow> rtext \<Rightarrow> rtext" where
  "portable_fold U component =
    un_nfc U (concat (map (\<lambda>character.
      if character \<in> {0x49, 0x69, 0x130, 0x131} then [0x69] else un_lower U character)
      (un_nfc U component)))"

definition is_device_digit :: "rtext \<Rightarrow> bool" where
  "is_device_digit value \<longleftrightarrow> value \<in> {[0x31], [0x32], [0x33], [0x34], [0x35], [0x36], [0x37], [0x38], [0x39], [0xb9], [0xb2], [0xb3]}"

definition refused_char :: "nat \<Rightarrow> bool" where
  "refused_char c \<longleftrightarrow> c \<le> 0x1f \<or> c \<in> {0x200c, 0x200d} \<or> 0x202a \<le> c \<and> c \<le> 0x202e \<or> 0x2066 \<le> c \<and> c \<le> 0x2069 \<or> c = 0xfeff"

text \<open>\<open>trim_end_matches\<close> and \<open>ends_with\<close> on \<open>['.', ' ']\<close>.\<close>

definition dot_or_space :: "nat \<Rightarrow> bool" where "dot_or_space c \<longleftrightarrow> c \<in> {0x2e, 0x20}"

definition trim_end_dots :: "rtext \<Rightarrow> rtext" where
  "trim_end_dots s = rev (dropWhile dot_or_space (rev s))"

definition reserved_stem :: "rtext \<Rightarrow> bool" where
  "reserved_stem stem \<longleftrightarrow>
    stem \<in> {[0x63, 0x6f, 0x6e], [0x70, 0x72, 0x6e], [0x61, 0x75, 0x78], [0x6e, 0x75, 0x6c]} \<or>
    is_some_and (strip_prefix [0x63, 0x6f, 0x6d] stem) is_device_digit \<or>
    is_some_and (strip_prefix [0x6c, 0x70, 0x74] stem) is_device_digit"

definition validate_portable_component :: "unicode \<Rightarrow> bytes \<Rightarrow> manifest_error + unit" where
  "validate_portable_component U component =
    (let chars = utf8_chars component in
     if component = [] \<or> 255 < length component \<or>
       list_ex (\<lambda>c. c \<in> {0, 0x2f, 0x5c, 0x3c, 0x3e, 0x3a, 0x22, 0x7c, 0x3f, 0x2a}) chars \<or>
       (chars \<noteq> [] \<and> dot_or_space (last chars)) \<or>
       list_ex refused_char chars
     then Inl InvalidPath
     else if un_nfkc U chars \<in> {[0x2e], [0x2e, 0x2e]} then Inl InvalidPath
     else let folded = portable_fold U chars in
     if folded \<in> {[], [0x2e], [0x2e, 0x2e]} then Inl InvalidPath
     else if reserved_stem (hd (split_on 0x2e folded)) then Inl InvalidPath
     else Inr ())"

definition valid_raw_component :: "bytes \<Rightarrow> bool" where
  "valid_raw_component component \<longleftrightarrow>
    component \<noteq> [] \<and> length component \<le> 255 \<and> component \<noteq> [0x2e] \<and> component \<noteq> [0x2e, 0x2e] \<and>
    0 \<notin> set component \<and> 0x2f \<notin> set component \<and> 0x5c \<notin> set component"

fun validate_component :: "unicode \<Rightarrow> path_profile \<Rightarrow> component \<Rightarrow> manifest_error + unit" where
  "validate_component U Portable (TextPart text) = validate_portable_component U text"
| "validate_component U RawPosix (BytesPart bs) = (if valid_raw_component bs then Inr () else Inl InvalidPath)"
| "validate_component U _ _ = Inl InvalidPath"

fun validate_each :: "unicode \<Rightarrow> path_profile \<Rightarrow> component list \<Rightarrow> manifest_error + unit" where
  "validate_each U profile [] = Inr ()"
| "validate_each U profile (c # cs) = and_then (validate_component U profile c) (\<lambda>u. validate_each U profile cs)"

definition validate_components :: "unicode \<Rightarrow> component list \<Rightarrow> path_profile \<Rightarrow> manifest_error + unit" where
  "validate_components U path profile =
    (if path = [] \<or> MAX_PATH_COMPONENTS < length path then Inl InvalidPath else validate_each U profile path)"

text \<open>\<open>PackagePath::new\<close>.\<close>

definition package_path_new :: "unicode \<Rightarrow> component list \<Rightarrow> path_profile \<Rightarrow> manifest_error + package_path" where
  "package_path_new U components profile =
    and_then (validate_components U components profile) (\<lambda>u.
      Inr \<lparr>pp_profile = profile, pp_components = components\<rparr>)"

text \<open>\<open>PackagePath::portable\<close> and \<open>PackagePath::raw\<close>.\<close>

definition path_portable :: "unicode \<Rightarrow> bytes list \<Rightarrow> manifest_error + package_path" where
  "path_portable U parts = package_path_new U (map TextPart parts) Portable"

definition path_raw :: "unicode \<Rightarrow> bytes list \<Rightarrow> manifest_error + package_path" where
  "path_raw U parts = package_path_new U (map BytesPart parts) RawPosix"

text \<open>A component's contribution to the key. The last case is the \<open>unreachable!\<close> arm: \<open>PackagePath::new\<close>,
  the only constructor, refuses a component of the other profile (\<open>accepted_unmixed\<close>).\<close>

fun component_key :: "unicode \<Rightarrow> path_profile \<Rightarrow> component \<Rightarrow> bytes" where
  "component_key U Portable (TextPart text) = utf8 (trim_end_dots (portable_fold U (utf8_chars text)))"
| "component_key U RawPosix (BytesPart bs) = bs"
| "component_key U _ _ = []"

definition path_key :: "unicode \<Rightarrow> package_path \<Rightarrow> bytes" where
  "path_key U path =
    foldl (\<lambda>key component. (if key \<noteq> [] then key @ [0] else key) @ component_key U (pp_profile path) component)
      [] (pp_components path)"

definition canonical_path_key :: "unicode \<Rightarrow> package_path \<Rightarrow> path_profile \<Rightarrow> manifest_error + bytes" where
  "canonical_path_key U path profile =
    (if pp_profile path \<noteq> profile then Inl InvalidPath else Inr (path_key U path))"

section \<open>The order of keys\<close>

text \<open>Between a key and a key below it in the tree, the order puts only keys below it: comparing
  neighbours is enough.\<close>

lemma is_path_prefix_iff: "is_path_prefix a d \<longleftrightarrow> (\<exists>z. d = a @ 0 # z)"
proof
  assume "is_path_prefix a d"
  then have "d = a @ drop (length a) d" "drop (length a) d = 0 # drop (Suc (length a)) d"
    unfolding is_path_prefix_def by (metis append_take_drop_id) (metis Cons_nth_drop_Suc is_path_prefix_def \<open>is_path_prefix a d\<close>)
  then show "\<exists>z. d = a @ 0 # z" by metis
qed (auto simp: is_path_prefix_def)

lemma path_prefix_between: "f < k \<Longrightarrow> k < f @ 0 # z \<Longrightarrow> \<exists>y. k = f @ 0 # (y :: bytes)"
proof (induction f arbitrary: k)
  case Nil
  then show ?case by (cases k) (auto simp: word_less_nat_alt)
next
  case (Cons a f)
  then show ?case by (cases k) auto
qed

definition entry_before :: "bytes \<times> bool \<Rightarrow> bytes \<times> bool \<Rightarrow> bool" where
  "entry_before a b \<longleftrightarrow> fst a < fst b \<and> \<not> (snd a \<and> is_path_prefix (fst a) (fst b))"

lemma transp_entry_before: "transp entry_before"
proof (rule transpI)
  fix a b c assume "entry_before a b" "entry_before b c"
  then show "entry_before a c"
    using path_prefix_between [of "fst a" "fst b"] by (auto simp: entry_before_def is_path_prefix_iff)
qed

lemma entries_before_iff: "successively entry_before es \<longleftrightarrow> sorted_wrt entry_before es"
  using transp_entry_before by (simp add: successively_conv_sorted_wrt)

section \<open>Keys and components\<close>

lemma validate_each_iff: "validate_each U profile cs = Inr () \<longleftrightarrow> list_all (\<lambda>c. validate_component U profile c = Inr ()) cs"
  by (induction cs) (auto simp: and_then_eq_Inr)

lemma validate_components_iff:
  "validate_components U cs profile = Inr () \<longleftrightarrow>
    cs \<noteq> [] \<and> length cs \<le> MAX_PATH_COMPONENTS \<and> list_all (\<lambda>c. validate_component U profile c = Inr ()) cs"
  by (auto simp: validate_components_def validate_each_iff)

lemma accepted_unmixed:
  "validate_component U profile c = Inr () \<Longrightarrow>
    (profile = Portable \<and> (\<exists>t. c = TextPart t)) \<or> (profile = RawPosix \<and> (\<exists>b. c = BytesPart b))"
  by (cases "(U, profile, c)" rule: validate_component.cases) auto

lemma key_tail:
  assumes "key \<noteq> []"
  shows "foldl (\<lambda>key c. (if key \<noteq> [] then key @ [0] else key) @ f c) key cs = key @ concat (map (\<lambda>c. 0 # f c) cs)"
  using assms by (induction cs arbitrary: key) auto

lemma path_key_parts:
  assumes "pp_components path = c # cs" "component_key U (pp_profile path) c \<noteq> []"
  shows "0 # path_key U path = concat (map (\<lambda>c. 0 # component_key U (pp_profile path) c) (c # cs))"
  using assms key_tail [of "component_key U (pp_profile path) c" "component_key U (pp_profile path)" cs]
  by (simp add: path_key_def)

lemma nul_free_split:
  assumes "k @ s = l @ t" "(0 :: byte) \<notin> set k" "0 \<notin> set l" "s = [] \<or> hd s = 0" "t = [] \<or> hd t = 0"
  shows "k = l \<and> s = t"
proof -
  have "takeWhile (\<lambda>x. x \<noteq> 0) (k @ s) = k" "takeWhile (\<lambda>x. x \<noteq> 0) (l @ t) = l"
    using assms(2-5) by (cases s; cases t; auto simp: takeWhile_append)+
  then show ?thesis using assms(1) by simp
qed

lemma parts_prefix_iff:
  assumes "\<forall>k \<in> set a. 0 \<notin> set k" "\<forall>k \<in> set b. (0 :: byte) \<notin> set k"
  shows "(\<exists>z. concat (map ((#) 0) b) = concat (map ((#) 0) a) @ 0 # z) \<longleftrightarrow> strict_prefix a b"
  using assms
proof (induction a arbitrary: b)
  case Nil
  then show ?case by (cases b) auto
next
  case (Cons k a)
  show ?case
  proof (cases b)
    case (Cons l b')
    have *: "hd_ok (concat (map ((#) 0) xs))" if "hd_ok = (\<lambda>s :: bytes. s = [] \<or> hd s = 0)" for hd_ok and xs :: "bytes list"
      by (cases xs) (simp_all add: that)
    have "(l @ concat (map ((#) 0) b') = k @ concat (map ((#) 0) a) @ 0 # z) \<longleftrightarrow>
        l = k \<and> concat (map ((#) 0) b') = concat (map ((#) 0) a) @ 0 # z" for z
      using nul_free_split [of l "concat (map ((#) 0) b')" k "concat (map ((#) 0) a) @ 0 # z"] Cons.prems * [OF refl, of b'] * [OF refl, of a]
      by (auto simp: Cons hd_append)
    then show ?thesis using Cons.IH [of b'] Cons.prems by (auto simp: Cons)
  qed simp
qed

text \<open>Component keys of an accepted path.\<close>

definition component_keys :: "unicode \<Rightarrow> package_path \<Rightarrow> bytes list" where
  "component_keys U path = map (component_key U (pp_profile path)) (pp_components path)"

definition keys_ok :: "unicode \<Rightarrow> package_path \<Rightarrow> bool" where
  "keys_ok U path \<longleftrightarrow> component_keys U path \<noteq> [] \<and> (\<forall>k \<in> set (component_keys U path). k \<noteq> [] \<and> 0 \<notin> set k)"

lemma path_key_joined: "keys_ok U path \<Longrightarrow> 0 # path_key U path = concat (map ((#) 0) (component_keys U path))"
  using path_key_parts [of path _ _ U]
  by (cases "pp_components path") (auto simp: keys_ok_def component_keys_def comp_def)

lemma path_prefix_components:
  assumes "keys_ok U a" "keys_ok U b"
  shows "is_path_prefix (path_key U a) (path_key U b) \<longleftrightarrow> strict_prefix (component_keys U a) (component_keys U b)"
proof -
  have "is_path_prefix (path_key U a) (path_key U b) \<longleftrightarrow> (\<exists>z. 0 # path_key U b = (0 # path_key U a) @ 0 # z)"
    by (simp add: is_path_prefix_iff)
  also have "\<dots> \<longleftrightarrow> strict_prefix (component_keys U a) (component_keys U b)"
    unfolding path_key_joined [OF assms(1)] path_key_joined [OF assms(2)]
    by (rule parts_prefix_iff) (use assms in \<open>auto simp: keys_ok_def\<close>)
  finally show ?thesis .
qed

lemma parts_inject:
  assumes "concat (map ((#) 0) a) = concat (map ((#) (0 :: byte)) b)" "\<forall>k \<in> set a. 0 \<notin> set k" "\<forall>k \<in> set b. 0 \<notin> set k"
  shows "a = b"
  using assms
proof (induction a arbitrary: b)
  case Nil
  then show ?case by (cases b) auto
next
  case (Cons k a)
  then obtain l b' where b: "b = l # b'" by (cases b) auto
  have hd: "s = [] \<or> hd s = 0" if "s = concat (map ((#) (0 :: byte)) xs)" for s xs
    by (cases xs) (simp_all add: that)
  have "k = l \<and> concat (map ((#) 0) a) = concat (map ((#) 0) b')"
    by (rule nul_free_split) (use Cons.prems b hd [OF refl] in auto)
  then show ?case using Cons.IH [of b'] Cons.prems b by simp
qed

lemma path_key_inject:
  assumes "keys_ok U a" "keys_ok U b"
  shows "path_key U a = path_key U b \<longleftrightarrow> component_keys U a = component_keys U b"
proof
  assume "path_key U a = path_key U b"
  then have "concat (map ((#) 0) (component_keys U a)) = concat (map ((#) 0) (component_keys U b))"
    using path_key_joined [OF assms(1)] path_key_joined [OF assms(2)] by simp
  then show "component_keys U a = component_keys U b"
    by (rule parts_inject) (use assms in \<open>auto simp: keys_ok_def\<close>)
next
  assume "component_keys U a = component_keys U b"
  then show "path_key U a = path_key U b"
    using path_key_joined [OF assms(1)] path_key_joined [OF assms(2)] by (metis list.inject)
qed

section \<open>What is relied on of Unicode\<close>

definition scalar :: "nat \<Rightarrow> bool" where
  "scalar c \<longleftrightarrow> c < 0xD800 \<or> 0xE000 \<le> c \<and> c \<le> 0x10FFFF"

text \<open>Normalisation and lower-casing give scalar values, produce no NUL of their own, and leave
  a text that does not end in a dot or a space so.\<close>

definition keeps_names :: "(rtext \<Rightarrow> rtext) \<Rightarrow> bool" where
  "keeps_names f \<longleftrightarrow> (\<forall>s. list_all scalar s \<longrightarrow>
    list_all scalar (f s) \<and> (0 \<notin> set s \<longrightarrow> 0 \<notin> set (f s)) \<and>
    (s \<noteq> [] \<and> \<not> dot_or_space (last s) \<longrightarrow> f s \<noteq> [] \<and> \<not> dot_or_space (last (f s))))"

definition char_keeps_names :: "(nat \<Rightarrow> rtext) \<Rightarrow> bool" where
  "char_keeps_names f \<longleftrightarrow> (\<forall>c. scalar c \<longrightarrow>
    list_all scalar (f c) \<and> (c \<noteq> 0 \<longrightarrow> 0 \<notin> set (f c)) \<and>
    (\<not> dot_or_space c \<longrightarrow> f c \<noteq> [] \<and> \<not> dot_or_space (last (f c))))"

definition unicode_ok :: "unicode \<Rightarrow> bool" where
  "unicode_ok U \<longleftrightarrow> keeps_names (un_nfc U) \<and> char_keeps_names (un_lower U)"

lemma keeps_concat:
  assumes "char_keeps_names f"
  shows "keeps_names (\<lambda>s. concat (map f s))"
  unfolding keeps_names_def
proof (intro allI impI conjI)
  fix s assume s: "list_all scalar s"
  then show "list_all scalar (concat (map f s))"
    using assms by (induction s) (auto simp: char_keeps_names_def)
  show "0 \<notin> set (concat (map f s))" if "0 \<notin> set s"
    using s that assms by (induction s) (auto simp: char_keeps_names_def)
  assume "s \<noteq> [] \<and> \<not> dot_or_space (last s)"
  then obtain t c where t: "s = t @ [c]" "\<not> dot_or_space c" by (metis append_butlast_last_id)
  then have "f c \<noteq> []" "\<not> dot_or_space (last (f c))" using s assms by (auto simp: char_keeps_names_def)
  then show "concat (map f s) \<noteq> []" "\<not> dot_or_space (last (concat (map f s)))" using t by simp_all
qed

lemma keeps_comp: "keeps_names f \<Longrightarrow> keeps_names g \<Longrightarrow> keeps_names (\<lambda>s. f (g s))"
  by (simp add: keeps_names_def)

lemma portable_fold_keeps:
  assumes "unicode_ok U"
  shows "keeps_names (portable_fold U)"
proof -
  have "char_keeps_names (\<lambda>c. if c \<in> {0x49, 0x69, 0x130, 0x131} then [0x69] else un_lower U c)"
    using assms by (auto simp: unicode_ok_def char_keeps_names_def scalar_def dot_or_space_def)
  with assms show ?thesis unfolding portable_fold_def [abs_def] unicode_ok_def
    by (elim conjE) (rule keeps_comp [OF _ keeps_comp [OF keeps_concat]])
qed

lemma scalar_2: "scalar (a mod 32 * 64 + b mod 64)"
proof -
  have "a mod 32 < 32" "b mod 64 < 64" by simp_all
  then have "a mod 32 * 64 + b mod 64 < 0xD800" by linarith
  then show ?thesis by (simp add: scalar_def)
qed

lemma scalar_3:
  assumes "224 \<le> a" "a \<le> 239" "a = 237 \<longrightarrow> b \<le> 159" "128 \<le> b" "b \<le> 191"
  shows "scalar (a mod 16 * 4096 + b mod 64 * 64 + c mod 64)"
proof -
  have "a mod 16 = a - 224" "b mod 64 = b - 128" "c mod 64 < 64"
    using assms mod_if [of a 16] by (auto simp: mod_if [of b 64] mod_if [of "b - 64" 64] le_mod_geq)
  moreover consider "a \<le> 236" | "a = 237" | "238 \<le> a" by linarith
  then have "(a - 224) * 4096 + (b - 128) * 64 + c mod 64 < 0xD800 \<or>
      0xE000 \<le> (a - 224) * 4096 + (b - 128) * 64 + c mod 64"
    by cases (use assms \<open>c mod 64 < 64\<close> in \<open>simp_all; linarith\<close>)+
  ultimately show ?thesis using assms by (simp add: scalar_def; linarith)
qed

lemma scalar_4:
  assumes "240 \<le> a" "a \<le> 244" "a = 240 \<longrightarrow> 144 \<le> b" "a = 244 \<longrightarrow> b \<le> 143" "128 \<le> b" "b \<le> 191"
  shows "scalar (a mod 8 * 262144 + b mod 64 * 4096 + c mod 64 * 64 + d mod 64)"
proof -
  have "a mod 8 = a - 240" "b mod 64 = b - 128" "c mod 64 < 64" "d mod 64 < 64"
    using assms by (auto simp: mod_if [of b 64] mod_if [of "b - 64" 64] le_mod_geq)
  moreover consider "a = 240" | "241 \<le> a" "a \<le> 243" | "a = 244" using assms by linarith
  then have "0xE000 \<le> (a - 240) * 262144 + (b - 128) * 4096 + c mod 64 * 64 + d mod 64 \<and>
      (a - 240) * 262144 + (b - 128) * 4096 + c mod 64 * 64 + d mod 64 \<le> 0x10FFFF"
    by cases (use assms \<open>c mod 64 < 64\<close> \<open>d mod 64 < 64\<close> in linarith)+
  ultimately show ?thesis by (simp add: scalar_def)
qed

lemma byte_nat: "numeral k \<le> (a :: byte) \<longleftrightarrow> unat (numeral k :: byte) \<le> unat a"
  "(a :: byte) \<le> numeral k \<longleftrightarrow> unat a \<le> unat (numeral k :: byte)"
  by (simp_all only: word_le_nat_alt)

lemma byte_of: "unat (a :: byte) = n \<Longrightarrow> a = word_of_nat n"
  by auto

lemma char_3:
  assumes "0xe0 \<le> (a :: byte)" "a \<le> 0xef" "a = 0xed \<longrightarrow> b \<le> 0x9f" "utf8_cont b"
  shows "scalar (unat a mod 16 * 4096 + unat b mod 64 * 64 + c mod 64)"
proof (rule scalar_3)
  show "unat a = 237 \<longrightarrow> unat b \<le> 159" using assms(3) byte_of [of a 237] unfolding byte_nat by simp
qed (use assms(1,2,4) in \<open>simp_all only: byte_nat utf8_cont_def, simp_all\<close>)

lemma char_4:
  assumes "0xf0 \<le> (a :: byte)" "a \<le> 0xf4" "a = 0xf0 \<longrightarrow> 0x90 \<le> b" "a = 0xf4 \<longrightarrow> b \<le> 0x8f" "utf8_cont b"
  shows "scalar (unat a mod 8 * 262144 + unat b mod 64 * 4096 + c mod 64 * 64 + d mod 64)"
proof (rule scalar_4)
  show "unat a = 240 \<longrightarrow> 144 \<le> unat b" using assms(3) byte_of [of a 240] unfolding byte_nat by simp
  show "unat a = 244 \<longrightarrow> unat b \<le> 143" using assms(4) byte_of [of a 244] unfolding byte_nat by simp
qed (use assms(1,2,5) in \<open>simp_all only: byte_nat utf8_cont_def, simp_all\<close>)

lemma utf8_chars_scalar: "utf8_ok bs \<Longrightarrow> list_all scalar (utf8_chars bs)"
proof (induction bs rule: utf8_chars.induct)
  case (2 a bs)
  note ok = "2.prems" [unfolded utf8_ok.simps(2)]
  consider "a \<le> 0x7f" | "\<not> a \<le> 0x7f" "a \<le> 0xdf" | "\<not> a \<le> 0x7f" "\<not> a \<le> 0xdf" "a \<le> 0xef"
    | "\<not> a \<le> 0x7f" "\<not> a \<le> 0xdf" "\<not> a \<le> 0xef" by blast
  then show ?case
  proof cases
    case 1
    then have "unat a \<le> 127" by (simp only: byte_nat) simp
    then have "scalar (unat a)" unfolding scalar_def by linarith
    then show ?thesis using "2.IH"(1) ok by (simp only: 1 utf8_chars.simps if_True list.pred_inject simp_thms)
  next
    case c: 2
    then have "\<not> 0xe0 \<le> a" "\<not> 0xf0 \<le> a" by (simp_all only: byte_nat) simp_all
    then obtain b t where bs: "bs = b # t" "utf8_ok t" using ok c by (cases bs) (simp_all only: if_False simp_thms list.case split: if_splits)
    then show ?thesis using "2.IH"(2) [OF c bs(1)] scalar_2
      by (simp only: c utf8_chars.simps if_False if_True list.case list.pred_inject simp_thms)
  next
    case c: 3
    then have a: "0xe0 \<le> a" by (simp only: byte_nat) simp
    then obtain b d t where bs: "bs = b # d # t" "utf8_ok t" "a = 0xed \<longrightarrow> b \<le> 0x9f" "utf8_cont b"
      using ok c by (simp only: if_False if_True simp_thms) (auto split: list.splits)
    then show ?thesis using "2.IH"(3) [OF c bs(1) refl] char_3 [OF a c(3) bs(3,4)]
      by (simp only: c utf8_chars.simps if_False if_True list.case list.pred_inject simp_thms)
  next
    case c: 4
    then have a: "0xf0 \<le> a \<and> a \<le> 0xf4" using ok by (simp only: if_False simp_thms split: if_splits)
    with ok c obtain b d e t where bs: "bs = b # d # e # t" "utf8_ok t" "a = 0xf0 \<longrightarrow> 0x90 \<le> b" "a = 0xf4 \<longrightarrow> b \<le> 0x8f" "utf8_cont b"
      by (simp only: if_False if_True simp_thms) (auto split: list.splits)
    then show ?thesis using "2.IH"(4) [OF c bs(1) refl refl] char_4 [OF a [THEN conjunct1] a [THEN conjunct2] bs(3-5)]
      by (simp only: c utf8_chars.simps if_False if_True list.case list.pred_inject simp_thms)
  qed
qed simp

lemma utf8_chars_nonempty: "utf8_ok bs \<Longrightarrow> bs \<noteq> [] \<Longrightarrow> utf8_chars bs \<noteq> []"
  by (cases bs) (auto split: list.splits if_splits)

lemma utf8_char_nonzero: "scalar c \<Longrightarrow> c \<noteq> 0 \<Longrightarrow> 0 \<notin> set (utf8_char c)"
proof -
  have *: "word_of_nat n \<noteq> (0 :: byte)" if "0 < n" "n < 256" for n
    using that by (simp add: word_unat_eq_iff unat_of_nat)
  assume "scalar c" "c \<noteq> 0"
  then have "c \<le> 0x10FFFF" by (auto simp: scalar_def)
  moreover have "c div 64 mod 64 < 64" "c mod 64 < 64" "c div 4096 mod 64 < 64" by simp_all
  ultimately show ?thesis using \<open>c \<noteq> 0\<close> *
    unfolding utf8_char_def by (auto simp del: of_nat_add of_nat_numeral) 
qed

lemma utf8_nonzero: "list_all scalar s \<Longrightarrow> 0 \<notin> set s \<Longrightarrow> 0 \<notin> set (utf8 s)"
  unfolding utf8_def by (induction s) (auto simp: utf8_char_nonzero)

lemma utf8_nonempty: "s \<noteq> [] \<Longrightarrow> utf8 s \<noteq> []"
  by (cases s) (simp_all add: utf8_def utf8_char_def)

lemma portable_key_ok:
  assumes "unicode_ok U" "utf8_ok text" "validate_portable_component U text = Inr ()"
  shows "component_key U Portable (TextPart text) \<noteq> [] \<and> 0 \<notin> set (component_key U Portable (TextPart text))"
proof -
  let ?s = "utf8_chars text" let ?f = "portable_fold U ?s"
  have s: "text \<noteq> []" "0 \<notin> set ?s" "?s \<noteq> [] \<longrightarrow> \<not> dot_or_space (last ?s)"
    using assms(3) by (auto simp: validate_portable_component_def Let_def list_ex_iff split: if_splits)
  have f: "list_all scalar ?f" "0 \<notin> set ?f" "?f \<noteq> []" "\<not> dot_or_space (last ?f)"
    using portable_fold_keeps [OF assms(1)] utf8_chars_scalar [OF assms(2)] s utf8_chars_nonempty [OF assms(2) s(1)]
    by (simp_all add: keeps_names_def)
  then have "trim_end_dots ?f = ?f"
    by (cases ?f rule: rev_cases) (simp_all add: trim_end_dots_def)
  then show ?thesis using f by (simp add: utf8_nonzero utf8_nonempty)
qed

text \<open>What the type \<open>PackagePath\<close> guarantees: its components were accepted, and text is UTF-8.\<close>

fun component_typed :: "component \<Rightarrow> bool" where
  "component_typed (TextPart text) \<longleftrightarrow> utf8_ok text"
| "component_typed (BytesPart bs) \<longleftrightarrow> True"

definition path_typed :: "unicode \<Rightarrow> package_path \<Rightarrow> bool" where
  "path_typed U path \<longleftrightarrow>
    list_all component_typed (pp_components path) \<and> validate_components U (pp_components path) (pp_profile path) = Inr ()"

lemma path_typed_keys_ok:
  assumes "unicode_ok U" "path_typed U path"
  shows "keys_ok U path"
proof -
  have "component_key U (pp_profile path) c \<noteq> [] \<and> 0 \<notin> set (component_key U (pp_profile path) c)"
    if "component_typed c" "validate_component U (pp_profile path) c = Inr ()" for c
    using accepted_unmixed [OF that(2)] that portable_key_ok [OF assms(1)]
    by (auto simp: valid_raw_component_def split: if_splits)
  then show ?thesis using assms(2)
    by (auto simp: path_typed_def keys_ok_def component_keys_def validate_components_iff list_all_iff)
qed

text \<open>A Unicode parameter for plain ASCII names.\<close>

definition ascii_unicode :: unicode where
  "ascii_unicode = \<lparr>un_nfc = (\<lambda>s. s), un_nfkc = (\<lambda>s. s), un_lower = (\<lambda>c. if 0x41 \<le> c \<and> c \<le> 0x5a then [c + 32] else [c])\<rparr>"

lemma ascii_unicode_ok: "unicode_ok ascii_unicode"
  by (auto simp: unicode_ok_def keeps_names_def char_keeps_names_def ascii_unicode_def scalar_def dot_or_space_def)

end
