(* ===== verification/Manifest_Page.thy ===== *)
theory Manifest_Page
  imports Manifest_Path
begin

text \<open>
  Manifest pages and seals (\<open>model.rs\<close>, \<open>encode.rs\<close> and \<open>decode.rs\<close> under
  \<open>src/crates/vot-manifest/src\<close>): the data, the rules a page's entries and a seal obey, the
  planned length of an encoding, the writers and the bounded readers. The readers' parsing steps
  are those of \<open>Payload_Codec\<close>.
\<close>

section \<open>Data\<close>

definition MAX_PAGE_BYTES :: nat where "MAX_PAGE_BYTES = 1048576"
definition MAX_ENTRIES_PER_PAGE :: nat where "MAX_ENTRIES_PER_PAGE = 8192"
definition MAX_SEAL_FIXED_BYTES :: nat where "MAX_SEAL_FIXED_BYTES = 113"
definition MAX_ENCODED_PAGE_COMMITMENT_BYTES :: nat where "MAX_ENCODED_PAGE_COMMITMENT_BYTES = 39"
definition MAX_PAGE_COMMITMENTS :: nat where
  "MAX_PAGE_COMMITMENTS = (MAX_PAGE_BYTES - MAX_SEAL_FIXED_BYTES) div MAX_ENCODED_PAGE_COMMITMENT_BYTES"

text \<open>\<open>vot_manifest::DecodeError\<close>.\<close>

datatype page_decode_error =
  PdPageTooLarge | PdTruncated | PdInvalidCbor | PdNonCanonical | PdWrongType | PdInvalidStructure |
  PdTooManyEntries | PdTooManyComponents | PdComponentTooLarge | PdInvalidUtf8 | PdSemantic manifest_error

datatype entry_kind = FileEntry | DirectoryEntry

record manifest_object =
  mo_suite :: nat
  mo_root :: bytes
  mo_length :: nat

text \<open>\<open>StorageRef::Pack\<close> has the fields pack, offset, length and logical.\<close>

datatype storage_ref = DirectStorage manifest_object | PackStorage manifest_object nat nat manifest_object

record file_metadata =
  fm_mode :: "nat option"
  fm_mtime_seconds :: "int option"
  fm_mtime_nanoseconds :: "nat option"
  fm_media_type :: "bytes option"

record manifest_entry =
  me_path :: package_path
  me_kind :: entry_kind
  me_length :: "nat option"
  me_storage :: "storage_ref option"
  me_metadata :: "file_metadata option"

record manifest_page =
  mp_manifest_id :: bytes
  mp_index :: nat
  mp_total :: "nat option"
  mp_previous_digest :: bytes
  mp_profile :: path_profile
  mp_entries :: "manifest_entry list"

record page_commitment =
  pc_index :: nat
  pc_digest :: bytes

record seal =
  sl_manifest_id :: bytes
  sl_final_page_count :: nat
  sl_final_page_digest :: bytes
  sl_package :: manifest_object
  sl_pages :: "page_commitment list"

section \<open>Rules\<close>

definition valid_object :: "manifest_object \<Rightarrow> bool" where
  "valid_object object \<longleftrightarrow> mo_suite object \<in> {1, 2} \<and> mo_length object \<le> i64_max"

definition none_or :: "'a option \<Rightarrow> ('a \<Rightarrow> bool) \<Rightarrow> bool" where
  "none_or v p = (case v of None \<Rightarrow> True | Some x \<Rightarrow> p x)"

definition valid_metadata :: "file_metadata \<Rightarrow> bool" where
  "valid_metadata metadata \<longleftrightarrow>
    none_or (fm_mode metadata) (\<lambda>mode. mode \<le> 511) \<and>
    none_or (fm_mtime_nanoseconds metadata) (\<lambda>value. value \<le> 999999999) \<and>
    none_or (fm_media_type metadata) (\<lambda>value. value \<noteq> [] \<and> length value \<le> 127)"

fun valid_storage :: "storage_ref \<Rightarrow> nat \<Rightarrow> bool" where
  "valid_storage (DirectStorage object) entry_length \<longleftrightarrow> valid_object object \<and> mo_length object = entry_length"
| "valid_storage (PackStorage pack offset len logical) entry_length \<longleftrightarrow>
    valid_object pack \<and> valid_object logical \<and> len = entry_length \<and> len \<le> 262144 \<and>
    mo_length logical = len \<and>
    is_some_and (checked_add offset len) (\<lambda>stop. stop \<le> mo_length pack) \<and>
    mo_length pack \<le> 134217728"

definition validate_entry :: "manifest_entry \<Rightarrow> manifest_error + unit" where
  "validate_entry entry =
    (case me_kind entry of
      FileEntry \<Rightarrow>
        and_then (ok_or (me_length entry) InvalidObject) (\<lambda>len.
        and_then (ok_or (me_storage entry) InvalidObject) (\<lambda>storage.
          if \<not> valid_storage storage len \<or> is_some_and (me_metadata entry) (\<lambda>metadata. \<not> valid_metadata metadata)
          then Inl InvalidObject else Inr ()))
    | DirectoryEntry \<Rightarrow>
        if me_length entry \<noteq> None \<or> me_storage entry \<noteq> None \<or> me_metadata entry \<noteq> None
        then Inl InvalidObject else Inr ())"

text \<open>The loop of \<open>validate_entries\<close>, with its variables \<open>keys\<close>, \<open>unique\<close> and \<open>previous_file\<close>.\<close>

fun validate_entries_from ::
    "unicode \<Rightarrow> path_profile \<Rightarrow> bytes list \<Rightarrow> bytes set \<Rightarrow> bool \<Rightarrow> manifest_entry list \<Rightarrow> manifest_error + bytes list" where
  "validate_entries_from U profile keys unique previous_file [] = Inr keys"
| "validate_entries_from U profile keys unique previous_file (entry # entries) =
    and_then (validate_entry entry) (\<lambda>u.
      if pp_profile (me_path entry) \<noteq> profile then Inl InvalidPath
      else and_then (canonical_path_key U (me_path entry) profile) (\<lambda>key.
        if key \<in> unique then Inl PathCollision
        else if keys \<noteq> [] \<and> key \<le> last keys then Inl EntriesUnsorted
        else if previous_file \<and> keys \<noteq> [] \<and> is_path_prefix (last keys) key then Inl PathCollision
        else validate_entries_from U profile (keys @ [key]) (insert key unique) (me_kind entry = FileEntry) entries))"

definition validate_entries :: "unicode \<Rightarrow> manifest_entry list \<Rightarrow> path_profile \<Rightarrow> manifest_error + bytes list" where
  "validate_entries U entries profile = validate_entries_from U profile [] {} False entries"

definition validate_seal :: "seal \<Rightarrow> manifest_error + unit" where
  "validate_seal seal =
    (if sl_final_page_count seal = 0 then Inl InvalidSeal
     else if sl_final_page_count seal \<noteq> length (sl_pages seal) then Inl InvalidSeal
     else if MAX_PAGE_COMMITMENTS < length (sl_pages seal) then Inl InvalidSeal
     else if \<not> valid_object (sl_package seal) then Inl InvalidSeal
     else if list_ex (\<lambda>(index, page). pc_index page \<noteq> index) (enumerate 0 (sl_pages seal)) then Inl InvalidSeal
     else if sl_pages seal = [] \<or> pc_digest (last (sl_pages seal)) \<noteq> sl_final_page_digest seal then Inl InvalidSeal
     else Inr ())"

definition validate_entry_count :: "nat \<Rightarrow> manifest_error + unit" where
  "validate_entry_count entries = (if MAX_ENTRIES_PER_PAGE < entries then Inl MPageTooLarge else Inr ())"

definition validate_page_length :: "nat \<Rightarrow> manifest_error + unit" where
  "validate_page_length len = (if MAX_PAGE_BYTES < len then Inl MPageTooLarge else Inr ())"

section \<open>Writers\<close>

text \<open>\<open>adds total parts\<close> is a run of \<open>total = add(total, part)?\<close>.\<close>

definition add_len :: "nat \<Rightarrow> nat \<Rightarrow> manifest_error + nat" where
  "add_len so_far part = ok_or (checked_add so_far part) MPageTooLarge"

fun adds :: "nat \<Rightarrow> nat list \<Rightarrow> manifest_error + nat" where
  "adds so_far [] = Inr so_far"
| "adds so_far (part # parts) = and_then (add_len so_far part) (\<lambda>total. adds total parts)"

definition counted_fields :: "nat \<Rightarrow> bool list \<Rightarrow> nat" where
  "counted_fields base flags = foldl (\<lambda>n flag. n + of_bool flag) base flags"

fun path_profile_code :: "path_profile \<Rightarrow> nat" where
  "path_profile_code Portable = 0"
| "path_profile_code RawPosix = 1"

fun kind_code :: "entry_kind \<Rightarrow> nat" where
  "kind_code FileEntry = 0"
| "kind_code DirectoryEntry = 1"

definition entry_fields :: "manifest_entry \<Rightarrow> nat" where
  "entry_fields entry = counted_fields 2 [me_length entry \<noteq> None, me_storage entry \<noteq> None, me_metadata entry \<noteq> None]"

definition metadata_fields :: "file_metadata \<Rightarrow> nat" where
  "metadata_fields metadata = counted_fields 0
    [fm_mode metadata \<noteq> None, fm_mtime_seconds metadata \<noteq> None, fm_mtime_nanoseconds metadata \<noteq> None,
     fm_media_type metadata \<noteq> None]"

definition object_encoded_len :: "manifest_object \<Rightarrow> manifest_error + nat" where
  "object_encoded_len object =
    adds 0 [head_len 3, head_len (mo_suite object), payload_len (length (mo_root object)), head_len (mo_length object)]"

fun storage_encoded_len :: "storage_ref \<Rightarrow> manifest_error + nat" where
  "storage_encoded_len (DirectStorage object) =
    and_then (adds 0 [head_len 2, head_len 0]) (\<lambda>total.
    and_then (object_encoded_len object) (\<lambda>part. add_len total part))"
| "storage_encoded_len (PackStorage pack offset len logical) =
    and_then (adds 0 [head_len 5, head_len 1]) (\<lambda>total.
    and_then (object_encoded_len pack) (\<lambda>part.
    and_then (adds total [part, head_len offset, head_len len]) (\<lambda>total.
    and_then (object_encoded_len logical) (\<lambda>part. add_len total part))))"

text \<open>\<open>if let Some(value) = field \<lbrace> total = add(total, part)?; \<dots> \<rbrace>\<close>.\<close>

definition adds_some :: "'a option \<Rightarrow> ('a \<Rightarrow> nat list) \<Rightarrow> nat \<Rightarrow> manifest_error + nat" where
  "adds_some v parts so_far = (case v of None \<Rightarrow> Inr so_far | Some x \<Rightarrow> adds so_far (parts x))"

definition metadata_encoded_len :: "file_metadata \<Rightarrow> manifest_error + nat" where
  "metadata_encoded_len metadata =
    and_then (adds 0 [head_len (metadata_fields metadata)]) (\<lambda>total.
    and_then (adds_some (fm_mode metadata) (\<lambda>mode. [head_len 0, head_len mode]) total) (\<lambda>total.
    and_then (adds_some (fm_mtime_seconds metadata) (\<lambda>seconds. [head_len 1, int_len seconds]) total) (\<lambda>total.
    and_then (adds_some (fm_mtime_nanoseconds metadata) (\<lambda>nanoseconds. [head_len 2, head_len nanoseconds]) total) (\<lambda>total.
    adds_some (fm_media_type metadata) (\<lambda>media_type. [head_len 3, payload_len (length media_type)]) total))))"

fun component_bytes :: "component \<Rightarrow> bytes" where
  "component_bytes (TextPart text) = text"
| "component_bytes (BytesPart bs) = bs"

definition entry_encoded_len :: "manifest_entry \<Rightarrow> manifest_error + nat" where
  "entry_encoded_len entry =
    and_then (adds 0 [head_len (entry_fields entry), head_len 0, head_len (length (pp_components (me_path entry)))]) (\<lambda>total.
    and_then (adds total (map (\<lambda>component. payload_len (length (component_bytes component))) (pp_components (me_path entry)))) (\<lambda>total.
    and_then (adds total [head_len 1, head_len (kind_code (me_kind entry))]) (\<lambda>total.
    and_then (adds_some (me_length entry) (\<lambda>len. [head_len 2, head_len len]) total) (\<lambda>total.
    and_then (case me_storage entry of None \<Rightarrow> Inr total | Some storage \<Rightarrow>
        and_then (add_len total (head_len 3)) (\<lambda>total.
        and_then (storage_encoded_len storage) (\<lambda>part. add_len total part))) (\<lambda>total.
    case me_metadata entry of None \<Rightarrow> Inr total | Some metadata \<Rightarrow>
        and_then (add_len total (head_len 4)) (\<lambda>total.
        and_then (metadata_encoded_len metadata) (\<lambda>part. add_len total part)))))))"

fun entries_encoded_len :: "nat \<Rightarrow> manifest_entry list \<Rightarrow> manifest_error + nat" where
  "entries_encoded_len so_far [] = Inr so_far"
| "entries_encoded_len so_far (entry # entries) =
    and_then (entry_encoded_len entry) (\<lambda>part.
    and_then (add_len so_far part) (\<lambda>total. entries_encoded_len total entries))"

definition page_encoded_len :: "unicode \<Rightarrow> manifest_page \<Rightarrow> manifest_error + nat" where
  "page_encoded_len U page =
    and_then (validate_entry_count (length (mp_entries page))) (\<lambda>u.
    and_then (validate_entries U (mp_entries page) (mp_profile page)) (\<lambda>keys.
    and_then (adds 0
      [head_len 7, head_len 0, head_len 0, head_len 1, payload_len (length (mp_manifest_id page)),
       head_len 2, head_len (mp_index page),
       head_len 3, (case mp_total page of None \<Rightarrow> 1 | Some pages \<Rightarrow> head_len pages),
       head_len 4, payload_len (length (mp_previous_digest page)),
       head_len 5, head_len (path_profile_code (mp_profile page)),
       head_len 6, head_len (length (mp_entries page))]) (\<lambda>total.
    and_then (entries_encoded_len total (mp_entries page)) (\<lambda>total.
    and_then (validate_page_length total) (\<lambda>u. Inr total)))))"

definition commitment_parts :: "page_commitment \<Rightarrow> nat list" where
  "commitment_parts commitment =
    [head_len 3, head_len (pc_index commitment), payload_len (length (pc_digest commitment)), head_len 0]"

definition seal_encoded_len :: "seal \<Rightarrow> manifest_error + nat" where
  "seal_encoded_len seal =
    and_then (validate_seal seal) (\<lambda>u.
    and_then (adds 0
      [head_len 6, head_len 0, head_len 0, head_len 1, payload_len (length (sl_manifest_id seal)),
       head_len 2, head_len (sl_final_page_count seal),
       head_len 3, payload_len (length (sl_final_page_digest seal)),
       head_len 4, head_len 4, head_len 1, head_len (mo_suite (sl_package seal)),
       payload_len (length (mo_root (sl_package seal))), head_len (mo_length (sl_package seal)),
       head_len 5, head_len (length (sl_pages seal))]) (\<lambda>total.
    and_then (adds total (concat (map commitment_parts (sl_pages seal)))) (\<lambda>total.
    and_then (validate_page_length total) (\<lambda>u. Inr total))))"

text \<open>\<open>if let Some(value) = field \<lbrace> uint(out, key); write(out, value) \<rbrace>\<close>.\<close>

definition write_some :: "nat \<Rightarrow> (bytes \<Rightarrow> 'a \<Rightarrow> bytes) \<Rightarrow> 'a option \<Rightarrow> bytes \<Rightarrow> bytes" where
  "write_some key write v out = (case v of None \<Rightarrow> out | Some x \<Rightarrow> write (cbor_uint out key) x)"

definition encode_manifest_object :: "bytes \<Rightarrow> manifest_object \<Rightarrow> bytes" where
  "encode_manifest_object out object =
    (let out = array_head out 3;
         out = cbor_uint out (mo_suite object);
         out = byte_string out (mo_root object)
     in cbor_uint out (mo_length object))"

fun encode_storage :: "bytes \<Rightarrow> storage_ref \<Rightarrow> bytes" where
  "encode_storage out (DirectStorage object) =
    (let out = array_head out 2;
         out = cbor_uint out 0
     in encode_manifest_object out object)"
| "encode_storage out (PackStorage pack offset len logical) =
    (let out = array_head out 5;
         out = cbor_uint out 1;
         out = encode_manifest_object out pack;
         out = cbor_uint out offset;
         out = cbor_uint out len
     in encode_manifest_object out logical)"

definition encode_metadata :: "bytes \<Rightarrow> file_metadata \<Rightarrow> bytes" where
  "encode_metadata out metadata =
    (let out = map_head out (metadata_fields metadata);
         out = write_some 0 cbor_uint (fm_mode metadata) out;
         out = write_some 1 cbor_int (fm_mtime_seconds metadata) out;
         out = write_some 2 cbor_uint (fm_mtime_nanoseconds metadata) out
     in write_some 3 text_string (fm_media_type metadata) out)"

fun encode_component :: "bytes \<Rightarrow> component \<Rightarrow> bytes" where
  "encode_component out (TextPart text) = text_string out text"
| "encode_component out (BytesPart bs) = byte_string out bs"

definition encode_entry :: "bytes \<Rightarrow> manifest_entry \<Rightarrow> bytes" where
  "encode_entry out entry =
    (let out = map_head out (entry_fields entry);
         out = cbor_uint out 0;
         out = array_head out (length (pp_components (me_path entry)));
         out = write_each encode_component (pp_components (me_path entry)) out;
         out = cbor_uint out 1;
         out = cbor_uint out (kind_code (me_kind entry));
         out = write_some 2 cbor_uint (me_length entry) out;
         out = write_some 3 encode_storage (me_storage entry) out
     in write_some 4 encode_metadata (me_metadata entry) out)"

definition encode_page :: "unicode \<Rightarrow> manifest_page \<Rightarrow> manifest_error + bytes" where
  "encode_page U page =
    and_then (page_encoded_len U page) (\<lambda>expected.
    (let out = map_head [] 7;
         out = cbor_uint out 0;
         out = cbor_uint out 0;
         out = cbor_uint out 1;
         out = byte_string out (mp_manifest_id page);
         out = cbor_uint out 2;
         out = cbor_uint out (mp_index page);
         out = cbor_uint out 3;
         out = (case mp_total page of Some pages \<Rightarrow> cbor_uint out pages | None \<Rightarrow> out @ [0xf6]);
         out = cbor_uint out 4;
         out = byte_string out (mp_previous_digest page);
         out = cbor_uint out 5;
         out = cbor_uint out (path_profile_code (mp_profile page));
         out = cbor_uint out 6;
         out = array_head out (length (mp_entries page));
         out = write_each encode_entry (mp_entries page) out
     in if length out \<noteq> expected then Inl MPageTooLarge else Inr out))"

definition encode_commitment :: "bytes \<Rightarrow> page_commitment \<Rightarrow> bytes" where
  "encode_commitment out commitment =
    (let out = array_head out 3;
         out = cbor_uint out (pc_index commitment);
         out = byte_string out (pc_digest commitment)
     in array_head out 0)"

definition encode_seal :: "seal \<Rightarrow> manifest_error + bytes" where
  "encode_seal seal =
    and_then (seal_encoded_len seal) (\<lambda>expected.
    (let out = map_head [] 6;
         out = cbor_uint out 0;
         out = cbor_uint out 0;
         out = cbor_uint out 1;
         out = byte_string out (sl_manifest_id seal);
         out = cbor_uint out 2;
         out = cbor_uint out (sl_final_page_count seal);
         out = cbor_uint out 3;
         out = byte_string out (sl_final_page_digest seal);
         out = cbor_uint out 4;
         out = array_head out 4;
         out = cbor_uint out 1;
         out = cbor_uint out (mo_suite (sl_package seal));
         out = byte_string out (mo_root (sl_package seal));
         out = cbor_uint out (mo_length (sl_package seal));
         out = cbor_uint out 5;
         out = array_head out (length (sl_pages seal));
         out = write_each encode_commitment (sl_pages seal) out
     in if length out \<noteq> expected then Inl MPageTooLarge else Inr out))"

section \<open>Readers\<close>

fun page_structural :: "cbor_error \<Rightarrow> page_decode_error" where
  "page_structural Truncated = PdTruncated"
| "page_structural NonCanonical = PdNonCanonical"
| "page_structural WrongType = PdWrongType"
| "page_structural NotUtf8 = PdInvalidUtf8"
| "page_structural Malformed = PdInvalidCbor"
| "page_structural Trailing = PdInvalidCbor"
| "page_structural TooLarge = PdInvalidStructure"

definition too_large_component :: "cbor_error \<Rightarrow> page_decode_error" where
  "too_large_component e = (if e = TooLarge then PdComponentTooLarge else page_structural e)"

definition pd_uint :: "reader \<Rightarrow> page_decode_error + nat \<times> reader" where
  "pd_uint r = map_err page_structural (rd_uint r)"

definition pd_int :: "reader \<Rightarrow> page_decode_error + int \<times> reader" where
  "pd_int r = map_err page_structural (rd_int r)"

definition pd_collection_len :: "byte \<Rightarrow> reader \<Rightarrow> page_decode_error + nat \<times> reader" where
  "pd_collection_len expected_major r = map_err page_structural (rd_typed_head expected_major r)"

definition pd_array_len :: "reader \<Rightarrow> page_decode_error + nat \<times> reader" where
  "pd_array_len r = pd_collection_len major_array r"

definition pd_map_len :: "reader \<Rightarrow> page_decode_error + nat \<times> reader" where
  "pd_map_len r = pd_collection_len major_map r"

definition pd_bounded_array_len :: "nat \<Rightarrow> page_decode_error \<Rightarrow> reader \<Rightarrow> page_decode_error + nat \<times> reader" where
  "pd_bounded_array_len limit e r =
    and_then (pd_array_len r) (\<lambda>(len, r). if limit < len then Inl e else Inr (len, r))"

definition pd_bytes :: "nat \<Rightarrow> reader \<Rightarrow> page_decode_error + bytes \<times> reader" where
  "pd_bytes limit r = map_err too_large_component (rd_bytes limit r)"

definition pd_fixed_bytes :: "nat \<Rightarrow> reader \<Rightarrow> page_decode_error + bytes \<times> reader" where
  "pd_fixed_bytes n r = map_err page_structural (rd_fixed_bytes n r)"

definition pd_text :: "nat \<Rightarrow> reader \<Rightarrow> page_decode_error + bytes \<times> reader" where
  "pd_text limit r = map_err too_large_component (rd_text limit r)"

definition pd_null :: "reader \<Rightarrow> page_decode_error + unit \<times> reader" where
  "pd_null r = map_err page_structural (rd_null r)"

definition pd_exact_key :: "nat \<Rightarrow> reader \<Rightarrow> page_decode_error + unit \<times> reader" where
  "pd_exact_key expected r = and_then (pd_uint r) (\<lambda>(key, r). if key \<noteq> expected then Inl PdNonCanonical else Inr ((), r))"

definition pd_finish :: "reader \<Rightarrow> page_decode_error + unit" where
  "pd_finish r = map_err (\<lambda>e. PdInvalidStructure) (rd_finish r)"

definition decode_manifest_object :: "reader \<Rightarrow> page_decode_error + manifest_object \<times> reader" where
  "decode_manifest_object r =
    and_then (pd_array_len r) (\<lambda>(len, r).
    if len \<noteq> 3 then Inl PdInvalidStructure else
    and_then (pd_uint r) (\<lambda>(suite, r).
    and_then (narrow 65535 PdInvalidStructure suite) (\<lambda>suite.
    and_then (pd_fixed_bytes 32 r) (\<lambda>(root, r).
    and_then (pd_uint r) (\<lambda>(len, r).
      Inr (\<lparr>mo_suite = suite, mo_root = root, mo_length = len\<rparr>, r))))))"

definition decode_storage :: "reader \<Rightarrow> page_decode_error + storage_ref \<times> reader" where
  "decode_storage r =
    and_then (pd_array_len r) (\<lambda>(len, r).
    if len = 2 then
      and_then (pd_uint r) (\<lambda>(tag, r).
      if tag \<noteq> 0 then Inl PdInvalidStructure else
      and_then (decode_manifest_object r) (\<lambda>(object, r). Inr (DirectStorage object, r)))
    else if len = 5 then
      and_then (pd_uint r) (\<lambda>(tag, r).
      if tag \<noteq> 1 then Inl PdInvalidStructure else
      and_then (decode_manifest_object r) (\<lambda>(pack, r).
      and_then (pd_uint r) (\<lambda>(offset, r).
      and_then (pd_uint r) (\<lambda>(len, r).
      and_then (decode_manifest_object r) (\<lambda>(logical, r). Inr (PackStorage pack offset len logical, r))))))
    else Inl PdInvalidStructure)"

text \<open>The loop of \<open>decode_metadata\<close>, with \<open>previous_key\<close> and the record being filled.\<close>

fun decode_metadata_fields ::
    "nat \<Rightarrow> nat option \<Rightarrow> file_metadata \<Rightarrow> reader \<Rightarrow> page_decode_error + file_metadata \<times> reader" where
  "decode_metadata_fields 0 previous_key metadata r = Inr (metadata, r)"
| "decode_metadata_fields (Suc n) previous_key metadata r =
    and_then (pd_uint r) (\<lambda>(key, r).
    if is_some_and previous_key (\<lambda>previous. key \<le> previous) then Inl PdNonCanonical
    else if key = 0 then
      and_then (pd_uint r) (\<lambda>(v, r). and_then (narrow 65535 PdInvalidStructure v) (\<lambda>v.
        decode_metadata_fields n (Some key) (metadata\<lparr>fm_mode := Some v\<rparr>) r))
    else if key = 1 then
      and_then (pd_int r) (\<lambda>(v, r). decode_metadata_fields n (Some key) (metadata\<lparr>fm_mtime_seconds := Some v\<rparr>) r)
    else if key = 2 then
      and_then (pd_uint r) (\<lambda>(v, r). and_then (narrow 4294967295 PdInvalidStructure v) (\<lambda>v.
        decode_metadata_fields n (Some key) (metadata\<lparr>fm_mtime_nanoseconds := Some v\<rparr>) r))
    else if key = 3 then
      and_then (pd_text 127 r) (\<lambda>(v, r). decode_metadata_fields n (Some key) (metadata\<lparr>fm_media_type := Some v\<rparr>) r)
    else Inl PdInvalidStructure)"

definition default_metadata :: file_metadata where
  "default_metadata = \<lparr>fm_mode = None, fm_mtime_seconds = None, fm_mtime_nanoseconds = None, fm_media_type = None\<rparr>"

definition decode_metadata :: "reader \<Rightarrow> page_decode_error + file_metadata \<times> reader" where
  "decode_metadata r =
    and_then (pd_map_len r) (\<lambda>(fields, r).
    if 4 < fields then Inl PdInvalidStructure else decode_metadata_fields fields None default_metadata r)"

definition decode_component :: "path_profile \<Rightarrow> reader \<Rightarrow> page_decode_error + component \<times> reader" where
  "decode_component profile r =
    (case profile of
      Portable \<Rightarrow> and_then (pd_text 255 r) (\<lambda>(text, r). Inr (TextPart text, r))
    | RawPosix \<Rightarrow> and_then (pd_bytes 255 r) (\<lambda>(bs, r). Inr (BytesPart bs, r)))"

text \<open>The loop of \<open>decode_entry\<close> over its optional fields.\<close>

fun decode_entry_fields ::
    "nat \<Rightarrow> nat \<Rightarrow> nat option \<times> storage_ref option \<times> file_metadata option \<Rightarrow> reader \<Rightarrow>
      page_decode_error + (nat option \<times> storage_ref option \<times> file_metadata option) \<times> reader" where
  "decode_entry_fields 0 previous_key found r = Inr (found, r)"
| "decode_entry_fields (Suc n) previous_key (len, storage, metadata) r =
    and_then (pd_uint r) (\<lambda>(key, r).
    if key \<le> previous_key then Inl PdNonCanonical
    else if key = 2 then and_then (pd_uint r) (\<lambda>(v, r). decode_entry_fields n key (Some v, storage, metadata) r)
    else if key = 3 then and_then (decode_storage r) (\<lambda>(v, r). decode_entry_fields n key (len, Some v, metadata) r)
    else if key = 4 then and_then (decode_metadata r) (\<lambda>(v, r). decode_entry_fields n key (len, storage, Some v) r)
    else Inl PdInvalidStructure)"

definition decode_entry :: "unicode \<Rightarrow> path_profile \<Rightarrow> reader \<Rightarrow> page_decode_error + manifest_entry \<times> reader" where
  "decode_entry U profile r =
    and_then (pd_map_len r) (\<lambda>(fields, r).
    if \<not> (2 \<le> fields \<and> fields \<le> 5) then Inl PdInvalidStructure else
    and_then (pd_exact_key 0 r) (\<lambda>(u, r).
    and_then (pd_bounded_array_len MAX_PATH_COMPONENTS PdTooManyComponents r) (\<lambda>(component_count, r).
    if component_count = 0 then Inl PdInvalidStructure else
    and_then (read_times component_count (decode_component profile) r) (\<lambda>(components, r).
    and_then (map_err PdSemantic (package_path_new U components profile)) (\<lambda>path.
    and_then (pd_exact_key 1 r) (\<lambda>(u, r).
    and_then (pd_uint r) (\<lambda>(kind, r).
    and_then (if kind = 0 then Inr FileEntry else if kind = 1 then Inr DirectoryEntry else Inl PdInvalidStructure) (\<lambda>kind.
    and_then (decode_entry_fields (fields - 2) 1 (None, None, None) r) (\<lambda>((len, storage, metadata), r).
      Inr (\<lparr>me_path = path, me_kind = kind, me_length = len, me_storage = storage, me_metadata = metadata\<rparr>, r))))))))))"

text \<open>\<open>total\<close>: \<open>null\<close> when it is not known yet.\<close>

definition decode_total :: "reader \<Rightarrow> page_decode_error + nat option \<times> reader" where
  "decode_total r =
    (if rd_peek_null r then and_then (pd_null r) (\<lambda>(u, r). Inr (None, r))
     else and_then (pd_uint r) (\<lambda>(v, r). Inr (Some v, r)))"

definition decode_page :: "unicode \<Rightarrow> bytes \<Rightarrow> page_decode_error + manifest_page" where
  "decode_page U input =
    and_then (map_err (\<lambda>e. PdPageTooLarge) (validate_page_length (length input))) (\<lambda>u.
    and_then (pd_map_len (new_reader input)) (\<lambda>(len, r).
    if len \<noteq> 7 then Inl PdInvalidStructure else
    and_then (pd_exact_key 0 r) (\<lambda>(u, r).
    and_then (pd_uint r) (\<lambda>(version, r).
    if version \<noteq> 0 then Inl PdInvalidStructure else
    and_then (pd_exact_key 1 r) (\<lambda>(u, r).
    and_then (pd_fixed_bytes 16 r) (\<lambda>(manifest_id, r).
    and_then (pd_exact_key 2 r) (\<lambda>(u, r).
    and_then (pd_uint r) (\<lambda>(index, r).
    and_then (pd_exact_key 3 r) (\<lambda>(u, r).
    and_then (decode_total r) (\<lambda>(pages, r).
    and_then (pd_exact_key 4 r) (\<lambda>(u, r).
    and_then (pd_fixed_bytes 32 r) (\<lambda>(previous_digest, r).
    and_then (pd_exact_key 5 r) (\<lambda>(u, r).
    and_then (pd_uint r) (\<lambda>(profile, r).
    and_then (if profile = 0 then Inr Portable else if profile = 1 then Inr RawPosix else Inl PdInvalidStructure) (\<lambda>profile.
    and_then (pd_exact_key 6 r) (\<lambda>(u, r).
    and_then (pd_bounded_array_len MAX_ENTRIES_PER_PAGE PdTooManyEntries r) (\<lambda>(entry_count, r).
    and_then (read_times entry_count (decode_entry U profile) r) (\<lambda>(entries, r).
    and_then (pd_finish r) (\<lambda>u.
    (let page = \<lparr>mp_manifest_id = manifest_id, mp_index = index, mp_total = pages,
           mp_previous_digest = previous_digest, mp_profile = profile, mp_entries = entries\<rparr> in
     and_then (map_err PdSemantic (encode_page U page)) (\<lambda>canonical.
       if canonical \<noteq> input then Inl PdNonCanonical else Inr page)))))))))))))))))))))"

definition decode_commitment :: "reader \<Rightarrow> page_decode_error + page_commitment \<times> reader" where
  "decode_commitment r =
    and_then (pd_array_len r) (\<lambda>(len, r).
    if len \<noteq> 3 then Inl PdInvalidStructure else
    and_then (pd_uint r) (\<lambda>(index, r).
    and_then (pd_fixed_bytes 32 r) (\<lambda>(digest, r).
    and_then (pd_array_len r) (\<lambda>(len, r).
    if len \<noteq> 0 then Inl PdInvalidStructure else Inr (\<lparr>pc_index = index, pc_digest = digest\<rparr>, r)))))"

definition decode_seal :: "bytes \<Rightarrow> page_decode_error + seal" where
  "decode_seal input =
    and_then (map_err (\<lambda>e. PdPageTooLarge) (validate_page_length (length input))) (\<lambda>u.
    and_then (pd_map_len (new_reader input)) (\<lambda>(len, r).
    if len \<noteq> 6 then Inl PdInvalidStructure else
    and_then (pd_exact_key 0 r) (\<lambda>(u, r).
    and_then (pd_uint r) (\<lambda>(version, r).
    if version \<noteq> 0 then Inl PdInvalidStructure else
    and_then (pd_exact_key 1 r) (\<lambda>(u, r).
    and_then (pd_fixed_bytes 16 r) (\<lambda>(manifest_id, r).
    and_then (pd_exact_key 2 r) (\<lambda>(u, r).
    and_then (pd_uint r) (\<lambda>(final_page_count, r).
    and_then (pd_exact_key 3 r) (\<lambda>(u, r).
    and_then (pd_fixed_bytes 32 r) (\<lambda>(final_page_digest, r).
    and_then (pd_exact_key 4 r) (\<lambda>(u, r).
    and_then (pd_array_len r) (\<lambda>(len, r).
    if len \<noteq> 4 then Inl PdInvalidStructure else
    and_then (pd_uint r) (\<lambda>(tag, r).
    if tag \<noteq> 1 then Inl PdInvalidStructure else
    and_then (pd_uint r) (\<lambda>(suite, r).
    and_then (narrow 65535 PdInvalidStructure suite) (\<lambda>suite.
    and_then (pd_fixed_bytes 32 r) (\<lambda>(root, r).
    and_then (pd_uint r) (\<lambda>(len, r).
    and_then (pd_exact_key 5 r) (\<lambda>(u, r).
    and_then (pd_bounded_array_len MAX_PAGE_COMMITMENTS PdTooManyEntries r) (\<lambda>(page_count, r).
    and_then (read_times page_count decode_commitment r) (\<lambda>(pages, r).
    and_then (pd_finish r) (\<lambda>u.
    (let seal = \<lparr>sl_manifest_id = manifest_id, sl_final_page_count = final_page_count,
           sl_final_page_digest = final_page_digest,
           sl_package = \<lparr>mo_suite = suite, mo_root = root, mo_length = len\<rparr>, sl_pages = pages\<rparr> in
     and_then (map_err PdSemantic (validate_seal seal)) (\<lambda>u.
     and_then (map_err PdSemantic (encode_seal seal)) (\<lambda>canonical.
       if canonical \<noteq> input then Inl PdNonCanonical else Inr seal))))))))))))))))))))))))"

section \<open>What the rules accept\<close>

definition entry_mark :: "unicode \<Rightarrow> manifest_entry \<Rightarrow> bytes \<times> bool" where
  "entry_mark U entry = (path_key U (me_path entry), me_kind entry = FileEntry)"

definition entry_ok :: "path_profile \<Rightarrow> manifest_entry \<Rightarrow> bool" where
  "entry_ok profile entry \<longleftrightarrow> validate_entry entry = Inr () \<and> pp_profile (me_path entry) = profile"

lemma sorted_last_less: "sorted_wrt (<) keys \<Longrightarrow> keys \<noteq> [] \<Longrightarrow> last keys < (k :: 'a :: linorder) \<Longrightarrow> \<forall>x \<in> set keys. x < k"
  by (cases keys rule: rev_cases) (auto simp: sorted_wrt_append dest: less_trans)

lemma validate_entries_from_Cons:
  "validate_entries_from U profile keys (set keys) previous_file (e # es) = Inr out \<longleftrightarrow>
    entry_ok profile e \<and> path_key U (me_path e) \<notin> set keys \<and>
    (keys \<noteq> [] \<longrightarrow> entry_before (last keys, previous_file) (entry_mark U e)) \<and>
    validate_entries_from U profile (keys @ [path_key U (me_path e)]) (set (keys @ [path_key U (me_path e)]))
      (me_kind e = FileEntry) es = Inr out"
  by (auto simp: entry_ok_def canonical_path_key_def entry_before_def entry_mark_def not_le)

lemma key_after_last:
  assumes "sorted_wrt (<) keys" "keys \<noteq> [] \<longrightarrow> entry_before (last keys, f) (entry_mark U e)"
  shows "sorted_wrt (<) (keys @ [path_key U (me_path e)])" "path_key U (me_path e) \<notin> set keys"
proof -
  have "\<forall>x \<in> set keys. x < path_key U (me_path e)"
  proof (cases "keys = []")
    case False
    then have "last keys < path_key U (me_path e)" using assms(2) by (simp add: entry_before_def entry_mark_def)
    then show ?thesis using sorted_last_less assms(1) False by blast
  qed simp
  then show "sorted_wrt (<) (keys @ [path_key U (me_path e)])" "path_key U (me_path e) \<notin> set keys"
    using assms(1) unfolding sorted_wrt_append by (simp_all, blast)
qed

lemma validate_entries_from_iff:
  assumes "sorted_wrt (<) keys"
  shows "validate_entries_from U profile keys (set keys) previous_file es = Inr out \<longleftrightarrow>
    list_all (entry_ok profile) es \<and> out = keys @ map (\<lambda>e. path_key U (me_path e)) es \<and>
    successively entry_before ((if keys = [] then [] else [(last keys, previous_file)]) @ map (entry_mark U) es)"
  using assms
proof (induction es arbitrary: keys previous_file)
  case (Cons e es)
  show ?case
  proof (cases "keys \<noteq> [] \<longrightarrow> entry_before (last keys, previous_file) (entry_mark U e)")
    case True
    note next_key = key_after_last [OF Cons.prems True]
    show ?thesis unfolding validate_entries_from_Cons Cons.IH [OF next_key(1)]
      using next_key(2) True by (cases "keys = []") (auto simp: entry_mark_def [of U e])
  next
    case False
    then show ?thesis unfolding validate_entries_from_Cons by simp
  qed
qed auto

lemma validate_entries_iff:
  "validate_entries U es profile = Inr keys \<longleftrightarrow>
    list_all (entry_ok profile) es \<and> keys = map (\<lambda>e. path_key U (me_path e)) es \<and> sorted_wrt entry_before (map (entry_mark U) es)"
  using validate_entries_from_iff [of "[]" U profile False es keys] by (simp add: validate_entries_def entries_before_iff)

section \<open>Encodings as items\<close>

definition opt_item :: "nat \<Rightarrow> ('a \<Rightarrow> bytes) \<Rightarrow> 'a option \<Rightarrow> bytes" where
  "opt_item key item v = (case v of None \<Rightarrow> [] | Some x \<Rightarrow> uint_item key @ item x)"

lemma write_some_items [items]:
  "(\<And>out x. write out x = out @ item x) \<Longrightarrow> write_some key write v out = out @ opt_item key item v"
  by (cases v) (simp_all add: write_some_def opt_item_def items)

definition manifest_object_item :: "manifest_object \<Rightarrow> bytes" where
  "manifest_object_item v = array_item 3 @ uint_item (mo_suite v) @ bytes_item (mo_root v) @ uint_item (mo_length v)"

fun storage_item :: "storage_ref \<Rightarrow> bytes" where
  "storage_item (DirectStorage v) = array_item 2 @ uint_item 0 @ manifest_object_item v"
| "storage_item (PackStorage p offset len v) =
    array_item 5 @ uint_item 1 @ manifest_object_item p @ uint_item offset @ uint_item len @ manifest_object_item v"

definition metadata_item :: "file_metadata \<Rightarrow> bytes" where
  "metadata_item v = map_item (metadata_fields v) @ opt_item 0 uint_item (fm_mode v) @
    opt_item 1 int_item (fm_mtime_seconds v) @ opt_item 2 uint_item (fm_mtime_nanoseconds v) @
    opt_item 3 text_item (fm_media_type v)"

fun component_item :: "component \<Rightarrow> bytes" where
  "component_item (TextPart text) = text_item text"
| "component_item (BytesPart bs) = bytes_item bs"

definition entry_item :: "manifest_entry \<Rightarrow> bytes" where
  "entry_item v = map_item (entry_fields v) @ uint_item 0 @ array_item (length (pp_components (me_path v))) @
    concat (map component_item (pp_components (me_path v))) @ uint_item 1 @ uint_item (kind_code (me_kind v)) @
    opt_item 2 uint_item (me_length v) @ opt_item 3 storage_item (me_storage v) @ opt_item 4 metadata_item (me_metadata v)"

definition total_item :: "nat option \<Rightarrow> bytes" where
  "total_item v = (case v of None \<Rightarrow> [0xf6] | Some n \<Rightarrow> uint_item n)"

definition page_item :: "manifest_page \<Rightarrow> bytes" where
  "page_item v = map_item 7 @ uint_item 0 @ uint_item 0 @ uint_item 1 @ bytes_item (mp_manifest_id v) @
    uint_item 2 @ uint_item (mp_index v) @ uint_item 3 @ total_item (mp_total v) @
    uint_item 4 @ bytes_item (mp_previous_digest v) @ uint_item 5 @ uint_item (path_profile_code (mp_profile v)) @
    uint_item 6 @ array_item (length (mp_entries v)) @ concat (map entry_item (mp_entries v))"

definition commitment_item :: "page_commitment \<Rightarrow> bytes" where
  "commitment_item v = array_item 3 @ uint_item (pc_index v) @ bytes_item (pc_digest v) @ array_item 0"

definition seal_item :: "seal \<Rightarrow> bytes" where
  "seal_item v = map_item 6 @ uint_item 0 @ uint_item 0 @ uint_item 1 @ bytes_item (sl_manifest_id v) @
    uint_item 2 @ uint_item (sl_final_page_count v) @ uint_item 3 @ bytes_item (sl_final_page_digest v) @
    uint_item 4 @ array_item 4 @ uint_item 1 @ uint_item (mo_suite (sl_package v)) @ bytes_item (mo_root (sl_package v)) @
    uint_item (mo_length (sl_package v)) @ uint_item 5 @ array_item (length (sl_pages v)) @ concat (map commitment_item (sl_pages v))"

lemma encode_manifest_object_items [items]: "encode_manifest_object out v = out @ manifest_object_item v"
  by (simp add: encode_manifest_object_def manifest_object_item_def items)

lemma encode_storage_items [items]: "encode_storage out v = out @ storage_item v"
  by (cases v) (simp_all add: items)

lemma encode_metadata_items [items]: "encode_metadata out v = out @ metadata_item v"
  by (simp add: encode_metadata_def metadata_item_def Let_def items)

lemma encode_component_items [items]: "encode_component out v = out @ component_item v"
  by (cases v) (simp_all add: items)

lemma encode_entry_items [items]: "encode_entry out v = out @ entry_item v"
  by (simp add: encode_entry_def entry_item_def Let_def items)

lemma encode_commitment_items [items]: "encode_commitment out v = out @ commitment_item v"
  by (simp add: encode_commitment_def commitment_item_def Let_def items)

lemma encode_page_items:
  "encode_page U v = and_then (page_encoded_len U v) (\<lambda>expected. if length (page_item v) \<noteq> expected then Inl MPageTooLarge else Inr (page_item v))"
  by (cases "mp_total v")
    (simp_all only: encode_page_def page_item_def total_item_def Let_def append_items option.case
      write_each_items [OF encode_entry_items] append_assoc append_Nil)

lemma encode_seal_items:
  "encode_seal v = and_then (seal_encoded_len v) (\<lambda>expected. if length (seal_item v) \<noteq> expected then Inl MPageTooLarge else Inr (seal_item v))"
  unfolding encode_seal_def seal_item_def Let_def append_items write_each_items [OF encode_commitment_items] append_assoc append_Nil
  by (rule refl)

section \<open>Planned lengths are exact\<close>

definition fits :: "nat \<Rightarrow> manifest_error + nat" where
  "fits n = (if n \<le> u64_max then Inr n else Inl MPageTooLarge)"

lemma add_len_fits: "a \<le> u64_max \<Longrightarrow> add_len a b = fits (a + b)"
  by (simp add: add_len_def checked_add_def ok_or_def fits_def)

lemma adds_fits: "a \<le> u64_max \<Longrightarrow> adds a parts = fits (a + sum_list parts)"
proof (induction parts arbitrary: a)
  case (Cons p parts)
  then show ?case by (cases "a + p \<le> u64_max") (auto simp: add_len_fits fits_def add.assoc)
qed (simp add: fits_def)

named_theorems plan \<open>planned lengths\<close>

lemma plan_start [plan]: "adds 0 parts = fits (sum_list parts)"
  by (simp add: adds_fits)

lemma plan_adds [plan]: "and_then (fits n) (\<lambda>a. adds a parts) = fits (n + sum_list parts)"
  by (cases "n \<le> u64_max") (simp_all add: fits_def [of n] adds_fits, simp add: fits_def)

lemma plan_add [plan]: "and_then (fits n) (\<lambda>a. add_len a b) = fits (n + b)"
  by (cases "n \<le> u64_max") (simp_all add: fits_def [of n] add_len_fits, simp add: fits_def)

lemma plan_some [plan]:
  "and_then (fits n) (\<lambda>a. adds_some v parts a) = fits (n + (case v of None \<Rightarrow> 0 | Some x \<Rightarrow> sum_list (parts x)))"
  using plan_adds by (cases v) (simp_all add: adds_some_def fits_def)

lemma plan_part [plan]:
  "and_then (fits n) (\<lambda>a. and_then (fits m) (\<lambda>b. add_len a b)) = fits (n + m)"
proof (cases "m \<le> u64_max")
  case True
  then have "fits m = Inr m" by (simp add: fits_def)
  then show ?thesis using plan_add [of n m] by simp
qed (simp add: fits_def and_then_def)

lemma plan_part_adds [plan]:
  "and_then (fits n) (\<lambda>a. and_then (fits m) (\<lambda>b. and_then (adds a (b # parts)) g)) = and_then (fits (n + m + sum_list parts)) g"
proof (cases "n \<le> u64_max \<and> m \<le> u64_max")
  case True
  then have "fits n = Inr n" "fits m = Inr m" "adds n (m # parts) = fits (n + sum_list (m # parts))"
    by (simp_all add: fits_def adds_fits del: adds.simps)
  then show ?thesis by (simp add: add.assoc)
qed (auto simp: fits_def and_then_def)

lemma plan_assoc: "and_then (and_then m f) g = and_then m (\<lambda>x. and_then (f x) g)"
  by (cases m) simp_all

lemma payload_small: "l \<le> 255 \<Longrightarrow> payload_len l = head_len l + l"
  using head_len_le [of l] by (simp add: payload_len_def saturating_add_def u64_max_def)

text \<open>The widths the source's types enforce.\<close>

definition manifest_object_typed :: "manifest_object \<Rightarrow> bool" where
  "manifest_object_typed v \<longleftrightarrow> mo_suite v \<le> 65535 \<and> length (mo_root v) = 32 \<and> mo_length v \<le> u64_max"

fun storage_typed :: "storage_ref \<Rightarrow> bool" where
  "storage_typed (DirectStorage v) \<longleftrightarrow> manifest_object_typed v"
| "storage_typed (PackStorage p offset len v) \<longleftrightarrow>
    manifest_object_typed p \<and> offset \<le> u64_max \<and> len \<le> u64_max \<and> manifest_object_typed v"

definition metadata_typed :: "file_metadata \<Rightarrow> bool" where
  "metadata_typed v \<longleftrightarrow> none_or (fm_mode v) (\<lambda>n. n \<le> 65535) \<and>
    none_or (fm_mtime_seconds v) (\<lambda>n. - (2 ^ 63) \<le> n \<and> n < 2 ^ 63) \<and>
    none_or (fm_mtime_nanoseconds v) (\<lambda>n. n \<le> 4294967295) \<and> none_or (fm_media_type v) utf8_ok"

definition entry_typed :: "unicode \<Rightarrow> manifest_entry \<Rightarrow> bool" where
  "entry_typed U v \<longleftrightarrow> path_typed U (me_path v) \<and> none_or (me_length v) (\<lambda>n. n \<le> u64_max) \<and>
    none_or (me_storage v) storage_typed \<and> none_or (me_metadata v) metadata_typed"

definition page_typed :: "unicode \<Rightarrow> manifest_page \<Rightarrow> bool" where
  "page_typed U v \<longleftrightarrow> length (mp_manifest_id v) = 16 \<and> mp_index v \<le> u64_max \<and>
    none_or (mp_total v) (\<lambda>n. n \<le> u64_max) \<and> length (mp_previous_digest v) = 32 \<and> list_all (entry_typed U) (mp_entries v)"

definition commitment_typed :: "page_commitment \<Rightarrow> bool" where
  "commitment_typed v \<longleftrightarrow> pc_index v \<le> u64_max \<and> length (pc_digest v) = 32"

definition seal_typed :: "seal \<Rightarrow> bool" where
  "seal_typed v \<longleftrightarrow> length (sl_manifest_id v) = 16 \<and> sl_final_page_count v \<le> u64_max \<and>
    length (sl_final_page_digest v) = 32 \<and> manifest_object_typed (sl_package v) \<and> list_all commitment_typed (sl_pages v)"

lemma none_or_simps [simp]: "none_or None p" "none_or (Some x) p \<longleftrightarrow> p x"
  by (simp_all add: none_or_def)

lemma length_opt_item:
  "length (opt_item key item v) = (case v of None \<Rightarrow> 0 | Some x \<Rightarrow> head_len key + length (item x))"
  by (cases v) (simp_all add: opt_item_def length_items)

lemma plan_object [plan]: "manifest_object_typed v \<Longrightarrow> object_encoded_len v = fits (length (manifest_object_item v))"
  unfolding object_encoded_len_def plan
  by (simp add: manifest_object_item_def length_items payload_small manifest_object_typed_def)

lemma plan_storage [plan]: "storage_typed v \<Longrightarrow> storage_encoded_len v = fits (length (storage_item v))"
  by (cases v) (simp_all only: storage_encoded_len.simps storage_typed.simps plan storage_item.simps, simp_all add: length_items add.assoc)

lemma plan_metadata [plan]: "valid_metadata v \<Longrightarrow> metadata_encoded_len v = fits (length (metadata_item v))"
  unfolding metadata_encoded_len_def
  by (simp only: plan plan_assoc [symmetric])
    (auto simp: valid_metadata_def metadata_item_def length_items length_opt_item payload_small add.assoc split: option.split)

lemma plan_some_part:
  assumes "\<And>x. v = Some x \<Longrightarrow> p x = fits (f x)"
  shows "and_then (fits n) (\<lambda>a. case v of None \<Rightarrow> Inr a | Some x \<Rightarrow>
      and_then (add_len a h) (\<lambda>a. and_then (p x) (\<lambda>b. add_len a b))) =
    fits (n + (case v of None \<Rightarrow> 0 | Some x \<Rightarrow> h + f x))"
proof (cases v)
  case (Some x)
  then have "p x = fits (f x)" by (rule assms)
  then have "and_then (and_then (fits n) (\<lambda>a. add_len a h)) (\<lambda>a. and_then (p x) (\<lambda>b. add_len a b)) = fits (n + h + f x)"
    by (simp only: plan)
  then show ?thesis unfolding plan_assoc Some by (simp add: add.assoc)
qed (simp add: fits_def)

lemma length_components: "length (concat (map component_item cs)) = (\<Sum>c\<leftarrow>cs. head_len (length (component_bytes c)) + length (component_bytes c))"
proof (induction cs)
  case (Cons c cs)
  then show ?case by (cases c) (simp_all add: length_items)
qed simp

lemma component_short: "validate_component U profile c = Inr () \<Longrightarrow> length (component_bytes c) \<le> 255"
  by (cases "(U, profile, c)" rule: validate_component.cases)
    (auto simp: validate_portable_component_def valid_raw_component_def Let_def split: if_splits)

lemma plan_entry:
  assumes "entry_typed U v" "entry_ok profile v"
  shows "entry_encoded_len v = fits (length (entry_item v))"
proof -
  have s: "\<And>x. me_storage v = Some x \<Longrightarrow> storage_encoded_len x = fits (length (storage_item x))"
    using assms(1) by (simp add: entry_typed_def plan)
  have m: "\<And>x. me_metadata v = Some x \<Longrightarrow> metadata_encoded_len x = fits (length (metadata_item x))"
    using assms(2) by (auto simp: entry_ok_def validate_entry_def intro!: plan split: entry_kind.splits if_splits)
  have c: "map (\<lambda>c. payload_len (length (component_bytes c))) (pp_components (me_path v)) =
      map (\<lambda>c. head_len (length (component_bytes c)) + length (component_bytes c)) (pp_components (me_path v))"
    using assms(1) component_short
    by (auto simp: entry_typed_def path_typed_def validate_components_iff list_all_iff intro!: payload_small)
  show ?thesis unfolding entry_encoded_len_def c
    by (simp only: plan plan_assoc [symmetric] plan_some_part [OF s] plan_some_part [OF m])
      (cases "me_length v"; simp add: entry_item_def length_items length_components length_opt_item add.assoc)
qed

lemma plan_entries:
  assumes "list_all (entry_typed U) es" "list_all (entry_ok profile) es" "a \<le> u64_max"
  shows "entries_encoded_len a es = fits (a + length (concat (map entry_item es)))"
  using assms
proof (induction es arbitrary: a)
  case (Cons e es)
  then have "entry_encoded_len e = fits (length (entry_item e))" using plan_entry by fastforce
  then show ?case using Cons
    by (cases "length (entry_item e) \<le> u64_max"; cases "a + length (entry_item e) \<le> u64_max")
      (auto simp: fits_def add_len_fits add.assoc)
qed (simp add: fits_def)

lemma page_le_u64: "n \<le> MAX_PAGE_BYTES \<Longrightarrow> n \<le> u64_max"
  by (simp add: MAX_PAGE_BYTES_def u64_max_def)

lemma page_length_fits: "and_then (fits n) (\<lambda>n. and_then (validate_page_length n) (\<lambda>u. Inr n)) = Inr m \<longleftrightarrow> n \<le> MAX_PAGE_BYTES \<and> m = n"
  by (auto simp: fits_def validate_page_length_def MAX_PAGE_BYTES_def u64_max_def)

lemma encode_page_iff:
  assumes "page_typed U v"
  shows "encode_page U v = Inr bs \<longleftrightarrow>
    length (mp_entries v) \<le> MAX_ENTRIES_PER_PAGE \<and> list_all (entry_ok (mp_profile v)) (mp_entries v) \<and>
    sorted_wrt entry_before (map (entry_mark U) (mp_entries v)) \<and> length (page_item v) \<le> MAX_PAGE_BYTES \<and> bs = page_item v"
proof -
  let ?plan = "\<lambda>total. and_then (entries_encoded_len total (mp_entries v)) (\<lambda>total. and_then (validate_page_length total) (\<lambda>u. Inr total))"
  have first: "sum_list [head_len 7, head_len 0, head_len 0, head_len 1, payload_len (length (mp_manifest_id v)),
       head_len 2, head_len (mp_index v), head_len 3, (case mp_total v of None \<Rightarrow> 1 | Some pages \<Rightarrow> head_len pages),
       head_len 4, payload_len (length (mp_previous_digest v)), head_len 5, head_len (path_profile_code (mp_profile v)),
       head_len 6, head_len (length (mp_entries v))] + length (concat (map entry_item (mp_entries v))) = length (page_item v)"
    using assms by (cases "mp_total v") (simp_all add: page_item_def length_items payload_small page_typed_def total_item_def)
  have plan: "and_then (fits n) ?plan = Inr m \<longleftrightarrow> n + length (concat (map entry_item (mp_entries v))) \<le> MAX_PAGE_BYTES \<and>
      m = n + length (concat (map entry_item (mp_entries v)))" if "list_all (entry_ok (mp_profile v)) (mp_entries v)" for n m
  proof (cases "n \<le> u64_max")
    case True
    then have "fits n = Inr n" by (simp add: fits_def)
    moreover have "entries_encoded_len n (mp_entries v) = fits (n + length (concat (map entry_item (mp_entries v))))"
      using plan_entries [OF _ that True, of U] assms unfolding page_typed_def by blast
    ultimately show ?thesis using page_length_fits by (simp only: and_then_simps)
  next
    case False
    then show ?thesis by (auto simp: fits_def MAX_PAGE_BYTES_def u64_max_def)
  qed
  define F where "F = sum_list [head_len 7, head_len 0, head_len 0, head_len 1, payload_len (length (mp_manifest_id v)),
       head_len 2, head_len (mp_index v), head_len 3, (case mp_total v of None \<Rightarrow> 1 | Some pages \<Rightarrow> head_len pages),
       head_len 4, payload_len (length (mp_previous_digest v)), head_len 5, head_len (path_profile_code (mp_profile v)),
       head_len 6, head_len (length (mp_entries v))]"
  have "page_encoded_len U v = Inr m \<longleftrightarrow> length (mp_entries v) \<le> MAX_ENTRIES_PER_PAGE \<and>
      (\<exists>keys. validate_entries U (mp_entries v) (mp_profile v) = Inr keys \<and> and_then (fits F) ?plan = Inr m)" for m
    unfolding page_encoded_len_def plan_start F_def [symmetric]
      and_then_eq_Inr [of "validate_entry_count (length (mp_entries v))"]
      and_then_eq_Inr [of "validate_entries U (mp_entries v) (mp_profile v)"]
    by (auto simp: validate_entry_count_def)
  then have "page_encoded_len U v = Inr m \<longleftrightarrow> length (mp_entries v) \<le> MAX_ENTRIES_PER_PAGE \<and>
      list_all (entry_ok (mp_profile v)) (mp_entries v) \<and> sorted_wrt entry_before (map (entry_mark U) (mp_entries v)) \<and>
      length (page_item v) \<le> MAX_PAGE_BYTES \<and> m = length (page_item v)" for m
    unfolding validate_entries_iff using plan [of F] first [folded F_def] by auto
  then show ?thesis unfolding encode_page_items by auto
qed

lemma plan_commitments:
  "list_all commitment_typed cs \<Longrightarrow> sum_list (concat (map commitment_parts cs)) = length (concat (map commitment_item cs))"
  by (induction cs) (simp_all add: commitment_parts_def commitment_item_def commitment_typed_def length_items payload_small)

lemma encode_seal_iff:
  assumes "seal_typed v"
  shows "encode_seal v = Inr bs \<longleftrightarrow> validate_seal v = Inr () \<and> length (seal_item v) \<le> MAX_PAGE_BYTES \<and> bs = seal_item v"
proof -
  have "sum_list [head_len 6, head_len 0, head_len 0, head_len 1, payload_len (length (sl_manifest_id v)),
       head_len 2, head_len (sl_final_page_count v), head_len 3, payload_len (length (sl_final_page_digest v)),
       head_len 4, head_len 4, head_len 1, head_len (mo_suite (sl_package v)),
       payload_len (length (mo_root (sl_package v))), head_len (mo_length (sl_package v)),
       head_len 5, head_len (length (sl_pages v))] + sum_list (concat (map commitment_parts (sl_pages v))) = length (seal_item v)"
    using assms plan_commitments [of "sl_pages v"]
    by (simp add: seal_item_def length_items payload_small seal_typed_def manifest_object_typed_def)
  then show ?thesis unfolding encode_seal_items seal_encoded_len_def
    by (simp only: plan plan_assoc [symmetric]) (auto simp: plan_assoc fits_def validate_page_length_def page_le_u64 simp del: sum_list.Cons split: if_splits)
qed

lemma head_len_mono_16: "n \<le> 65535 \<Longrightarrow> head_len n \<le> 3"
  by (simp add: head_len_def)

lemma MAX_PAGE_COMMITMENTS_eq: "MAX_PAGE_COMMITMENTS = 26883"
  by (simp add: MAX_PAGE_COMMITMENTS_def MAX_PAGE_BYTES_def MAX_SEAL_FIXED_BYTES_def MAX_ENCODED_PAGE_COMMITMENT_BYTES_def)

lemma commitments_len:
  assumes "\<forall>c \<in> set cs. pc_index c \<le> 65535 \<and> length (pc_digest c) = 32"
  shows "length (concat (map commitment_item cs)) \<le> MAX_ENCODED_PAGE_COMMITMENT_BYTES * length cs"
  using assms
proof (induction cs)
  case (Cons c cs)
  then have "length (commitment_item c) \<le> 39"
    using head_len_mono_16 [of "pc_index c"] by (simp add: commitment_item_def length_items head_len_def [of 3] head_len_def [of 32] head_len_def [of 0])
  then show ?case using Cons by (simp add: MAX_ENCODED_PAGE_COMMITMENT_BYTES_def)
qed simp

lemma commitments_at_least:
  "\<forall>c \<in> set cs. length (pc_digest c) = 32 \<Longrightarrow> 37 * length cs \<le> length (concat (map commitment_item cs))"
proof (induction cs)
  case (Cons c cs)
  have "1 \<le> head_len (pc_index c)" by (simp add: head_len_def)
  then have "37 \<le> length (commitment_item c)"
    using Cons.prems by (simp add: commitment_item_def length_items head_len_def [of 3] head_len_def [of 32] head_len_def [of 0])
  then show ?case using Cons by simp
qed simp

lemma enumerate_indices:
  "\<not> list_ex (\<lambda>(index, page). f page \<noteq> index) (enumerate 0 xs) \<longleftrightarrow> (\<forall>i < length xs. f (xs ! i) = i)"
  by (auto simp: list_ex_length nth_enumerate_eq)

lemma validate_seal_iff:
  "validate_seal v = Inr () \<longleftrightarrow> sl_pages v \<noteq> [] \<and> sl_final_page_count v = length (sl_pages v) \<and>
    length (sl_pages v) \<le> MAX_PAGE_COMMITMENTS \<and> valid_object (sl_package v) \<and>
    (\<forall>i < length (sl_pages v). pc_index (sl_pages v ! i) = i) \<and> pc_digest (last (sl_pages v)) = sl_final_page_digest v"
  unfolding validate_seal_def enumerate_indices [symmetric] by (auto simp: not_less)

lemma valid_seal_indices: "validate_seal v = Inr () \<Longrightarrow> \<forall>c \<in> set (sl_pages v). pc_index c < length (sl_pages v)"
  by (auto simp: validate_seal_iff in_set_conv_nth)

text \<open>The size of a seal that obeys the rules, by its number of pages. The bound on page commitments is
  what a page can hold.\<close>

lemma valid_seal_size:
  assumes "seal_typed v" "validate_seal v = Inr ()"
  shows "37 * length (sl_pages v) < length (seal_item v)" "length (seal_item v) \<le> 113 + 39 * length (sl_pages v)"
proof -
  have n: "length (sl_pages v) \<le> 26883" "sl_final_page_count v = length (sl_pages v)" "mo_suite (sl_package v) \<le> 2"
    using assms(2) by (auto simp: validate_seal_def MAX_PAGE_COMMITMENTS_eq valid_object_def split: if_splits)
  then have typed: "\<forall>c \<in> set (sl_pages v). pc_index c \<le> 65535 \<and> length (pc_digest c) = 32"
    using valid_seal_indices [OF assms(2)] assms(1) by (fastforce simp: seal_typed_def commitment_typed_def list_all_iff)
  then have pages: "length (concat (map commitment_item (sl_pages v))) \<le> 39 * length (sl_pages v)"
    using commitments_len by (simp add: MAX_ENCODED_PAGE_COMMITMENT_BYTES_def)
  have heads: "head_len (length (sl_pages v)) \<le> 3" "head_len (mo_length (sl_package v)) \<le> 9" "head_len (mo_suite (sl_package v)) = 1"
    using n head_len_mono_16 head_len_le by (simp_all add: head_len_def)
  have small: "head_len 6 = 1" "head_len 0 = 1" "head_len (Suc 0) = 1" "head_len 16 = 1" "head_len 2 = 1" "head_len 3 = 1"
      "head_len 32 = 2" "head_len 4 = 1" "head_len 5 = 1" by (simp_all add: head_len_def)
  have size: "length (seal_item v) = 96 + 2 * head_len (length (sl_pages v)) + head_len (mo_length (sl_package v)) + length (concat (map commitment_item (sl_pages v)))"
    using assms(1) n heads small by (simp add: seal_item_def length_items seal_typed_def manifest_object_typed_def)
  show "length (seal_item v) \<le> 113 + 39 * length (sl_pages v)" using size heads(1,2) pages by linarith
  show "37 * length (sl_pages v) < length (seal_item v)" using size commitments_at_least typed by fastforce
qed

lemma valid_seal_fits:
  assumes "seal_typed v" "validate_seal v = Inr ()"
  shows "length (seal_item v) \<le> MAX_PAGE_BYTES"
  using valid_seal_size(2) [OF assms] assms(2) by (simp add: validate_seal_iff MAX_PAGE_COMMITMENTS_eq MAX_PAGE_BYTES_def)

section \<open>What the readers accept\<close>

lemma pd_steps [parse_rules]:
  "parses (\<lambda>v bs. v \<le> u64_max \<and> bs = uint_item v) pd_uint"
  "parses (\<lambda>v bs. - (2 ^ 63) \<le> v \<and> v < 2 ^ 63 \<and> bs = int_item v) pd_int"
  "parses (\<lambda>v bs. length v \<le> n \<and> bs = bytes_item v) (pd_bytes n)"
  "parses (\<lambda>v bs. length v = n \<and> bs = bytes_item v) (pd_fixed_bytes n)"
  "parses (\<lambda>v bs. length v \<le> n \<and> utf8_ok v \<and> bs = text_item v) (pd_text n)"
  unfolding pd_uint_def [abs_def] pd_int_def [abs_def] pd_bytes_def [abs_def] pd_fixed_bytes_def [abs_def] pd_text_def [abs_def]
  by (intro parses_map_err parse_rules)+

lemma pd_lens [parse_rules]:
  "parses (\<lambda>v bs. v \<le> u64_max \<and> bs = array_item v) pd_array_len"
  "parses (\<lambda>v bs. v \<le> u64_max \<and> bs = map_item v) pd_map_len"
  unfolding pd_array_len_def [abs_def] pd_map_len_def [abs_def] pd_collection_len_def
  by (rule parses_map_err, auto simp: parses_def rd_typed_head_iff array_item_def map_item_def array_head_def map_head_def)+

lemma pd_bounded_step [parse_rules]:
  "parses (\<lambda>v bs. v \<le> n \<and> v \<le> u64_max \<and> bs = array_item v) (pd_bounded_array_len n e)"
  unfolding pd_bounded_array_len_def [abs_def] by (rule parses_cong, (rule parse_rules)+) auto

lemma pd_exact_key_step [parse_rules]: "parses (\<lambda>u bs. k \<le> u64_max \<and> bs = uint_item k) (pd_exact_key k)"
  unfolding pd_exact_key_def [abs_def] by (rule parses_cong, (rule parse_rules)+) auto

lemma parses_all_pd_finish [parse_rules]:
  "parses_all (\<lambda>v bs. m = Inr v \<and> bs = []) (\<lambda>r. and_then (pd_finish r) (\<lambda>u. m))"
  unfolding pd_finish_def by (rule parse_rules)

lemma parses_manifest_object [parse_rules]:
  "parses (\<lambda>v bs. manifest_object_typed v \<and> bs = manifest_object_item v) decode_manifest_object"
  unfolding decode_manifest_object_def [abs_def]
  apply (rule parses_cong, (rule parse_rules)+)
  subgoal for v bs by (cases v) (auto simp: manifest_object_typed_def manifest_object_item_def)
  done

lemma parses_storage [parse_rules]: "parses (\<lambda>v bs. storage_typed v \<and> bs = storage_item v) decode_storage"
  unfolding decode_storage_def [abs_def]
  apply (rule parses_cong, rule parses_then [OF pd_lens(1)], rule parses_if, (rule parse_rules)+, rule parses_if, (rule parse_rules)+)
  subgoal for v bs by (cases v) (auto, (rule exI [of _ 2], simp), rule exI [of _ 5], simp)
  done

fun component_read :: "path_profile \<Rightarrow> component \<Rightarrow> bool" where
  "component_read profile (TextPart t) \<longleftrightarrow> profile = Portable \<and> length t \<le> 255 \<and> utf8_ok t"
| "component_read profile (BytesPart b) \<longleftrightarrow> profile = RawPosix \<and> length b \<le> 255"

lemma parses_component [parse_rules]:
  "parses (\<lambda>v bs. component_read profile v \<and> bs = component_item v) (decode_component profile)"
proof (cases profile)
  case Portable
  then show ?thesis unfolding decode_component_def [abs_def]
    apply simp
    apply (rule parses_cong, (rule parse_rules)+)
    subgoal for v bs by (cases v) auto
    done
next
  case RawPosix
  then show ?thesis unfolding decode_component_def [abs_def]
    apply simp
    apply (rule parses_cong, (rule parse_rules)+)
    subgoal for v bs by (cases v) auto
    done
qed

lemma uint_item_first: "\<exists>b bs. uint_item v = b # bs \<and> b \<noteq> 0xf6"
proof -
  have "uint_item v = word_of_nat (head_info v) # be_bytes (head_width (head_info v)) v"
    by (simp add: uint_item_def cbor_uint_def head_eq major_unsigned_def)
  moreover have "word_of_nat (head_info v) \<noteq> (0xf6 :: byte)"
    using head_info_less [of v] by (simp add: word_unat_eq_iff unat_of_nat)
  ultimately show ?thesis by blast
qed

lemma peek_null_iff: "reader_ok r \<Longrightarrow> rd_peek_null r \<longleftrightarrow> (\<exists>rest. remaining r = 0xf6 # rest)"
  by (cases "rd_offset r < length (rd_input r)")
    (auto simp: rd_peek_null_def remaining_def NULL_def Cons_nth_drop_Suc [symmetric])

lemma parses_total [parse_rules]:
  "parses (\<lambda>v bs. none_or v (\<lambda>n. n \<le> u64_max) \<and> bs = total_item v) decode_total"
  unfolding parses_def
proof (intro allI impI)
  fix r r' and v :: "nat option" assume ok: "reader_ok r"
  have uint: "pd_uint r = Inr (n, s) \<longleftrightarrow> n \<le> u64_max \<and> starts_with r (uint_item n) \<and> s = advance r (length (uint_item n))" for n s
    using pd_steps(1) ok by (auto simp: parses_def)
  have null: "pd_null r = Inr (u, s) \<longleftrightarrow> starts_with r [0xf6] \<and> s = advance r 1" for u s
    using rd_null_iff [OF ok] by (simp add: pd_null_def null_item_def NULL_def)
  have other: "\<not> starts_with r (uint_item n)" if "rd_peek_null r" for n
    using that uint_item_first [of n] peek_null_iff [OF ok] by (auto simp: starts_with_iff)
  have peek: "rd_peek_null r \<longleftrightarrow> starts_with r [0xf6]" using peek_null_iff [OF ok] by (auto simp: starts_with_iff)
  show "decode_total r = Inr (v, r') \<longleftrightarrow>
      (\<exists>bs. (none_or v (\<lambda>n. n \<le> u64_max) \<and> bs = total_item v) \<and> starts_with r bs \<and> r' = advance r (length bs))"
    using other peek by (cases v) (auto simp: decode_total_def total_item_def uint null)
qed

subsection \<open>Optional fields in key order\<close>

text \<open>A loop reads \<open>n\<close> fields whose keys ascend from \<open>lo\<close> and stay below \<open>hi\<close>; \<open>S key m m' b\<close> says
  that the bytes \<open>b\<close> of the field with that key turn \<open>m\<close> into \<open>m'\<close>.\<close>

fun fields_rel :: "(nat \<Rightarrow> 'm \<Rightarrow> 'm \<Rightarrow> bytes \<Rightarrow> bool) \<Rightarrow> nat \<Rightarrow> nat \<Rightarrow> nat \<Rightarrow> 'm \<Rightarrow> 'm \<Rightarrow> bytes \<Rightarrow> bool" where
  "fields_rel S hi lo 0 m v bs \<longleftrightarrow> v = m \<and> bs = []"
| "fields_rel S hi lo (Suc n) m v bs \<longleftrightarrow>
    (\<exists>key m' b b'. lo \<le> key \<and> key < hi \<and> key \<le> u64_max \<and> S key m m' b \<and> fields_rel S hi (Suc key) n m' v b' \<and>
      bs = uint_item key @ b @ b')"

lemma parses_fields:
  assumes zero: "\<And>lo m r. F 0 lo m r = Inr (m, r)"
    and step: "\<And>n lo m r v s. lo0 \<le> lo \<Longrightarrow> F (Suc n) lo m r = Inr (v, s) \<longleftrightarrow> (\<exists>key r1 m' r2. pd_uint r = Inr (key, r1) \<and> lo \<le> key \<and> key < hi \<and>
      B key m r1 = Inr (m', r2) \<and> F n (Suc key) m' r2 = Inr (v, s))"
    and field: "\<And>key m. lo0 \<le> key \<Longrightarrow> key < hi \<Longrightarrow> parses (S key m) (B key m)"
  shows "lo0 \<le> lo \<Longrightarrow> parses (fields_rel S hi lo n m) (F n lo m)"
proof (induction n arbitrary: lo m)
  case 0
  then show ?case by (auto simp: parses_def zero starts_with_iff advance_def)
next
  case (Suc n)
  show ?case unfolding parses_def
  proof (intro allI impI iffI)
    fix r v s assume ok: "reader_ok r" and "F (Suc n) lo m r = Inr (v, s)"
    then obtain key r1 m' r2 where run: "pd_uint r = Inr (key, r1)" "lo \<le> key" "key < hi" "B key m r1 = Inr (m', r2)"
        "F n (Suc key) m' r2 = Inr (v, s)" unfolding step [OF Suc.prems] by blast
    then have "lo0 \<le> key" "lo0 \<le> Suc key" using Suc.prems by simp_all
    note field = field [OF this(1) run(3)] and IH = Suc.IH [OF this(2)]
    from parsesD [OF pd_steps(1) ok run(1)] have 1: "key \<le> u64_max" "starts_with r (uint_item key)"
      "r1 = advance r (length (uint_item key))" "reader_ok r1" by blast+
    from parsesD [OF field 1(4) run(4)] obtain b where 2: "S key m m' b" "starts_with r1 b" "r2 = advance r1 (length b)" "reader_ok r2" .
    from parsesD [OF IH 2(4) run(5)] obtain b' where 3: "fields_rel S hi (Suc key) n m' v b'" "starts_with r2 b'" "s = advance r2 (length b')" .
    have "fields_rel S hi lo (Suc n) m v (uint_item key @ b @ b')" using run(2,3) 1(1) 2(1) 3(1) by auto
    moreover have "starts_with r (uint_item key @ b @ b')" "s = advance r (length (uint_item key @ b @ b'))"
      using 1 2 3 by (simp_all add: starts_with_append add.assoc)
    ultimately show "\<exists>bs. fields_rel S hi lo (Suc n) m v bs \<and> starts_with r bs \<and> s = advance r (length bs)" by blast
  next
    fix r v s assume ok: "reader_ok r" and "\<exists>bs. fields_rel S hi lo (Suc n) m v bs \<and> starts_with r bs \<and> s = advance r (length bs)"
    then obtain key m' b b' where *: "lo \<le> key" "key < hi" "key \<le> u64_max" "S key m m' b" "fields_rel S hi (Suc key) n m' v b'"
        "starts_with r (uint_item key @ b @ b')" "s = advance r (length (uint_item key @ b @ b'))" by auto
    then have "lo0 \<le> key" "lo0 \<le> Suc key" using Suc.prems by simp_all
    note field = field [OF this(1) *(2)] and IH = Suc.IH [OF this(2)]
    let ?r1 = "advance r (length (uint_item key))" let ?r2 = "advance ?r1 (length b)"
    have s: "starts_with r (uint_item key)" "starts_with ?r1 b" "starts_with ?r2 b'" using *(6) by (simp_all add: starts_with_append)
    note ok1 = reader_ok_advance [OF ok s(1)] and ok2 = reader_ok_advance [OF reader_ok_advance [OF ok s(1)] s(2)]
    have "pd_uint r = Inr (key, ?r1)" by (rule parsesI [OF pd_steps(1) ok]) (use * s in simp_all)
    moreover have "B key m ?r1 = Inr (m', ?r2)" by (rule parsesI [OF field ok1 *(4) s(2)])
    moreover have "F n (Suc key) m' ?r2 = Inr (v, s)" using parsesI [OF IH ok2 *(5) s(3)] *(7) by (simp add: add.assoc)
    ultimately show "F (Suc n) lo m r = Inr (v, s)" unfolding step [OF Suc.prems] using *(1,2) by blast
  qed
qed

lemma fields_rel_end: "fields_rel S hi hi n m v bs \<longleftrightarrow> n = 0 \<and> v = m \<and> bs = []"
  by (cases n) auto

lemma fields_rel_split:
  assumes "lo < hi"
  shows "fields_rel S hi lo n m v bs \<longleftrightarrow> fields_rel S hi (Suc lo) n m v bs \<or>
    (\<exists>n' m' b b'. n = Suc n' \<and> lo \<le> u64_max \<and> S lo m m' b \<and> fields_rel S hi (Suc lo) n' m' v b' \<and> bs = uint_item lo @ b @ b')"
proof (cases n)
  case (Suc k)
  have "lo \<le> key \<longleftrightarrow> Suc lo \<le> key \<or> key = lo" for key by auto
  then show ?thesis unfolding Suc fields_rel.simps using assms by blast
qed simp

lemma fields_rel_opt:
  assumes "lo < hi" "lo \<le> u64_max" "Suc lo = lo'"
    and step: "\<And>m' b. S lo m m' b \<longleftrightarrow> (\<exists>x. Q x \<and> m' = f (Some x) \<and> b = item x)" and none: "m = f None"
    and rest: "\<And>c n v bs. fields_rel S hi lo' n (f c) v bs \<longleftrightarrow> G c n v bs"
  shows "fields_rel S hi lo n m v bs \<longleftrightarrow>
    (\<exists>c k b. none_or c Q \<and> n = of_bool (c \<noteq> None) + k \<and> G c k v b \<and> bs = opt_item lo item c @ b)"
proof -
  have "(\<exists>n' m' b b'. n = Suc n' \<and> lo \<le> u64_max \<and> S lo m m' b \<and> fields_rel S hi lo' n' m' v b' \<and> bs = uint_item lo @ b @ b') \<longleftrightarrow>
      (\<exists>n' x b'. n = Suc n' \<and> Q x \<and> fields_rel S hi lo' n' (f (Some x)) v b' \<and> bs = uint_item lo @ item x @ b')"
    unfolding step using assms(2) by blast
  then have "fields_rel S hi lo n m v bs \<longleftrightarrow> fields_rel S hi lo' n (f None) v bs \<or>
      (\<exists>n' x b'. n = Suc n' \<and> Q x \<and> fields_rel S hi lo' n' (f (Some x)) v b' \<and> bs = uint_item lo @ item x @ b')"
    using fields_rel_split [OF assms(1), of S n m v bs] assms(3) none by simp
  then show ?thesis unfolding rest split_option_ex [where P = "\<lambda>c. \<exists>k b. P c k b" for P]
    by (auto simp: opt_item_def)
qed

fun metadata_field :: "nat \<Rightarrow> file_metadata \<Rightarrow> reader \<Rightarrow> page_decode_error + file_metadata \<times> reader" where
  "metadata_field key m r =
    (if key = 0 then and_then (pd_uint r) (\<lambda>(v, r). and_then (narrow 65535 PdInvalidStructure v) (\<lambda>v. Inr (m\<lparr>fm_mode := Some v\<rparr>, r)))
     else if key = 1 then and_then (pd_int r) (\<lambda>(v, r). Inr (m\<lparr>fm_mtime_seconds := Some v\<rparr>, r))
     else if key = 2 then and_then (pd_uint r) (\<lambda>(v, r). and_then (narrow 4294967295 PdInvalidStructure v) (\<lambda>v. Inr (m\<lparr>fm_mtime_nanoseconds := Some v\<rparr>, r)))
     else and_then (pd_text 127 r) (\<lambda>(v, r). Inr (m\<lparr>fm_media_type := Some v\<rparr>, r)))"

definition metadata_step :: "nat \<Rightarrow> file_metadata \<Rightarrow> file_metadata \<Rightarrow> bytes \<Rightarrow> bool" where
  "metadata_step key m m' b \<longleftrightarrow>
    (if key = 0 then \<exists>v \<le> u64_max. v \<le> 65535 \<and> m' = m\<lparr>fm_mode := Some v\<rparr> \<and> b = uint_item v
     else if key = 1 then \<exists>v. - (2 ^ 63) \<le> v \<and> v < 2 ^ 63 \<and> m' = m\<lparr>fm_mtime_seconds := Some v\<rparr> \<and> b = int_item v
     else if key = 2 then \<exists>v \<le> u64_max. v \<le> 4294967295 \<and> m' = m\<lparr>fm_mtime_nanoseconds := Some v\<rparr> \<and> b = uint_item v
     else \<exists>v. length v \<le> 127 \<and> utf8_ok v \<and> m' = m\<lparr>fm_media_type := Some v\<rparr> \<and> b = text_item v)"

lemma parses_metadata_field: "parses (metadata_step key m) (metadata_field key m)"
  unfolding metadata_step_def [abs_def] metadata_field.simps [abs_def]
  by (intro parses_if; rule parses_cong, (rule parse_rules)+) auto

lemma parses_metadata_fields:
  "parses (fields_rel metadata_step 4 0 n m) (decode_metadata_fields n None m)"
proof -
  define F where "F n lo = decode_metadata_fields n (if lo = 0 then None else Some (lo - 1))" for n lo
  have "parses (fields_rel metadata_step 4 0 n m) (F n 0 m)"
  proof (rule parses_fields [where lo0 = 0])
    fix n :: nat and lo :: nat and m r v s
    have less: "is_some_and (if lo = 0 then None else Some (lo - 1)) (\<lambda>p. key \<le> p) \<longleftrightarrow> \<not> lo \<le> key" for key
      by (auto simp: is_some_and_def)
    show "F (Suc n) lo m r = Inr (v, s) \<longleftrightarrow> (\<exists>key r1 m' r2. pd_uint r = Inr (key, r1) \<and> lo \<le> key \<and> key < 4 \<and>
        metadata_field key m r1 = Inr (m', r2) \<and> F n (Suc key) m' r2 = Inr (v, s))"
    proof (cases "pd_uint r")
      case (Inr x)
      obtain key r1 where x: "x = (key, r1)" by (cases x)
      consider "key = 0" | "key = 1" | "key = 2" | "key = 3" | "\<not> key < 4" by linarith
      then show ?thesis by cases (auto simp: F_def Inr x less split: prod.splits)
    qed (simp add: F_def)
  qed (use parses_metadata_field in \<open>simp_all add: F_def del: metadata_field.simps\<close>)
  then show ?thesis by (simp add: F_def)
qed

definition metadata_read :: "file_metadata \<Rightarrow> bool" where
  "metadata_read v \<longleftrightarrow> metadata_typed v \<and> none_or (fm_media_type v) (\<lambda>t. length t \<le> 127)"

abbreviation metadata_of :: "nat option \<Rightarrow> int option \<Rightarrow> nat option \<Rightarrow> bytes option \<Rightarrow> file_metadata" where
  "metadata_of a b c d \<equiv> \<lparr>fm_mode = a, fm_mtime_seconds = b, fm_mtime_nanoseconds = c, fm_media_type = d\<rparr>"

lemma metadata_of_eq: "v = metadata_of a b c d \<longleftrightarrow> fm_mode v = a \<and> fm_mtime_seconds v = b \<and> fm_mtime_nanoseconds v = c \<and> fm_media_type v = d"
  by (cases v) auto

lemma metadata_fields_3:
  "fields_rel metadata_step 4 3 n (metadata_of a b c None) v bs \<longleftrightarrow>
    fm_mode v = a \<and> fm_mtime_seconds v = b \<and> fm_mtime_nanoseconds v = c \<and>
    none_or (fm_media_type v) (\<lambda>t. length t \<le> 127 \<and> utf8_ok t) \<and>
    n = of_bool (fm_media_type v \<noteq> None) \<and> bs = opt_item 3 text_item (fm_media_type v)"
  by (subst fields_rel_opt [where f = "metadata_of a b c" and lo' = 4 and Q = "\<lambda>t. length t \<le> 127 \<and> utf8_ok t" and item = text_item,
      OF _ _ _ _ refl fields_rel_end [unfolded metadata_of_eq]])
    (auto simp: metadata_step_def simp del: not_None_eq)

lemma metadata_fields_2:
  "fields_rel metadata_step 4 2 n (metadata_of a b None None) v bs \<longleftrightarrow>
    fm_mode v = a \<and> fm_mtime_seconds v = b \<and> none_or (fm_mtime_nanoseconds v) (\<lambda>n. n \<le> 4294967295) \<and>
    none_or (fm_media_type v) (\<lambda>t. length t \<le> 127 \<and> utf8_ok t) \<and>
    n = of_bool (fm_mtime_nanoseconds v \<noteq> None) + of_bool (fm_media_type v \<noteq> None) \<and>
    bs = opt_item 2 uint_item (fm_mtime_nanoseconds v) @ opt_item 3 text_item (fm_media_type v)"
  by (subst fields_rel_opt [where f = "\<lambda>c. metadata_of a b c None" and lo' = 3 and Q = "\<lambda>n. n \<le> 4294967295" and item = uint_item,
      OF _ _ _ _ refl metadata_fields_3])
    (auto simp: metadata_step_def simp del: not_None_eq)

lemma metadata_fields_1:
  "fields_rel metadata_step 4 1 n (metadata_of a None None None) v bs \<longleftrightarrow>
    fm_mode v = a \<and> none_or (fm_mtime_seconds v) (\<lambda>n. - (2 ^ 63) \<le> n \<and> n < 2 ^ 63) \<and>
    none_or (fm_mtime_nanoseconds v) (\<lambda>n. n \<le> 4294967295) \<and>
    none_or (fm_media_type v) (\<lambda>t. length t \<le> 127 \<and> utf8_ok t) \<and>
    n = of_bool (fm_mtime_seconds v \<noteq> None) + of_bool (fm_mtime_nanoseconds v \<noteq> None) + of_bool (fm_media_type v \<noteq> None) \<and>
    bs = opt_item 1 int_item (fm_mtime_seconds v) @ opt_item 2 uint_item (fm_mtime_nanoseconds v) @ opt_item 3 text_item (fm_media_type v)"
  by (subst fields_rel_opt [where f = "\<lambda>b. metadata_of a b None None" and lo' = 2 and Q = "\<lambda>n. - (2 ^ 63) \<le> n \<and> n < 2 ^ 63" and item = int_item,
      OF _ _ _ _ refl metadata_fields_2])
    (auto simp: metadata_step_def simp del: not_None_eq)

lemma metadata_fields_0:
  "fields_rel metadata_step 4 0 n (metadata_of None None None None) v bs \<longleftrightarrow>
    none_or (fm_mode v) (\<lambda>n. n \<le> 65535) \<and> none_or (fm_mtime_seconds v) (\<lambda>n. - (2 ^ 63) \<le> n \<and> n < 2 ^ 63) \<and>
    none_or (fm_mtime_nanoseconds v) (\<lambda>n. n \<le> 4294967295) \<and>
    none_or (fm_media_type v) (\<lambda>t. length t \<le> 127 \<and> utf8_ok t) \<and>
    n = of_bool (fm_mode v \<noteq> None) + of_bool (fm_mtime_seconds v \<noteq> None) + of_bool (fm_mtime_nanoseconds v \<noteq> None) + of_bool (fm_media_type v \<noteq> None) \<and>
    bs = opt_item 0 uint_item (fm_mode v) @ opt_item 1 int_item (fm_mtime_seconds v) @ opt_item 2 uint_item (fm_mtime_nanoseconds v) @
      opt_item 3 text_item (fm_media_type v)"
  by (subst fields_rel_opt [where f = "\<lambda>a. metadata_of a None None None" and lo' = 1 and Q = "\<lambda>n. n \<le> 65535" and item = uint_item,
      OF _ _ _ _ refl metadata_fields_1])
    (auto simp: metadata_step_def simp del: not_None_eq)

lemma none_or_conj: "none_or v (\<lambda>x. P x \<and> Q x) \<longleftrightarrow> none_or v P \<and> none_or v Q"
  by (cases v) simp_all

lemma parses_metadata [parse_rules]:
  "parses (\<lambda>v bs. metadata_read v \<and> bs = metadata_item v) decode_metadata"
  unfolding decode_metadata_def [abs_def]
  apply (rule parses_cong, rule parses_then [OF pd_lens(2)], rule parses_check, rule parses_metadata_fields)
  subgoal for v bs
    unfolding default_metadata_def metadata_fields_0
    by (auto simp: metadata_read_def metadata_typed_def metadata_item_def metadata_fields_def counted_fields_def none_or_conj
        simp del: not_None_eq)
  done

subsection \<open>Entries, pages and seals\<close>

type_synonym entry_found = "nat option \<times> storage_ref option \<times> file_metadata option"

fun entry_field :: "nat \<Rightarrow> entry_found \<Rightarrow> reader \<Rightarrow> page_decode_error + entry_found \<times> reader" where
  "entry_field key (len, storage, metadata) r =
    (if key = 2 then and_then (pd_uint r) (\<lambda>(v, r). Inr ((Some v, storage, metadata), r))
     else if key = 3 then and_then (decode_storage r) (\<lambda>(v, r). Inr ((len, Some v, metadata), r))
     else and_then (decode_metadata r) (\<lambda>(v, r). Inr ((len, storage, Some v), r)))"

fun entry_step :: "nat \<Rightarrow> entry_found \<Rightarrow> entry_found \<Rightarrow> bytes \<Rightarrow> bool" where
  "entry_step key (len, storage, metadata) m' b \<longleftrightarrow>
    (if key = 2 then \<exists>v \<le> u64_max. m' = (Some v, storage, metadata) \<and> b = uint_item v
     else if key = 3 then \<exists>v. storage_typed v \<and> m' = (len, Some v, metadata) \<and> b = storage_item v
     else \<exists>v. metadata_read v \<and> m' = (len, storage, Some v) \<and> b = metadata_item v)"

lemma parses_entry_field: "parses (entry_step key m) (entry_field key m)"
proof -
  obtain a b c where m: "m = (a, b, c)" by (cases m)
  show ?thesis unfolding m entry_step.simps [abs_def] entry_field.simps [abs_def]
    by (intro parses_if; rule parses_cong, (rule parse_rules)+) auto
qed

lemma parses_entry_fields: "parses (fields_rel entry_step 5 2 n m) (decode_entry_fields n 1 m)"
proof -
  define F where "F n lo = decode_entry_fields n (lo - 1)" for n lo
  have "parses (fields_rel entry_step 5 2 n m) (F n 2 m)"
  proof (rule parses_fields [where lo0 = 2])
    fix n lo :: nat and m v :: entry_found and r s
    assume lo: "2 \<le> lo"
    obtain a b c where m: "m = (a, b, c)" by (cases m)
    show "F (Suc n) lo m r = Inr (v, s) \<longleftrightarrow> (\<exists>key r1 m' r2. pd_uint r = Inr (key, r1) \<and> lo \<le> key \<and> key < 5 \<and>
        entry_field key m r1 = Inr (m', r2) \<and> F n (Suc key) m' r2 = Inr (v, s))"
    proof (cases "pd_uint r")
      case (Inr x)
      obtain key r1 where x: "x = (key, r1)" by (cases x)
      have less: "key \<le> lo - 1 \<longleftrightarrow> \<not> lo \<le> key" using lo by auto
      consider "key \<le> 1" | "key = 2" | "key = 3" | "key = 4" | "\<not> key < 5" by linarith
      then show ?thesis by cases (use lo in \<open>auto simp: F_def Inr x m less split: prod.splits\<close>)
    qed (simp add: F_def m)
  qed (use parses_entry_field in \<open>simp_all add: F_def del: entry_field.simps\<close>)
  then show ?thesis by (simp add: F_def)
qed

lemma triple_eq: "v = (a, b, c) \<longleftrightarrow> fst v = a \<and> fst (snd v) = b \<and> snd (snd v) = c"
  by (cases v) auto

lemma entry_fields_4:
  "fields_rel entry_step 5 4 n (a, b, None) v bs \<longleftrightarrow>
    fst v = a \<and> fst (snd v) = b \<and> none_or (snd (snd v)) metadata_read \<and>
    n = of_bool (snd (snd v) \<noteq> None) \<and> bs = opt_item 4 metadata_item (snd (snd v))"
  by (subst fields_rel_opt [where f = "\<lambda>c. (a, b, c)" and lo' = 5 and Q = metadata_read and item = metadata_item,
      OF _ _ _ _ refl fields_rel_end [where m = "(a, b, c)" for c, unfolded triple_eq]])
    (auto simp del: not_None_eq)

lemma entry_fields_3:
  "fields_rel entry_step 5 3 n (a, None, None) v bs \<longleftrightarrow>
    fst v = a \<and> none_or (fst (snd v)) storage_typed \<and> none_or (snd (snd v)) metadata_read \<and>
    n = of_bool (fst (snd v) \<noteq> None) + of_bool (snd (snd v) \<noteq> None) \<and>
    bs = opt_item 3 storage_item (fst (snd v)) @ opt_item 4 metadata_item (snd (snd v))"
  by (subst fields_rel_opt [where f = "\<lambda>b. (a, b, None)" and lo' = 4 and Q = storage_typed and item = storage_item,
      OF _ _ _ _ refl entry_fields_4])
    (auto simp del: not_None_eq)

lemma entry_fields_2:
  "fields_rel entry_step 5 2 n (None, None, None) v bs \<longleftrightarrow>
    none_or (fst v) (\<lambda>n. n \<le> u64_max) \<and> none_or (fst (snd v)) storage_typed \<and> none_or (snd (snd v)) metadata_read \<and>
    n = of_bool (fst v \<noteq> None) + of_bool (fst (snd v) \<noteq> None) + of_bool (snd (snd v) \<noteq> None) \<and>
    bs = opt_item 2 uint_item (fst v) @ opt_item 3 storage_item (fst (snd v)) @ opt_item 4 metadata_item (snd (snd v))"
  by (subst fields_rel_opt [where f = "\<lambda>a. (a, None, None)" and lo' = 3 and Q = "\<lambda>n. n \<le> u64_max" and item = uint_item,
      OF _ _ _ _ refl entry_fields_3])
    (auto simp del: not_None_eq)

definition entry_read :: "unicode \<Rightarrow> path_profile \<Rightarrow> manifest_entry \<Rightarrow> bool" where
  "entry_read U profile v \<longleftrightarrow> entry_typed U v \<and> pp_profile (me_path v) = profile \<and> none_or (me_metadata v) metadata_read"

lemma package_path_new_iff:
  "package_path_new U cs profile = Inr p \<longleftrightarrow> validate_components U cs profile = Inr () \<and> p = \<lparr>pp_profile = profile, pp_components = cs\<rparr>"
  by (auto simp: package_path_new_def)

lemma components_read:
  "validate_components U cs profile = Inr () \<Longrightarrow> list_all (component_read profile) cs \<longleftrightarrow> list_all component_typed cs"
proof -
  have "component_typed c \<longleftrightarrow> component_read profile c" if "validate_component U profile c = Inr ()" for c
    using accepted_unmixed [OF that] component_short [OF that] by (cases c) auto
  then show "validate_components U cs profile = Inr () \<Longrightarrow> ?thesis" by (auto simp: validate_components_iff list_all_iff)
qed

lemma kind_iff: "(if k = 0 then Inr FileEntry else if k = 1 then Inr DirectoryEntry else Inl e) = Inr kind \<longleftrightarrow> k = kind_code kind"
  by (cases kind) auto

lemma entry_fields_eq:
  "entry_fields v = of_bool (me_length v \<noteq> None) + of_bool (me_storage v \<noteq> None) + of_bool (me_metadata v \<noteq> None) + 2"
  by (simp add: entry_fields_def counted_fields_def)

lemma field_count: "2 \<le> x \<Longrightarrow> x - 2 = k \<longleftrightarrow> x = k + (2 :: nat)"
  by auto

lemma of_bool_count: "of_bool p + of_bool q + of_bool r + 2 \<le> (5 :: nat)" "of_bool p + of_bool q + of_bool r + 2 \<le> u64_max"
  by (simp_all add: u64_max_def)

lemma kind_code_le: "kind_code k \<le> u64_max"
  by (cases k) simp_all

lemma metadata_read_typed: "metadata_read v \<Longrightarrow> metadata_typed v"
  by (simp add: metadata_read_def)

lemma none_or_mono: "none_or v P \<Longrightarrow> (\<And>x. P x \<Longrightarrow> Q x) \<Longrightarrow> none_or v Q"
  by (cases v) simp_all

lemma parses_return_triple:
  "parses (\<lambda>v bs. v = f (fst x) (fst (snd x)) (snd (snd x)) \<and> bs = []) (case x of (a, b, c) \<Rightarrow> \<lambda>r. Inr (f a b c, r))"
  using parses_return by (cases x) simp

lemma parses_entry [parse_rules]:
  "parses (\<lambda>v bs. entry_read U profile v \<and> bs = entry_item v) (decode_entry U profile)"
  unfolding decode_entry_def [abs_def]
  apply (rule parses_cong, (rule parses_return_triple parses_entry_fields parse_rules)+)
  subgoal for v bs
  proof -
    obtain profile' cs kind a b c where v: "v = \<lparr>me_path = \<lparr>pp_profile = profile', pp_components = cs\<rparr>, me_kind = kind,
        me_length = a, me_storage = b, me_metadata = c\<rparr>" by (metis manifest_entry.cases package_path.cases)
    have valid: "cs \<noteq> [] \<and> length cs \<le> MAX_PATH_COMPONENTS" if "validate_components U cs profile = Inr ()"
      using that by (simp add: validate_components_iff)
    show ?thesis unfolding entry_fields_2 kind_iff v not_not
    proof (rule iffI, goal_cases)
      case 1
      then show ?case
        by (elim exE conjE)
          (simp add: package_path_new_iff entry_read_def entry_typed_def path_typed_def components_read entry_item_def
            entry_fields_eq field_count none_or_mono [OF _ metadata_read_typed] del: not_None_eq add_2_eq_Suc')
    next
      case 2
      then have cs: "validate_components U cs profile = Inr ()" "list_all (component_read profile) cs"
        by (auto simp: entry_read_def entry_typed_def path_typed_def components_read)
      then have "length cs \<le> u64_max" using valid by (auto simp: MAX_PATH_COMPONENTS_def u64_max_def)
      with 2 cs valid [OF cs(1)] show ?case
        by (intro exI [of _ "of_bool (a \<noteq> None) + of_bool (b \<noteq> None) + of_bool (c \<noteq> None) + 2"])
          (simp add: package_path_new_iff entry_read_def entry_typed_def path_typed_def entry_item_def
            entry_fields_eq of_bool_count kind_code_le del: not_None_eq add_2_eq_Suc')
    qed
  qed
  done

lemma profile_iff: "(if k = 0 then Inr Portable else if k = 1 then Inr RawPosix else Inl e) = Inr profile \<longleftrightarrow> k = path_profile_code profile"
  by (cases profile) auto

lemma profile_code_le: "path_profile_code p \<le> u64_max"
  by (cases p) simp_all

lemma entry_ok_read:
  assumes "entry_ok profile v" "entry_typed U v"
  shows "entry_read U profile v"
  using assms by (cases "me_metadata v")
    (auto simp: entry_ok_def entry_read_def entry_typed_def validate_entry_def metadata_read_def valid_metadata_def
      none_or_def split: entry_kind.splits if_splits option.splits)

lemma page_entries_read:
  assumes "encode_page U v = Inr bs" "page_typed U v"
  shows "list_all (entry_read U (mp_profile v)) (mp_entries v)" "length (mp_entries v) \<le> MAX_ENTRIES_PER_PAGE" "bs = page_item v"
    "length bs \<le> MAX_PAGE_BYTES"
  using assms(1) entry_ok_read assms(2) unfolding encode_page_iff [OF assms(2)] page_typed_def by (auto simp: list_all_iff)

lemma decode_page_reads:
  assumes "length bs \<le> MAX_PAGE_BYTES"
  shows "decode_page U bs = Inr v \<longleftrightarrow> page_typed U v \<and> list_all (entry_read U (mp_profile v)) (mp_entries v) \<and>
    length (mp_entries v) \<le> MAX_ENTRIES_PER_PAGE \<and> bs = page_item v \<and> encode_page U v = Inr bs"
proof -
  have len: "validate_page_length (length bs) = Inr ()" "length bs \<le> u64_max"
    using assms by (simp_all add: validate_page_length_def page_le_u64)
  show ?thesis unfolding decode_page_def Let_def len(1)
    apply (simp only: map_err_simps and_then_simps)
    apply (rule decodes_first, rule pd_lens, (rule parse_rules)+, fact len(2))
    unfolding profile_iff
  proof (rule iffI, goal_cases)
    case 1
    then show ?case
      by (elim exE conjE) (auto simp: page_typed_def page_item_def entry_read_def list_all_iff none_or_def)
  next
    case 2
    obtain a b c d e f where v: "v = \<lparr>mp_manifest_id = a, mp_index = b, mp_total = c, mp_previous_digest = d, mp_profile = e, mp_entries = f\<rparr>"
      by (cases v)
    have "length f \<le> u64_max" using 2 by (simp add: v MAX_ENTRIES_PER_PAGE_def u64_max_def)
    then show ?case using 2 unfolding v by (simp add: page_typed_def page_item_def profile_code_le)
  qed
qed

lemma decode_page_iff: "decode_page U bs = Inr v \<longleftrightarrow> page_typed U v \<and> encode_page U v = Inr bs"
proof (cases "length bs \<le> MAX_PAGE_BYTES")
  case True
  show ?thesis unfolding decode_page_reads [OF True] using page_entries_read by blast
next
  case False
  then show ?thesis using page_entries_read(4) by (auto simp: decode_page_def validate_page_length_def)
qed

lemma parses_commitment [parse_rules]:
  "parses (\<lambda>v bs. commitment_typed v \<and> bs = commitment_item v) decode_commitment"
  unfolding decode_commitment_def [abs_def]
  apply (rule parses_cong, (rule parse_rules)+)
  subgoal for v bs by (cases v) (auto simp: commitment_typed_def commitment_item_def)
  done

lemma decode_seal_reads:
  assumes "length bs \<le> MAX_PAGE_BYTES"
  shows "decode_seal bs = Inr v \<longleftrightarrow> seal_typed v \<and> length (sl_pages v) \<le> MAX_PAGE_COMMITMENTS \<and> bs = seal_item v \<and>
    validate_seal v = Inr () \<and> encode_seal v = Inr bs"
proof -
  have len: "validate_page_length (length bs) = Inr ()" "length bs \<le> u64_max"
    using assms by (simp_all add: validate_page_length_def page_le_u64)
  show ?thesis unfolding decode_seal_def Let_def len(1)
    apply (simp only: map_err_simps and_then_simps)
    apply (rule decodes_first, rule pd_lens, (rule parse_rules)+, fact len(2))
  proof (rule iffI, goal_cases)
    case 1
    then show ?case
      by (elim exE conjE) (auto simp: seal_typed_def seal_item_def manifest_object_typed_def)
  next
    case 2
    obtain a b c suite root len f where v: "v = \<lparr>sl_manifest_id = a, sl_final_page_count = b, sl_final_page_digest = c,
        sl_package = \<lparr>mo_suite = suite, mo_root = root, mo_length = len\<rparr>, sl_pages = f\<rparr>"
      by (metis seal.cases manifest_object.cases)
    have "length f \<le> u64_max" using 2 by (simp add: v MAX_PAGE_COMMITMENTS_eq u64_max_def)
    then show ?case using 2 unfolding v by (simp add: seal_typed_def seal_item_def manifest_object_typed_def)
  qed
qed

lemma decode_seal_iff: "decode_seal bs = Inr v \<longleftrightarrow> seal_typed v \<and> encode_seal v = Inr bs"
proof (cases "length bs \<le> MAX_PAGE_BYTES")
  case True
  show ?thesis unfolding decode_seal_reads [OF True] using encode_seal_iff [of v bs] validate_seal_iff [of v] by blast
next
  case False
  then show ?thesis using encode_seal_iff [of v bs] by (auto simp: decode_seal_def validate_page_length_def)
qed

section \<open>Properties\<close>

text \<open>C19. Manifest pages are canonical: the reader accepts exactly the byte strings that the writer
  produces for a page of well-typed fields, whatever the Unicode tables, and returns that page.\<close>

theorem manifest_page_canonical: "decode_page U bs = Inr v \<longleftrightarrow> page_typed U v \<and> encode_page U v = Inr bs"
  by (rule decode_page_iff)

end
