(* ===== verification/Manifest_Ingest.thy ===== *)
theory Manifest_Ingest
  imports Manifest_Page Merkle_Log
begin

text \<open>
  Progressive ingest of a manifest and the path index (\<open>progressive.rs\<close> and \<open>index.rs\<close> under
  \<open>src/crates/vot-manifest/src\<close>). A receiver accepts pages one at a time before the manifest is
  complete, each chained to the one before it, and at the end checks them against the seal. The
  hash function is a parameter.
\<close>

section \<open>Definitions\<close>

record progressive_ingest =
  pi_manifest_id :: bytes
  pi_profile :: path_profile
  pi_digests :: "bytes list"
  pi_last_path :: "bytes option"
  pi_last_file :: bool
  pi_poisoned :: bool

definition new_ingest :: "bytes \<Rightarrow> path_profile \<Rightarrow> progressive_ingest" where
  "new_ingest manifest_id profile =
    \<lparr>pi_manifest_id = manifest_id, pi_profile = profile, pi_digests = [], pi_last_path = None, pi_last_file = False,
     pi_poisoned = False\<rparr>"

definition accept_inner ::
    "unicode \<Rightarrow> hash_fun \<Rightarrow> progressive_ingest \<Rightarrow> manifest_page \<Rightarrow> manifest_error + bytes \<times> progressive_ingest" where
  "accept_inner U H st page =
    (if mp_manifest_id page \<noteq> pi_manifest_id st \<or> mp_profile page \<noteq> pi_profile st then Inl WrongManifest
     else if mp_total page \<noteq> None then Inl SealedPageInProgressiveStream
     else if mp_index page \<noteq> length (pi_digests st) then Inl WrongPageIndex
     else
       let expected_previous = (if pi_digests st = [] then replicate 32 0 else last (pi_digests st)) in
       if mp_previous_digest page \<noteq> expected_previous then Inl BrokenPageChain
       else
         and_then (validate_entries U (mp_entries page) (mp_profile page)) (\<lambda>keys.
         and_then
           (case pi_last_path st of
             None \<Rightarrow> Inr ()
           | Some previous \<Rightarrow>
               if keys = [] then Inr ()
               else if hd keys \<le> previous then Inl EntriesUnsorted
               else if pi_last_file st \<and> is_path_prefix previous (hd keys) then Inl PathCollision
               else Inr ()) (\<lambda>u.
         and_then (encode_page U page) (\<lambda>encoded.
           let digest = H encoded;
               st = (if mp_entries page = [] then st
                     else st\<lparr>pi_last_file := (me_kind (last (mp_entries page)) = FileEntry)\<rparr>);
               st = st\<lparr>pi_last_path := (if keys = [] then pi_last_path st else Some (last keys))\<rparr>;
               st = st\<lparr>pi_digests := pi_digests st @ [digest]\<rparr>
           in Inr (digest, st)))))"

definition accept ::
    "unicode \<Rightarrow> hash_fun \<Rightarrow> progressive_ingest \<Rightarrow> manifest_page \<Rightarrow> progressive_ingest \<times> (manifest_error + bytes)" where
  "accept U H st page =
    (if pi_poisoned st then (st, Inl MPoisoned)
     else case accept_inner U H st page of
       Inl e \<Rightarrow> (st\<lparr>pi_poisoned := True\<rparr>, Inl e)
     | Inr (digest, st) \<Rightarrow> (st, Inr digest))"

fun verify_commitments :: "nat \<Rightarrow> (page_commitment \<times> bytes) list \<Rightarrow> manifest_error + unit" where
  "verify_commitments index [] = Inr ()"
| "verify_commitments index ((commitment, digest) # rest) =
    (if pc_index commitment \<noteq> index \<or> pc_digest commitment \<noteq> digest then Inl InvalidSeal
     else verify_commitments (Suc index) rest)"

definition verify_seal :: "progressive_ingest \<Rightarrow> seal \<Rightarrow> manifest_error + unit" where
  "verify_seal st seal =
    (if pi_poisoned st then Inl MPoisoned
     else if pi_digests st = [] then Inl MPoisoned
     else if sl_manifest_id seal \<noteq> pi_manifest_id st \<or>
       sl_final_page_count seal \<noteq> length (pi_digests st) \<or>
       sl_final_page_digest seal \<noteq> last (pi_digests st) \<or>
       length (sl_pages seal) \<noteq> length (pi_digests st) \<or>
       \<not> valid_object (sl_package seal)
     then Inl InvalidSeal
     else verify_commitments 0 (zip (sl_pages seal) (pi_digests st)))"

text \<open>Accepting pages in turn, until one is refused.\<close>

fun ingest :: "unicode \<Rightarrow> hash_fun \<Rightarrow> progressive_ingest \<Rightarrow> manifest_page list \<Rightarrow> progressive_ingest \<times> (manifest_error + unit)" where
  "ingest U H st [] = (st, Inr ())"
| "ingest U H st (page # pages) =
    (case accept U H st page of
      (st, Inl e) \<Rightarrow> (st, Inl e)
    | (st, Inr digest) \<Rightarrow> ingest U H st pages)"

subsection \<open>The path index\<close>

record index_entry =
  ix_fingerprint :: bytes
  ix_page :: nat
  ix_entry :: nat

type_synonym manifest_index = "index_entry list"

definition path_fingerprint :: "hash_fun \<Rightarrow> bytes \<Rightarrow> bytes" where
  "path_fingerprint H key = take 16 (H key)"

definition index_push ::
    "unicode \<Rightarrow> hash_fun \<Rightarrow> manifest_index \<Rightarrow> package_path \<Rightarrow> path_profile \<Rightarrow> nat \<Rightarrow> nat \<Rightarrow> manifest_error + manifest_index" where
  "index_push U H index location profile page entry =
    and_then (canonical_path_key U location profile) (\<lambda>key.
      Inr (index @ [\<lparr>ix_fingerprint = path_fingerprint H key, ix_page = page, ix_entry = entry\<rparr>]))"

text \<open>\<open>sort_unstable_by_key\<close> leaves entries with one fingerprint in an unspecified order; nothing
  below depends on it.\<close>

definition index_finish :: "manifest_index \<Rightarrow> manifest_index" where
  "index_finish index = sort_key ix_fingerprint index"

text \<open>\<open>partition_point\<close> on a slice whose first part satisfies the predicate and the rest does not.\<close>

definition partition_point :: "('a \<Rightarrow> bool) \<Rightarrow> 'a list \<Rightarrow> nat" where
  "partition_point p xs = length (takeWhile p xs)"

definition candidates :: "unicode \<Rightarrow> hash_fun \<Rightarrow> manifest_index \<Rightarrow> package_path \<Rightarrow> path_profile \<Rightarrow> (nat \<times> nat) list" where
  "candidates U H index location profile =
    (case canonical_path_key U location profile of
      Inl e \<Rightarrow> []
    | Inr key \<Rightarrow>
        let fingerprint = path_fingerprint H key;
            first = partition_point (\<lambda>entry. ix_fingerprint entry < fingerprint) index;
            stop = partition_point (\<lambda>entry. ix_fingerprint entry \<le> fingerprint) index
        in map (\<lambda>entry. (ix_page entry, ix_entry entry)) (take (stop - first) (drop first index)))"

section \<open>What a stream of accepted pages is\<close>

definition page_bytes :: "unicode \<Rightarrow> manifest_page \<Rightarrow> bytes" where
  "page_bytes U page = (case encode_page U page of Inl e \<Rightarrow> [] | Inr bs \<Rightarrow> bs)"

definition marks :: "unicode \<Rightarrow> manifest_page list \<Rightarrow> (bytes \<times> bool) list" where
  "marks U pages = concat (map (\<lambda>page. map (entry_mark U) (mp_entries page)) pages)"

definition page_follows :: "unicode \<Rightarrow> hash_fun \<Rightarrow> bytes \<Rightarrow> path_profile \<Rightarrow> manifest_page list \<Rightarrow> manifest_page \<Rightarrow> bool" where
  "page_follows U H manifest_id profile pages page \<longleftrightarrow>
    mp_manifest_id page = manifest_id \<and> mp_profile page = profile \<and> mp_total page = None \<and>
    mp_index page = length pages \<and>
    mp_previous_digest page = (if pages = [] then replicate 32 0 else H (page_bytes U (last pages))) \<and>
    (\<exists>bs. encode_page U page = Inr bs) \<and> sorted_wrt entry_before (marks U (pages @ [page]))"

definition stream_ok :: "unicode \<Rightarrow> hash_fun \<Rightarrow> bytes \<Rightarrow> path_profile \<Rightarrow> manifest_page list \<Rightarrow> bool" where
  "stream_ok U H manifest_id profile pages \<longleftrightarrow>
    (\<forall>i < length pages. page_follows U H manifest_id profile (take i pages) (pages ! i))"

definition ingested :: "unicode \<Rightarrow> hash_fun \<Rightarrow> bytes \<Rightarrow> path_profile \<Rightarrow> manifest_page list \<Rightarrow> progressive_ingest" where
  "ingested U H manifest_id profile pages =
    \<lparr>pi_manifest_id = manifest_id, pi_profile = profile, pi_digests = map (\<lambda>page. H (page_bytes U page)) pages,
     pi_last_path = (if marks U pages = [] then None else Some (fst (last (marks U pages)))),
     pi_last_file = (marks U pages \<noteq> [] \<and> snd (last (marks U pages))), pi_poisoned = False\<rparr>"

lemma stream_ok_snoc:
  "stream_ok U H manifest_id profile (pages @ [page]) \<longleftrightarrow>
    stream_ok U H manifest_id profile pages \<and> page_follows U H manifest_id profile pages page"
  by (auto simp: stream_ok_def less_Suc_eq nth_append)

lemma encode_page_entries: "encode_page U page = Inr bs \<Longrightarrow>
    validate_entries U (mp_entries page) (mp_profile page) = Inr (map (\<lambda>e. path_key U (me_path e)) (mp_entries page)) \<and>
    sorted_wrt entry_before (map (entry_mark U) (mp_entries page))"
  by (auto simp: encode_page_def page_encoded_len_def validate_entries_iff)

lemma sorted_marks_append:
  "sorted_wrt entry_before (xs @ ys) \<longleftrightarrow> sorted_wrt entry_before xs \<and> sorted_wrt entry_before ys \<and>
    (xs \<noteq> [] \<longrightarrow> ys \<noteq> [] \<longrightarrow> entry_before (last xs) (hd ys))"
  unfolding entries_before_iff [symmetric] successively_append_iff by auto

lemma marks_snoc: "marks U (pages @ [page]) = marks U pages @ map (entry_mark U) (mp_entries page)"
  by (simp add: marks_def)

lemma accept_inner_iff:
  assumes "stream_ok U H manifest_id profile pages" "sorted_wrt entry_before (marks U pages)"
  shows "accept_inner U H (ingested U H manifest_id profile pages) page = Inr (digest, st) \<longleftrightarrow>
    page_follows U H manifest_id profile pages page \<and> digest = H (page_bytes U page) \<and>
    st = ingested U H manifest_id profile (pages @ [page])"
proof (cases "encode_page U page")
  case (Inl e)
  then show ?thesis by (auto simp: accept_inner_def page_follows_def Let_def split: if_splits)
next
  case (Inr bs)
  note entries = encode_page_entries [OF Inr]
  let ?es = "mp_entries page"
  let ?S = "ingested U H manifest_id profile pages" let ?keys = "map (\<lambda>e. path_key U (me_path e)) ?es"
  define C where "C = (case pi_last_path ?S of None \<Rightarrow> Inr ()
      | Some previous \<Rightarrow> if ?keys = [] then Inr ()
          else if hd ?keys \<le> previous then Inl EntriesUnsorted
          else if pi_last_file ?S \<and> is_path_prefix previous (hd ?keys) then Inl PathCollision
          else Inr ())"
  have first: "C = Inr () \<longleftrightarrow> sorted_wrt entry_before (marks U (pages @ [page]))"
    unfolding marks_snoc sorted_marks_append
    using entries assms(2) by (cases ?es) (auto simp: C_def ingested_def entry_before_def entry_mark_def not_le)
  define st' where "st' = (let st = (if ?es = [] then ?S else ?S\<lparr>pi_last_file := (me_kind (last ?es) = FileEntry)\<rparr>);
        st = st\<lparr>pi_last_path := (if ?keys = [] then pi_last_path st else Some (last ?keys))\<rparr>
      in st\<lparr>pi_digests := pi_digests st @ [H bs]\<rparr>)"
  have state: "st' = ingested U H manifest_id profile (pages @ [page])"
    by (cases "?es = []") (auto simp: st'_def ingested_def marks_snoc Let_def Inr page_bytes_def entry_mark_def last_map)
  have "accept_inner U H ?S page =
      (if mp_manifest_id page \<noteq> manifest_id \<or> mp_profile page \<noteq> profile then Inl WrongManifest
       else if mp_total page \<noteq> None then Inl SealedPageInProgressiveStream
       else if mp_index page \<noteq> length pages then Inl WrongPageIndex
       else if mp_previous_digest page \<noteq> (if pages = [] then replicate 32 0 else H (page_bytes U (last pages))) then Inl BrokenPageChain
       else and_then C (\<lambda>u. Inr (H bs, st')))"
    unfolding accept_inner_def C_def st'_def Let_def Inr entries [THEN conjunct1] and_then_simps
    by (simp add: ingested_def last_map)
  then show ?thesis using first state Inr by (cases C) (auto simp: page_follows_def page_bytes_def)
qed

lemma ingest_snoc:
  "ingest U H st (pages @ [page]) =
    (case ingest U H st pages of
      (st, Inl e) \<Rightarrow> (st, Inl e)
    | (st, Inr u) \<Rightarrow> (case accept U H st page of (st, Inl e) \<Rightarrow> (st, Inl e) | (st, Inr digest) \<Rightarrow> (st, Inr ())))"
  by (induction pages arbitrary: st) (auto split: prod.splits sum.splits)

lemma stream_sorted: "stream_ok U H manifest_id profile pages \<Longrightarrow> sorted_wrt entry_before (marks U pages)"
  by (cases pages rule: rev_cases) (auto simp: stream_ok_snoc page_follows_def marks_def)

lemma ingest_iff:
  "ingest U H (new_ingest manifest_id profile) pages = (st, Inr ()) \<longleftrightarrow>
    stream_ok U H manifest_id profile pages \<and> st = ingested U H manifest_id profile pages"
proof (induction pages arbitrary: st rule: rev_induct)
  case Nil
  show ?case by (auto simp: new_ingest_def ingested_def stream_ok_def marks_def)
next
  case (snoc page pages)
  have "ingest U H (new_ingest manifest_id profile) (pages @ [page]) = (st, Inr ()) \<longleftrightarrow>
      (\<exists>st'. ingest U H (new_ingest manifest_id profile) pages = (st', Inr ()) \<and> (\<exists>digest. accept U H st' page = (st, Inr digest)))"
    unfolding ingest_snoc by (auto split: prod.splits sum.splits)
  also have "\<dots> \<longleftrightarrow> stream_ok U H manifest_id profile pages \<and>
      (\<exists>digest. accept U H (ingested U H manifest_id profile pages) page = (st, Inr digest))"
    unfolding snoc.IH by blast
  also have "\<dots> \<longleftrightarrow> stream_ok U H manifest_id profile pages \<and>
      (\<exists>digest. accept_inner U H (ingested U H manifest_id profile pages) page = Inr (digest, st))"
    by (auto simp: accept_def ingested_def split: sum.splits prod.splits)
  also have "\<dots> \<longleftrightarrow> stream_ok U H manifest_id profile pages \<and> page_follows U H manifest_id profile pages page \<and>
      st = ingested U H manifest_id profile (pages @ [page])"
    using accept_inner_iff stream_sorted by blast
  finally show ?case unfolding stream_ok_snoc by blast
qed

text \<open>Once a page is refused, nothing more is accepted and no seal verifies.\<close>

lemma refused_page_poisons:
  "accept U H st page = (st', Inl e) \<Longrightarrow> pi_poisoned st'"
  by (auto simp: accept_def split: if_splits sum.splits prod.splits)

lemma poisoned_stays:
  "pi_poisoned st \<Longrightarrow> accept U H st page = (st, Inl MPoisoned) \<and> verify_seal st seal = Inl MPoisoned"
  by (simp add: accept_def verify_seal_def)

section \<open>Seals\<close>

lemma verify_commitments_iff:
  "length cs = length ds \<Longrightarrow> verify_commitments n (zip cs ds) = Inr () \<longleftrightarrow>
    (\<forall>i < length cs. pc_index (cs ! i) = n + i \<and> pc_digest (cs ! i) = ds ! i)"
proof (induction cs ds arbitrary: n rule: list_induct2)
  case (Cons c cs d ds)
  then show ?case by (auto simp: All_less_Suc2)
qed simp

lemma verify_seal_digests:
  assumes "verify_seal st seal = Inr ()"
  shows "pi_digests st = map pc_digest (sl_pages seal)" "pi_manifest_id st = sl_manifest_id seal"
  using assms verify_commitments_iff [of "sl_pages seal" "pi_digests st" 0]
  by (auto simp: verify_seal_def intro!: nth_equalityI split: if_splits)

lemma stream_encodes: "stream_ok U H manifest_id profile pages \<Longrightarrow> page \<in> set pages \<Longrightarrow> encode_page U page = Inr (page_bytes U page)"
  by (fastforce simp: stream_ok_def page_follows_def in_set_conv_nth page_bytes_def)

lemma same_digests_same_pages:
  assumes "\<forall>p \<in> set ps. page_typed U p \<and> encode_page U p = Inr (page_bytes U p)"
    "\<forall>q \<in> set qs. page_typed U q \<and> encode_page U q = Inr (page_bytes U q)"
    and "map (\<lambda>p. H (page_bytes U p)) ps = map (\<lambda>p. H (page_bytes U p)) qs"
  shows "ps = qs \<or> collision H (page_bytes U ` set ps) (page_bytes U ` set qs)"
proof -
  have "length ps = length qs" using assms(3) by (metis length_map)
  then show ?thesis using assms
  proof (induction ps qs rule: list_induct2)
    case (Cons p ps q qs)
    show ?case
    proof (cases "page_bytes U p = page_bytes U q")
      case True
      then have "p = q" using Cons.prems(1,2) decode_page_iff [of U "page_bytes U p"] by (metis list.set_intros(1) Inr_inject)
      moreover have "ps = qs \<or> collision H (page_bytes U ` set ps) (page_bytes U ` set qs)" using Cons by simp
      moreover have "collision H (page_bytes U ` set (p # ps)) (page_bytes U ` set (q # qs))"
        if "collision H (page_bytes U ` set ps) (page_bytes U ` set qs)" by (rule collision_mono [OF that]) auto
      ultimately show ?thesis by blast
    next
      case False
      then show ?thesis using Cons.prems(3) by (auto simp: collision_def)
    qed
  qed simp
qed

section \<open>Paths\<close>

lemma prefix_key_less: "f < f @ 0 # (z :: bytes)"
  by (induction f) auto

lemma sorted_wrt_pair:
  "sorted_wrt R xs \<Longrightarrow> i < length xs \<Longrightarrow> j < length xs \<Longrightarrow> i \<noteq> j \<Longrightarrow> R (xs ! i) (xs ! j) \<or> R (xs ! j) (xs ! i)"
  by (metis linorder_neqE_nat sorted_wrt_nth_less)

lemma marks_entries: "marks U pages = map (entry_mark U) (concat (map mp_entries pages))"
  by (simp add: marks_def map_concat comp_def)

lemma entries_apart:
  assumes "keys_ok U a" "keys_ok U b" "entry_before (path_key U a, f) (path_key U b, g) \<or> entry_before (path_key U b, g) (path_key U a, f)"
  shows "component_keys U a \<noteq> component_keys U b \<and> (f \<longrightarrow> \<not> prefix (component_keys U a) (component_keys U b))"
proof -
  have ne: "path_key U a \<noteq> path_key U b" using assms(3) by (auto simp: entry_before_def)
  then have "component_keys U a \<noteq> component_keys U b" using path_key_inject [OF assms(1,2)] by simp
  moreover have "\<not> is_path_prefix (path_key U a) (path_key U b)" if f
    using assms(3)
  proof
    assume "entry_before (path_key U b, g) (path_key U a, f)"
    then show ?thesis using prefix_key_less by (auto simp: entry_before_def is_path_prefix_iff dest: less_asym)
  qed (use that in \<open>simp add: entry_before_def\<close>)
  ultimately show ?thesis unfolding path_prefix_components [OF assms(1,2)] by (auto simp: strict_prefix_def)
qed

section \<open>The index\<close>

lemma sorted_window:
  assumes "sorted (map k xs)"
  shows "take (length (takeWhile (\<lambda>x. k x \<le> f) xs) - length (takeWhile (\<lambda>x. k x < f) xs))
      (drop (length (takeWhile (\<lambda>x. k x < f) xs)) xs) = filter (\<lambda>x. k x = (f :: 'k :: linorder)) xs"
  using assms
proof (induction xs)
  case (Cons x xs)
  consider "k x < f" | "k x = f" | "f < k x" by fastforce
  then show ?case
  proof cases
    case 1
    then have "k x \<le> f" "k x \<noteq> f" by simp_all
    then show ?thesis using Cons 1 by simp
  next
    case 2
    then have "takeWhile (\<lambda>x. k x < f) xs = []" using Cons.prems by (cases xs) auto
    then show ?thesis using Cons 2 by simp
  next
    case 3
    then have "filter (\<lambda>x. k x = f) xs = []" using Cons.prems by (auto simp: filter_empty_conv)
    moreover have "\<not> k x \<le> f" "\<not> k x < f" "k x \<noteq> f" using 3 by auto
    ultimately show ?thesis by simp
  qed
qed simp

lemma candidates_finish:
  assumes "pp_profile location = profile"
  shows "set (candidates U H (index_finish index) location profile) =
    {(ix_page e, ix_entry e) | e. e \<in> set index \<and> ix_fingerprint e = path_fingerprint H (path_key U location)}"
  using assms sorted_window [of ix_fingerprint "sort_key ix_fingerprint index" "path_fingerprint H (path_key U location)"]
  by (auto simp: candidates_def canonical_path_key_def index_finish_def partition_point_def Let_def)

section \<open>Properties\<close>

text \<open>C14. No path of a manifest stands in the way of another: among all entries of the accepted
  pages, whatever page they are on, no two have the same canonical components, and no file's path
  is at or above another entry's. The source only compares neighbouring entries.\<close>

theorem manifest_paths_apart:
  assumes "unicode_ok U" "\<forall>page \<in> set pages. page_typed U page"
    and "ingest U H (new_ingest manifest_id profile) pages = (st, Inr ())"
    and "i < length (concat (map mp_entries pages))" "j < length (concat (map mp_entries pages))" "i \<noteq> j"
  shows "component_keys U (me_path (concat (map mp_entries pages) ! i)) \<noteq> component_keys U (me_path (concat (map mp_entries pages) ! j)) \<and>
    (me_kind (concat (map mp_entries pages) ! i) = FileEntry \<longrightarrow>
      \<not> prefix (component_keys U (me_path (concat (map mp_entries pages) ! i)))
        (component_keys U (me_path (concat (map mp_entries pages) ! j))))"
proof -
  let ?es = "concat (map mp_entries pages)"
  have keys: "keys_ok U (me_path e)" if "e \<in> set ?es" for e
    using that assms(1,2) path_typed_keys_ok by (fastforce simp: page_typed_def entry_typed_def list_all_iff)
  have "stream_ok U H manifest_id profile pages" using assms(3) by (simp add: ingest_iff)
  then have "sorted_wrt entry_before (map (entry_mark U) ?es)" using stream_sorted marks_entries by metis
  from sorted_wrt_pair [OF this, of i j] assms(4-6)
  have "entry_before (entry_mark U (?es ! i)) (entry_mark U (?es ! j)) \<or> entry_before (entry_mark U (?es ! j)) (entry_mark U (?es ! i))"
    by simp
  then show ?thesis using entries_apart [OF keys keys] assms(4,5) unfolding entry_mark_def by (metis nth_mem)
qed

definition example_entry :: "bytes list \<Rightarrow> entry_kind \<Rightarrow> manifest_entry" where
  "example_entry names kind =
    \<lparr>me_path = \<lparr>pp_profile = Portable, pp_components = map TextPart names\<rparr>, me_kind = kind,
     me_length = (if kind = FileEntry then Some 0 else None),
     me_storage = (if kind = FileEntry then Some (DirectStorage \<lparr>mo_suite = 1, mo_root = replicate 32 0, mo_length = 0\<rparr>) else None),
     me_metadata = None\<rparr>"

definition example_page :: manifest_page where
  "example_page = \<lparr>mp_manifest_id = replicate 16 0, mp_index = 0, mp_total = None, mp_previous_digest = replicate 32 0,
    mp_profile = Portable, mp_entries = [example_entry [[0x61]] DirectoryEntry, example_entry [[0x61], [0x62]] FileEntry]\<rparr>"

lemma example_fold: "portable_fold ascii_unicode [0x61] = [0x61]" "portable_fold ascii_unicode [0x62] = [0x62]"
  by (simp_all add: portable_fold_def ascii_unicode_def)

lemma example_component:
  "validate_portable_component ascii_unicode [0x61] = Inr ()" "validate_portable_component ascii_unicode [0x62] = Inr ()"
  by (simp_all add: validate_portable_component_def example_fold Let_def dot_or_space_def refused_char_def
      reserved_stem_def strip_prefix_def is_some_and_def word_le_nat_alt, simp_all add: ascii_unicode_def)

lemma example_key:
  "component_key ascii_unicode Portable (TextPart [0x61]) = [0x61]" "component_key ascii_unicode Portable (TextPart [0x62]) = [0x62]"
  by (simp_all add: example_fold trim_end_dots_def dot_or_space_def utf8_def utf8_char_def word_le_nat_alt)

lemma example_page_typed: "page_typed ascii_unicode example_page"
  by (simp add: page_typed_def entry_typed_def path_typed_def validate_components_def example_page_def example_entry_def
      MAX_PATH_COMPONENTS_def example_component manifest_object_typed_def word_le_nat_alt)

lemma example_marks: "map (entry_mark ascii_unicode) (mp_entries example_page) = [([0x61], False), ([0x61, 0, 0x62], True)]"
  by (simp add: example_page_def example_entry_def entry_mark_def path_key_def example_key del: component_key.simps)

lemma example_sorted: "sorted_wrt entry_before (map (entry_mark ascii_unicode) (mp_entries example_page))"
  unfolding example_marks by (simp add: entry_before_def)

lemma example_page_length: "length (page_item example_page) \<le> MAX_PAGE_BYTES"
  by (simp add: page_item_def example_page_def example_entry_def entry_item_def entry_fields_eq length_items length_opt_item
      manifest_object_item_def total_item_def head_len_def MAX_PAGE_BYTES_def)

lemma example_page_encodes: "encode_page ascii_unicode example_page = Inr (page_item example_page)"
  unfolding encode_page_iff [OF example_page_typed]
  using example_sorted example_page_length
  by (simp add: example_page_def example_entry_def MAX_ENTRIES_PER_PAGE_def entry_ok_def validate_entry_def valid_object_def is_some_and_def)

lemma example_ingest:
  "ingest ascii_unicode (\<lambda>bs. take 32 bs) (new_ingest (replicate 16 0) Portable) [example_page] =
    (ingested ascii_unicode (\<lambda>bs. take 32 bs) (replicate 16 0) Portable [example_page], Inr ())"
  unfolding ingest_iff using example_page_encodes example_sorted
  by (simp add: stream_ok_def page_follows_def marks_def) (simp add: example_page_def)

theorem manifest_paths_apart_witness:
  "component_keys ascii_unicode (me_path (concat (map mp_entries [example_page]) ! 1)) = [[0x61], [0x62]] \<and>
   \<not> prefix (component_keys ascii_unicode (me_path (concat (map mp_entries [example_page]) ! 1)))
     (component_keys ascii_unicode (me_path (concat (map mp_entries [example_page]) ! 0)))"
proof -
  have "me_kind (concat (map mp_entries [example_page]) ! 1) = FileEntry" "length (concat (map mp_entries [example_page])) = 2"
    "component_keys ascii_unicode (me_path (concat (map mp_entries [example_page]) ! 1)) = [[0x61], [0x62]]"
    by (simp_all add: example_page_def example_entry_def component_keys_def example_key del: component_key.simps)
  then show ?thesis
    using manifest_paths_apart [OF ascii_unicode_ok _ example_ingest, of 1 0] example_page_typed by simp
qed

text \<open>C15. A seal commits to the whole manifest: if two receivers accepted two sequences of pages and
  the same seal verifies for both, they accepted the same pages, or two different page encodings
  have the same hash.\<close>

theorem seal_commits_to_pages:
  assumes "\<forall>page \<in> set pages \<union> set pages'. page_typed U page"
    and "ingest U H (new_ingest manifest_id profile) pages = (st, Inr ())" "verify_seal st seal = Inr ()"
    and "ingest U H (new_ingest manifest_id' profile') pages' = (st', Inr ())" "verify_seal st' seal = Inr ()"
  shows "pages = pages' \<or> collision H (page_bytes U ` set pages) (page_bytes U ` set pages')"
proof (rule same_digests_same_pages)
  note ok = assms(2,4) [unfolded ingest_iff]
  show "\<forall>p \<in> set pages. page_typed U p \<and> encode_page U p = Inr (page_bytes U p)"
      "\<forall>p \<in> set pages'. page_typed U p \<and> encode_page U p = Inr (page_bytes U p)"
    using assms(1) ok stream_encodes by blast+
  show "map (\<lambda>p. H (page_bytes U p)) pages = map (\<lambda>p. H (page_bytes U p)) pages'"
    using verify_seal_digests(1) [OF assms(3)] verify_seal_digests(1) [OF assms(5)] ok by (simp add: ingested_def)
qed

definition example_seal :: seal where
  "example_seal = \<lparr>sl_manifest_id = replicate 16 0, sl_final_page_count = 1, sl_final_page_digest = take 32 (page_item example_page),
    sl_package = \<lparr>mo_suite = 1, mo_root = replicate 32 0, mo_length = 0\<rparr>,
    sl_pages = [\<lparr>pc_index = 0, pc_digest = take 32 (page_item example_page)\<rparr>]\<rparr>"

lemma example_seal_verifies:
  "verify_seal (ingested ascii_unicode (\<lambda>bs. take 32 bs) (replicate 16 0) Portable [example_page]) example_seal = Inr ()"
  by (simp add: verify_seal_def ingested_def example_seal_def page_bytes_def example_page_encodes valid_object_def i64_max_def)

theorem seal_commits_to_pages_witness:
  "[example_page] = [example_page] \<or>
    collision (\<lambda>bs. take 32 bs) (page_bytes ascii_unicode ` set [example_page]) (page_bytes ascii_unicode ` set [example_page])"
  using seal_commits_to_pages [OF _ example_ingest example_seal_verifies example_ingest example_seal_verifies] example_page_typed by simp

text \<open>Pushing entries one after another.\<close>

fun push_all :: "unicode \<Rightarrow> hash_fun \<Rightarrow> path_profile \<Rightarrow> manifest_index \<Rightarrow> (package_path \<times> nat \<times> nat) list \<Rightarrow> manifest_error + manifest_index" where
  "push_all U H profile index [] = Inr index"
| "push_all U H profile index ((location, page, entry) # rest) =
    and_then (index_push U H index location profile page entry) (\<lambda>index. push_all U H profile index rest)"

lemma push_all_iff:
  "push_all U H profile index pushed = Inr out \<longleftrightarrow> (\<forall>p \<in> set pushed. pp_profile (fst p) = profile) \<and>
    out = index @ map (\<lambda>(location, page, entry). \<lparr>ix_fingerprint = path_fingerprint H (path_key U location), ix_page = page, ix_entry = entry\<rparr>) pushed"
  by (induction U H profile index pushed rule: push_all.induct) (auto simp: index_push_def canonical_path_key_def)

text \<open>The path index finds every entry of a path: when entries were pushed and the index was
  finished, the candidates of a path are exactly the pages and entries pushed under a path with
  its fingerprint, in particular every entry of the path itself.\<close>

theorem index_finds_entries:
  assumes "push_all U H profile [] pushed = Inr index" "pp_profile location = profile"
  shows "set (candidates U H (index_finish index) location profile) =
    {(page, entry) | other page entry. (other, page, entry) \<in> set pushed \<and>
      path_fingerprint H (path_key U other) = path_fingerprint H (path_key U location)}"
  unfolding candidates_finish [OF assms(2)] using assms(1) by (force simp: push_all_iff)

end
