(* ===== verification/Typed_Frames.thy ===== *)
theory Typed_Frames
  imports Session_Frames Object_Frames Transfer_Frames Fec_Frames Receipt Manifest_Page
begin

text \<open>
  The typed frames of \<open>src/crates/vot-codec/src/frames/mod.rs\<close>: one constructor per application frame,
  the encoder that puts a payload into its envelope, the direct path for data records, and the
  decoder. Manifest pages, seals and receipts travel as bytes that both ends check with their own
  decoders (\<open>Manifest_Page\<close>, \<open>Receipt\<close>). The payload codecs of the frame theories meet here the
  envelope of \<open>Frame_Codec\<close>.
\<close>

section \<open>Definitions\<close>

datatype typed_frame =
  TfAuthContext auth_context |
  TfSessionOpen session_open |
  TfSessionAccept session_accept |
  TfSessionReject session_reject |
  TfGoAway go_away |
  TfError error_frame |
  TfPackageDescriptor package_descriptor |
  TfManifestRequest manifest_request |
  TfManifestPage bytes |
  TfSeal bytes |
  TfHave have_map |
  TfRangeRequest range_request |
  TfProofBundle proof_bundle |
  TfDataRecord data_record |
  TfCapacity capacity |
  TfTransitVerified assurance_frame |
  TfChunkDurable assurance_frame |
  TfChunkAtRestVerified assurance_frame |
  TfPublishReceipt bytes |
  TfDatagramCredit datagram_credit |
  TfCodingEpochOpen coding_epoch_open |
  TfGenState gen_state |
  TfGenDone gen_done |
  TfCodingEpochClose coding_epoch_close

fun tf_frame_type :: "typed_frame \<Rightarrow> nat" where
  "tf_frame_type (TfAuthContext _) = AUTH_CONTEXT"
| "tf_frame_type (TfSessionOpen _) = SESSION_OPEN"
| "tf_frame_type (TfSessionAccept _) = SESSION_ACCEPT"
| "tf_frame_type (TfSessionReject _) = SESSION_REJECT"
| "tf_frame_type (TfGoAway _) = GOAWAY"
| "tf_frame_type (TfError _) = ERROR"
| "tf_frame_type (TfPackageDescriptor _) = PACKAGE_DESCRIPTOR"
| "tf_frame_type (TfManifestRequest _) = MANIFEST_REQUEST"
| "tf_frame_type (TfManifestPage _) = MANIFEST_PAGE"
| "tf_frame_type (TfSeal _) = SEAL"
| "tf_frame_type (TfHave _) = HAVE"
| "tf_frame_type (TfRangeRequest _) = RANGE_REQUEST"
| "tf_frame_type (TfProofBundle _) = PROOF_BUNDLE"
| "tf_frame_type (TfDataRecord _) = DATA_RECORD"
| "tf_frame_type (TfCapacity _) = CAPACITY"
| "tf_frame_type (TfTransitVerified _) = TRANSIT_VERIFIED"
| "tf_frame_type (TfChunkDurable _) = CHUNK_DURABLE"
| "tf_frame_type (TfChunkAtRestVerified _) = CHUNK_AT_REST_VERIFIED"
| "tf_frame_type (TfPublishReceipt _) = PUBLISH_RECEIPT"
| "tf_frame_type (TfDatagramCredit _) = DATAGRAM_CREDIT"
| "tf_frame_type (TfCodingEpochOpen _) = CODING_EPOCH_OPEN"
| "tf_frame_type (TfGenState _) = GEN_STATE"
| "tf_frame_type (TfGenDone _) = GEN_DONE"
| "tf_frame_type (TfCodingEpochClose _) = CODING_EPOCH_CLOSE"

definition validate_manifest_page :: "unicode \<Rightarrow> bytes \<Rightarrow> frame_error + unit" where
  "validate_manifest_page U bs = map_err (\<lambda>e. FrManifest) (and_then (decode_page U bs) (\<lambda>page. Inr ()))"

definition validate_seal_payload :: "bytes \<Rightarrow> frame_error + unit" where
  "validate_seal_payload bs =
    (if is_some_and (registered_payload_limit SEAL) (\<lambda>limit. limit < length bs) then Inl FrTooLarge
     else map_err (\<lambda>e. FrSeal) (and_then (decode_seal bs) (\<lambda>seal. Inr ())))"

definition validate_receipt :: "bytes \<Rightarrow> frame_error + unit" where
  "validate_receipt bs = map_err (\<lambda>e. FrReceipt) (and_then (decode_authenticated bs) (\<lambda>receipt. Inr ()))"

text \<open>The payload of every frame but a data record, whose arm is unreachable: \<open>encode\<close> returns before it.\<close>

fun encode_payload :: "unicode \<Rightarrow> typed_frame \<Rightarrow> frame_error + bytes" where
  "encode_payload U (TfAuthContext value) = encode_auth_context value []"
| "encode_payload U (TfSessionOpen value) = encode_session_open value []"
| "encode_payload U (TfSessionAccept value) = encode_session_accept value []"
| "encode_payload U (TfSessionReject value) = encode_session_reject value []"
| "encode_payload U (TfGoAway value) = encode_goaway value []"
| "encode_payload U (TfError value) = encode_error_frame value []"
| "encode_payload U (TfPackageDescriptor value) = encode_package_descriptor value []"
| "encode_payload U (TfManifestRequest value) = encode_manifest_request value []"
| "encode_payload U (TfManifestPage bs) = and_then (validate_manifest_page U bs) (\<lambda>u. Inr bs)"
| "encode_payload U (TfSeal bs) = and_then (validate_seal_payload bs) (\<lambda>u. Inr bs)"
| "encode_payload U (TfHave value) = encode_have value []"
| "encode_payload U (TfRangeRequest value) = encode_range_request value []"
| "encode_payload U (TfProofBundle value) = encode_proof_bundle value []"
| "encode_payload U (TfCapacity value) = Inr (encode_capacity value [])"
| "encode_payload U (TfTransitVerified value) = encode_assurance value []"
| "encode_payload U (TfChunkDurable value) = encode_assurance value []"
| "encode_payload U (TfChunkAtRestVerified value) = encode_assurance value []"
| "encode_payload U (TfPublishReceipt bs) = and_then (validate_receipt bs) (\<lambda>u. Inr bs)"
| "encode_payload U (TfDatagramCredit value) = Inr (encode_datagram_credit value [])"
| "encode_payload U (TfCodingEpochOpen value) = encode_coding_epoch_open value []"
| "encode_payload U (TfGenState value) = encode_gen_state value []"
| "encode_payload U (TfGenDone value) = Inr (encode_gen_done value [])"
| "encode_payload U (TfCodingEpochClose value) = Inr (encode_coding_epoch_close value [])"
| "encode_payload U (TfDataRecord value) = Inl FrInvalidValue"

definition begin_data_record :: "data_record_header \<Rightarrow> bytes \<Rightarrow> frame_error + (nat \<times> nat) \<times> bytes" where
  "begin_data_record value out =
    and_then (validate_data_record_header value) (\<lambda>u.
      let payload_len = data_record_payload_len value in
      and_then (map_err FrEnvelope (encode_varint DATA_RECORD out)) (\<lambda>out.
      and_then (map_err FrEnvelope (encode_varint payload_len out)) (\<lambda>out.
        let out = encode_validated_data_record_header value out;
            start = length out
        in Inr ((start, saturating_add start (dh_encoded_length value)), out))))"

definition encode_data_record :: "data_record \<Rightarrow> bytes \<Rightarrow> frame_error + bytes" where
  "encode_data_record value out =
    and_then (begin_data_record (data_record_header_of value) out) (\<lambda>(range, out). Inr (out @ dr_encoded value))"

text \<open>\<open>output.resize(range.end, 0)\<close>: the field is there, zeroed, for the caller to fill.\<close>

definition reserve_data_record :: "data_record_header \<Rightarrow> bytes \<Rightarrow> frame_error + (nat \<times> nat) \<times> bytes" where
  "reserve_data_record value out =
    and_then (begin_data_record value out) (\<lambda>(range, out).
      Inr (range, take (snd range) out @ replicate (snd range - length out) 0))"

definition encode_typed :: "unicode \<Rightarrow> typed_frame \<Rightarrow> bytes \<Rightarrow> frame_error + bytes" where
  "encode_typed U frame out =
    (case frame of
      TfDataRecord value \<Rightarrow> encode_data_record value out
    | _ \<Rightarrow>
        and_then (encode_payload U frame) (\<lambda>payload.
          map_err FrEnvelope (encode_frame (tf_frame_type frame) payload out)))"

definition decode_data_record_ref :: "bytes \<Rightarrow> decode_limits \<Rightarrow> frame_error + data_record \<times> nat" where
  "decode_data_record_ref input limits =
    and_then (map_err FrEnvelope (decode_one input limits)) (\<lambda>(decoded, consumed).
      case decoded of
        SkippedOptional frame_kind len \<Rightarrow> Inl (WrongFrameType frame_kind)
      | Known frame_kind payload \<Rightarrow>
          if frame_kind \<noteq> DATA_RECORD then Inl (WrongFrameType frame_kind)
          else and_then (decode_data_record_ref_payload payload) (\<lambda>value. Inr (value, consumed)))"

text \<open>The match of \<open>decode\<close> on the frame type.\<close>

definition decode_payload :: "unicode \<Rightarrow> nat \<Rightarrow> bytes \<Rightarrow> frame_error + typed_frame" where
  "decode_payload U frame_kind payload =
    (if frame_kind = AUTH_CONTEXT then and_then (decode_auth_context payload) (\<lambda>value. Inr (TfAuthContext value))
     else if frame_kind = SESSION_OPEN then and_then (decode_session_open payload) (\<lambda>value. Inr (TfSessionOpen value))
     else if frame_kind = SESSION_ACCEPT then and_then (decode_session_accept payload) (\<lambda>value. Inr (TfSessionAccept value))
     else if frame_kind = SESSION_REJECT then and_then (decode_session_reject payload) (\<lambda>value. Inr (TfSessionReject value))
     else if frame_kind = GOAWAY then and_then (decode_goaway payload) (\<lambda>value. Inr (TfGoAway value))
     else if frame_kind = ERROR then and_then (decode_error_frame payload) (\<lambda>value. Inr (TfError value))
     else if frame_kind = PACKAGE_DESCRIPTOR then and_then (decode_package_descriptor payload) (\<lambda>value. Inr (TfPackageDescriptor value))
     else if frame_kind = MANIFEST_REQUEST then and_then (decode_manifest_request payload) (\<lambda>value. Inr (TfManifestRequest value))
     else if frame_kind = MANIFEST_PAGE then and_then (validate_manifest_page U payload) (\<lambda>u. Inr (TfManifestPage payload))
     else if frame_kind = SEAL then and_then (validate_seal_payload payload) (\<lambda>u. Inr (TfSeal payload))
     else if frame_kind = HAVE then and_then (decode_have payload) (\<lambda>value. Inr (TfHave value))
     else if frame_kind = RANGE_REQUEST then and_then (decode_range_request payload) (\<lambda>value. Inr (TfRangeRequest value))
     else if frame_kind = PROOF_BUNDLE then and_then (decode_proof_bundle payload) (\<lambda>value. Inr (TfProofBundle value))
     else if frame_kind = DATA_RECORD then and_then (decode_data_record payload) (\<lambda>value. Inr (TfDataRecord value))
     else if frame_kind = CAPACITY then and_then (decode_capacity payload) (\<lambda>value. Inr (TfCapacity value))
     else if frame_kind = TRANSIT_VERIFIED then and_then (decode_assurance payload) (\<lambda>value. Inr (TfTransitVerified value))
     else if frame_kind = CHUNK_DURABLE then and_then (decode_assurance payload) (\<lambda>value. Inr (TfChunkDurable value))
     else if frame_kind = CHUNK_AT_REST_VERIFIED then and_then (decode_assurance payload) (\<lambda>value. Inr (TfChunkAtRestVerified value))
     else if frame_kind = PUBLISH_RECEIPT then and_then (validate_receipt payload) (\<lambda>u. Inr (TfPublishReceipt payload))
     else if frame_kind = DATAGRAM_CREDIT then and_then (decode_datagram_credit payload) (\<lambda>value. Inr (TfDatagramCredit value))
     else if frame_kind = CODING_EPOCH_OPEN then and_then (decode_coding_epoch_open payload) (\<lambda>value. Inr (TfCodingEpochOpen value))
     else if frame_kind = GEN_STATE then and_then (decode_gen_state payload) (\<lambda>value. Inr (TfGenState value))
     else if frame_kind = GEN_DONE then and_then (decode_gen_done payload) (\<lambda>value. Inr (TfGenDone value))
     else if frame_kind = CODING_EPOCH_CLOSE then and_then (decode_coding_epoch_close payload) (\<lambda>value. Inr (TfCodingEpochClose value))
     else Inl (WrongFrameType frame_kind))"

definition decode_typed :: "unicode \<Rightarrow> bytes \<Rightarrow> decode_limits \<Rightarrow> frame_error + typed_frame \<times> nat" where
  "decode_typed U input limits =
    and_then (map_err FrEnvelope (decode_one input limits)) (\<lambda>(decoded, consumed).
      case decoded of
        SkippedOptional frame_kind len \<Rightarrow> Inl (WrongFrameType frame_kind)
      | Known frame_kind payload \<Rightarrow>
          and_then (decode_payload U frame_kind payload) (\<lambda>frame. Inr (frame, consumed)))"

section \<open>Payloads\<close>

text \<open>The widths the source's types enforce.\<close>

fun typed_frame_typed :: "typed_frame \<Rightarrow> bool" where
  "typed_frame_typed (TfAuthContext value) \<longleftrightarrow> auth_context_typed value"
| "typed_frame_typed (TfSessionOpen value) \<longleftrightarrow> session_open_typed value"
| "typed_frame_typed (TfSessionAccept value) \<longleftrightarrow> session_accept_typed value"
| "typed_frame_typed (TfSessionReject value) \<longleftrightarrow> session_reject_typed value"
| "typed_frame_typed (TfGoAway value) \<longleftrightarrow> go_away_typed value"
| "typed_frame_typed (TfError value) \<longleftrightarrow> error_frame_typed value"
| "typed_frame_typed (TfPackageDescriptor value) \<longleftrightarrow> package_descriptor_typed value"
| "typed_frame_typed (TfManifestRequest value) \<longleftrightarrow> manifest_request_typed value"
| "typed_frame_typed (TfManifestPage value) \<longleftrightarrow> True"
| "typed_frame_typed (TfSeal value) \<longleftrightarrow> True"
| "typed_frame_typed (TfHave value) \<longleftrightarrow> have_typed value"
| "typed_frame_typed (TfRangeRequest value) \<longleftrightarrow> range_request_typed value"
| "typed_frame_typed (TfProofBundle value) \<longleftrightarrow> proof_bundle_typed value"
| "typed_frame_typed (TfDataRecord value) \<longleftrightarrow> data_record_typed value"
| "typed_frame_typed (TfCapacity value) \<longleftrightarrow> capacity_typed value"
| "typed_frame_typed (TfTransitVerified value) \<longleftrightarrow> assurance_frame_typed value"
| "typed_frame_typed (TfChunkDurable value) \<longleftrightarrow> assurance_frame_typed value"
| "typed_frame_typed (TfChunkAtRestVerified value) \<longleftrightarrow> assurance_frame_typed value"
| "typed_frame_typed (TfPublishReceipt value) \<longleftrightarrow> True"
| "typed_frame_typed (TfDatagramCredit value) \<longleftrightarrow> datagram_credit_typed value"
| "typed_frame_typed (TfCodingEpochOpen value) \<longleftrightarrow> coding_epoch_open_typed value"
| "typed_frame_typed (TfGenState value) \<longleftrightarrow> gen_state_typed value"
| "typed_frame_typed (TfGenDone value) \<longleftrightarrow> gen_done_typed value"
| "typed_frame_typed (TfCodingEpochClose value) \<longleftrightarrow> coding_epoch_close_typed value"

definition payload_of :: "unicode \<Rightarrow> typed_frame \<Rightarrow> frame_error + bytes" where
  "payload_of U frame =
    (case frame of
      TfDataRecord value \<Rightarrow> and_then (validate_data_record value) (\<lambda>u. Inr (data_record_item value))
    | _ \<Rightarrow> encode_payload U frame)"

lemma decode_payload_encode:
  assumes "typed_frame_typed frame" "payload_of U frame = Inr p" "length p \<le> u64_max"
  shows "decode_payload U (tf_frame_type frame) p = Inr frame"
  using assms
  by (cases frame)
    (auto simp: payload_of_def decode_payload_def frame_types decode_data_record_iff auth_context.decode_encode session_open.decode_encode
      session_accept.decode_encode session_reject.decode_encode go_away.decode_encode error_frame.decode_encode
      package_descriptor.decode_encode manifest_request.decode_encode capacity.decode_encode assurance_frame.decode_encode
      range_request.decode_encode proof_bundle.decode_encode have_map.decode_encode coding_epoch_open.decode_encode
      gen_state.decode_encode gen_done.decode_encode coding_epoch_close.decode_encode datagram_credit.decode_encode)

lemma decode_payload_sound:
  assumes "decode_payload U kind p = Inr frame" "length p \<le> u64_max"
  shows "typed_frame_typed frame \<and> tf_frame_type frame = kind \<and> (\<exists>p'. payload_of U frame = Inr p' \<and> length p' \<le> length p)"
  using assms unfolding decode_payload_def
  by (auto simp: payload_of_def decode_data_record_iff auth_context.decode_typed session_open.decode_typed
      session_accept.decode_typed session_reject.decode_typed go_away.decode_typed error_frame.decode_typed
      package_descriptor.decode_typed manifest_request.decode_typed capacity.decode_typed assurance_frame.decode_typed
      range_request.decode_typed proof_bundle.decode_typed have_map.decode_typed coding_epoch_open.decode_typed
      gen_state.decode_typed gen_done.decode_typed coding_epoch_close.decode_typed datagram_credit.decode_typed
      dest: auth_context.reencode session_open.reencode
      session_accept.reencode session_reject.reencode go_away.reencode error_frame.reencode
      package_descriptor.reencode manifest_request.reencode capacity.reencode assurance_frame.reencode
      range_request.reencode proof_bundle.reencode have_map.reencode coding_epoch_open.reencode
      gen_state.reencode gen_done.reencode coding_epoch_close.reencode datagram_credit.reencode
      split: if_splits)

lemma frame_type_small: "tf_frame_type frame \<le> MAX_QUIC_VARINT"
  by (cases frame) (simp_all add: frame_types MAX_QUIC_VARINT_def)

lemma frame_type_known: "is_known (tf_frame_type frame) \<and> \<not> is_grease (tf_frame_type frame)"
  by (cases frame) (simp_all add: frame_types is_known_def is_grease_def registered_payload_limit_def frame_registry_def)

section \<open>Envelopes\<close>

lemma data_record_limit: "payload_limit unknown DATA_RECORD = MAX_DATA_BYTES"
  by (simp add: payload_limit_def registered_payload_limit_def frame_registry_def DATA_RECORD_def MAX_DATA_BYTES_def HARD_MAX_FRAME_PAYLOAD_def)

text \<open>The direct path for data records writes what the general path would.\<close>

lemma encode_data_record_eq:
  assumes "data_record_typed v"
  shows "encode_data_record v out = and_then (validate_data_record v) (\<lambda>u. Inr (out @ frame_bytes DATA_RECORD (data_record_item v)))"
proof (cases "validate_data_record v")
  case (Inr u)
  then have len: "length (data_record_item v) \<le> MAX_DATA_BYTES" using encoded_fits [OF assms] by simp
  then have "data_record_payload_len (data_record_header_of v) = length (data_record_item v)"
    using assms by (simp add: data_record_payload_len_eq data_record_typed_def MAX_DATA_BYTES_def u64_max_def)
  moreover have "\<not> MAX_QUIC_VARINT < length (data_record_item v)" "\<not> MAX_QUIC_VARINT < DATA_RECORD"
    using len by (simp_all add: MAX_DATA_BYTES_def MAX_QUIC_VARINT_def DATA_RECORD_def)
  ultimately show ?thesis using Inr
    by (simp add: encode_data_record_def begin_data_record_def validate_data_record_def encode_varint_eq Let_def
        encode_data_record_header_items frame_bytes_def)
qed (simp add: encode_data_record_def begin_data_record_def validate_data_record_def)

lemma encode_typed_eq:
  assumes "typed_frame_typed frame"
  shows "encode_typed U frame out =
    and_then (payload_of U frame) (\<lambda>p. map_err FrEnvelope (encode_frame (tf_frame_type frame) p out))"
proof (cases "\<exists>v. frame = TfDataRecord v")
  case True
  then obtain v where v: "frame = TfDataRecord v" by blast
  show ?thesis
  proof (cases "validate_data_record v")
    case (Inr u)
    then have "length (data_record_item v) \<le> MAX_DATA_BYTES" using encoded_fits assms v by simp
    then show ?thesis using assms Inr
      by (simp add: v encode_typed_def payload_of_def encode_data_record_eq encode_frame_eq data_record_limit Let_def)
        (simp add: DATA_RECORD_def MAX_QUIC_VARINT_def)
  qed (use assms in \<open>simp add: v encode_typed_def payload_of_def encode_data_record_eq\<close>)
next
  case False
  then show ?thesis by (cases frame) (simp_all add: encode_typed_def payload_of_def)
qed

lemma varint_mono: "a \<le> b \<Longrightarrow> length (varint a) \<le> length (varint b)"
  by (simp add: varint_class_def)

lemma decode_one_known:
  assumes "decode_one input limits = Inr (Known t p, n)"
  shows "length p \<le> payload_limit (max_unknown_payload limits) t \<and> n \<le> length input \<and> length (frame_bytes t p) \<le> n \<and>
    validate_limits limits = Inr () \<and> is_known t"
proof -
  from assms obtain tw len lw where e: "decode_varint input = Inr (t, tw)" "decode_varint (drop tw input) = Inr (len, lw)"
      "len \<le> payload_limit (max_unknown_payload limits) t" "n = tw + lw + len" "n \<le> length input"
      "p = take len (drop (tw + lw) input)" "validate_limits limits = Inr ()" "is_known t"
    unfolding decode_one_def parse_eq Let_def by (auto split: if_splits prod.splits)
  then have "length p = len" by simp
  then show ?thesis using e decode_varint_shortest [OF e(1)] decode_varint_shortest [OF e(2)] by (simp add: frame_bytes_def)
qed

lemma known_limit: "is_known t \<Longrightarrow> payload_limit a t = payload_limit b t"
  by (auto simp: payload_limit_def is_known_def)

lemma encoded_typed_iff:
  "typed_frame_typed frame \<Longrightarrow> encode_typed U frame out = Inr w \<longleftrightarrow>
    (\<exists>p. payload_of U frame = Inr p \<and> length p \<le> payload_limit DEFAULT_MAX_UNKNOWN_PAYLOAD (tf_frame_type frame) \<and>
      w = out @ frame_bytes (tf_frame_type frame) p)"
  using frame_type_small [of frame] by (auto simp: encode_typed_eq encode_frame_eq Let_def not_less split: if_splits)

lemma limit_le_u64: "n \<le> payload_limit a t \<Longrightarrow> n \<le> u64_max"
  by (simp add: payload_limit_def HARD_MAX_FRAME_PAYLOAD_def u64_max_def)

lemma decode_typed_frame:
  assumes "typed_frame_typed frame" "payload_of U frame = Inr p" "validate_limits limits = Inr ()"
    "length p \<le> payload_limit a (tf_frame_type frame)"
  shows "decode_typed U (frame_bytes (tf_frame_type frame) p @ rest) limits = Inr (frame, length (frame_bytes (tf_frame_type frame) p))"
proof -
  note known = frame_type_known [of frame]
  have "length p \<le> payload_limit (max_unknown_payload limits) (tf_frame_type frame)"
    using assms(4) known_limit known by metis
  from decode_one_frame [OF assms(3) frame_type_small this] known
  have "decode_one (frame_bytes (tf_frame_type frame) p @ rest) limits =
      Inr (Known (tf_frame_type frame) p, length (frame_bytes (tf_frame_type frame) p))"
    by (simp add: frame_of_def)
  then show ?thesis using decode_payload_encode [OF assms(1,2) limit_le_u64 [OF assms(4)]] by (simp add: decode_typed_def)
qed

lemma decode_typed_known:
  assumes "decode_typed U input limits = Inr (frame, n)"
  obtains t p where "decode_one input limits = Inr (Known t p, n)" "decode_payload U t p = Inr frame"
proof -
  from assms obtain d m where "decode_one input limits = Inr (d, m)"
      "(case d of SkippedOptional k len \<Rightarrow> Inl (WrongFrameType k)
        | Known k p \<Rightarrow> and_then (decode_payload U k p) (\<lambda>frame. Inr (frame, m))) = Inr (frame, n)"
    unfolding decode_typed_def by (cases "decode_one input limits") auto
  then show thesis using that by (cases d) auto
qed

section \<open>Properties\<close>

text \<open>C18. Every typed frame survives the wire: what the encoder appends for a frame of well-typed
  fields is decoded to that frame, whatever bytes follow it, consuming exactly its own bytes and
  under any limits a session may set.\<close>

theorem typed_frame_roundtrip:
  assumes "typed_frame_typed frame" "encode_typed U frame out = Inr w" "validate_limits limits = Inr ()"
  shows "\<exists>e. w = out @ e \<and> decode_typed U (e @ rest) limits = Inr (frame, length e)"
  using assms(2) decode_typed_frame [OF assms(1) _ assms(3)] by (auto simp: encoded_typed_iff [OF assms(1)])

lemma limits_ok: "validate_limits default_limits = Inr ()"
  by (simp add: validate_limits_def default_limits_def DEFAULT_MAX_UNKNOWN_PAYLOAD_def DEFAULT_MAX_FRAMES_PER_BATCH_def HARD_MAX_FRAME_PAYLOAD_def)

lemma goaway_limit: "payload_limit a GOAWAY = 4096"
  by (simp add: payload_limit_def registered_payload_limit_def frame_registry_def GOAWAY_def HARD_MAX_FRAME_PAYLOAD_def)

lemma example_goaway: "\<exists>e. encode_typed ascii_unicode (TfGoAway \<lparr>ga_cursor = 7\<rparr>) [9] = Inr ([9] @ e)"
  by (subst encoded_typed_iff) (auto simp: go_away_typed_def payload_of_def encode_goaway_def encode_varint_eq goaway_limit
      varint_class_def MAX_QUIC_VARINT_def)

theorem typed_frame_roundtrip_witness:
  "\<exists>e. encode_typed ascii_unicode (TfGoAway \<lparr>ga_cursor = 7\<rparr>) [9] = Inr ([9] @ e) \<and>
     decode_typed ascii_unicode (e @ [1, 2]) default_limits = Inr (TfGoAway \<lparr>ga_cursor = 7\<rparr>, length e)"
proof -
  obtain e where e: "encode_typed ascii_unicode (TfGoAway \<lparr>ga_cursor = 7\<rparr>) [9] = Inr ([9] @ e)" using example_goaway by blast
  from typed_frame_roundtrip [OF _ e limits_ok, of "[1, 2]"] e show ?thesis by (simp add: go_away_typed_def)
qed

text \<open>C20. Nothing ill-typed comes out of the decoder: a frame it returns has fields within their
  types' ranges, consumed no more than the input, and can be passed on: it encodes again, in no
  more bytes, to what decodes to the same frame.\<close>

theorem decoded_frame_typed:
  assumes "decode_typed U input limits = Inr (frame, n)"
  shows "typed_frame_typed frame \<and> n \<le> length input \<and>
    (\<exists>e. encode_typed U frame [] = Inr e \<and> length e \<le> n \<and> decode_typed U e limits = Inr (frame, length e))"
proof -
  from assms obtain t p where one: "decode_one input limits = Inr (Known t p, n)" and payload: "decode_payload U t p = Inr frame"
    by (rule decode_typed_known)
  note one = decode_one_known [OF one]
  from decode_payload_sound [OF payload] limit_le_u64 one obtain p' where
    p': "typed_frame_typed frame" "tf_frame_type frame = t" "payload_of U frame = Inr p'" "length p' \<le> length p" by blast
  have len: "length p' \<le> payload_limit DEFAULT_MAX_UNKNOWN_PAYLOAD t"
    using p'(4) one known_limit [of t "max_unknown_payload limits" DEFAULT_MAX_UNKNOWN_PAYLOAD] by linarith
  have "length (frame_bytes t p') \<le> length (frame_bytes t p)" 
    using varint_mono [OF p'(4)] p'(4) by (simp add: frame_bytes_def del: length_varint)
  moreover have "encode_typed U frame [] = Inr (frame_bytes t p')" using len p' by (simp add: encoded_typed_iff)
  moreover have "decode_typed U (frame_bytes t p') limits = Inr (frame, length (frame_bytes t p'))"
    using decode_typed_frame [of frame U p' limits _ "[]"] p' one len by simp
  ultimately show ?thesis using p'(1) one by auto
qed

theorem decoded_frame_typed_witness:
  "\<exists>n e. decode_typed ascii_unicode (frame_bytes GOAWAY [7] @ [1, 2]) default_limits = Inr (TfGoAway \<lparr>ga_cursor = 7\<rparr>, n) \<and>
     encode_typed ascii_unicode (TfGoAway \<lparr>ga_cursor = 7\<rparr>) [] = Inr e \<and> length e \<le> n"
proof -
  have "payload_of ascii_unicode (TfGoAway \<lparr>ga_cursor = 7\<rparr>) = Inr [7]"
    by (simp add: payload_of_def encode_goaway_def encode_varint_def MAX_QUIC_VARINT_def)
  from decode_typed_frame [OF _ this limits_ok, of _ "[1, 2]"]
  have "decode_typed ascii_unicode (frame_bytes GOAWAY [7] @ [1, 2]) default_limits =
      Inr (TfGoAway \<lparr>ga_cursor = 7\<rparr>, length (frame_bytes GOAWAY [7]))"
    by (simp add: go_away_typed_def goaway_limit)
  with decoded_frame_typed [OF this] show ?thesis by blast
qed

text \<open>C22. The direct paths for data records agree with the general ones: the record written in place
  is the frame the general encoder would write, filling a reserved record gives the same bytes, and
  reading a record without copying it accepts exactly what the general decoder accepts.\<close>

theorem data_record_paths_agree:
  assumes "data_record_typed v"
  shows "encode_typed U (TfDataRecord v) out =
      and_then (validate_data_record v) (\<lambda>u. map_err FrEnvelope (encode_frame DATA_RECORD (data_record_item v) out)) \<and>
    (reserve_data_record (data_record_header_of v) out = Inr ((start, stop), room) \<and> start + length (dr_encoded v) \<le> u64_max \<longrightarrow>
      stop = start + length (dr_encoded v) \<and> stop = length room \<and>
      encode_typed U (TfDataRecord v) out = Inr (take start room @ dr_encoded v)) \<and>
    (decode_data_record_ref input limits = Inr (v, n) \<longleftrightarrow> decode_typed U input limits = Inr (TfDataRecord v, n))"
proof (intro conjI impI)
  show "encode_typed U (TfDataRecord v) out =
      and_then (validate_data_record v) (\<lambda>u. map_err FrEnvelope (encode_frame DATA_RECORD (data_record_item v) out))"
    using encode_typed_eq [of "TfDataRecord v" U out] assms by (cases "validate_data_record v") (simp_all add: payload_of_def)
next
  assume "reserve_data_record (data_record_header_of v) out = Inr ((start, stop), room) \<and> start + length (dr_encoded v) \<le> u64_max"
  then obtain out' where out': "begin_data_record (data_record_header_of v) out = Inr ((start, stop), out')"
      "room = take stop out' @ replicate (stop - length out') 0" and fits: "start + length (dr_encoded v) \<le> u64_max"
    by (auto simp: reserve_data_record_def)
  from out'(1) have "start = length out'" "stop = saturating_add start (length (dr_encoded v))"
    by (auto simp: begin_data_record_def data_record_header_of_def Let_def)
  then show "stop = start + length (dr_encoded v)" "stop = length room"
      "encode_typed U (TfDataRecord v) out = Inr (take start room @ dr_encoded v)"
    using out' fits by (simp_all add: saturating_add_def encode_typed_def encode_data_record_def)
next
  have "decode_payload U kind p = Inr (TfDataRecord v) \<longleftrightarrow> kind = DATA_RECORD \<and> decode_data_record_ref_payload p = Inr v" for kind p
    unfolding decode_payload_def by (auto simp: decode_data_record_def frame_types split: if_splits)
  then show "decode_data_record_ref input limits = Inr (v, n) \<longleftrightarrow> decode_typed U input limits = Inr (TfDataRecord v, n)"
    by (auto simp: decode_data_record_ref_def decode_typed_def split: prod.splits decoded_frame.splits if_splits)
qed

definition example_record :: data_record where
  "example_record = \<lparr>dr_bundle_id = replicate 16 0, dr_record_index = 0, dr_plaintext_offset = 0,
     dr_plaintext_length = 1, dr_compression = 0, dr_encoded = [5]\<rparr>"

lemma example_record_length: "length (data_record_item example_record) \<le> 100"
  by (simp add: data_record_item_def example_record_def length_items head_len_def)

lemma example_record_ok: "data_record_typed example_record" "validate_data_record example_record = Inr ()"
proof -
  show typed: "data_record_typed example_record" by (simp add: example_record_def data_record_typed_def)
  have "data_record_payload_len (data_record_header_of example_record) \<le> MAX_DATA_BYTES"
    using typed example_record_length by (simp add: data_record_payload_len_eq data_record_typed_def MAX_DATA_BYTES_def)
  then show "validate_data_record example_record = Inr ()"
    by (simp add: validate_data_record_def validate_data_record_header_def Let_def not_less)
      (simp add: data_record_header_of_def example_record_def MAX_OBJECT_LENGTH_def MAX_DATA_BYTES_def)
qed

theorem data_record_paths_agree_witness:
  "\<exists>start stop room.
     reserve_data_record (data_record_header_of example_record) [] = Inr ((start, stop), room) \<and> stop = length room \<and>
     encode_typed ascii_unicode (TfDataRecord example_record) [] = Inr (take start room @ [5])"
proof -
  have "data_record_payload_len (data_record_header_of example_record) \<le> MAX_DATA_BYTES"
    using example_record_ok(2) by (auto simp: validate_data_record_def validate_data_record_header_def Let_def split: if_splits)
  then have "\<not> MAX_QUIC_VARINT < data_record_payload_len (data_record_header_of example_record)" "\<not> MAX_QUIC_VARINT < DATA_RECORD"
    by (simp_all add: MAX_DATA_BYTES_def MAX_QUIC_VARINT_def DATA_RECORD_def)
  then obtain start stop room where reserved: "reserve_data_record (data_record_header_of example_record) [] = Inr ((start, stop), room)"
      and start: "start = length (encode_validated_data_record_header (data_record_header_of example_record)
        (varint DATA_RECORD @ varint (data_record_payload_len (data_record_header_of example_record))))"
    using example_record_ok(2)
    by (simp add: reserve_data_record_def begin_data_record_def validate_data_record_def encode_varint_eq Let_def)
  let ?head = "varint DATA_RECORD @ varint (data_record_payload_len (data_record_header_of example_record))"
  have "start + length (dr_encoded example_record) = length (?head @ data_record_item example_record)"
    unfolding start encode_data_record_header_items [symmetric] by simp
  also have "\<dots> \<le> 116" using example_record_length length_varint_le [of DATA_RECORD]
      length_varint_le [of "data_record_payload_len (data_record_header_of example_record)"] by (simp del: length_varint)
  finally have "start + length (dr_encoded example_record) \<le> u64_max" by (simp add: u64_max_def)
  moreover have "dr_encoded example_record = [5]" by (simp add: example_record_def)
  ultimately show ?thesis using data_record_paths_agree [OF example_record_ok(1), of ascii_unicode "[]" start stop room] reserved by metis
qed

lemma seal_limit: "registered_payload_limit SEAL = Some 262144" "payload_limit a SEAL = 262144"
  by (simp_all add: payload_limit_def registered_payload_limit_def frame_registry_def frame_types HARD_MAX_FRAME_PAYLOAD_def)

lemma seal_payload:
  assumes "seal_typed v" "encode_seal v = Inr bs"
  shows "payload_of U (TfSeal bs) = (if length bs \<le> 262144 then Inr bs else Inl FrTooLarge)"
proof -
  have "decode_seal bs = Inr v" using assms by (simp add: decode_seal_iff)
  then show ?thesis by (simp add: payload_of_def validate_seal_payload_def seal_limit is_some_and_def not_less)
qed

text \<open>C37. A seal reaches the peer exactly when its frame can carry it: a seal that obeys the manifest's
  rules has an encoding that reads back to it; up to 256 KiB, which 6718 pages never exceed, the SEAL
  frame carries it across the wire unchanged; above, which 7085 pages always exceed, no frame is
  written, although the manifest's rules allow 26883.\<close>

theorem seal_frame_exact:
  assumes "seal_typed v" "validate_seal v = Inr ()" "validate_limits limits = Inr ()"
  shows "\<exists>bs. encode_seal v = Inr bs \<and> decode_seal bs = Inr v \<and>
    (length bs \<le> 262144 \<longrightarrow>
      (\<exists>e. encode_typed U (TfSeal bs) out = Inr (out @ e) \<and> decode_typed U (e @ rest) limits = Inr (TfSeal bs, length e))) \<and>
    (262144 < length bs \<longrightarrow> encode_typed U (TfSeal bs) out = Inl FrTooLarge) \<and>
    (length (sl_pages v) \<le> 6718 \<longrightarrow> length bs \<le> 262144) \<and> (7085 \<le> length (sl_pages v) \<longrightarrow> 262144 < length bs)"
proof -
  let ?bs = "seal_item v"
  have enc: "encode_seal v = Inr ?bs" using assms(1,2) valid_seal_fits by (simp add: encode_seal_iff)
  note payload = seal_payload [OF assms(1) enc, of U]
  have "encode_typed U (TfSeal ?bs) out = Inr (out @ frame_bytes SEAL ?bs) \<and>
      decode_typed U (frame_bytes SEAL ?bs @ rest) limits = Inr (TfSeal ?bs, length (frame_bytes SEAL ?bs))" if "length ?bs \<le> 262144"
    using that payload decode_typed_frame [of "TfSeal ?bs" U ?bs limits 0 rest] assms(3) by (simp add: encoded_typed_iff seal_limit)
  moreover have "encode_typed U (TfSeal ?bs) out = Inl FrTooLarge" if "262144 < length ?bs"
    using that payload by (simp add: encode_typed_eq)
  moreover have "length (sl_pages v) \<le> 6718 \<longrightarrow> length ?bs \<le> 262144" "7085 \<le> length (sl_pages v) \<longrightarrow> 262144 < length ?bs"
    using valid_seal_size [OF assms(1,2)] by linarith+
  ultimately show ?thesis using enc assms(1) decode_seal_iff [of ?bs v] by blast
qed

definition example_seal :: "nat \<Rightarrow> seal" where
  "example_seal n = \<lparr>sl_manifest_id = replicate 16 0, sl_final_page_count = n, sl_final_page_digest = replicate 32 7,
     sl_package = \<lparr>mo_suite = 1, mo_root = replicate 32 0, mo_length = 0\<rparr>,
     sl_pages = map (\<lambda>i. \<lparr>pc_index = i, pc_digest = replicate 32 7\<rparr>) [0..<n]\<rparr>"

lemma example_seal_ok:
  assumes "0 < n" "n \<le> 26883"
  shows "seal_typed (example_seal n)" "validate_seal (example_seal n) = Inr ()" "length (sl_pages (example_seal n)) = n"
  using assms
  by (auto simp: example_seal_def seal_typed_def manifest_object_typed_def commitment_typed_def validate_seal_iff valid_object_def
      MAX_PAGE_COMMITMENTS_eq list_all_iff u64_max_def last_map)

theorem seal_frame_exact_witness:
  "(\<exists>bs e. encode_seal (example_seal 1) = Inr bs \<and> encode_typed ascii_unicode (TfSeal bs) [] = Inr e \<and>
      decode_typed ascii_unicode e default_limits = Inr (TfSeal bs, length e)) \<and>
    (\<exists>bs. validate_seal (example_seal 8000) = Inr () \<and> encode_seal (example_seal 8000) = Inr bs \<and>
      encode_typed ascii_unicode (TfSeal bs) [] = Inl FrTooLarge)"
proof
  have ok: "seal_typed (example_seal 1)" "validate_seal (example_seal 1) = Inr ()" "length (sl_pages (example_seal 1)) = 1"
    by (rule example_seal_ok; simp)+
  show "\<exists>bs e. encode_seal (example_seal 1) = Inr bs \<and> encode_typed ascii_unicode (TfSeal bs) [] = Inr e \<and>
      decode_typed ascii_unicode e default_limits = Inr (TfSeal bs, length e)"
    using seal_frame_exact [OF ok(1,2) limits_ok, of ascii_unicode "[]" "[]"] ok(3) by (auto simp del: One_nat_def)
next
  have ok: "seal_typed (example_seal 8000)" "validate_seal (example_seal 8000) = Inr ()" "length (sl_pages (example_seal 8000)) = 8000"
    by (rule example_seal_ok; simp)+
  show "\<exists>bs. validate_seal (example_seal 8000) = Inr () \<and> encode_seal (example_seal 8000) = Inr bs \<and>
      encode_typed ascii_unicode (TfSeal bs) [] = Inl FrTooLarge"
    using seal_frame_exact [OF ok(1,2) limits_ok, of ascii_unicode "[]" "[]"] ok(2,3) by auto
qed

end
