(* ===== verification/Transport_Api.thy ===== *)
theory Transport_Api
  imports Object_Frames
begin

text \<open>
  The backend-neutral transport contract, from \<^verbatim>\<open>src/crates/vot-transport-api\<close>: events, errors, the limits
  an endpoint enforces, the batch contract with its account of who owns which record, and the ledger
  of permits that staging credit is drawn from. A backend is code outside this theory: it is the
  record \<open>adapter\<close> of the trait's operations over a state of any type, each returning the state it
  leaves.
\<close>

section \<open>Constants, errors and events\<close>

definition MIN_CONTROL_FRAME_PAYLOAD :: nat where "MIN_CONTROL_FRAME_PAYLOAD = 1024"
definition MAX_DATA_RECORD_BYTES :: nat where "MAX_DATA_RECORD_BYTES = 256 * 1024"
definition MAX_FRAME_ENVELOPE_BYTES :: nat where "MAX_FRAME_ENVELOPE_BYTES = 16"
definition MAX_DATA_RECORD_WIRE_BYTES :: nat where
  "MAX_DATA_RECORD_WIRE_BYTES = MAX_DATA_RECORD_BYTES + MAX_FRAME_ENVELOPE_BYTES"

datatype transport_error =
    InvalidConfiguration
  | RecordTooLarge
  | OutboundQueueFull
  | InboundQueueFull
  | StagingExhausted
  | ArithmeticOverflow
  | Unsupported
  | Backend
  | TLaneLimitExceeded
  | AccountingPoisoned

datatype datagram_send_state = Queued | Sent | Acked | SuspectedLost | Canceled

datatype event =
    Connected nat
  | Disconnected nat
  | ControlEvent bytes
  | ReliableEvent (ev_stream: nat) (ev_sequence: nat) (ev_bytes: bytes)
  | Acknowledged nat nat
  | DatagramState nat datagram_send_state
  | DatagramEvent bytes

section \<open>Limits\<close>

record receive_limits =
  rl_control_payload :: nat
  rl_lanes :: nat

definition validate_control_payload_limit :: "nat \<Rightarrow> transport_error + unit" where
  "validate_control_payload_limit limit =
    (if MIN_CONTROL_FRAME_PAYLOAD \<le> limit \<and> limit \<le> HARD_MAX_FRAME_PAYLOAD then Inr () else Inl InvalidConfiguration)"

definition wire_fits :: "nat \<Rightarrow> nat \<Rightarrow> transport_error + unit" where
  "wire_fits capacity payload =
    and_then (ok_or (checked_add payload MAX_FRAME_ENVELOPE_BYTES) ArithmeticOverflow) (\<lambda>wire_len.
      if capacity < wire_len then Inl InvalidConfiguration else Inr ())"

definition limits_advertised :: "settings \<Rightarrow> nat \<Rightarrow> transport_error + receive_limits" where
  "limits_advertised settings inbound_byte_capacity =
    (if \<not> list_all (\<lambda>(setting, v). setting_in_range setting v) (advertised settings) then Inl InvalidConfiguration
     else
       (let control_payload = max_control_frame_payload settings in
        and_then (validate_control_payload_limit control_payload) (\<lambda>u.
        let record_payload = max_data_record_payload settings in
        and_then (wire_fits inbound_byte_capacity control_payload) (\<lambda>u.
        and_then (wire_fits inbound_byte_capacity record_payload) (\<lambda>u.
          Inr \<lparr>rl_control_payload = control_payload, rl_lanes = reliable_lane_limit settings\<rparr>)))))"

definition match_settings :: "receive_limits \<Rightarrow> settings \<Rightarrow> bool" where
  "match_settings limits settings \<longleftrightarrow>
    rl_control_payload limits = max_control_frame_payload settings \<and> rl_lanes limits = reliable_lane_limit settings"

definition validate_record_length :: "bytes \<Rightarrow> transport_error + unit" where
  "validate_record_length rec =
    (if MAX_DATA_RECORD_WIRE_BYTES < length rec then Inl RecordTooLarge else Inr ())"

definition effective_send_limit :: "nat \<Rightarrow> nat \<Rightarrow> nat" where
  "effective_send_limit peer_limit outbound_byte_capacity =
    max (min peer_limit (outbound_byte_capacity - MAX_FRAME_ENVELOPE_BYTES)) MIN_CONTROL_FRAME_PAYLOAD"

definition validate_control_frame :: "bytes \<Rightarrow> nat \<Rightarrow> transport_error + unit" where
  "validate_control_frame frame limit =
    and_then (validate_control_payload_limit limit) (\<lambda>u.
    and_then (ok_or (checked_add limit MAX_FRAME_ENVELOPE_BYTES) ArithmeticOverflow) (\<lambda>wire_limit.
      if wire_limit < length frame then Inl RecordTooLarge else Inr ()))"

section \<open>The adapter\<close>

record 'a adapter =
  ad_channel_binding :: "'a \<Rightarrow> transport_error + bytes"
  ad_send_control :: "bytes \<Rightarrow> 'a \<Rightarrow> 'a \<times> (transport_error + unit)"
  ad_send_control_shared :: "bytes \<Rightarrow> 'a \<Rightarrow> 'a \<times> (transport_error + unit)"
  ad_send_reliable :: "nat \<Rightarrow> bytes \<Rightarrow> 'a \<Rightarrow> 'a \<times> (transport_error + unit)"
  ad_send_reliable_shared :: "nat \<Rightarrow> bytes \<Rightarrow> 'a \<Rightarrow> 'a \<times> (transport_error + unit)"
  ad_preflight_reliable_batch :: "nat \<Rightarrow> bytes list \<Rightarrow> 'a \<Rightarrow> transport_error + unit"
  ad_send_datagram :: "nat \<Rightarrow> bytes \<Rightarrow> 'a \<Rightarrow> 'a \<times> (transport_error + unit)"
  ad_flush :: "'a \<Rightarrow> 'a \<times> (transport_error + unit)"
  ad_poll :: "'a \<Rightarrow> 'a \<times> event option"
  ad_close :: "nat \<Rightarrow> 'a \<Rightarrow> 'a \<times> (transport_error + unit)"
  ad_receive_limits :: "'a \<Rightarrow> receive_limits option"
  ad_set_control_payload_limit :: "nat \<Rightarrow> 'a \<Rightarrow> 'a \<times> (transport_error + unit)"

section \<open>Batches\<close>

datatype batch_failure =
    Rejected transport_error
  | Partial nat transport_error
  | Ambiguous transport_error

definition stopped :: "nat \<Rightarrow> transport_error \<Rightarrow> batch_failure" where
  "stopped taken error = (if taken = 0 then Rejected error else Partial taken error)"

fun taken :: "batch_failure \<Rightarrow> nat option" where
  "taken (Rejected _) = Some 0"
| "taken (Partial admitted _) = Some admitted"
| "taken (Ambiguous _) = None"

text \<open>The preflight of a backend that does not bring its own.\<close>

fun preflight_reliable_batch :: "bytes list \<Rightarrow> transport_error + unit" where
  "preflight_reliable_batch [] = Inr ()"
| "preflight_reliable_batch (rec # records) =
    and_then (validate_record_length rec) (\<lambda>u. preflight_reliable_batch records)"

fun send_batch_from :: "'a adapter \<Rightarrow> nat \<Rightarrow> nat \<Rightarrow> bytes list \<Rightarrow> 'a \<Rightarrow> 'a \<times> (batch_failure + unit)" where
  "send_batch_from A stream count [] a = (a, Inr ())"
| "send_batch_from A stream count (rec # records) a =
    (case ad_send_reliable_shared A stream rec a of
      (a, Inl error) \<Rightarrow> (a, Inl (stopped count error))
    | (a, Inr u) \<Rightarrow> send_batch_from A stream (Suc count) records a)"

definition send_reliable_batch :: "'a adapter \<Rightarrow> nat \<Rightarrow> bytes list \<Rightarrow> 'a \<Rightarrow> 'a \<times> (batch_failure + unit)" where
  "send_reliable_batch A stream records a =
    (case ad_preflight_reliable_batch A stream records a of
      Inl error \<Rightarrow> (a, Inl (Rejected error))
    | Inr u \<Rightarrow> send_batch_from A stream 0 records a)"

fun poll_batch :: "'a adapter \<Rightarrow> nat \<Rightarrow> 'a \<Rightarrow> 'a \<times> event list" where
  "poll_batch A 0 a = (a, [])"
| "poll_batch A (Suc limit) a =
    (case ad_poll A a of
      (a, None) \<Rightarrow> (a, [])
    | (a, Some event) \<Rightarrow> (case poll_batch A limit a of (a, events) \<Rightarrow> (a, event # events)))"

section \<open>Permits\<close>

text \<open>A ledger is shared by its handles and its permits, so it is state; a permit is the amount it
  owns. Dropping a permit is \<open>release\<close>.\<close>

record ledger =
  lg_limit :: nat
  lg_used :: nat
  lg_poisoned :: bool

definition ledger_new :: "nat \<Rightarrow> transport_error + ledger" where
  "ledger_new limit =
    (if limit = 0 then Inl InvalidConfiguration else Inr \<lparr>lg_limit = limit, lg_used = 0, lg_poisoned = False\<rparr>)"

definition charge :: "ledger \<Rightarrow> nat \<Rightarrow> transport_error + ledger" where
  "charge l amount =
    (if amount = 0 then Inl InvalidConfiguration
     else if lg_poisoned l then Inl AccountingPoisoned
     else
       and_then (ok_or (checked_add (lg_used l) amount) ArithmeticOverflow) (\<lambda>used.
         if lg_limit l < used then Inl StagingExhausted else Inr (l\<lparr>lg_used := used\<rparr>)))"

definition acquire :: "ledger \<Rightarrow> nat \<Rightarrow> transport_error + ledger \<times> nat" where
  "acquire l amount = and_then (charge l amount) (\<lambda>l. Inr (l, amount))"

definition ledger_rebuilt :: "ledger \<Rightarrow> ledger" where
  "ledger_rebuilt l = \<lparr>lg_limit = lg_limit l, lg_used = 0, lg_poisoned = False\<rparr>"

definition ledger_used :: "ledger \<Rightarrow> nat" where
  "ledger_used l = (if lg_poisoned l then lg_limit l else lg_used l)"

definition ledger_remaining :: "ledger \<Rightarrow> nat" where
  "ledger_remaining l = (if lg_poisoned l then 0 else lg_limit l - lg_used l)"

definition grow :: "ledger \<Rightarrow> nat \<Rightarrow> nat \<Rightarrow> transport_error + ledger \<times> nat" where
  "grow l permit extra =
    and_then (ok_or (checked_add permit extra) ArithmeticOverflow) (\<lambda>owned.
    and_then (charge l extra) (\<lambda>l. Inr (l, owned)))"

definition split_permit :: "nat \<Rightarrow> nat \<Rightarrow> transport_error + nat \<times> nat" where
  "split_permit permit take_amount =
    (if take_amount = 0 then Inl InvalidConfiguration
     else and_then (ok_or (checked_sub permit take_amount) InvalidConfiguration) (\<lambda>left. Inr (left, take_amount)))"

definition release :: "ledger \<Rightarrow> nat \<Rightarrow> ledger" where
  "release l permit =
    (if permit = 0 then l
     else case checked_sub (lg_used l) permit of
       Some used \<Rightarrow> l\<lparr>lg_used := used\<rparr>
     | None \<Rightarrow> l\<lparr>lg_used := lg_limit l, lg_poisoned := True\<rparr>)"

record staging =
  st_ledger :: ledger
  st_bdp_target :: nat
  st_configured_max :: nat

definition staging_new :: "nat \<Rightarrow> nat \<Rightarrow> nat \<Rightarrow> transport_error + staging" where
  "staging_new limit bdp_target configured_max =
    (if configured_max = 0 \<or> limit < configured_max then Inl InvalidConfiguration
     else and_then (ledger_new limit) (\<lambda>l.
       Inr \<lparr>st_ledger = l, st_bdp_target = bdp_target, st_configured_max = configured_max\<rparr>))"

definition advertised_credit :: "staging \<Rightarrow> nat" where
  "advertised_credit s =
    (let target = min (st_bdp_target s) (st_configured_max s) in min (ledger_remaining (st_ledger s)) target)"

datatype permit_call = PAcquire nat | PGrow nat nat | PSplit nat nat | PDrop nat

text \<open>The permits that are out, and what a call does to them and to the ledger. A call that is refused
  changes nothing.\<close>

fun permit_step :: "ledger \<times> nat list \<Rightarrow> permit_call \<Rightarrow> ledger \<times> nat list" where
  "permit_step (l, permits) (PAcquire amount) =
    (case acquire l amount of Inl e \<Rightarrow> (l, permits) | Inr (l', permit) \<Rightarrow> (l', permits @ [permit]))"
| "permit_step (l, permits) (PGrow i extra) =
    (if i < length permits
     then case grow l (permits ! i) extra of Inl e \<Rightarrow> (l, permits) | Inr (l', owned) \<Rightarrow> (l', permits[i := owned])
     else (l, permits))"
| "permit_step (l, permits) (PSplit i amount) =
    (if i < length permits
     then case split_permit (permits ! i) amount of
         Inl e \<Rightarrow> (l, permits) | Inr (left, part) \<Rightarrow> (l, permits[i := left] @ [part])
     else (l, permits))"
| "permit_step (l, permits) (PDrop i) =
    (if i < length permits then (release l (permits ! i), take i permits @ drop (Suc i) permits) else (l, permits))"

definition permits_ok :: "ledger \<times> nat list \<Rightarrow> bool" where
  "permits_ok s \<longleftrightarrow> \<not> lg_poisoned (fst s) \<and> lg_used (fst s) = sum_list (snd s) \<and> lg_used (fst s) \<le> lg_limit (fst s)"

lemma sum_list_replace: "i < length xs \<Longrightarrow> sum_list (xs[i := x]) + xs ! i = sum_list xs + (x :: nat)"
  by (induction xs arbitrary: i) (auto simp: nth_Cons' list_update.simps split: nat.splits)

lemma sum_list_without: "i < length xs \<Longrightarrow> sum_list (take i xs @ drop (Suc i) xs) + xs ! i = sum_list (xs :: nat list)"
  using id_take_nth_drop [of i xs] by (metis (no_types, opaque_lifting) add.assoc add.commute sum_list.Cons sum_list_append)

interpretation permits: machine permit_step permits_ok
proof
  fix s :: "ledger \<times> nat list" and c
  assume ok: "permits_ok s"
  obtain l permits where s: "s = (l, permits)" by (cases s)
  have unpoisoned: "\<not> lg_poisoned l" and used: "lg_used l = sum_list permits" and limit: "lg_used l \<le> lg_limit l"
    using ok by (simp_all add: s permits_ok_def)
  show "permits_ok (permit_step s c)"
  proof (cases c)
    case (PAcquire amount)
    then show ?thesis using unpoisoned used limit
      by (auto simp: s permits_ok_def acquire_def charge_def ok_or_def split: if_splits option.splits sum.splits)
  next
    case (PGrow i extra)
    then show ?thesis using unpoisoned used limit sum_list_replace [of i permits "permits ! i + extra"]
      by (auto simp: s permits_ok_def grow_def charge_def ok_or_def split: if_splits option.splits sum.splits)
  next
    case (PSplit i amount)
    then show ?thesis using unpoisoned used limit sum_list_replace [of i permits "permits ! i - amount"]
      by (auto simp: s permits_ok_def split_permit_def ok_or_def split: if_splits option.splits sum.splits)
  next
    case (PDrop i)
    then show ?thesis using unpoisoned used limit sum_list_without [of i permits]
      by (auto simp: s permits_ok_def release_def split: option.splits)
  qed
qed

lemma permit_step_limit: "lg_limit (fst (permit_step s c)) = lg_limit (fst s)"
  by (induction s c rule: permit_step.induct)
    (auto simp: acquire_def grow_def charge_def split_permit_def release_def ok_or_def split: sum.splits option.splits if_splits)

lemma permit_run_limit: "lg_limit (fst (foldl permit_step s calls)) = lg_limit (fst s)"
  by (induction calls arbitrary: s) (simp_all add: permit_step_limit)

section \<open>Batches and their owners\<close>

text \<open>The state in which a backend has taken each of some records in turn.\<close>

fun takes_all :: "'a adapter \<Rightarrow> nat \<Rightarrow> bytes list \<Rightarrow> 'a \<Rightarrow> 'a \<Rightarrow> bool" where
  "takes_all A stream [] a b \<longleftrightarrow> b = a"
| "takes_all A stream (rec # records) a b \<longleftrightarrow>
    snd (ad_send_reliable_shared A stream rec a) = Inr () \<and> takes_all A stream records (fst (ad_send_reliable_shared A stream rec a)) b"

lemma send_batch_from_ok:
  "send_batch_from A stream count records a = (b, Inr ()) \<longleftrightarrow> takes_all A stream records a b"
  by (induction A stream count records a rule: send_batch_from.induct) (auto split: prod.splits sum.splits)

lemma send_batch_from_stopped:
  "send_batch_from A stream count records a = (b, Inl f) \<Longrightarrow>
    \<exists>k mid e. k < length records \<and> takes_all A stream (take k records) a mid \<and>
      ad_send_reliable_shared A stream (records ! k) mid = (b, Inl e) \<and> f = stopped (count + k) e"
proof (induction A stream count records a rule: send_batch_from.induct)
  case (2 A stream count rec records a)
  obtain mid r where r: "ad_send_reliable_shared A stream rec a = (mid, r)" by (cases "ad_send_reliable_shared A stream rec a")
  show ?case
  proof (cases r)
    case (Inl e)
    then show ?thesis using 2(2) r by (intro exI [of _ 0]) simp
  next
    case (Inr u)
    then obtain k m e where "k < length records" "takes_all A stream (take k records) mid m"
        "ad_send_reliable_shared A stream (records ! k) m = (b, Inl e)" "f = stopped (Suc count + k) e"
      using 2 r by (fastforce simp del: split_paired_Ex)
    then show ?thesis using r Inr by (intro exI [of _ "Suc k"] exI [of _ m] exI [of _ e]) simp
  qed
qed simp

text \<open>A backend that takes as many records as its state says and then fails.\<close>

definition example_adapter :: "nat adapter" where
  "example_adapter = \<lparr>ad_channel_binding = (\<lambda>n. Inl Unsupported), ad_send_control = (\<lambda>frame n. (n, Inl Backend)),
    ad_send_control_shared = (\<lambda>frame n. (n, Inl Backend)),
    ad_send_reliable = (\<lambda>stream rec n. if n = 0 then (n, Inl Backend) else (n - 1, Inr ())),
    ad_send_reliable_shared = (\<lambda>stream rec n. if n = 0 then (n, Inl Backend) else (n - 1, Inr ())),
    ad_preflight_reliable_batch = (\<lambda>stream records n. preflight_reliable_batch records),
    ad_send_datagram = (\<lambda>context payload n. (n, Inl Unsupported)), ad_flush = (\<lambda>n. (n, Inr ())), ad_poll = (\<lambda>n. (n, None)),
    ad_close = (\<lambda>code n. (n, Inl Unsupported)), ad_receive_limits = (\<lambda>n. None),
    ad_set_control_payload_limit = (\<lambda>limit n. (n, Inl Unsupported))\<rparr>"

section \<open>Properties\<close>

text \<open>C39. Every reserved byte is owned by exactly one permit: over any sequence of acquisitions, growths,
  splits and drops, accepted or refused, a ledger is never poisoned, what it counts as used is the
  sum of the permits that are out, and used and remaining make up its limit.\<close>

theorem permits_account_for_all:
  assumes "ledger_new limit = Inr l" "foldl permit_step (l, []) calls = (l', permits)"
  shows "\<not> lg_poisoned l' \<and> ledger_used l' = sum_list permits \<and> ledger_used l' + ledger_remaining l' = limit"
proof -
  have l: "l = \<lparr>lg_limit = limit, lg_used = 0, lg_poisoned = False\<rparr>"
    using assms(1) by (simp add: ledger_new_def split: if_splits)
  have "permits_ok (l, [])" "lg_limit l = limit" by (simp_all add: permits_ok_def l)
  with permits.run_inv [of "(l, [])" calls] permit_run_limit [of "(l, [])" calls]
  show ?thesis by (simp add: assms(2) permits_ok_def ledger_used_def ledger_remaining_def)
qed

theorem permits_account_for_all_witness:
  "foldl permit_step (\<lparr>lg_limit = 10, lg_used = 0, lg_poisoned = False\<rparr>, []) [PAcquire 6, PAcquire 7, PSplit 0 2, PDrop 0, PGrow 0 3] =
      (\<lparr>lg_limit = 10, lg_used = 5, lg_poisoned = False\<rparr>, [5]) \<and>
    ledger_used \<lparr>lg_limit = 10, lg_used = 5, lg_poisoned = False\<rparr> = sum_list [5]"
proof -
  let ?l = "\<lparr>lg_limit = 10, lg_used = 0, lg_poisoned = False\<rparr>"
  have new: "ledger_new 10 = Inr ?l" by (simp add: ledger_new_def)
  have run: "foldl permit_step (?l, []) [PAcquire 6, PAcquire 7, PSplit 0 2, PDrop 0, PGrow 0 3] =
      (\<lparr>lg_limit = 10, lg_used = 5, lg_poisoned = False\<rparr>, [5])"
    by (simp add: acquire_def charge_def split_permit_def release_def grow_def checked_add_def checked_sub_def u64_max_def)
  from permits_account_for_all [OF new run] run show ?thesis by blast
qed

text \<open>C40. A batch that stops says who owns what: the backend took exactly the records the failure
  counts, in order and each without an error, and refused the next; a batch that is refused before
  it starts leaves the backend as it was.\<close>

theorem batch_failure_exact:
  assumes "send_reliable_batch A stream records a = (b, Inl failure)"
  shows "(b = a \<and> taken failure = Some 0) \<or>
    (\<exists>k mid error. k < length records \<and> taken failure = Some k \<and> takes_all A stream (take k records) a mid \<and>
      ad_send_reliable_shared A stream (records ! k) mid = (b, Inl error))"
proof (cases "ad_preflight_reliable_batch A stream records a")
  case (Inl error)
  then show ?thesis using assms by (auto simp: send_reliable_batch_def)
next
  case (Inr u)
  then obtain k mid e where k: "k < length records" "takes_all A stream (take k records) a mid"
      "ad_send_reliable_shared A stream (records ! k) mid = (b, Inl e)" "failure = stopped k e"
    using assms send_batch_from_stopped [of A stream 0 records a b failure] by (auto simp: send_reliable_batch_def)
  then have "taken failure = Some k" by (simp add: stopped_def)
  with k show ?thesis by blast
qed

theorem batch_failure_exact_witness:
  "send_reliable_batch example_adapter 1 [[1], [2]] 1 = (0, Inl (Partial 1 Backend)) \<and>
    (\<exists>k mid error. k < 2 \<and> takes_all example_adapter 1 (take k [[1], [2]]) 1 mid \<and>
      ad_send_reliable_shared example_adapter 1 ([[1], [2]] ! k) mid = (0, Inl error))"
proof -
  have run: "send_reliable_batch example_adapter 1 [[1], [2]] 1 = (0, Inl (Partial 1 Backend))"
    by (simp add: send_reliable_batch_def validate_record_length_def MAX_DATA_RECORD_WIRE_BYTES_def MAX_DATA_RECORD_BYTES_def
        MAX_FRAME_ENVELOPE_BYTES_def example_adapter_def stopped_def)
  have "length [[1], [2 :: byte]] = 2" "(0 :: nat) \<noteq> 1" by simp_all
  with batch_failure_exact [OF run] have "\<exists>k mid error. k < 2 \<and> takes_all example_adapter 1 (take k [[1], [2]]) 1 mid \<and>
      ad_send_reliable_shared example_adapter 1 ([[1], [2]] ! k) mid = (0, Inl error)"
    by metis
  with run show ?thesis by blast
qed

end
