(* ===== verification/Negotiation.thy ===== *)
theory Negotiation
  imports Transport_Api Typed_Frames
begin

text \<open>
  The handshake and authentication exchange, from \<^verbatim>\<open>src/crates/vot-session/src\<close>: \<^verbatim>\<open>error.rs\<close>,
  \<^verbatim>\<open>authentication.rs\<close>, \<^verbatim>\<open>frame_policy.rs\<close> and \<^verbatim>\<open>negotiation.rs\<close>. An operation that takes \<open>&mut self\<close>
  returns the state it leaves and its result, because some of them change the state before they
  fail. A \<open>BTreeSet\<close> of extensions is its sorted list. The parameter \<open>U\<close> is the Unicode library that
  the frame encoder is given for manifest pages; no frame sent here depends on it.
\<close>

section \<open>Errors\<close>

definition MALFORMED_FRAME :: nat where "MALFORMED_FRAME = 0x0102"
definition FRAME_TOO_LARGE :: nat where "FRAME_TOO_LARGE = 0x0103"
definition INVALID_SETTING :: nat where "INVALID_SETTING = 0x0105"
definition RESOURCE_LIMIT :: nat where "RESOURCE_LIMIT = 0x0502"
definition EXPERIMENT_NOT_NEGOTIATED :: nat where "EXPERIMENT_NOT_NEGOTIATED = 0x0701"
definition PUSH :: nat where "PUSH = 0x08"

datatype neg_state =
  Connecting | ControlReserved | HelloSent | SettingsExchanged | Negotiated | Authenticated | NegClosed

datatype lane = ControlLane | ReliableLane

datatype side = LocalSide | PeerSide

datatype presentation_error =
    NothingToAnswer neg_state
  | AttemptsSpent nat
  | IdentifierReused
  | FormatNotOffered nat
  | FormatRetired nat
  | BindingProof binding nat

datatype error_kind =
    EkHello hello_error
  | EkSettings settings_error
  | EkDecode decode_error
  | OutOfSequence nat neg_state
  | NotNegotiated nat
  | NotAuthenticated nat
  | CapabilityRequired nat
  | AuthContextInvalid
  | SessionOpenInvalid
  | SessionAnswerInvalid nat
  | SessionIdentifierMismatch
  | GrantedScopeMismatch
  | SessionAnswerUnencodable
  | PresentationInvalid presentation_error
  | BindingProofMismatch binding nat
  | SessionIdentifierReused
  | CapabilityFormatNotOffered nat
  | TooManyAuthenticationAttempts nat
  | AuthenticationRoleMismatch endpoint_role
  | Interrupted neg_state
  | NotReady neg_state
  | PendingRecordsExhausted nat nat
  | HandshakeUnsent nat
  | FrameExceedsLimit nat nat nat side
  | LaneLimitExceeded nat side
  | NotExactlyOneFrame nat nat nat side
  | ExperimentNotNegotiated nat nat side
  | RequiredExtensionUnavailable nat
  | NegotiationFrameFromApplication nat
  | FrameOnTheWrongLane nat lane side
  | FrameFromWrongRole nat endpoint_role side
  | EkTransport transport_error
  | ReceiveLimitMismatch nat nat receive_limits

record session_error =
  se_kind :: error_kind
  se_close :: nat

definition session_error_new :: "error_kind \<Rightarrow> nat \<Rightarrow> session_error" where
  "session_error_new kind close = \<lparr>se_kind = kind, se_close = close\<rparr>"

fun is_peer_fault :: "error_kind \<Rightarrow> bool" where
  "is_peer_fault (FrameExceedsLimit _ _ _ s) = (s = LocalSide)"
| "is_peer_fault (LaneLimitExceeded _ s) = (s = LocalSide)"
| "is_peer_fault (NotExactlyOneFrame _ _ _ s) = (s = LocalSide)"
| "is_peer_fault (ExperimentNotNegotiated _ _ s) = (s = LocalSide)"
| "is_peer_fault (FrameOnTheWrongLane _ _ s) = (s = LocalSide)"
| "is_peer_fault (FrameFromWrongRole _ _ s) = (s = LocalSide)"
| "is_peer_fault (NotReady _) = False"
| "is_peer_fault (EkTransport _) = False"
| "is_peer_fault (Interrupted _) = False"
| "is_peer_fault (ReceiveLimitMismatch _ _ _) = False"
| "is_peer_fault (NegotiationFrameFromApplication _) = False"
| "is_peer_fault SessionAnswerUnencodable = False"
| "is_peer_fault (PresentationInvalid _) = False"
| "is_peer_fault (AuthenticationRoleMismatch _) = False"
| "is_peer_fault (RequiredExtensionUnavailable _) = False"
| "is_peer_fault (HandshakeUnsent _) = False"
| "is_peer_fault (EkHello _) = True"
| "is_peer_fault (EkSettings _) = True"
| "is_peer_fault (EkDecode _) = True"
| "is_peer_fault (OutOfSequence _ _) = True"
| "is_peer_fault (NotNegotiated _) = True"
| "is_peer_fault (NotAuthenticated _) = True"
| "is_peer_fault AuthContextInvalid = True"
| "is_peer_fault SessionOpenInvalid = True"
| "is_peer_fault (SessionAnswerInvalid _) = True"
| "is_peer_fault SessionIdentifierMismatch = True"
| "is_peer_fault GrantedScopeMismatch = True"
| "is_peer_fault (BindingProofMismatch _ _) = True"
| "is_peer_fault SessionIdentifierReused = True"
| "is_peer_fault (CapabilityFormatNotOffered _) = True"
| "is_peer_fault (TooManyAuthenticationAttempts _) = True"
| "is_peer_fault (CapabilityRequired _) = True"
| "is_peer_fault (PendingRecordsExhausted _ _) = True"

definition presentation_fault :: "presentation_error \<Rightarrow> session_error" where
  "presentation_fault reason = session_error_new (PresentationInvalid reason) AUTHENTICATION_FAILED"

definition decode_fault :: "decode_error \<Rightarrow> session_error" where
  "decode_fault error = session_error_new (EkDecode error) (decode_protocol_code error)"

definition transport_fault :: "transport_error \<Rightarrow> session_error" where
  "transport_fault error =
    session_error_new (EkTransport error)
      (case error of
        RecordTooLarge \<Rightarrow> FRAME_TOO_LARGE
      | OutboundQueueFull \<Rightarrow> RESOURCE_LIMIT
      | InboundQueueFull \<Rightarrow> RESOURCE_LIMIT
      | StagingExhausted \<Rightarrow> RESOURCE_LIMIT
      | _ \<Rightarrow> MALFORMED_FRAME)"

section \<open>Authentication\<close>

datatype authentication =
    NotRequired (au_nonce: bytes)
  | Capability (au_challenge: auth_context)
  | Presenting

definition MAX_AUTHENTICATION_ATTEMPTS :: nat where "MAX_AUTHENTICATION_ATTEMPTS = 3"

definition no_capability :: "bytes \<Rightarrow> auth_context" where
  "no_capability nonce = \<lparr>ac_nonce = nonce, ac_binding = NoBinding, ac_formats = []\<rparr>"

section \<open>The exchange\<close>

definition state_ready :: "neg_state \<Rightarrow> bool" where "state_ready s \<longleftrightarrow> s = Authenticated"

definition state_negotiated :: "neg_state \<Rightarrow> bool" where "state_negotiated s \<longleftrightarrow> s \<in> {Negotiated, Authenticated}"

datatype accepted = Consumed (reply: "bytes list") | Application | AuthorizationRequired | PresentationRequired

record negotiation =
  ng_role :: endpoint_role
  ng_state :: neg_state
  ng_local :: settings
  ng_extensions :: "nat list"
  ng_challenge :: auth_context
  ng_challenge_read :: bool
  ng_presenting :: bool
  ng_open :: "session_open option"
  ng_attempted :: "bytes list"
  ng_granted :: "session_accept option"
  ng_refusal :: "session_reject option"
  ng_peer_hello :: "hello option"
  ng_peer_settings :: "settings option"

definition negotiation_new ::
    "endpoint_role \<Rightarrow> settings \<Rightarrow> nat list \<Rightarrow> auth_context \<Rightarrow> bool \<Rightarrow> negotiation" where
  "negotiation_new role local exts challenge presenting =
    \<lparr>ng_role = role, ng_state = Connecting, ng_local = local, ng_extensions = exts, ng_challenge = challenge,
     ng_challenge_read = False, ng_presenting = presenting, ng_open = None, ng_attempted = [], ng_granted = None,
     ng_refusal = None, ng_peer_hello = None, ng_peer_settings = None\<rparr>"

definition neg_client :: "settings \<Rightarrow> nat list \<Rightarrow> negotiation" where
  "neg_client local exts = negotiation_new Client local exts (no_capability (replicate 32 0)) False"

definition neg_presenting_client :: "settings \<Rightarrow> nat list \<Rightarrow> negotiation" where
  "neg_presenting_client local exts = negotiation_new Client local exts (no_capability (replicate 32 0)) True"

definition neg_server :: "settings \<Rightarrow> nat list \<Rightarrow> auth_context \<Rightarrow> negotiation" where
  "neg_server local exts challenge = negotiation_new Server local exts challenge False"

definition neg_ready :: "negotiation \<Rightarrow> bool" where "neg_ready n \<longleftrightarrow> state_ready (ng_state n)"

definition negotiated_extensions :: "negotiation \<Rightarrow> nat list" where
  "negotiated_extensions n =
    (case ng_peer_hello n of
      None \<Rightarrow> []
    | Some h \<Rightarrow> filter (\<lambda>e. e \<in> set (extensions h)) (ng_extensions n))"

definition extension_is_negotiated :: "negotiation \<Rightarrow> nat \<Rightarrow> bool" where
  "extension_is_negotiated n extension =
    is_some_and (ng_peer_hello n) (\<lambda>h. extension \<in> set (ng_extensions n) \<and> extension \<in> set (extensions h))"

definition negotiated_payload_limit :: "nat \<Rightarrow> settings \<Rightarrow> nat" where
  "negotiated_payload_limit frame_type settings =
    (let ceiling = max_control_frame_payload settings in
     if frame_type = DATA_RECORD then max_data_record_payload settings
     else if frame_type \<in> {MANIFEST_PAGE, PROGRESSIVE_PAGE} then min (max_manifest_page_payload settings) ceiling
     else ceiling)"

definition encoded_frame :: "nat \<Rightarrow> bytes \<Rightarrow> session_error + bytes" where
  "encoded_frame frame_type payload = map_err decode_fault (encode_frame frame_type payload [])"

definition hello_frame :: "hello \<Rightarrow> session_error + bytes" where
  "hello_frame hello =
    and_then (map_err (\<lambda>e. session_error_new (EkHello e) (hello_protocol_code e)) (encode_hello hello [])) (\<lambda>payload.
      encoded_frame HELLO payload)"

definition settings_frame :: "negotiation \<Rightarrow> session_error + bytes" where
  "settings_frame n =
    and_then (map_err (\<lambda>e. session_error_new (EkSettings e) (settings_protocol_code e)) (encode_settings (ng_local n) [])) (\<lambda>payload.
      encoded_frame SETTINGS payload)"

definition settings_ack_frame :: "session_error + bytes" where
  "settings_ack_frame = encoded_frame SETTINGS_ACK []"

definition out_of_sequence :: "negotiation \<Rightarrow> nat \<Rightarrow> session_error" where
  "out_of_sequence n frame_type = session_error_new (OutOfSequence frame_type (ng_state n)) MALFORMED_FRAME"

definition within_peer_control_limit :: "negotiation \<Rightarrow> bytes \<Rightarrow> session_error + unit" where
  "within_peer_control_limit n frame =
    (case ng_peer_settings n of
      None \<Rightarrow> Inr ()
    | Some peer \<Rightarrow>
        (let limits = \<lparr>max_unknown_payload = HARD_MAX_FRAME_PAYLOAD, max_frames = 1\<rparr> in
         and_then (map_err decode_fault (peek_envelope frame limits)) (\<lambda>envelope.
           let byte_count = payload_length envelope;
               limit = negotiated_payload_limit (env_frame_type envelope) peer in
           if byte_count \<le> limit then Inr ()
           else Inl (session_error_new (FrameExceedsLimit (env_frame_type envelope) byte_count limit PeerSide) FRAME_TOO_LARGE))))"

definition auth_context_frame :: "negotiation \<Rightarrow> session_error + bytes" where
  "auth_context_frame n =
    and_then (map_err (\<lambda>e. session_error_new AuthContextInvalid MALFORMED_FRAME) (encode_auth_context (ng_challenge n) [])) (\<lambda>payload.
    and_then (map_err (\<lambda>e. session_error_new (EkDecode e) MALFORMED_FRAME) (encode_frame AUTH_CONTEXT payload [])) (\<lambda>frame.
    and_then (within_peer_control_limit n frame) (\<lambda>u. Inr frame)))"

definition neg_begin :: "negotiation \<Rightarrow> negotiation \<times> (session_error + bytes list)" where
  "neg_begin n =
    (if ng_state n \<noteq> Connecting then (n, Inl (session_error_new (OutOfSequence HELLO (ng_state n)) MALFORMED_FRAME))
     else
       (let n = n\<lparr>ng_state := ControlReserved\<rparr> in
        if ng_role n = Server then (n, Inr [])
        else
          (let hello = \<lparr>draft_revision = DRAFT_REVISION, hello_role = Client, extensions = ng_extensions n\<rparr> in
           case and_then (hello_frame hello) (\<lambda>h. and_then (settings_frame n) (\<lambda>s. Inr [h, s])) of
             Inl e \<Rightarrow> (n, Inl e)
           | Inr frames \<Rightarrow> (n\<lparr>ng_state := HelloSent\<rparr>, Inr frames))))"

definition accept_hello :: "negotiation \<Rightarrow> bytes \<Rightarrow> negotiation \<times> (session_error + accepted)" where
  "accept_hello n payload =
    (let (expected_state, peer_role) =
          (case ng_role n of Server \<Rightarrow> (ControlReserved, Client) | Client \<Rightarrow> (HelloSent, Server)) in
     if ng_state n \<noteq> expected_state \<or> ng_peer_hello n \<noteq> None then (n, Inl (out_of_sequence n HELLO))
     else case decode_hello payload peer_role of
       Inl e \<Rightarrow> (n, Inl (session_error_new (EkHello e) (hello_protocol_code e)))
     | Inr hello \<Rightarrow> (n\<lparr>ng_peer_hello := Some hello, ng_state := HelloSent\<rparr>, Inr (Consumed [])))"

definition server_reply :: "negotiation \<Rightarrow> session_error + bytes list" where
  "server_reply n =
    (let answer = \<lparr>draft_revision = DRAFT_REVISION, hello_role = Server, extensions = negotiated_extensions n\<rparr> in
     and_then (hello_frame answer) (\<lambda>a.
     and_then (settings_frame n) (\<lambda>b.
     and_then settings_ack_frame (\<lambda>c.
     and_then (auth_context_frame n) (\<lambda>d. Inr [a, b, c, d])))))"

definition accept_settings :: "negotiation \<Rightarrow> bytes \<Rightarrow> negotiation \<times> (session_error + accepted)" where
  "accept_settings n payload =
    (if ng_peer_settings n \<noteq> None then (n, Inl (out_of_sequence n SETTINGS))
     else if ng_state n \<noteq> HelloSent \<or> ng_peer_hello n = None then (n, Inl (out_of_sequence n SETTINGS))
     else case decode_settings payload of
       Inl e \<Rightarrow> (n, Inl (session_error_new (EkSettings e) (settings_protocol_code e)))
     | Inr settings \<Rightarrow>
         (let n = n\<lparr>ng_peer_settings := Some settings, ng_state := SettingsExchanged\<rparr> in
          case ng_role n of
            Client \<Rightarrow> (n, Inr (Consumed []))
          | Server \<Rightarrow>
              (case server_reply n of
                Inl e \<Rightarrow> (n, Inl e)
              | Inr frames \<Rightarrow>
                  (n\<lparr>ng_state := (if ac_formats (ng_challenge n) = [] then Authenticated else Negotiated)\<rparr>,
                   Inr (Consumed frames)))))"

definition accept_settings_ack :: "negotiation \<Rightarrow> negotiation \<times> (session_error + accepted)" where
  "accept_settings_ack n =
    (if ng_role n = Client \<and> state_negotiated (ng_state n) then (n, Inr (Consumed []))
     else if ng_role n \<noteq> Client \<or> ng_state n \<noteq> SettingsExchanged then (n, Inl (out_of_sequence n SETTINGS_ACK))
     else (n\<lparr>ng_state := Negotiated\<rparr>, Inr (Consumed [])))"

definition accept_auth_context :: "negotiation \<Rightarrow> bytes \<Rightarrow> negotiation \<times> (session_error + accepted)" where
  "accept_auth_context n payload =
    (if ng_role n \<noteq> Client \<or> ng_state n \<noteq> Negotiated \<or> ng_challenge_read n
     then (n, Inl (out_of_sequence n AUTH_CONTEXT))
     else case decode_auth_context payload of
       Inl e \<Rightarrow> (n, Inl (session_error_new AuthContextInvalid MALFORMED_FRAME))
     | Inr context \<Rightarrow>
         if ac_formats context = []
         then (n\<lparr>ng_challenge_read := True, ng_challenge := context, ng_state := Authenticated\<rparr>, Inr (Consumed []))
         else if \<not> ng_presenting n
         then (n, Inl (session_error_new (CapabilityRequired (length (ac_formats context))) AUTHENTICATION_FAILED))
         else (n\<lparr>ng_challenge_read := True, ng_challenge := context\<rparr>, Inr PresentationRequired))"

definition answered_attempt :: "negotiation \<Rightarrow> nat \<Rightarrow> session_error + bytes" where
  "answered_attempt n frame_type =
    (case (ng_role n, ng_state n, ng_open n) of
      (Client, Negotiated, Some open) \<Rightarrow> Inr (so_session_id open)
    | _ \<Rightarrow> Inl (out_of_sequence n frame_type))"

definition require_answers_attempt :: "bytes \<Rightarrow> bytes \<Rightarrow> session_error + unit" where
  "require_answers_attempt answered attempt =
    (if answered = attempt then Inr () else Inl (session_error_new SessionIdentifierMismatch AUTHENTICATION_FAILED))"

definition accept_session_accept :: "negotiation \<Rightarrow> bytes \<Rightarrow> negotiation \<times> (session_error + accepted)" where
  "accept_session_accept n payload =
    (case and_then (answered_attempt n SESSION_ACCEPT) (\<lambda>attempt.
          and_then (map_err (\<lambda>e. session_error_new (SessionAnswerInvalid SESSION_ACCEPT) MALFORMED_FRAME)
            (decode_session_accept payload)) (\<lambda>accept.
          and_then (require_answers_attempt (sa_session_id accept) attempt) (\<lambda>u. Inr accept))) of
      Inl e \<Rightarrow> (n, Inl e)
    | Inr accept \<Rightarrow>
        (n\<lparr>ng_open := None, ng_refusal := None, ng_granted := Some accept, ng_state := Authenticated\<rparr>, Inr (Consumed [])))"

definition accept_session_reject :: "negotiation \<Rightarrow> bytes \<Rightarrow> negotiation \<times> (session_error + accepted)" where
  "accept_session_reject n payload =
    (case and_then (answered_attempt n SESSION_REJECT) (\<lambda>attempt.
          and_then (map_err (\<lambda>e. session_error_new (SessionAnswerInvalid SESSION_REJECT) MALFORMED_FRAME)
            (decode_session_reject payload)) (\<lambda>reject.
          and_then (require_answers_attempt (sr_session_id reject) attempt) (\<lambda>u. Inr reject))) of
      Inl e \<Rightarrow> (n, Inl e)
    | Inr reject \<Rightarrow> (n\<lparr>ng_open := None, ng_refusal := Some reject\<rparr>, Inr PresentationRequired))"

definition binding_proof_agrees :: "binding \<Rightarrow> bytes \<Rightarrow> bool" where
  "binding_proof_agrees binding proof_bytes =
    (case binding of NoBinding \<Rightarrow> proof_bytes = [] | ProofOfPossession \<Rightarrow> proof_bytes \<noteq> [])"

definition accept_session_open :: "negotiation \<Rightarrow> bytes \<Rightarrow> negotiation \<times> (session_error + accepted)" where
  "accept_session_open n payload =
    (if ng_role n \<noteq> Server \<or> ng_state n \<noteq> Negotiated \<or> ac_formats (ng_challenge n) = [] \<or> ng_open n \<noteq> None
     then (n, Inl (out_of_sequence n SESSION_OPEN))
     else if MAX_AUTHENTICATION_ATTEMPTS \<le> length (ng_attempted n)
     then (n, Inl (session_error_new (TooManyAuthenticationAttempts (length (ng_attempted n))) AUTHENTICATION_FAILED))
     else case decode_session_open payload of
       Inl e \<Rightarrow> (n, Inl (session_error_new SessionOpenInvalid MALFORMED_FRAME))
     | Inr open \<Rightarrow>
         if so_session_id open \<in> set (ng_attempted n)
         then (n, Inl (session_error_new SessionIdentifierReused REPLAY_REJECTED))
         else if so_capability_format open \<notin> set (ac_formats (ng_challenge n))
         then (n, Inl (session_error_new (CapabilityFormatNotOffered (so_capability_format open)) AUTHENTICATION_FAILED))
         else if \<not> binding_proof_agrees (ac_binding (ng_challenge n)) (so_binding_proof open)
         then (n, Inl (session_error_new
           (BindingProofMismatch (ac_binding (ng_challenge n)) (length (so_binding_proof open))) AUTHENTICATION_FAILED))
         else (n\<lparr>ng_attempted := ng_attempted n @ [so_session_id open], ng_open := Some open\<rparr>, Inr AuthorizationRequired))"

definition accept_application :: "negotiation \<Rightarrow> nat \<Rightarrow> session_error + accepted" where
  "accept_application n frame_type =
    (if \<not> state_negotiated (ng_state n) then Inl (session_error_new (NotNegotiated frame_type) MALFORMED_FRAME)
     else if \<not> state_ready (ng_state n) \<and> requires_authentication frame_type
     then Inl (session_error_new (NotAuthenticated frame_type) AUTHENTICATION_FAILED)
     else Inr Application)"

definition accept_frame :: "negotiation \<Rightarrow> nat \<Rightarrow> bytes \<Rightarrow> negotiation \<times> (session_error + accepted)" where
  "accept_frame n frame_type payload =
    (if frame_type = HELLO then accept_hello n payload
     else if frame_type = SETTINGS then accept_settings n payload
     else if frame_type = SETTINGS_ACK then accept_settings_ack n
     else if frame_type = AUTH_CONTEXT then accept_auth_context n payload
     else if frame_type = SESSION_OPEN then accept_session_open n payload
     else if frame_type = SESSION_ACCEPT then accept_session_accept n payload
     else if frame_type = SESSION_REJECT then accept_session_reject n payload
     else (n, accept_application n frame_type))"

definition accept_control :: "negotiation \<Rightarrow> bytes \<Rightarrow> negotiation \<times> (session_error + accepted)" where
  "accept_control n frame =
    (let limits = \<lparr>max_unknown_payload = max_control_frame_payload (ng_local n), max_frames = 1\<rparr> in
     case decode_one frame limits of
       Inl e \<Rightarrow> (n, Inl (decode_fault e))
     | Inr (decoded, consumed) \<Rightarrow>
         if consumed \<noteq> length frame
         then (n, Inl (session_error_new (EkDecode (LengthOverflow consumed)) MALFORMED_FRAME))
         else case decoded of
           SkippedOptional frame_type len \<Rightarrow> (n, Inr (Consumed []))
         | Known frame_type payload \<Rightarrow> accept_frame n frame_type payload)"

definition neg_abandon :: "negotiation \<Rightarrow> negotiation" where
  "neg_abandon n = n\<lparr>ng_state := NegClosed\<rparr>"

definition carrier_closed :: "negotiation \<Rightarrow> negotiation \<times> (session_error + unit)" where
  "carrier_closed n =
    (let previous = ng_state n in
     (n\<lparr>ng_state := NegClosed\<rparr>,
      if state_ready previous \<or> previous = NegClosed then Inr ()
      else Inl (session_error_new (Interrupted previous) MALFORMED_FRAME)))"

definition pending_authorization :: "negotiation \<Rightarrow> (auth_context \<times> session_open) option" where
  "pending_authorization n = map_option (\<lambda>open. (ng_challenge n, open)) (ng_open n)"

definition pending_presentation :: "negotiation \<Rightarrow> auth_context option" where
  "pending_presentation n =
    (if ng_role n = Client \<and> ng_state n = Negotiated \<and> ng_presenting n \<and> ng_challenge_read n \<and> ng_open n = None
     then Some (ng_challenge n) else None)"

definition attempts_remaining :: "negotiation \<Rightarrow> nat" where
  "attempts_remaining n = MAX_AUTHENTICATION_ATTEMPTS - length (ng_attempted n)"

definition session_frame :: "unicode \<Rightarrow> typed_frame \<Rightarrow> session_error + bytes" where
  "session_frame U frame =
    map_err (\<lambda>e. session_error_new SessionAnswerUnencodable MALFORMED_FRAME) (encode_typed U frame [])"

definition neg_present :: "unicode \<Rightarrow> negotiation \<Rightarrow> session_open \<Rightarrow> negotiation \<times> (session_error + bytes list)" where
  "neg_present U n request =
    (if pending_presentation n = None then (n, Inl (presentation_fault (NothingToAnswer (ng_state n))))
     else if attempts_remaining n = 0 then (n, Inl (presentation_fault (AttemptsSpent (length (ng_attempted n)))))
     else if so_session_id request \<in> set (ng_attempted n) then (n, Inl (presentation_fault IdentifierReused))
     else if so_capability_format request \<notin> set (ac_formats (ng_challenge n))
     then (n, Inl (presentation_fault (FormatNotOffered (so_capability_format request))))
     else if \<not> binding_proof_agrees (ac_binding (ng_challenge n)) (so_binding_proof request)
     then (n, Inl (presentation_fault (BindingProof (ac_binding (ng_challenge n)) (length (so_binding_proof request)))))
     else case and_then (session_frame U (TfSessionOpen request)) (\<lambda>frame.
            and_then (within_peer_control_limit n frame) (\<lambda>u. Inr frame)) of
       Inl e \<Rightarrow> (n, Inl e)
     | Inr frame \<Rightarrow>
         (n\<lparr>ng_attempted := ng_attempted n @ [so_session_id request], ng_refusal := None, ng_open := Some request\<rparr>, Inr [frame]))"

definition neg_grant :: "unicode \<Rightarrow> negotiation \<Rightarrow> bytes \<Rightarrow> negotiation \<times> (session_error + bytes list)" where
  "neg_grant U n granted_scope =
    (case ng_open n of
      None \<Rightarrow> (n, Inl (out_of_sequence n SESSION_ACCEPT))
    | Some open \<Rightarrow>
        (let accept = \<lparr>sa_session_id = so_session_id open, sa_granted_scope = granted_scope\<rparr> in
         case and_then (session_frame U (TfSessionAccept accept)) (\<lambda>frame.
            and_then (within_peer_control_limit n frame) (\<lambda>u. Inr frame)) of
           Inl e \<Rightarrow> (n, Inl e)
         | Inr frame \<Rightarrow> (n\<lparr>ng_granted := Some accept, ng_open := None, ng_state := Authenticated\<rparr>, Inr [frame])))"

definition neg_refuse :: "unicode \<Rightarrow> negotiation \<Rightarrow> nat \<Rightarrow> bytes \<Rightarrow> negotiation \<times> (session_error + bytes list)" where
  "neg_refuse U n reason detail =
    (case ng_open n of
      None \<Rightarrow> (n, Inl (out_of_sequence n SESSION_REJECT))
    | Some open \<Rightarrow>
        (let reject = \<lparr>sr_session_id = so_session_id open, sr_reason = reason, sr_detail = detail\<rparr> in
         case and_then (session_frame U (TfSessionReject reject)) (\<lambda>frame.
            and_then (within_peer_control_limit n frame) (\<lambda>u. Inr frame)) of
           Inl e \<Rightarrow> (n, Inl e)
         | Inr frame \<Rightarrow> (n\<lparr>ng_open := None\<rparr>, Inr [frame])))"

section \<open>The exchange over the wire\<close>

text \<open>Frames of the exchange, built and taken apart.\<close>

definition exchange_type :: "nat \<Rightarrow> bool" where
  "exchange_type t \<longleftrightarrow> t \<in> {HELLO, SETTINGS, SETTINGS_ACK, AUTH_CONTEXT, SESSION_OPEN, SESSION_ACCEPT, SESSION_REJECT}"

lemma exchange_facts:
  assumes "exchange_type t"
  shows "is_known t" "\<not> is_grease t" "t \<le> MAX_QUIC_VARINT"
  using assms unfolding exchange_type_def
  by (auto simp: frame_types is_known_def is_grease_def registered_payload_limit_def frame_registry_def MAX_QUIC_VARINT_def)

lemma exchange_limits:
  "payload_limit a HELLO = 4096" "payload_limit a SETTINGS = 16384" "payload_limit a SETTINGS_ACK = 0"
  "payload_limit a AUTH_CONTEXT = 65536" "payload_limit a SESSION_OPEN = 65536" "payload_limit a SESSION_ACCEPT = 65536"
  "payload_limit a SESSION_REJECT = 65536"
  by (simp_all add: payload_limit_def registered_payload_limit_def frame_registry_def frame_types HARD_MAX_FRAME_PAYLOAD_def)

lemma settings_ok_control: "settings_ok s \<Longrightarrow> 1024 \<le> max_control_frame_payload s \<and> max_control_frame_payload s \<le> HARD_MAX_FRAME_PAYLOAD"
  by (simp add: settings_ok_def advertised_def setting_in_range_def setting_range_def is_some_and_def HARD_MAX_FRAME_PAYLOAD_def)

lemma accept_exchange_frame:
  assumes "settings_ok (ng_local n)" "exchange_type t" "length p \<le> payload_limit a t"
  shows "accept_control n (frame_bytes t p) = accept_frame n t p"
proof -
  note t = exchange_facts [OF assms(2)]
  have "length p \<le> payload_limit (max_control_frame_payload (ng_local n)) t"
    using assms(3) known_limit [OF t(1), of a "max_control_frame_payload (ng_local n)"] by linarith
  then have "decode_one (frame_bytes t p @ []) \<lparr>max_unknown_payload = max_control_frame_payload (ng_local n), max_frames = 1\<rparr> =
      Inr (frame_of t p, length (frame_bytes t p))"
    using assms(1) t settings_ok_control [OF assms(1)] by (intro decode_one_frame) (auto simp: validate_limits_def)
  then show ?thesis using t by (simp add: accept_control_def frame_of_def)
qed

lemma encoded_exchange_frame:
  assumes "exchange_type t" "length p \<le> payload_limit a t"
  shows "encode_frame t p [] = Inr (frame_bytes t p)" "encoded_frame t p = Inr (frame_bytes t p)"
proof -
  note t = exchange_facts [OF assms(1)]
  show "encode_frame t p [] = Inr (frame_bytes t p)"
    using assms(2) known_limit [OF t(1), of a DEFAULT_MAX_UNKNOWN_PAYLOAD] t(3) by (simp add: encode_frame_eq Let_def)
  then show "encoded_frame t p = Inr (frame_bytes t p)" by (simp add: encoded_frame_def)
qed

lemma hello_bytes_fit: "hello_ok h \<Longrightarrow> length (hello_bytes h) \<le> 4096"
  using length_varints_le [of "draft_revision h # role_value (hello_role h) # length (extensions h) # extensions h"]
  unfolding hello_bytes_def hello_ok_def MAX_EXTENSIONS_PER_HELLO_def by (simp del: length_varint)

lemma settings_bytes_fit: "length (pairs_bytes (advertised s)) \<le> 80"
  using length_varints_le [of "concat (map (\<lambda>(i, v). [i, v]) (advertised s))"]
  by (simp add: pairs_bytes_def advertised_def del: length_varint)

lemma exchange_types: "exchange_type HELLO" "exchange_type SETTINGS" "exchange_type SETTINGS_ACK" "exchange_type AUTH_CONTEXT"
    "exchange_type SESSION_OPEN" "exchange_type SESSION_ACCEPT" "exchange_type SESSION_REJECT"
  by (simp_all add: exchange_type_def)

lemma hello_frame_eq: "hello_ok h \<Longrightarrow> hello_frame h = Inr (frame_bytes HELLO (hello_bytes h))"
  using encode_hello_eq [of h "[]"] hello_bytes_fit [of h]
  by (simp add: hello_frame_def encoded_exchange_frame(2) [OF exchange_types(1), of _ 0] exchange_limits)

lemma settings_frame_eq: "settings_ok (ng_local n) \<Longrightarrow> settings_frame n = Inr (frame_bytes SETTINGS (pairs_bytes (advertised (ng_local n))))"
  using encode_settings_iff [of "ng_local n" "[]" "pairs_bytes (advertised (ng_local n))"] settings_bytes_fit [of "ng_local n"]
  by (simp add: settings_frame_def encoded_exchange_frame(2) [OF exchange_types(2), of _ 0] exchange_limits)

lemma exchange_payload_limit: "exchange_type t \<Longrightarrow> negotiated_payload_limit t peer = max_control_frame_payload peer"
  by (auto simp: exchange_type_def negotiated_payload_limit_def frame_types)

lemma within_peer_limit:
  assumes "exchange_type t" "length p \<le> payload_limit a t"
  shows "within_peer_control_limit n (frame_bytes t p) = Inr u \<longleftrightarrow>
    (\<forall>peer. ng_peer_settings n = Some peer \<longrightarrow> length p \<le> max_control_frame_payload peer)"
proof -
  note t = exchange_facts [OF assms(1)]
  let ?limits = "\<lparr>max_unknown_payload = HARD_MAX_FRAME_PAYLOAD, max_frames = 1\<rparr>"
  have "length p \<le> payload_limit (max_unknown_payload ?limits) t"
    using assms(2) known_limit [OF t(1), of a HARD_MAX_FRAME_PAYLOAD] by simp
  from parse_frame [OF _ t(3) this, of "[]"] t(1)
  have "parse_envelope_prefix (frame_bytes t p) ?limits =
      Inr \<lparr>env_frame_type = t, payload_length = length p, header_length = length (varint t) + length (varint (length p)),
        total_length = length (frame_bytes t p), skipped = \<not> is_known t \<or> is_grease t\<rparr>"
    by (simp add: validate_limits_def)
  then show ?thesis
    by (auto simp: within_peer_control_limit_def peek_envelope_def exchange_payload_limit [OF assms(1)] Let_def split: option.splits)
qed

lemma length_uint_items: "list_all (\<lambda>f. f \<le> 65535) fs \<Longrightarrow> length (concat (map uint_item fs)) \<le> 3 * length fs"
  by (induction fs) (auto simp: length_items head_len_def)

lemma auth_context_fits:
  assumes "validate_auth_context c = Inr ()"
  shows "length (auth_context_item c) \<le> 1024"
proof -
  have c: "length (ac_nonce c) \<le> 64" "length (ac_formats c) \<le> 16" "list_all (\<lambda>f. f \<le> 65535) (ac_formats c)"
    using assms by (auto simp: validate_auth_context_def MAX_AUTH_NONCE_def MAX_CAPABILITY_FORMATS_def MAX_CAPABILITY_FORMAT_def
        list_all_iff list_ex_iff not_less split: if_splits)
  have "binding_to_wire (ac_binding c) \<le> 1" by (cases "ac_binding c") simp_all
  then show ?thesis using c length_uint_items [OF c(3)]
    by (simp add: auth_context_item_def length_items head_len_def)
qed

lemma auth_context_frame_eq:
  assumes "validate_auth_context (ng_challenge n) = Inr ()" "\<forall>peer. ng_peer_settings n = Some peer \<longrightarrow> settings_ok peer"
  shows "auth_context_frame n = Inr (frame_bytes AUTH_CONTEXT (auth_context_item (ng_challenge n)))"
proof -
  let ?p = "auth_context_item (ng_challenge n)"
  have p: "length ?p \<le> 1024" by (rule auth_context_fits [OF assms(1)])
  then have "within_peer_control_limit n (frame_bytes AUTH_CONTEXT ?p) = Inr ()"
    using assms(2) settings_ok_control by (subst within_peer_limit [where a = 0]) (fastforce simp: exchange_types exchange_limits)+
  moreover have "encode_frame AUTH_CONTEXT ?p [] = Inr (frame_bytes AUTH_CONTEXT ?p)"
    using p by (intro encoded_exchange_frame(1) [where a = 0]) (simp_all add: exchange_types exchange_limits)
  ultimately show ?thesis using assms(1) by (simp add: auth_context_frame_def encode_session_items)
qed

lemma accept_frame_simps:
  "accept_frame n HELLO p = accept_hello n p" "accept_frame n SETTINGS p = accept_settings n p"
  "accept_frame n SETTINGS_ACK p = accept_settings_ack n" "accept_frame n AUTH_CONTEXT p = accept_auth_context n p"
  "accept_frame n SESSION_OPEN p = accept_session_open n p" "accept_frame n SESSION_ACCEPT p = accept_session_accept n p"
  "accept_frame n SESSION_REJECT p = accept_session_reject n p"
  by (simp_all add: accept_frame_def frame_types)

text \<open>A peer's frames, delivered one after the other, and everything that is sent back.\<close>

definition replies :: "accepted \<Rightarrow> bytes list" where
  "replies a = (case a of Consumed frames \<Rightarrow> frames | _ \<Rightarrow> [])"

fun deliver :: "negotiation \<Rightarrow> bytes list \<Rightarrow> negotiation \<times> (session_error + bytes list)" where
  "deliver n [] = (n, Inr [])"
| "deliver n (frame # frames) =
    (case accept_control n frame of
      (n, Inl e) \<Rightarrow> (n, Inl e)
    | (n, Inr a) \<Rightarrow>
        (case deliver n frames of (n, Inl e) \<Rightarrow> (n, Inl e) | (n, Inr back) \<Rightarrow> (n, Inr (replies a @ back))))"

definition extensions_ok :: "nat list \<Rightarrow> bool" where
  "extensions_ok exts \<longleftrightarrow> sorted_wrt (<) exts \<and> length exts \<le> MAX_EXTENSIONS_PER_HELLO \<and> (\<forall>e \<in> set exts. e \<le> MAX_QUIC_VARINT)"

lemma extensions_ok_hello: "extensions_ok exts \<Longrightarrow> hello_ok \<lparr>draft_revision = DRAFT_REVISION, hello_role = role, extensions = exts\<rparr>"
  by (simp add: extensions_ok_def hello_ok_def)

lemma extensions_ok_filter: "extensions_ok exts \<Longrightarrow> extensions_ok (filter P exts)"
  by (auto simp: extensions_ok_def sorted_wrt_filter intro: order_trans [OF length_filter_le])

lemma accept_hello_frame:
  assumes "settings_ok (ng_local n)" "hello_ok h" "ng_peer_hello n = None"
    and "(ng_role n, ng_state n, hello_role h) \<in> {(Server, ControlReserved, Client), (Client, HelloSent, Server)}"
  shows "accept_control n (frame_bytes HELLO (hello_bytes h)) = (n\<lparr>ng_peer_hello := Some h, ng_state := HelloSent\<rparr>, Inr (Consumed []))"
proof -
  have "accept_control n (frame_bytes HELLO (hello_bytes h)) = accept_frame n HELLO (hello_bytes h)"
    using hello_bytes_fit [OF assms(2)] by (intro accept_exchange_frame [OF assms(1), where a = 0]) (simp_all add: exchange_types exchange_limits)
  then show ?thesis using assms(3,4) decode_hello_bytes [OF assms(2)] by (auto simp: accept_frame_simps accept_hello_def)
qed

lemma decode_own_settings: "settings_ok s \<Longrightarrow> decode_settings (pairs_bytes (advertised s)) = Inr s"
  using settings_roundtrip [of s "pairs_bytes (advertised s)"] encode_settings_iff [of s "[]"] by simp

lemma accept_settings_frame:
  assumes "settings_ok (ng_local n)" "settings_ok s"
  shows "accept_control n (frame_bytes SETTINGS (pairs_bytes (advertised s))) = accept_settings n (pairs_bytes (advertised s))"
  using settings_bytes_fit [of s] assms(1)
  by (subst accept_exchange_frame [where a = 0])
    (simp_all add: exchange_types exchange_limits accept_frame_simps)


abbreviation greeting :: "endpoint_role \<Rightarrow> nat list \<Rightarrow> hello" where
  "greeting role exts \<equiv> \<lparr>draft_revision = DRAFT_REVISION, hello_role = role, extensions = exts\<rparr>"

abbreviation concluded :: "auth_context \<Rightarrow> neg_state" where
  "concluded challenge \<equiv> if ac_formats challenge = [] then Authenticated else Negotiated"

definition offer :: "settings \<Rightarrow> nat list \<Rightarrow> bytes list" where
  "offer s exts = [frame_bytes HELLO (hello_bytes (greeting Client exts)), frame_bytes SETTINGS (pairs_bytes (advertised s))]"

definition answer :: "settings \<Rightarrow> nat list \<Rightarrow> auth_context \<Rightarrow> bytes list" where
  "answer s exts challenge =
    [frame_bytes HELLO (hello_bytes (greeting Server exts)), frame_bytes SETTINGS (pairs_bytes (advertised s)),
     frame_bytes SETTINGS_ACK [], frame_bytes AUTH_CONTEXT (auth_context_item challenge)]"

lemma client_begins:
  assumes "ng_role n = Client" "ng_state n = Connecting" "settings_ok (ng_local n)" "extensions_ok (ng_extensions n)"
  shows "neg_begin n = (n\<lparr>ng_state := HelloSent\<rparr>, Inr (offer (ng_local n) (ng_extensions n)))"
  using assms hello_frame_eq [OF extensions_ok_hello, of "ng_extensions n" Client]
  by (simp add: neg_begin_def settings_frame_eq offer_def)

lemma server_answers:
  assumes "ng_role n = Server" "ng_state n = ControlReserved" "ng_peer_hello n = None" "ng_peer_settings n = None"
    and ok: "settings_ok (ng_local n)" "extensions_ok (ng_extensions n)" "validate_auth_context (ng_challenge n) = Inr ()"
    and peer: "settings_ok s" "extensions_ok exts"
  shows "deliver n (offer s exts) =
    (n\<lparr>ng_peer_hello := Some (greeting Client exts), ng_peer_settings := Some s, ng_state := concluded (ng_challenge n)\<rparr>,
     Inr (answer (ng_local n) (filter (\<lambda>e. e \<in> set exts) (ng_extensions n)) (ng_challenge n)))"
proof -
  let ?n1 = "n\<lparr>ng_peer_hello := Some (greeting Client exts), ng_state := HelloSent\<rparr>"
  let ?n2 = "?n1\<lparr>ng_peer_settings := Some s, ng_state := SettingsExchanged\<rparr>"
  have hello: "accept_control n (frame_bytes HELLO (hello_bytes (greeting Client exts))) = (?n1, Inr (Consumed []))"
    using accept_hello_frame [OF ok(1) extensions_ok_hello [OF peer(2), of Client]] assms(1-3) by simp
  have ack: "settings_ack_frame = Inr (frame_bytes SETTINGS_ACK [])"
    by (simp add: settings_ack_frame_def encoded_exchange_frame(2) [OF exchange_types(3), of _ 0] exchange_limits)
  have "server_reply ?n2 = Inr (answer (ng_local n) (filter (\<lambda>e. e \<in> set exts) (ng_extensions n)) (ng_challenge n))"
    using hello_frame_eq [OF extensions_ok_hello [OF extensions_ok_filter [OF ok(2)]], of Server] ok(1)
      auth_context_frame_eq [of ?n2] ok(3) peer(1)
    by (simp add: server_reply_def negotiated_extensions_def settings_frame_eq ack answer_def)
  then have "accept_control ?n1 (frame_bytes SETTINGS (pairs_bytes (advertised s))) =
    (?n2\<lparr>ng_state := concluded (ng_challenge n)\<rparr>,
     Inr (Consumed (answer (ng_local n) (filter (\<lambda>e. e \<in> set exts) (ng_extensions n)) (ng_challenge n))))"
    using assms(1,4) ok(1) peer(1) by (simp add: accept_settings_frame accept_settings_def decode_own_settings)
  with hello show ?thesis by (simp add: offer_def replies_def)
qed

lemma client_concludes:
  assumes "ng_role n = Client" "ng_state n = HelloSent" "ng_peer_hello n = None" "ng_peer_settings n = None" "\<not> ng_challenge_read n"
    and ok: "settings_ok (ng_local n)"
    and peer: "settings_ok s" "extensions_ok exts" "validate_auth_context challenge = Inr ()" "auth_context_typed challenge"
    and answers: "ac_formats challenge = [] \<or> ng_presenting n"
  shows "deliver n (answer s exts challenge) =
    (n\<lparr>ng_peer_hello := Some (greeting Server exts), ng_peer_settings := Some s, ng_challenge := challenge,
       ng_challenge_read := True, ng_state := concluded challenge\<rparr>, Inr [])"
proof -
  let ?n1 = "n\<lparr>ng_peer_hello := Some (greeting Server exts), ng_state := HelloSent\<rparr>"
  let ?n2 = "?n1\<lparr>ng_peer_settings := Some s, ng_state := SettingsExchanged\<rparr>"
  let ?n3 = "?n2\<lparr>ng_state := Negotiated\<rparr>"
  have "accept_control n (frame_bytes HELLO (hello_bytes (greeting Server exts))) = (?n1, Inr (Consumed []))"
    using accept_hello_frame [OF ok extensions_ok_hello [OF peer(2), of Server]] assms(1-3) by simp
  moreover have "accept_control ?n1 (frame_bytes SETTINGS (pairs_bytes (advertised s))) = (?n2, Inr (Consumed []))"
    using assms(1,4) ok peer(1) by (simp add: accept_settings_frame accept_settings_def decode_own_settings)
  moreover have "accept_control ?n2 (frame_bytes SETTINGS_ACK []) = (?n3, Inr (Consumed []))"
    using assms(1) ok accept_exchange_frame [OF _ exchange_types(3), of ?n2 "[]" 0]
    by (simp add: accept_frame_simps accept_settings_ack_def state_negotiated_def)
  moreover have "accept_control ?n3 (frame_bytes AUTH_CONTEXT (auth_context_item challenge)) =
    (?n3\<lparr>ng_challenge_read := True, ng_challenge := challenge, ng_state := concluded challenge\<rparr>,
     Inr (if ac_formats challenge = [] then Consumed [] else PresentationRequired))"
  proof -
    have p: "length (auth_context_item challenge) \<le> 1024" by (rule auth_context_fits [OF peer(3)])
    then have "decode_auth_context (auth_context_item challenge) = Inr challenge"
      using peer(3,4) by (subst decode_auth_context_iff) (simp_all add: u64_max_def)
    then have "accept_auth_context ?n3 (auth_context_item challenge) =
      (?n3\<lparr>ng_challenge_read := True, ng_challenge := challenge, ng_state := concluded challenge\<rparr>,
       Inr (if ac_formats challenge = [] then Consumed [] else PresentationRequired))"
      using assms(1,5) answers by (auto simp: accept_auth_context_def)
    moreover have "accept_control ?n3 (frame_bytes AUTH_CONTEXT (auth_context_item challenge)) =
        accept_frame ?n3 AUTH_CONTEXT (auth_context_item challenge)"
      using ok p by (intro accept_exchange_frame [where a = 0]) (simp_all add: exchange_types exchange_limits)
    ultimately show ?thesis by (simp add: accept_frame_simps)
  qed
  ultimately show ?thesis by (simp add: answer_def replies_def)
qed


text \<open>Two endpoints that hold the same view of an authentication that is under way.\<close>

definition in_step :: "negotiation \<Rightarrow> negotiation \<Rightarrow> bool" where
  "in_step c s \<longleftrightarrow> ng_role c = Client \<and> ng_role s = Server \<and> ng_state c = Negotiated \<and> ng_state s = Negotiated \<and>
    ng_challenge c = ng_challenge s \<and> ac_formats (ng_challenge s) \<noteq> [] \<and> ng_challenge_read c \<and> ng_presenting c \<and>
    ng_attempted c = ng_attempted s \<and> ng_open c = ng_open s \<and> settings_ok (ng_local c) \<and> settings_ok (ng_local s) \<and>
    ng_peer_settings c = Some (ng_local s) \<and> ng_peer_settings s = Some (ng_local c)"

lemma session_frame_iff:
  assumes "typed_frame_typed frame"
  shows "session_frame U frame = Inr w \<longleftrightarrow>
    (\<exists>p. payload_of U frame = Inr p \<and> length p \<le> payload_limit DEFAULT_MAX_UNKNOWN_PAYLOAD (tf_frame_type frame) \<and>
      w = frame_bytes (tf_frame_type frame) p)"
proof -
  have "session_frame U frame = Inr w \<longleftrightarrow> encode_typed U frame [] = Inr w" by (simp add: session_frame_def)
  then show ?thesis by (simp add: encoded_typed_iff [OF assms])
qed

lemma open_frame_iff:
  "session_open_typed v \<Longrightarrow> session_frame U (TfSessionOpen v) = Inr w \<longleftrightarrow>
    validate_session_open v = Inr () \<and> length (session_open_item v) \<le> 65536 \<and> w = frame_bytes SESSION_OPEN (session_open_item v)"
  by (auto simp: session_frame_iff payload_of_def encode_session_items exchange_limits)

lemma accept_frame_iff:
  "session_accept_typed v \<Longrightarrow> session_frame U (TfSessionAccept v) = Inr w \<longleftrightarrow>
    validate_session_accept v = Inr () \<and> length (session_accept_item v) \<le> 65536 \<and> w = frame_bytes SESSION_ACCEPT (session_accept_item v)"
  by (auto simp: session_frame_iff payload_of_def encode_session_items exchange_limits)

lemma reject_frame_iff:
  "session_reject_typed v \<Longrightarrow> session_frame U (TfSessionReject v) = Inr w \<longleftrightarrow>
    validate_session_reject v = Inr () \<and> length (session_reject_item v) \<le> 65536 \<and> w = frame_bytes SESSION_REJECT (session_reject_item v)"
  by (auto simp: session_frame_iff payload_of_def encode_session_items exchange_limits)

lemma accept_answer_frame:
  assumes "settings_ok (ng_local n)" "length p \<le> 65536"
  shows "accept_control n (frame_bytes SESSION_OPEN p) = accept_session_open n p"
    "accept_control n (frame_bytes SESSION_ACCEPT p) = accept_session_accept n p"
    "accept_control n (frame_bytes SESSION_REJECT p) = accept_session_reject n p"
  using accept_exchange_frame [OF assms(1) exchange_types(5), of p 0] accept_exchange_frame [OF assms(1) exchange_types(6), of p 0]
    accept_exchange_frame [OF assms(1) exchange_types(7), of p 0] assms(2)
  by (simp_all add: exchange_limits accept_frame_simps)

lemma present_iff:
  assumes "session_open_typed request"
  shows "neg_present U n request = (n', Inr frames) \<longleftrightarrow>
    pending_presentation n \<noteq> None \<and> length (ng_attempted n) < MAX_AUTHENTICATION_ATTEMPTS \<and>
    so_session_id request \<notin> set (ng_attempted n) \<and> so_capability_format request \<in> set (ac_formats (ng_challenge n)) \<and>
    binding_proof_agrees (ac_binding (ng_challenge n)) (so_binding_proof request) \<and>
    validate_session_open request = Inr () \<and> length (session_open_item request) \<le> 65536 \<and>
    (\<forall>peer. ng_peer_settings n = Some peer \<longrightarrow> length (session_open_item request) \<le> max_control_frame_payload peer) \<and>
    n' = n\<lparr>ng_attempted := ng_attempted n @ [so_session_id request], ng_refusal := None, ng_open := Some request\<rparr> \<and>
    frames = [frame_bytes SESSION_OPEN (session_open_item request)]"
proof -
  let ?out = "and_then (session_frame U (TfSessionOpen request)) (\<lambda>frame. and_then (within_peer_control_limit n frame) (\<lambda>u. Inr frame))"
  have out: "?out = Inr frame \<longleftrightarrow> validate_session_open request = Inr () \<and> length (session_open_item request) \<le> 65536 \<and>
      (\<forall>peer. ng_peer_settings n = Some peer \<longrightarrow> length (session_open_item request) \<le> max_control_frame_payload peer) \<and>
      frame = frame_bytes SESSION_OPEN (session_open_item request)" for frame
    using within_peer_limit [OF exchange_types(5), of "session_open_item request" 0 n]
    by (auto simp: open_frame_iff [OF assms] exchange_limits)
  show ?thesis
  proof (cases ?out)
    case (Inl e)
    then show ?thesis using out by (auto simp: neg_present_def)
  next
    case (Inr frame)
    then show ?thesis using out [of frame] by (auto simp: neg_present_def attempts_remaining_def)
  qed
qed

lemma small_u64: "n \<le> 65536 \<Longrightarrow> n \<le> u64_max"
  by (simp add: u64_max_def)

lemma request_arrives:
  assumes "in_step c s" "session_open_typed request" "neg_present U c request = (c', Inr frames)"
  shows "\<exists>s'. deliver s frames = (s', Inr []) \<and> in_step c' s' \<and> ng_open s' = Some request"
proof -
  note p = assms(3) [unfolded present_iff [OF assms(2)]]
  let ?s' = "s\<lparr>ng_attempted := ng_attempted s @ [so_session_id request], ng_open := Some request\<rparr>"
  have ok: "settings_ok (ng_local s)" using assms(1) by (simp add: in_step_def)
  have len: "length (session_open_item request) \<le> 65536" using p by blast
  have "decode_session_open (session_open_item request) = Inr request"
    using p assms(2) by (subst decode_session_open_iff [OF small_u64]) simp_all
  moreover have "ng_open s = None"
    using p assms(1) by (auto simp: in_step_def pending_presentation_def split: if_splits)
  ultimately have "accept_session_open s (session_open_item request) = (?s', Inr AuthorizationRequired)"
    using assms(1) p by (auto simp: accept_session_open_def in_step_def)
  then have "deliver s frames = (?s', Inr [])"
    using p by (simp add: accept_answer_frame [OF ok len] replies_def)
  moreover have "in_step c' ?s'" using assms(1) p by (simp add: in_step_def)
  ultimately show ?thesis by auto
qed

lemma grant_arrives:
  assumes "in_step c s" "ng_open s = Some request" "session_open_typed request" "neg_grant U s scope = (s', Inr frames)"
  shows "\<exists>c'. deliver c frames = (c', Inr []) \<and> ng_state c' = Authenticated \<and> ng_state s' = Authenticated \<and>
    ng_granted c' = Some \<lparr>sa_session_id = so_session_id request, sa_granted_scope = scope\<rparr> \<and> ng_granted s' = ng_granted c'"
proof -
  let ?v = "\<lparr>sa_session_id = so_session_id request, sa_granted_scope = scope\<rparr>"
  have typed: "session_accept_typed ?v" using assms(3) by (simp add: session_accept_typed_def session_open_typed_def)
  have v: "validate_session_accept ?v = Inr ()" "length (session_accept_item ?v) \<le> 65536"
      "frames = [frame_bytes SESSION_ACCEPT (session_accept_item ?v)]"
      "s' = s\<lparr>ng_granted := Some ?v, ng_open := None, ng_state := Authenticated\<rparr>"
    using assms(2,4) by (auto simp: neg_grant_def Let_def accept_frame_iff [OF typed] split: sum.splits)
  have ok: "settings_ok (ng_local c)" using assms(1) by (simp add: in_step_def)
  have "decode_session_accept (session_accept_item ?v) = Inr ?v"
    using v typed by (subst decode_session_accept_iff [OF small_u64]) simp_all
  then have "deliver c frames = (c\<lparr>ng_open := None, ng_refusal := None, ng_granted := Some ?v, ng_state := Authenticated\<rparr>, Inr [])"
    using assms(1,2) v(3)
    by (simp add: accept_answer_frame [OF ok v(2)] accept_session_accept_def answered_attempt_def in_step_def
        require_answers_attempt_def replies_def)
  then show ?thesis using v(4) by simp
qed

lemma refusal_arrives:
  assumes "in_step c s" "ng_open s = Some request" "session_open_typed request" "reason \<le> 0xffff" "utf8_ok detail"
    and "neg_refuse U s reason detail = (s', Inr frames)"
  shows "\<exists>c'. deliver c frames = (c', Inr []) \<and> in_step c' s' \<and> ng_open c' = None \<and>
    ng_refusal c' = Some \<lparr>sr_session_id = so_session_id request, sr_reason = reason, sr_detail = detail\<rparr>"
proof -
  let ?v = "\<lparr>sr_session_id = so_session_id request, sr_reason = reason, sr_detail = detail\<rparr>"
  have typed: "session_reject_typed ?v"
    using assms(3-5) by (simp add: session_reject_typed_def session_open_typed_def u64_max_def)
  have v: "validate_session_reject ?v = Inr ()" "length (session_reject_item ?v) \<le> 65536"
      "frames = [frame_bytes SESSION_REJECT (session_reject_item ?v)]" "s' = s\<lparr>ng_open := None\<rparr>"
    using assms(2,6) by (auto simp: neg_refuse_def Let_def reject_frame_iff [OF typed] split: sum.splits)
  have ok: "settings_ok (ng_local c)" using assms(1) by (simp add: in_step_def)
  have "decode_session_reject (session_reject_item ?v) = Inr ?v"
    using v typed by (subst decode_session_reject_iff [OF small_u64]) simp_all
  then have "deliver c frames = (c\<lparr>ng_open := None, ng_refusal := Some ?v\<rparr>, Inr [])"
    using assms(1,2) v(3)
    by (simp add: accept_answer_frame [OF ok v(2)] accept_session_reject_def answered_attempt_def in_step_def
        require_answers_attempt_def replies_def)
  moreover have "in_step (c\<lparr>ng_open := None, ng_refusal := Some ?v\<rparr>) s'" using assms(1) v(4) by (simp add: in_step_def)
  ultimately show ?thesis by auto
qed

section \<open>Every sequence of calls\<close>

datatype neg_call =
    NBegin
  | NAccept bytes
  | NPresent session_open
  | NGrant bytes
  | NRefuse nat bytes
  | NAbandon
  | NCarrierClosed

fun neg_step :: "unicode \<Rightarrow> negotiation \<Rightarrow> neg_call \<Rightarrow> negotiation" where
  "neg_step U n NBegin = fst (neg_begin n)"
| "neg_step U n (NAccept frame) = fst (accept_control n frame)"
| "neg_step U n (NPresent request) = fst (neg_present U n request)"
| "neg_step U n (NGrant scope) = fst (neg_grant U n scope)"
| "neg_step U n (NRefuse reason detail) = fst (neg_refuse U n reason detail)"
| "neg_step U n NAbandon = neg_abandon n"
| "neg_step U n NCarrierClosed = fst (carrier_closed n)"

definition open_ok :: "negotiation \<Rightarrow> session_open \<Rightarrow> bool" where
  "open_ok n open \<longleftrightarrow> so_session_id open \<in> set (ng_attempted n) \<and>
    so_capability_format open \<in> set (ac_formats (ng_challenge n)) \<and>
    binding_proof_agrees (ac_binding (ng_challenge n)) (so_binding_proof open) \<and>
    ng_state n \<in> {Negotiated, NegClosed} \<and> ng_peer_settings n \<noteq> None \<and> (ng_role n = Client \<longrightarrow> ng_challenge_read n)"

definition neg_inv :: "negotiation \<Rightarrow> bool" where
  "neg_inv n \<longleftrightarrow>
    distinct (ng_attempted n) \<and> length (ng_attempted n) \<le> MAX_AUTHENTICATION_ATTEMPTS \<and>
    pred_option (open_ok n) (ng_open n) \<and>
    pred_option (\<lambda>g. sa_session_id g \<in> set (ng_attempted n)) (ng_granted n) \<and>
    pred_option (\<lambda>h. hello_ok h \<and> hello_role h \<noteq> ng_role n) (ng_peer_hello n) \<and>
    pred_option settings_ok (ng_peer_settings n) \<and>
    (ng_peer_settings n \<noteq> None \<longrightarrow> ng_peer_hello n \<noteq> None) \<and>
    (ng_state n \<in> {SettingsExchanged, Negotiated, Authenticated} \<longrightarrow> ng_peer_settings n \<noteq> None) \<and>
    (ng_state n = Authenticated \<longrightarrow> ng_granted n \<noteq> None \<or> ac_formats (ng_challenge n) = [])"

lemmas inv_simps = neg_inv_def open_ok_def Let_def

lemma decode_hello_ok: "decode_hello payload role = Inr h \<Longrightarrow> hello_ok h \<and> hello_role h = role"
  using hello_roundtrip [of h payload role h] by blast

lemma decode_settings_ok: "decode_settings payload = Inr s \<Longrightarrow> settings_ok s"
  using settings_roundtrip [of s "[]" payload s] by (simp add: settings_ok_def)



text \<open>What the operations do to the state, one lemma per assignment.\<close>

lemma inv_closed: "neg_inv n \<Longrightarrow> neg_inv (n\<lparr>ng_state := NegClosed\<rparr>)"
  by (cases "ng_open n") (simp_all add: inv_simps del: not_None_eq)

lemma inv_idle: "neg_inv n \<Longrightarrow> ng_state n \<notin> {Negotiated, NegClosed} \<Longrightarrow> ng_open n = None"
  by (cases "ng_open n") (simp_all add: inv_simps del: not_None_eq)

lemma inv_begin: "neg_inv n \<Longrightarrow> ng_state n = Connecting \<Longrightarrow> st \<in> {ControlReserved, HelloSent} \<Longrightarrow> neg_inv (n\<lparr>ng_state := st\<rparr>)"
  using inv_idle [of n] by (elim insertE) (simp_all add: inv_simps del: not_None_eq)

lemma inv_hello:
  assumes "neg_inv n" "ng_state n \<in> {ControlReserved, HelloSent}" "hello_ok h" "hello_role h \<noteq> ng_role n"
  shows "neg_inv (n\<lparr>ng_peer_hello := Some h, ng_state := HelloSent\<rparr>)"
  using assms(1,3,4) inv_idle [of n] assms(2) by (elim insertE) (simp_all add: inv_simps del: not_None_eq)

lemma inv_settings:
  assumes "neg_inv n" "ng_state n = HelloSent" "ng_peer_hello n \<noteq> None" "settings_ok s"
    and "st = SettingsExchanged \<or> st = Negotiated \<or> st = Authenticated \<and> ac_formats (ng_challenge n) = []"
  shows "neg_inv (n\<lparr>ng_peer_settings := Some s, ng_state := st\<rparr>)"
  using assms(1-4) inv_idle [of n] assms(5) by (elim disjE) (simp_all add: inv_simps del: not_None_eq)

lemma inv_ack: "neg_inv n \<Longrightarrow> ng_state n = SettingsExchanged \<Longrightarrow> neg_inv (n\<lparr>ng_state := Negotiated\<rparr>)"
  using inv_idle [of n] by (simp add: inv_simps del: not_None_eq)

lemma inv_challenge:
  assumes "neg_inv n" "ng_state n = Negotiated" "ng_role n = Client" "\<not> ng_challenge_read n"
  shows "neg_inv (n\<lparr>ng_challenge_read := True, ng_challenge := c\<rparr>)"
    "ac_formats c = [] \<Longrightarrow> neg_inv (n\<lparr>ng_challenge_read := True, ng_challenge := c, ng_state := Authenticated\<rparr>)"
  using assms by (cases "ng_open n"; simp add: inv_simps del: not_None_eq)+

lemma inv_granted:
  assumes "neg_inv n" "ng_open n = Some open" "sa_session_id g = so_session_id open"
  shows "neg_inv (n\<lparr>ng_granted := Some g, ng_open := None, ng_state := Authenticated\<rparr>)"
  using assms by (simp add: inv_simps del: not_None_eq)

lemma inv_refusal: "neg_inv (n\<lparr>ng_refusal := r\<rparr>) = neg_inv n"
  by (simp add: neg_inv_def open_ok_def [abs_def])

lemma inv_answered: "neg_inv n \<Longrightarrow> neg_inv (n\<lparr>ng_open := None\<rparr>)"
  by (simp add: inv_simps del: not_None_eq)

lemma inv_open:
  assumes "neg_inv n" "ng_state n = Negotiated" "so_session_id open \<notin> set (ng_attempted n)"
    and "length (ng_attempted n) < MAX_AUTHENTICATION_ATTEMPTS" "so_capability_format open \<in> set (ac_formats (ng_challenge n))"
    and "binding_proof_agrees (ac_binding (ng_challenge n)) (so_binding_proof open)" "ng_role n = Client \<longrightarrow> ng_challenge_read n"
  shows "neg_inv (n\<lparr>ng_attempted := ng_attempted n @ [so_session_id open], ng_open := Some open\<rparr>)"
  using assms by (cases "ng_granted n") (simp_all add: inv_simps del: not_None_eq)

lemma accept_hello_inv:
  assumes "neg_inv n"
  shows "neg_inv (fst (accept_hello n payload))"
proof (cases "decode_hello payload (case ng_role n of Server \<Rightarrow> Client | Client \<Rightarrow> Server)")
  case (Inr h)
  with decode_hello_ok [OF Inr] show ?thesis
    using assms inv_hello [OF assms, of h] by (cases "ng_role n") (simp_all add: accept_hello_def)
qed (use assms in \<open>cases "ng_role n"; simp add: accept_hello_def\<close>)

lemma accept_settings_inv:
  assumes "neg_inv n"
  shows "neg_inv (fst (accept_settings n payload))"
proof (cases "decode_settings payload")
  case (Inr s)
  show ?thesis
    using assms Inr inv_settings [OF assms _ _ decode_settings_ok [OF Inr], of SettingsExchanged]
      inv_settings [OF assms _ _ decode_settings_ok [OF Inr], of Negotiated]
      inv_settings [OF assms _ _ decode_settings_ok [OF Inr], of Authenticated]
    by (cases "ng_role n"; cases "server_reply (n\<lparr>ng_peer_settings := Some s, ng_state := SettingsExchanged\<rparr>)")
      (simp_all add: accept_settings_def del: not_None_eq)
qed (use assms in \<open>simp add: accept_settings_def\<close>)

lemma accept_settings_ack_inv: "neg_inv n \<Longrightarrow> neg_inv (fst (accept_settings_ack n))"
  using inv_ack [of n] by (simp add: accept_settings_ack_def)

lemma accept_auth_context_inv: "neg_inv n \<Longrightarrow> neg_inv (fst (accept_auth_context n payload))"
  using inv_challenge [of n] by (cases "decode_auth_context payload") (simp_all add: accept_auth_context_def)

lemma answered_attempt_iff: "answered_attempt n t = Inr i \<longleftrightarrow>
  ng_role n = Client \<and> ng_state n = Negotiated \<and> (\<exists>open. ng_open n = Some open \<and> i = so_session_id open)"
  by (cases "ng_role n"; cases "ng_state n"; cases "ng_open n") (auto simp: answered_attempt_def)

lemma require_answers_iff: "require_answers_attempt a b = Inr u \<longleftrightarrow> a = b"
  by (simp add: require_answers_attempt_def)

lemma accept_session_accept_inv:
  assumes "neg_inv n"
  shows "neg_inv (fst (accept_session_accept n payload))"
proof -
  let ?go = "and_then (answered_attempt n SESSION_ACCEPT) (\<lambda>attempt.
    and_then (map_err (\<lambda>e. session_error_new (SessionAnswerInvalid SESSION_ACCEPT) MALFORMED_FRAME) (decode_session_accept payload)) (\<lambda>accept.
    and_then (require_answers_attempt (sa_session_id accept) attempt) (\<lambda>u. Inr accept)))"
  show ?thesis
  proof (cases ?go)
    case (Inr g)
    then obtain req where "ng_open n = Some req" "sa_session_id g = so_session_id req"
      by (auto simp: answered_attempt_iff require_answers_iff)
    note granted = inv_granted [OF assms this]
    have "n\<lparr>ng_open := None, ng_refusal := None, ng_granted := Some g, ng_state := Authenticated\<rparr> =
        n\<lparr>ng_granted := Some g, ng_open := None, ng_state := Authenticated, ng_refusal := None\<rparr>" by simp
    with granted have "neg_inv (n\<lparr>ng_open := None, ng_refusal := None, ng_granted := Some g, ng_state := Authenticated\<rparr>)"
      by (simp only: inv_refusal)
    then show ?thesis unfolding accept_session_accept_def Inr by simp
  qed (use assms in \<open>simp add: accept_session_accept_def\<close>)
qed

lemma accept_session_reject_inv:
  assumes "neg_inv n"
  shows "neg_inv (fst (accept_session_reject n payload))"
proof -
  have "neg_inv (n\<lparr>ng_open := None, ng_refusal := r\<rparr>)" for r
    using inv_refusal [of r "n\<lparr>ng_open := None\<rparr>"] inv_answered [OF assms] by simp
  then show ?thesis using assms by (simp add: accept_session_reject_def split: sum.split)
qed

lemma accept_session_open_inv: "neg_inv n \<Longrightarrow> neg_inv (fst (accept_session_open n payload))"
  using inv_open [of n] by (simp add: accept_session_open_def not_le split: sum.split)

lemma accept_control_inv: "neg_inv n \<Longrightarrow> neg_inv (fst (accept_control n frame))"
  by (simp add: accept_control_def accept_frame_def Let_def accept_hello_inv accept_settings_inv accept_settings_ack_inv
      accept_auth_context_inv accept_session_accept_inv accept_session_reject_inv accept_session_open_inv
      split: sum.split prod.split decoded_frame.split)

lemma neg_begin_inv: "neg_inv n \<Longrightarrow> neg_inv (fst (neg_begin n))"
  using inv_begin [of n ControlReserved] inv_begin [of n HelloSent] by (simp add: neg_begin_def Let_def split: sum.split)

lemma pending_presentation_iff: "pending_presentation n = Some c \<longleftrightarrow> ng_role n = Client \<and> ng_state n = Negotiated \<and>
  ng_presenting n \<and> ng_challenge_read n \<and> ng_open n = None \<and> c = ng_challenge n"
  by (auto simp: pending_presentation_def)

lemma neg_present_inv:
  assumes "neg_inv n"
  shows "neg_inv (fst (neg_present U n request))"
proof -
  have swap: "n\<lparr>ng_attempted := xs, ng_refusal := None, ng_open := Some request\<rparr> =
      n\<lparr>ng_attempted := xs, ng_open := Some request, ng_refusal := None\<rparr>" for xs by simp
  have "neg_inv (n\<lparr>ng_attempted := ng_attempted n @ [so_session_id request], ng_refusal := None, ng_open := Some request\<rparr>)"
    if "pending_presentation n \<noteq> None" "attempts_remaining n \<noteq> 0" "so_session_id request \<notin> set (ng_attempted n)"
      "so_capability_format request \<in> set (ac_formats (ng_challenge n))"
      "binding_proof_agrees (ac_binding (ng_challenge n)) (so_binding_proof request)"
    unfolding swap inv_refusal using inv_open [OF assms, of request] that
    by (auto simp: pending_presentation_iff attempts_remaining_def)
  then show ?thesis using assms by (simp add: neg_present_def del: not_None_eq split: sum.split)
qed

lemma neg_answer_inv:
  assumes "neg_inv n"
  shows "neg_inv (fst (neg_grant U n scope))" "neg_inv (fst (neg_refuse U n reason detail))"
  using assms inv_granted [OF assms] inv_answered [OF assms]
  by (simp_all add: neg_grant_def neg_refuse_def Let_def split: sum.split option.split)

lemma neg_close_inv: "neg_inv n \<Longrightarrow> neg_inv (neg_abandon n)" "neg_inv n \<Longrightarrow> neg_inv (fst (carrier_closed n))"
  by (simp_all add: neg_abandon_def carrier_closed_def Let_def inv_closed)

interpretation exchange: machine "neg_step U" neg_inv for U
proof
  fix n c assume "neg_inv n"
  then show "neg_inv (neg_step U n c)"
    by (cases c) (simp_all add: accept_control_inv neg_begin_inv neg_present_inv neg_answer_inv neg_close_inv)
qed

lemma negotiation_new_inv: "neg_inv (negotiation_new role local exts challenge presenting)"
  by (simp add: neg_inv_def negotiation_new_def)

section \<open>What authenticates a server\<close>

text \<open>At a server a frame is refused or ignored, or it is one of three that change the state.\<close>

definition server_takes :: "negotiation \<Rightarrow> negotiation \<Rightarrow> bool" where
  "server_takes n n' \<longleftrightarrow> n' = n \<or> (\<exists>h. n' = n\<lparr>ng_peer_hello := Some h, ng_state := HelloSent\<rparr>) \<or>
    (\<exists>s st. (st = Authenticated \<longrightarrow> ac_formats (ng_challenge n) = []) \<and> n' = n\<lparr>ng_peer_settings := Some s, ng_state := st\<rparr>) \<or>
    (\<exists>request. n' = n\<lparr>ng_attempted := ng_attempted n @ [so_session_id request], ng_open := Some request\<rparr>)"

lemma server_takes_refl: "server_takes n n"
  by (simp add: server_takes_def)

lemma server_takes_settings:
  "st \<noteq> Authenticated \<or> ac_formats (ng_challenge n) = [] \<Longrightarrow> server_takes n (n\<lparr>ng_peer_settings := Some s, ng_state := st\<rparr>)"
  unfolding server_takes_def by blast

lemma server_accepts:
  assumes "ng_role n = Server"
  shows "server_takes n (fst (accept_frame n t payload))"
proof -
  have idle: "fst (accept_settings_ack n) = n" "fst (accept_auth_context n payload) = n"
      "fst (accept_session_accept n payload) = n" "fst (accept_session_reject n payload) = n"
    using assms by (simp_all add: accept_settings_ack_def accept_auth_context_def accept_session_accept_def
        accept_session_reject_def answered_attempt_def)
  have hello: "server_takes n (fst (accept_hello n payload))"
  proof (cases "decode_hello payload Client")
    case (Inr h)
    have "server_takes n (n\<lparr>ng_peer_hello := Some h, ng_state := HelloSent\<rparr>)" unfolding server_takes_def by blast
    then show ?thesis using assms Inr server_takes_refl by (simp add: accept_hello_def)
  qed (use assms server_takes_refl in \<open>simp add: accept_hello_def\<close>)
  have settings: "server_takes n (fst (accept_settings n payload))"
  proof (cases "decode_settings payload")
    case (Inr s)
    let ?n = "n\<lparr>ng_peer_settings := Some s, ng_state := SettingsExchanged\<rparr>"
    show ?thesis using assms Inr server_takes_refl server_takes_settings [of _ n s]
      by (cases "server_reply ?n") (simp_all add: accept_settings_def)
  qed (use assms server_takes_refl in \<open>simp add: accept_settings_def\<close>)
  have "server_takes n (fst (accept_session_open n payload))"
  proof (cases "decode_session_open payload")
    case (Inr request)
    have "server_takes n (n\<lparr>ng_attempted := ng_attempted n @ [so_session_id request], ng_open := Some request\<rparr>)"
      unfolding server_takes_def by blast
    then show ?thesis using Inr server_takes_refl by (simp add: accept_session_open_def)
  qed (use server_takes_refl in \<open>simp add: accept_session_open_def\<close>)
  then show ?thesis using idle hello settings server_takes_refl by (simp add: accept_frame_def)
qed

lemma server_accepts_control:
  assumes "ng_role n = Server"
  shows "server_takes n (fst (accept_control n frame))"
  using server_accepts [OF assms] server_takes_refl
  by (simp add: accept_control_def Let_def split: sum.split prod.split decoded_frame.split)

definition server_grants :: "negotiation \<Rightarrow> neg_call \<Rightarrow> negotiation \<Rightarrow> bool" where
  "server_grants n c n' \<longleftrightarrow> (\<exists>scope request. c = NGrant scope \<and> ng_open n = Some request \<and>
    n' = n\<lparr>ng_granted := Some \<lparr>sa_session_id = so_session_id request, sa_granted_scope = scope\<rparr>, ng_open := None,
      ng_state := Authenticated\<rparr>)"

lemma server_step:
  assumes "ng_role n = Server"
  shows "server_takes n (neg_step U n c) \<or> server_grants n c (neg_step U n c) \<or> neg_step U n c = n\<lparr>ng_open := None\<rparr> \<or>
    (\<exists>st. st \<noteq> Authenticated \<and> neg_step U n c = n\<lparr>ng_state := st\<rparr>)"
proof (cases c)
  case NBegin
  have "neg_step U n c = n \<or> neg_step U n c = n\<lparr>ng_state := ControlReserved\<rparr>"
    using assms by (simp add: NBegin neg_begin_def)
  then show ?thesis using server_takes_refl by fastforce
next
  case (NAccept frame)
  then show ?thesis using server_accepts_control [OF assms] by simp
next
  case (NPresent request)
  then show ?thesis using assms server_takes_refl by (simp add: neg_present_def pending_presentation_def)
next
  case (NGrant scope)
  show ?thesis
  proof (cases "ng_open n")
    case None
    then show ?thesis using server_takes_refl by (simp add: NGrant neg_grant_def)
  next
    case (Some request)
    have "neg_step U n c = n \<or> server_grants n c (neg_step U n c)"
      using Some by (simp add: NGrant neg_grant_def server_grants_def Let_def split: sum.split)
    then show ?thesis using server_takes_refl [of n] by (elim disjE) simp_all
  qed
next
  case (NRefuse reason detail)
  have "neg_step U n c = n \<or> neg_step U n c = n\<lparr>ng_open := None\<rparr>"
    by (simp add: NRefuse neg_refuse_def Let_def split: sum.split option.split)
  then show ?thesis using server_takes_refl [of n] by (elim disjE) simp_all
next
  case NAbandon
  then have "neg_step U n c = n\<lparr>ng_state := NegClosed\<rparr>" by (simp add: neg_abandon_def)
  then show ?thesis by blast
next
  case NCarrierClosed
  have "neg_step U n c = n\<lparr>ng_state := NegClosed\<rparr>" by (simp add: NCarrierClosed carrier_closed_def Let_def)
  then show ?thesis by blast
qed

lemma server_step_keeps:
  assumes "ng_role n = Server"
  shows "ng_role (neg_step U n c) = Server" "ng_challenge (neg_step U n c) = ng_challenge n"
  using server_step [OF assms, of U c] assms unfolding server_takes_def server_grants_def by auto

lemma only_grant_authenticates:
  assumes "ng_role n = Server" "ac_formats (ng_challenge n) \<noteq> []" "ng_state n \<noteq> Authenticated" "ng_state (neg_step U n c) = Authenticated"
  shows "server_grants n c (neg_step U n c)"
  using server_step [OF assms(1), of U c] assms(2-4) unfolding server_takes_def by auto

lemma granted_stays:
  assumes "neg_inv n" "ng_role n = Server" "ng_state n = Authenticated"
  shows "ng_granted (neg_step U n c) = ng_granted n"
proof -
  have "ng_open n = None" using inv_idle [OF assms(1)] assms(3) by simp
  then show ?thesis
    using server_step [OF assms(2), of U c] unfolding server_takes_def server_grants_def by auto
qed

lemma server_run_keeps:
  "ng_role n = Server \<Longrightarrow> ng_role (foldl (neg_step U) n calls) = Server \<and> ng_challenge (foldl (neg_step U) n calls) = ng_challenge n"
  by (induction calls arbitrary: n) (simp_all add: server_step_keeps)

lemma same_extensions:
  assumes "extensions_ok xs" "extensions_ok ys"
  shows "filter (\<lambda>e. e \<in> set xs \<and> e \<in> set ys) xs = filter (\<lambda>e. e \<in> set xs) ys"
proof (rule sorted_distinct_set_unique)
  have "sorted_wrt (<) xs" "sorted_wrt (<) ys" using assms by (simp_all add: extensions_ok_def)
  then show "sorted (filter (\<lambda>e. e \<in> set xs \<and> e \<in> set ys) xs)" "sorted (filter (\<lambda>e. e \<in> set xs) ys)"
      "distinct (filter (\<lambda>e. e \<in> set xs \<and> e \<in> set ys) xs)" "distinct (filter (\<lambda>e. e \<in> set xs) ys)"
    by (simp_all add: strict_sorted_iff sorted_wrt_filter sorted_filter [where f = "\<lambda>x. x", simplified])
qed auto

text \<open>\<open>grant\<close> consults the pending request and not the state: an exchange that was abandoned while a
  request was pending is authenticated by it all the same.\<close>

lemma grant_ignores_closed:
  assumes "neg_grant U n scope = (n', Inr frames)"
  shows "neg_grant U (neg_abandon n) scope = (n', Inr frames)" "neg_ready n'"
proof -
  have "within_peer_control_limit (neg_abandon n) frame = within_peer_control_limit n frame" for frame
    by (simp add: within_peer_control_limit_def neg_abandon_def)
  moreover have "ng_open (neg_abandon n) = ng_open n" by (simp add: neg_abandon_def)
  ultimately show "neg_grant U (neg_abandon n) scope = (n', Inr frames)" "neg_ready n'"
    using assms by (auto simp: neg_grant_def Let_def neg_ready_def state_ready_def neg_abandon_def split: option.splits sum.splits)
qed

section \<open>A session to look at\<close>

definition example_challenge :: auth_context where
  "example_challenge = \<lparr>ac_nonce = replicate 32 7, ac_binding = NoBinding, ac_formats = [2]\<rparr>"

definition example_request :: session_open where
  "example_request = \<lparr>so_session_id = replicate 16 1, so_capability_format = 2, so_capability = [3], so_requested_scope = [],
    so_binding_proof = []\<rparr>"

definition example_server :: negotiation where
  "example_server = (neg_server default_settings [0, 8] example_challenge)
    \<lparr>ng_peer_hello := Some (greeting Client [1, 8]), ng_peer_settings := Some default_settings, ng_state := Negotiated\<rparr>"

definition example_client :: negotiation where
  "example_client = (neg_presenting_client default_settings [1, 8])
    \<lparr>ng_peer_hello := Some (greeting Server [8]), ng_peer_settings := Some default_settings, ng_challenge := example_challenge,
     ng_challenge_read := True, ng_state := Negotiated\<rparr>"

lemma example_challenge_ok: "validate_auth_context example_challenge = Inr ()" "auth_context_typed example_challenge"
  by (simp_all add: example_challenge_def validate_auth_context_def auth_context_typed_def MIN_AUTH_NONCE_def MAX_AUTH_NONCE_def
      MAX_CAPABILITY_FORMATS_def MAX_CAPABILITY_FORMAT_def u64_max_def)

lemma example_extensions_ok: "extensions_ok [1, 8]" "extensions_ok [0, 8]"
  by (simp_all add: extensions_ok_def MAX_EXTENSIONS_PER_HELLO_def MAX_QUIC_VARINT_def)

lemma example_in_step: "in_step example_client example_server"
  using settings_ok_default
  by (simp add: in_step_def example_client_def example_server_def neg_presenting_client_def neg_server_def negotiation_new_def
      example_challenge_def)

lemma example_request_typed: "session_open_typed example_request"
  by (simp add: example_request_def session_open_typed_def u64_max_def)

lemma example_request_ok: "validate_session_open example_request = Inr ()" "length (session_open_item example_request) \<le> 64"
  by (simp_all add: example_request_def validate_session_open_def session_open_item_def length_items head_len_def
      MAX_CAPABILITY_FORMAT_def MAX_CAPABILITY_BYTES_def MAX_SCOPE_BYTES_def)

lemma example_presented: "\<exists>c1. neg_present U example_client example_request = (c1, Inr [frame_bytes SESSION_OPEN (session_open_item example_request)])"
proof -
  have "pending_presentation example_client = Some example_challenge"
    by (simp add: pending_presentation_iff example_client_def neg_presenting_client_def negotiation_new_def)
  moreover have "ng_peer_settings example_client = Some default_settings" "ng_attempted example_client = []"
      "ng_challenge example_client = example_challenge"
    by (simp_all add: example_client_def neg_presenting_client_def negotiation_new_def)
  moreover have "so_capability_format example_request \<in> set (ac_formats example_challenge)"
      "binding_proof_agrees (ac_binding example_challenge) (so_binding_proof example_request)" "64 \<le> max_control_frame_payload default_settings"
    by (simp_all add: example_challenge_def example_request_def binding_proof_agrees_def default_settings_def)
  ultimately show ?thesis using example_request_ok
    by (simp add: present_iff [OF example_request_typed] MAX_AUTHENTICATION_ATTEMPTS_def)
qed

lemma deliver_run: "deliver n frames = (n', Inr sent_back) \<Longrightarrow> foldl (neg_step U) n (map NAccept frames) = n'"
  by (induction n frames arbitrary: sent_back rule: deliver.induct) (auto split: prod.splits sum.splits)

definition example_calls :: "neg_call list" where
  "example_calls = NBegin # map NAccept (offer default_settings [1, 8]) @ [NAccept (frame_bytes SESSION_OPEN (session_open_item example_request)), NGrant []]"

lemma example_run: "neg_ready (foldl (neg_step U) (neg_server default_settings [0, 8] example_challenge) example_calls)"
proof -
  let ?n = "neg_server default_settings [0, 8] example_challenge"
  let ?started = "?n\<lparr>ng_state := ControlReserved\<rparr>"
  have begun: "neg_step U ?n NBegin = ?started" by (simp add: neg_begin_def neg_server_def negotiation_new_def)
  have "deliver ?started (offer default_settings [1, 8]) =
      (example_server, Inr (answer default_settings [8] example_challenge))"
    using server_answers [of ?started default_settings "[1, 8]"] settings_ok_default example_challenge_ok example_extensions_ok
    by (simp add: neg_server_def negotiation_new_def example_server_def) (simp add: example_challenge_def)
  note offered = deliver_run [OF this, of U]
  obtain c1 where "neg_present U example_client example_request = (c1, Inr [frame_bytes SESSION_OPEN (session_open_item example_request)])"
    using example_presented by blast
  from request_arrives [OF example_in_step example_request_typed this] obtain s1
    where s1: "deliver example_server [frame_bytes SESSION_OPEN (session_open_item example_request)] = (s1, Inr [])"
      "in_step c1 s1" "ng_open s1 = Some example_request" by blast
  let ?v = "\<lparr>sa_session_id = so_session_id example_request, sa_granted_scope = []\<rparr>"
  have v: "session_accept_typed ?v" "validate_session_accept ?v = Inr ()" "length (session_accept_item ?v) \<le> 64"
    by (simp_all add: example_request_def session_accept_typed_def validate_session_accept_def session_accept_item_def length_items
        head_len_def MAX_SCOPE_BYTES_def)
  have "session_frame U (TfSessionAccept ?v) = Inr (frame_bytes SESSION_ACCEPT (session_accept_item ?v))"
    using v(2,3) by (simp add: accept_frame_iff [OF v(1)])
  moreover have "within_peer_control_limit s1 (frame_bytes SESSION_ACCEPT (session_accept_item ?v)) = Inr ()"
    using v(3) s1(2) settings_ok_control
    by (subst within_peer_limit [OF exchange_types(6), where a = 0]) (fastforce simp: exchange_limits in_step_def)+
  ultimately have "neg_ready (neg_step U s1 (NGrant []))"
    using s1(3) by (simp add: neg_grant_def neg_ready_def state_ready_def Let_def)
  moreover have "neg_step U example_server (NAccept (frame_bytes SESSION_OPEN (session_open_item example_request))) = s1"
    using deliver_run [OF s1(1), of U] by simp
  ultimately show ?thesis
    using offered by (simp add: example_calls_def begun del: neg_step.simps)
qed

section \<open>Properties\<close>

text \<open>C12. The handshake completes: whatever in-range settings, extensions and challenge two endpoints
  have, delivering the client's offer to the server and the server's answer to the client leaves
  both at the same point, authenticated when no capability is asked for, each holding the other's
  settings, and both with one set of negotiated extensions, those they have in common.\<close>

theorem handshake_completes:
  assumes "settings_ok cs" "settings_ok ss" "extensions_ok ce" "extensions_ok se"
    and "validate_auth_context challenge = Inr ()" "auth_context_typed challenge" "ac_formats challenge = [] \<or> presenting"
  shows "\<exists>c frames s back c'.
    neg_begin (negotiation_new Client cs ce (no_capability (replicate 32 0)) presenting) = (c, Inr frames) \<and>
    deliver (fst (neg_begin (neg_server ss se challenge))) frames = (s, Inr back) \<and> deliver c back = (c', Inr []) \<and>
    ng_state c' = (if ac_formats challenge = [] then Authenticated else Negotiated) \<and> ng_state s = ng_state c' \<and>
    ng_peer_settings c' = Some ss \<and> ng_peer_settings s = Some cs \<and>
    negotiated_extensions c' = negotiated_extensions s \<and> set (negotiated_extensions s) = set ce \<inter> set se \<and>
    (ac_formats challenge \<noteq> [] \<longrightarrow> in_step c' s)"
proof -
  let ?client = "negotiation_new Client cs ce (no_capability (replicate 32 0)) presenting" and ?server = "neg_server ss se challenge"
  let ?both = "filter (\<lambda>e. e \<in> set ce) se"
  let ?c = "?client\<lparr>ng_state := HelloSent\<rparr>" and ?started = "?server\<lparr>ng_state := ControlReserved\<rparr>"
  let ?s = "?started\<lparr>ng_peer_hello := Some (greeting Client ce), ng_peer_settings := Some cs, ng_state := concluded challenge\<rparr>"
  let ?done_client = "?c\<lparr>ng_peer_hello := Some (greeting Server ?both), ng_peer_settings := Some ss, ng_challenge := challenge,
    ng_challenge_read := True, ng_state := concluded challenge\<rparr>"
  note new = negotiation_new_def neg_server_def
  have "neg_begin ?client = (?c, Inr (offer cs ce))" using client_begins [of ?client] assms(1,3) by (simp add: new)
  moreover have "fst (neg_begin ?server) = ?started" by (simp add: neg_begin_def new)
  moreover have "deliver ?started (offer cs ce) = (?s, Inr (answer ss ?both challenge))"
    using server_answers [of ?started cs ce] assms(1-5) by (simp add: new)
  moreover have "deliver ?c (answer ss ?both challenge) = (?done_client, Inr [])"
    using client_concludes [of ?c ss ?both challenge] assms extensions_ok_filter [OF assms(4)] by (simp add: new)
  moreover have "negotiated_extensions ?done_client = negotiated_extensions ?s" "set (negotiated_extensions ?s) = set ce \<inter> set se"
    using same_extensions [OF assms(3,4)] by (auto simp: negotiated_extensions_def new conj_commute)
  moreover have "ac_formats challenge \<noteq> [] \<longrightarrow> in_step ?done_client ?s" using assms by (auto simp: in_step_def new)
  ultimately show ?thesis by (intro exI [of _ ?c] exI [of _ "offer cs ce"] exI [of _ ?s] exI [of _ "answer ss ?both challenge"] exI [of _ ?done_client])
      (simp add: new)
qed

theorem handshake_completes_witness:
  "\<exists>c frames s back c'. neg_begin (neg_client default_settings [1, 8]) = (c, Inr frames) \<and>
    deliver (fst (neg_begin (neg_server default_settings [0, 8] (no_capability (replicate 32 7))))) frames = (s, Inr back) \<and>
    deliver c back = (c', Inr []) \<and> neg_ready c' \<and> neg_ready s \<and> set (negotiated_extensions s) = {8}"
proof -
  let ?challenge = "no_capability (replicate 32 7)"
  have ok: "validate_auth_context ?challenge = Inr ()" "auth_context_typed ?challenge" "ac_formats ?challenge = [] \<or> False"
    by (simp_all add: no_capability_def validate_auth_context_def auth_context_typed_def MIN_AUTH_NONCE_def MAX_AUTH_NONCE_def
        MAX_CAPABILITY_FORMATS_def)
  show ?thesis
    using handshake_completes [OF settings_ok_default settings_ok_default example_extensions_ok ok] ok(3)
    by (fastforce simp: neg_client_def neg_ready_def state_ready_def)
qed

text \<open>C38. An authentication attempt reaches its answer: what the client presents is what the server's
  policy is asked about; a grant authenticates both ends, which then hold the same grant; and a
  refusal leaves both ready for the next attempt, the client knowing why.\<close>

theorem attempt_is_answered:
  assumes "in_step c s" "session_open_typed request" "neg_present U c request = (c1, Inr frames)"
  shows "\<exists>s1. deliver s frames = (s1, Inr []) \<and> pending_authorization s1 = Some (ng_challenge c, request) \<and>
    (\<forall>scope s2 back. neg_grant U s1 scope = (s2, Inr back) \<longrightarrow>
      (\<exists>c2. deliver c1 back = (c2, Inr []) \<and> neg_ready c2 \<and> neg_ready s2 \<and> ng_granted c2 = ng_granted s2 \<and>
        ng_granted c2 = Some \<lparr>sa_session_id = so_session_id request, sa_granted_scope = scope\<rparr>)) \<and>
    (\<forall>reason detail s2 back. neg_refuse U s1 reason detail = (s2, Inr back) \<and> reason \<le> 0xffff \<and> utf8_ok detail \<longrightarrow>
      (\<exists>c2. deliver c1 back = (c2, Inr []) \<and> in_step c2 s2 \<and> pending_presentation c2 = Some (ng_challenge c) \<and>
        ng_refusal c2 = Some \<lparr>sr_session_id = so_session_id request, sr_reason = reason, sr_detail = detail\<rparr>))"
proof -
  obtain s1 where s1: "deliver s frames = (s1, Inr [])" "in_step c1 s1" "ng_open s1 = Some request"
    using request_arrives [OF assms] by blast
  have same: "ng_challenge c1 = ng_challenge c" using assms(3) by (auto simp: present_iff [OF assms(2)])
  have "pending_authorization s1 = Some (ng_challenge c, request)"
    using s1(2,3) same by (simp add: pending_authorization_def in_step_def)
  moreover have "\<exists>c2. deliver c1 sent_back = (c2, Inr []) \<and> neg_ready c2 \<and> neg_ready s2 \<and> ng_granted c2 = ng_granted s2 \<and>
        ng_granted c2 = Some \<lparr>sa_session_id = so_session_id request, sa_granted_scope = scope\<rparr>"
    if "neg_grant U s1 scope = (s2, Inr sent_back)" for scope s2 sent_back
    using grant_arrives [OF s1(2,3) assms(2) that] by (force simp: neg_ready_def state_ready_def)
  moreover have "\<exists>c2. deliver c1 sent_back = (c2, Inr []) \<and> in_step c2 s2 \<and> pending_presentation c2 = Some (ng_challenge c) \<and>
        ng_refusal c2 = Some \<lparr>sr_session_id = so_session_id request, sr_reason = reason, sr_detail = detail\<rparr>"
    if r: "neg_refuse U s1 reason detail = (s2, Inr sent_back)" "reason \<le> 0xffff" "utf8_ok detail" for reason detail s2 sent_back
  proof -
    obtain c2 where c2: "deliver c1 sent_back = (c2, Inr [])" "in_step c2 s2" "ng_open c2 = None"
        "ng_refusal c2 = Some \<lparr>sr_session_id = so_session_id request, sr_reason = reason, sr_detail = detail\<rparr>"
      using refusal_arrives [OF s1(2,3) assms(2) r(2,3,1)] by blast
    have "ng_challenge s2 = ng_challenge s1" using r(1) s1(3) by (auto simp: neg_refuse_def Let_def split: sum.splits)
    then have "ng_challenge c2 = ng_challenge c" using c2(2) s1(2) same by (simp add: in_step_def)
    then show ?thesis using c2 by (auto simp: pending_presentation_iff in_step_def)
  qed
  ultimately show ?thesis using s1(1) by blast
qed

theorem attempt_is_answered_witness:
  "\<exists>s1. deliver example_server [frame_bytes SESSION_OPEN (session_open_item example_request)] = (s1, Inr []) \<and>
    pending_authorization s1 = Some (example_challenge, example_request)"
proof -
  have "ng_challenge example_client = example_challenge" by (simp add: example_client_def)
  then show ?thesis
    using example_presented attempt_is_answered [OF example_in_step example_request_typed] by metis
qed

text \<open>C13. A server that asks for a capability is authenticated by its policy alone: after any sequence
  of calls and whatever frames the peer sends, it is ready only if its caller granted a request,
  one that named a format the server offered and carried the proof its challenge asks for, and
  that grant is the one it holds.\<close>

theorem authentication_is_earned:
  assumes "ac_formats challenge \<noteq> []" "neg_ready (foldl (neg_step U) (neg_server local exts challenge) calls)"
  shows "\<exists>before scope after request.
    calls = before @ NGrant scope # after \<and>
    ng_open (foldl (neg_step U) (neg_server local exts challenge) before) = Some request \<and>
    so_capability_format request \<in> set (ac_formats challenge) \<and>
    binding_proof_agrees (ac_binding challenge) (so_binding_proof request) \<and>
    ng_granted (foldl (neg_step U) (neg_server local exts challenge) calls) =
      Some \<lparr>sa_session_id = so_session_id request, sa_granted_scope = scope\<rparr>"
  using assms(2)
proof (induction calls rule: rev_induct)
  case Nil
  then show ?case by (simp add: neg_server_def negotiation_new_def neg_ready_def state_ready_def)
next
  case (snoc call calls)
  let ?n = "foldl (neg_step U) (neg_server local exts challenge) calls"
  have server: "ng_role ?n = Server" "ng_challenge ?n = challenge"
    using server_run_keeps [of "neg_server local exts challenge" U calls] by (simp_all add: neg_server_def negotiation_new_def)
  have inv: "neg_inv ?n" using exchange.run_inv [OF negotiation_new_inv] by (simp add: neg_server_def)
  show ?case
  proof (cases "neg_ready ?n")
    case True
    then have "ng_granted (neg_step U ?n call) = ng_granted ?n"
      using granted_stays [OF inv server(1)] by (simp add: neg_ready_def state_ready_def)
    moreover obtain pre scope post request where split: "calls = pre @ NGrant scope # post"
        and open_pre: "ng_open (foldl (neg_step U) (neg_server local exts challenge) pre) = Some request"
        and good: "so_capability_format request \<in> set (ac_formats challenge)"
          "binding_proof_agrees (ac_binding challenge) (so_binding_proof request)"
        and granted: "ng_granted ?n = Some \<lparr>sa_session_id = so_session_id request, sa_granted_scope = scope\<rparr>"
      using snoc.IH [OF True] by auto
    ultimately show ?thesis
      by (intro exI [of _ pre] exI [of _ scope] exI [of _ "post @ [call]"] exI [of _ request]) simp
  next
    case False
    then have "server_grants ?n call (neg_step U ?n call)"
      using snoc.prems assms(1) server by (intro only_grant_authenticates) (simp_all add: neg_ready_def state_ready_def)
    then obtain scope request where g: "call = NGrant scope" "ng_open ?n = Some request"
        "ng_granted (neg_step U ?n call) = Some \<lparr>sa_session_id = so_session_id request, sa_granted_scope = scope\<rparr>"
      by (auto simp: server_grants_def)
    then show ?thesis using inv server(2)
      by (intro exI [of _ calls] exI [of _ scope] exI [of _ "[]"] exI [of _ request]) (simp add: neg_inv_def open_ok_def)
  qed
qed

theorem authentication_is_earned_witness:
  "\<exists>before scope after request. example_calls = before @ NGrant scope # after \<and>
    ng_open (foldl (neg_step ascii_unicode) (neg_server default_settings [0, 8] example_challenge) before) = Some request \<and>
    so_capability_format request \<in> {2}"
proof -
  have "ac_formats example_challenge \<noteq> []" by (simp add: example_challenge_def)
  from authentication_is_earned [OF this example_run, of ascii_unicode] show ?thesis
    by (fastforce simp: example_challenge_def)
qed

end
