(* ===== verification/Spec2Isabelle.thy ===== *)
theory Spec2Isabelle
  imports Commit_Model Coverage Cbor Frame_Codec Resume_Tracker Signed_Note Journal Fec_Delivery
    Session_Frames Object_Frames Transfer_Frames Fec_Frames Receipt_Chain Manifest_Ingest
    Typed_Frames Negotiation
begin

text \<open>
  VOT moves large objects over unreliable networks and reports, step by step, how sure it is that
  they arrived. This development models the parts of it that decide something: what may be called
  published, which bytes are covered, what the bytes on the wire mean, what survives a crash, what
  a transparency log proves, and what an erasure-coded stream delivers.

  \<^bold>\<open>The parts and where they are.\<close> Paths are below \<^verbatim>\<open>src/crates/\<close>.

  \<^item> \<^verbatim>\<open>Vot_Prelude\<close>, \<^verbatim>\<open>Ordered_Map\<close>, \<^verbatim>\<open>Rust_Text\<close>: what the source uses of Rust and its standard
    library. \<open>Result\<close> is a sum with the error on the left and \<open>?\<close> is \<open>and_then\<close>; an operation
    that could panic returns an option; \<open>u64\<close> and \<open>usize\<close> (64 bits) are naturals with the checked,
    saturating and wrapping operations written out; a \<open>BTreeMap\<close> is a sorted association list; a
    \<open>str\<close> is a list of scalar values with its UTF-8 encoding. The prelude also holds the contracts
    shared by components: \<open>machine\<close>, \<open>monotone_machine\<close> and \<open>replying_machine\<close> (a state,
    its calls and its invariant), \<open>prefix_codec\<close> and \<open>canonical_codec\<close>.
  \<^item> \<^verbatim>\<open>Commit_Model\<close> (\<^verbatim>\<open>vot-commit-model\<close>): the assurance state machine. Publication is earned, the
    observations only grow, and crash and recovery lose nothing.
  \<^item> \<^verbatim>\<open>Coverage\<close> (\<^verbatim>\<open>vot-coverage\<close>): the map of accepted ranges. The abstraction is the set of covered
    and of reserved offsets; every call computes its set-level meaning and the byte count is exact.
  \<^item> \<^verbatim>\<open>Cbor\<close> (\<^verbatim>\<open>vot-cbor\<close>): deterministic CBOR. The contract \<open>reader_codec\<close> says that a read accepts
    exactly the encodings of valid values; each item type is an interpretation.
  \<^item> \<^verbatim>\<open>Frame_Codec\<close> (\<^verbatim>\<open>vot-codec\<close>, \<^verbatim>\<open>lib.rs\<close> and the generated registries): varints, the frame
    envelope, batches, SETTINGS and HELLO, with their round trips and the stability of a verdict
    under more input.
  \<^item> \<^verbatim>\<open>Unit_Ranges\<close>, \<^verbatim>\<open>Resume_Tracker\<close> (\<^verbatim>\<open>vot-resume-core\<close>): run-length sets that implement sets, and
    the resume accounting over them with the exact retransmission cost of a crash.
  \<^item> \<^verbatim>\<open>Merkle_Log\<close>, \<^verbatim>\<open>Signed_Note\<close> (\<^verbatim>\<open>vot-log\<close>): tree heads, inclusion and consistency proofs with
    completeness and soundness up to an explicit hash collision; the checkpoint note format and the
    witness policy.
  \<^item> \<^verbatim>\<open>Crc32c\<close>, \<^verbatim>\<open>Journal\<close> (\<^verbatim>\<open>vot-journal\<close>): the checksum and its combination; the record format,
    replay, and the writer with poisoning, repair and compaction over a file whose unsynced bytes
    a power loss may lose, under a name whose unsynced renames it may undo. What was reported
    durable while the directory was in sync is never lost; \<open>acknowledgement_lost\<close> shows why that
    condition is needed.
  \<^item> \<^verbatim>\<open>Gf256\<close>, \<^verbatim>\<open>Fec_Code\<close>, \<^verbatim>\<open>Fec_Plan\<close>, \<^verbatim>\<open>Fec_Sender\<close>, \<^verbatim>\<open>Fec_Receiver\<close>, \<^verbatim>\<open>Fec_Delivery\<close>
    (\<^verbatim>\<open>vot-fec\<close>): the field, the Cauchy code, epochs and generations, sender and receiver, and the
    composition: whatever the network loses, repeats or reorders, the receiver never panics and
    what it delivers is the object.
  \<^item> \<^verbatim>\<open>Payload_Codec\<close>, \<^verbatim>\<open>Frame_Payload\<close>, \<^verbatim>\<open>Session_Frames\<close>, \<^verbatim>\<open>Object_Frames\<close>, \<^verbatim>\<open>Transfer_Frames\<close>,
    \<^verbatim>\<open>Fec_Frames\<close>, \<^verbatim>\<open>Typed_Frames\<close> (\<^verbatim>\<open>vot-codec\<close>, \<^verbatim>\<open>frames\<close>): every frame payload, written and read field
    by field as the source does. \<open>Payload_Codec\<close> holds the algebra: a reader parses a value exactly
    from its item, and \<open>parse_rules\<close> compose such facts along the text of a decoder, so that each
    payload decodes exactly from its one encoding. \<open>Typed_Frames\<close> is the dispatch over the envelope
    and the path that frames DATA in place, and shows which seals a frame can carry.
  \<^item> \<^verbatim>\<open>Receipt\<close>, \<^verbatim>\<open>Receipt_Chain\<close> (\<^verbatim>\<open>vot-receipt\<close>): receipts, their canonical bytes, authentication,
    chains and witness statements. The digest of a chain's head commits to the whole chain, and a
    verified signature stands for one receipt and nothing else.
  \<^item> \<^verbatim>\<open>Manifest_Path\<close>, \<^verbatim>\<open>Manifest_Page\<close>, \<^verbatim>\<open>Manifest_Ingest\<close> (\<^verbatim>\<open>vot-manifest\<close>): path rules and keys, pages
    and seals with their planned lengths and canonical encoding, the page-by-page ingest and the
    path index. No two accepted paths collide, and a seal commits to the pages.
  \<^item> \<^verbatim>\<open>Transport_Api\<close> (\<^verbatim>\<open>vot-transport-api\<close>): the contract of a backend, which is the parameter \<open>adapter\<close>,
    its limits and batches, and the ledger of permits: every reserved byte has one owner.
  \<^item> \<^verbatim>\<open>Negotiation\<close> (\<^verbatim>\<open>vot-session\<close>, \<^verbatim>\<open>negotiation.rs\<close>, \<^verbatim>\<open>authentication.rs\<close>, \<^verbatim>\<open>error.rs\<close>): the handshake and
    the authentication exchange. Two endpoints are composed frame by frame: the handshake completes
    with one set of extensions on both sides, an attempt reaches its answer, and under any sequence
    of calls a server that asks for a capability is authenticated by its policy alone.

  \<^bold>\<open>Bounds and fuel.\<close> Loops of the source that count are structural recursion; the loops over an
  offset have termination proofs by the distance to the end of the input. The three climbing loops
  of \<open>verify_consistency\<close> carry the fuel 64, the width of a \<open>usize\<close>: each iteration halves a number
  below \<open>2 ^ 32\<close>, and the completeness theorems show that the fuel is never what stops them.

  \<^bold>\<open>Parameters.\<close> SHA-256, BLAKE3, Ed25519, HMAC, base64 and Unicode normalisation are not part of the
  repository. They are arguments, and a theorem that needs more than their type names what it needs
  (the length of a digest, that decoding inverts encoding, that a signature verifies, that
  normalising and lower-casing introduce no separator).

  \<^bold>\<open>Not modelled.\<close> The transports and their third-party QUIC stacks, file and system calls, the
  command line and the SDK front ends, and the floating-point estimators of the scheduler: their
  behaviour is that of code outside the repository or has no contract the logic can state.
\<close>

end
